(* ===== verification/Lion_Prelude.thy ===== *)
theory Lion_Prelude
  imports Main "HOL-Library.Word" "HOL-Library.Multiset"
begin

text \<open>
  Shared vocabulary of the development: the machine-integer types of the kernel, the
  operations of Rust's \<open>core\<close> library on them that the sources call (checked, saturating
  and wrapping arithmetic, little-endian conversion, slice copies), the contract of
  \<open>sort_unstable_by\<close> as a locale, and the generic list and word lemmas the component
  theories rest on.  The two collections \<open>word_nat\<close> (reading word operations as
  operations on natural numbers) and \<open>slice_simps\<close> (lengths and elements of slice
  copies) are what the component proofs add to the simplifier.
\<close>

unbundle bit_operations_syntax

named_theorems word_nat \<open>word operations read as operations on natural numbers\<close>
named_theorems slice_simps \<open>lengths and elements of slice copies\<close>

section \<open>Machine integers\<close>

type_synonym u8 = "8 word"
type_synonym u16 = "16 word"
type_synonym u32 = "32 word"
type_synonym u64 = "64 word"
type_synonym bytes = "u8 list"

text \<open>
  A computation of the source that ends in a panic (an index out of range, an
  \<open>expect\<close> on an error) has the value \<open>Panics\<close>.
\<close>

datatype 'a outcome = Returns 'a | Panics

text \<open>A \<open>for\<close> loop over a body that may panic.\<close>

fun for_each :: "('a \<Rightarrow> 's \<Rightarrow> 's outcome) \<Rightarrow> 'a list \<Rightarrow> 's \<Rightarrow> 's outcome" where
  "for_each f [] s = Returns s"
| "for_each f (x # xs) s = (case f x s of Panics \<Rightarrow> Panics | Returns s \<Rightarrow> for_each f xs s)"

lemma for_each_append:
  "for_each f (xs @ ys) s = (case for_each f xs s of Panics \<Rightarrow> Panics | Returns s \<Rightarrow> for_each f ys s)"
  by (induction xs arbitrary: s) (auto split: outcome.splits)

definition checked_add :: "'w::len word \<Rightarrow> 'w word \<Rightarrow> 'w word option" where
  "checked_add a b = (if unat a + unat b < 2 ^ LENGTH('w) then Some (a + b) else None)"

definition checked_mul :: "'w::len word \<Rightarrow> 'w word \<Rightarrow> 'w word option" where
  "checked_mul a b = (if unat a * unat b < 2 ^ LENGTH('w) then Some (a * b) else None)"

definition saturating_add :: "'w::len word \<Rightarrow> 'w word \<Rightarrow> 'w word" where
  "saturating_add a b = (if unat a + unat b < 2 ^ LENGTH('w) then a + b else - 1)"

definition saturating_sub :: "'w::len word \<Rightarrow> 'w word \<Rightarrow> 'w word" where
  "saturating_sub a b = (if b \<le> a then a - b else 0)"

definition saturating_mul :: "'w::len word \<Rightarrow> 'w word \<Rightarrow> 'w word" where
  "saturating_mul a b = (if unat a * unat b < 2 ^ LENGTH('w) then a * b else - 1)"

lemma unat_bound: "unat (w :: 'w::len word) < 2 ^ LENGTH('w)"
  by (rule unsigned_less)

lemma checked_add_Some [word_nat]:
  "checked_add a b = Some c \<longleftrightarrow> c = a + b \<and> unat c = unat a + unat b"
proof -
  have "unat a + unat b < 2 ^ LENGTH('a) \<longleftrightarrow> unat (a + b) = unat a + unat b"
    by (metis unat_add_lem)
  then show ?thesis
    by (auto simp: checked_add_def)
qed

lemma checked_add_None [word_nat]:
  "checked_add (a :: 'w::len word) b = None \<longleftrightarrow> 2 ^ LENGTH('w) \<le> unat a + unat b"
  by (auto simp: checked_add_def)

lemma checked_mul_Some [word_nat]:
  "checked_mul a b = Some c \<longleftrightarrow> c = a * b \<and> unat c = unat a * unat b"
proof -
  have "unat a * unat b < 2 ^ LENGTH('a) \<longleftrightarrow> unat (a * b) = unat a * unat b"
    by (metis unat_mult_lem)
  then show ?thesis
    by (auto simp: checked_mul_def)
qed

lemma checked_mul_None [word_nat]:
  "checked_mul (a :: 'w::len word) b = None \<longleftrightarrow> 2 ^ LENGTH('w) \<le> unat a * unat b"
  by (auto simp: checked_mul_def)

lemma unat_saturating_add [word_nat]:
  "unat (saturating_add (a :: 'w::len word) b) = min (unat a + unat b) (2 ^ LENGTH('w) - 1)"
proof (cases "unat a + unat b < 2 ^ LENGTH('w)")
  case True
  then show ?thesis
    by (auto simp: saturating_add_def unat_word_ariths)
next
  case False
  then show ?thesis
    by (auto simp: saturating_add_def unsigned_minus_1_eq_mask mask_eq_exp_minus_1)
qed

lemma unat_saturating_sub [word_nat]: "unat (saturating_sub a b) = unat a - unat b"
  by (auto simp: saturating_sub_def unat_sub word_le_nat_alt)

lemma unat_sub_le [word_nat]: "b \<le> a \<Longrightarrow> unat (a - b) = unat a - unat b"
  by (rule unat_sub)

text \<open>
  Masks and shifts by constants are remainders and quotients; the sources write page
  indices, alignments and byte extractions with them.
\<close>

lemma unat_and_mask [word_nat]: "unat (w AND mask n) = unat w mod 2 ^ n"
  by (simp only: unsigned_take_bit_eq flip: take_bit_eq_mask) (simp add: take_bit_eq_mod)

lemma unat_drop_bit [word_nat]: "unat (drop_bit n w) = unat w div 2 ^ n"
  by (simp only: unat_drop_bit_eq) (simp add: drop_bit_eq_div)

lemma unat_ucast_mod [word_nat]:
  "unat (ucast (w :: 'a::len word) :: 'b::len word) = unat w mod 2 ^ LENGTH('b)"
  by (simp add: unsigned_ucast_eq take_bit_eq_mod)

lemma unat_ucast_up:
  assumes "LENGTH('a) \<le> LENGTH('b)"
  shows "unat (ucast (w :: 'a::len word) :: 'b::len word) = unat w"
proof -
  have "unat w < 2 ^ LENGTH('a)"
    by (rule unsigned_less)
  also have "\<dots> \<le> 2 ^ LENGTH('b)"
    using assms by simp
  finally show ?thesis
    by (simp add: unat_ucast_mod)
qed

lemma unat_add_small [word_nat]:
  "unat a + unat b < 2 ^ LENGTH('w) \<Longrightarrow> unat (a + b :: 'w::len word) = unat a + unat b"
  by (metis unat_add_lem)

lemma unat_mult_small [word_nat]:
  "unat a * unat b < 2 ^ LENGTH('w) \<Longrightarrow> unat (a * b :: 'w::len word) = unat a * unat b"
  by (metis unat_mult_lem)

lemma unat_of_nat_small [word_nat]:
  "n < 2 ^ LENGTH('w) \<Longrightarrow> unat (word_of_nat n :: 'w::len word) = n"
  by (simp add: unsigned_of_nat take_bit_eq_mod)

text \<open>
  The simplifier reads the bits of a numeral word off the corresponding integer; these are
  the single-bit flags the sources write as \<open>1 << k\<close>.
\<close>

lemma bit_flags:
  "bit (2 :: int) n \<longleftrightarrow> n = 1" "bit (4 :: int) n \<longleftrightarrow> n = 2" "bit (8 :: int) n \<longleftrightarrow> n = 3"
  "bit (16 :: int) n \<longleftrightarrow> n = 4" "bit (32 :: int) n \<longleftrightarrow> n = 5" "bit (64 :: int) n \<longleftrightarrow> n = 6"
  "bit (128 :: int) n \<longleftrightarrow> n = 7" "bit (0x8000000000000000 :: int) n \<longleftrightarrow> n = 63"
  using bit_exp_iff [where ?'a = int, of 1 n] bit_exp_iff [where ?'a = int, of 2 n]
    bit_exp_iff [where ?'a = int, of 3 n] bit_exp_iff [where ?'a = int, of 4 n]
    bit_exp_iff [where ?'a = int, of 5 n] bit_exp_iff [where ?'a = int, of 6 n]
    bit_exp_iff [where ?'a = int, of 7 n] bit_exp_iff [where ?'a = int, of 63 n]
  by auto

section \<open>Little-endian byte sequences\<close>

text \<open>
  The value of a byte sequence whose first byte is the least significant one, and its
  inverse, the first \<open>n\<close> base-256 digits of a number.  \<open>from_le_bytes\<close> and
  \<open>to_le_bytes\<close> of Rust's unsigned integers are these two at the integer's width.
\<close>

fun le_nat :: "bytes \<Rightarrow> nat" where
  "le_nat [] = 0"
| "le_nat (b # bs) = unat b + 256 * le_nat bs"

fun le_digits :: "nat \<Rightarrow> nat \<Rightarrow> bytes" where
  "le_digits 0 v = []"
| "le_digits (Suc n) v = word_of_nat v # le_digits n (v div 256)"

definition le_bytes :: "nat \<Rightarrow> bytes \<Rightarrow> nat \<Rightarrow> nat" where
  "le_bytes n b off = le_nat (take n (drop off b))"

definition le16 :: "bytes \<Rightarrow> nat \<Rightarrow> u16" where
  "le16 b off = word_of_nat (le_bytes 2 b off)"

definition le32 :: "bytes \<Rightarrow> nat \<Rightarrow> u32" where
  "le32 b off = word_of_nat (le_bytes 4 b off)"

definition le64 :: "bytes \<Rightarrow> nat \<Rightarrow> u64" where
  "le64 b off = word_of_nat (le_bytes 8 b off)"

definition to_le16 :: "u16 \<Rightarrow> bytes" where
  "to_le16 w = le_digits 2 (unat w)"

definition to_le32 :: "u32 \<Rightarrow> bytes" where
  "to_le32 w = le_digits 4 (unat w)"

definition to_le64 :: "u64 \<Rightarrow> bytes" where
  "to_le64 w = le_digits 8 (unat w)"

lemma length_le_digits [simp]: "length (le_digits n v) = n"
  by (induction n arbitrary: v) auto

lemma length_to_le [simp]:
  "length (to_le16 a) = 2" "length (to_le32 b) = 4" "length (to_le64 c) = 8"
  by (simp_all add: to_le16_def to_le32_def to_le64_def)

lemma le_nat_bound: "le_nat bs < 256 ^ length bs"
proof (induction bs)
  case (Cons b bs)
  have "unat b < 256"
    using unat_bound [of b] by simp
  then have "unat b + 256 * le_nat bs < 256 * Suc (le_nat bs)"
    by simp
  also have "\<dots> \<le> 256 * 256 ^ length bs"
    using Cons.IH by (intro mult_le_mono2) simp
  finally show ?case
    by simp
qed simp

lemma le_nat_le_digits: "le_nat (le_digits n v) = v mod 256 ^ n"
proof (induction n arbitrary: v)
  case (Suc n)
  have "unat (word_of_nat v :: u8) = v mod 256"
    by (simp add: unsigned_of_nat take_bit_eq_mod)
  then show ?case
    using Suc.IH [of "v div 256"] by (simp add: mod_mult2_eq)
qed simp

lemma le_digits_le_nat: "le_digits (length bs) (le_nat bs) = bs"
proof (induction bs)
  case (Cons b bs)
  have b: "unat b < 256"
    using unat_bound [of b] by simp
  have "word_of_nat (unat b + 256 * le_nat bs) = b"
  proof -
    have "word_of_nat (unat b + 256 * le_nat bs) = (word_of_nat (unat b) :: u8)"
      using b by (simp add: word_eq_iff_unsigned [where ?'a = nat] unsigned_of_nat take_bit_eq_mod
          del: of_nat_add of_nat_mult)
    then show ?thesis
      by simp
  qed
  then show ?case
    using Cons.IH b by simp
qed simp

lemma le_nat_append: "le_nat (xs @ ys) = le_nat xs + 256 ^ length xs * le_nat ys"
  by (induction xs) (simp_all add: algebra_simps)

lemma take_le_digits: "take k (le_digits n v) = le_digits (min k n) v"
proof (induction n arbitrary: k v)
  case (Suc n)
  then show ?case
    by (cases k) simp_all
qed simp

lemma le_nat_zeros [simp]: "le_nat (replicate n 0) = 0"
  by (induction n) simp_all

lemma le_digits_numeral:
  "le_digits (numeral k) v = word_of_nat v # le_digits (pred_numeral k) (v div 256)"
  unfolding numeral_eq_Suc [of k] by simp

lemma le16_to_le16 [simp]: "le16 (to_le16 w) 0 = w"
  using unat_bound [of w]
  by (simp add: le16_def to_le16_def le_bytes_def le_nat_le_digits)

lemma le32_to_le32 [simp]: "le32 (to_le32 w) 0 = w"
  using unat_bound [of w]
  by (simp add: le32_def to_le32_def le_bytes_def le_nat_le_digits)

lemma le64_to_le64 [simp]: "le64 (to_le64 w) 0 = w"
  using unat_bound [of w]
  by (simp add: le64_def to_le64_def le_bytes_def le_nat_le_digits)

section \<open>Sorting\<close>

lemma sorted_wrt_move_front:
  assumes "\<And>x y. R x y \<Longrightarrow> R y x"
  shows "sorted_wrt R (ys @ x # zs) \<longleftrightarrow> sorted_wrt R (x # ys @ zs)"
  using assms by (auto simp: sorted_wrt_append)

lemma sorted_wrt_sym_perm:
  assumes sym: "\<And>x y. R x y \<Longrightarrow> R y x" and "mset xs = mset ys"
  shows "sorted_wrt R xs \<longleftrightarrow> sorted_wrt R ys"
  using assms(2)
proof (induction xs arbitrary: ys)
  case (Cons x xs)
  then have "x \<in> set ys"
    by (metis list.set_intros(1) set_mset_mset)
  then obtain as bs where ys: "ys = as @ x # bs"
    by (meson split_list)
  with Cons.prems have "mset xs = mset (as @ bs)"
    by simp
  with Cons.IH have "sorted_wrt R xs \<longleftrightarrow> sorted_wrt R (as @ bs)" and "set xs = set (as @ bs)"
    by (blast, metis set_mset_mset)
  then have "sorted_wrt R (x # xs) \<longleftrightarrow> sorted_wrt R (x # as @ bs)"
    by simp
  then show ?case
    using sorted_wrt_move_front [of R as x bs] sym unfolding ys by blast
qed simp

text \<open>
  \<open>sort_unstable_by\<close> with a comparison of keys promises a sorted permutation of the
  slice and nothing about elements with equal keys.  The definitions that call it take
  the sorting function as an argument; this locale is its contract.
\<close>

locale unstable_sort =
  fixes key :: "'a \<Rightarrow> 'k::linorder"
    and srt :: "'a list \<Rightarrow> 'a list"
  assumes srt_mset: "mset (srt xs) = mset xs"
    and srt_sorted: "sorted (map key (srt xs))"
begin

lemma srt_set: "set (srt xs) = set xs"
  using srt_mset by (metis set_mset_mset)

lemma srt_length: "length (srt xs) = length xs"
  using srt_mset by (metis size_mset)

lemma srt_nth_mono:
  "i \<le> j \<Longrightarrow> j < length xs \<Longrightarrow> key (srt xs ! i) \<le> key (srt xs ! j)"
  using srt_sorted [of xs] by (auto simp: sorted_iff_nth_mono srt_length)

lemma srt_filter_mset: "mset (filter P (srt xs)) = mset (filter P xs)"
  by (simp add: srt_mset)

end

interpretation stable: unstable_sort key "sort_key key"
  by unfold_locales (simp_all add: sorted_sort_key)

end
