(* ===== verification/Memory_Map.thy ===== *)
theory Memory_Map
  imports Lion_Prelude
begin

text \<open>
  Model of \<open>src/kernel/src/memory.rs\<close>: validation of the boot loader's physical memory
  map.  \<open>validate_regions_bytes\<close> and \<open>validate_regions\<close> write the validated regions into
  the caller's buffer; a result is therefore the pair of the returned value and the
  buffer afterwards, on the error paths too.
\<close>

section \<open>Regions and errors\<close>

datatype RegionKind = Usable | Reserved | NonUsable

record Region =
  region_start :: u64
  region_len :: u64
  region_kind :: RegionKind

definition region_empty :: Region where
  "region_empty = \<lparr>region_start = 0, region_len = 0, region_kind = Usable\<rparr>"

definition region_end :: "Region \<Rightarrow> u64" where
  "region_end r = region_start r + region_len r"

datatype MapError = TooManyRegions | ZeroLength | EndOverflow | Overlap

fun map_error_code :: "MapError \<Rightarrow> u64" where
  "map_error_code TooManyRegions = 1"
| "map_error_code ZeroLength = 2"
| "map_error_code EndOverflow = 3"
| "map_error_code Overlap = 4"

definition MAX_REGIONS :: nat where
  "MAX_REGIONS = 64"

definition FRAME_SIZE :: u64 where
  "FRAME_SIZE = 4096"

type_synonym raw_region = "u64 \<times> u64 \<times> RegionKind"

section \<open>Validation\<close>

definition region_from_frames :: "u64 \<Rightarrow> u64 \<Rightarrow> RegionKind \<Rightarrow> MapError + Region" where
  "region_from_frames start_frame end_frame k =
     (if start_frame \<ge> end_frame then Inl ZeroLength
      else case checked_mul start_frame FRAME_SIZE of
        None \<Rightarrow> Inl EndOverflow
      | Some s \<Rightarrow>
          (case checked_mul end_frame FRAME_SIZE of
             None \<Rightarrow> Inl EndOverflow
           | Some e \<Rightarrow> Inr \<lparr>region_start = s, region_len = e - s, region_kind = k\<rparr>))"

definition region_from_bytes :: "u64 \<Rightarrow> u64 \<Rightarrow> RegionKind \<Rightarrow> MapError + Region" where
  "region_from_bytes s e k =
     (if s \<ge> e then Inl ZeroLength
      else Inr \<lparr>region_start = s, region_len = e - s, region_kind = k\<rparr>)"

fun fill_regions ::
  "(u64 \<Rightarrow> u64 \<Rightarrow> RegionKind \<Rightarrow> MapError + Region) \<Rightarrow> raw_region list \<Rightarrow> nat \<Rightarrow> Region list
     \<Rightarrow> (MapError + unit) \<times> Region list" where
  "fill_regions conv [] i out = (Inr (), out)"
| "fill_regions conv ((s, e, k) # rest) i out =
     (case conv s e k of
        Inl err \<Rightarrow> (Inl err, out)
      | Inr r \<Rightarrow> fill_regions conv rest (Suc i) (out[i := r]))"

fun usable_overlap :: "Region list \<Rightarrow> bool" where
  "usable_overlap [] = False"
| "usable_overlap (r # rest) =
     (region_kind r = Usable
        \<and> list_ex (\<lambda>q. region_kind q = Usable \<and> region_start q < region_end r) rest
      \<or> usable_overlap rest)"

definition validate_with ::
  "(u64 \<Rightarrow> u64 \<Rightarrow> RegionKind \<Rightarrow> MapError + Region) \<Rightarrow> (Region list \<Rightarrow> Region list)
     \<Rightarrow> raw_region list \<Rightarrow> Region list \<Rightarrow> (MapError + nat) \<times> Region list" where
  "validate_with conv srt input out =
     (if length input > MAX_REGIONS \<or> length out < length input then (Inl TooManyRegions, out)
      else case fill_regions conv input 0 out of
        (Inl err, filled) \<Rightarrow> (Inl err, filled)
      | (Inr _, filled) \<Rightarrow>
          (let count = length input;
               regions = srt (take count filled);
               out' = regions @ drop count filled
           in if usable_overlap regions then (Inl Overlap, out') else (Inr count, out')))"

definition validate_regions ::
  "(Region list \<Rightarrow> Region list) \<Rightarrow> raw_region list \<Rightarrow> Region list
     \<Rightarrow> (MapError + nat) \<times> Region list" where
  "validate_regions = validate_with region_from_frames"

definition validate_regions_bytes ::
  "(Region list \<Rightarrow> Region list) \<Rightarrow> raw_region list \<Rightarrow> Region list
     \<Rightarrow> (MapError + nat) \<times> Region list" where
  "validate_regions_bytes = validate_with region_from_bytes"

section \<open>What a validated map promises\<close>

text \<open>
  The bytes of a region, as natural numbers; a region is well formed when it is not empty
  and its end does not wrap, and two regions conflict when both are usable and share a
  byte.
\<close>

definition region_bytes :: "Region \<Rightarrow> nat set" where
  "region_bytes r = {unat (region_start r) ..< unat (region_start r) + unat (region_len r)}"

definition region_ok :: "Region \<Rightarrow> bool" where
  "region_ok r \<longleftrightarrow> 0 < unat (region_len r) \<and> unat (region_start r) + unat (region_len r) < 2 ^ 64"

definition usable_disjoint :: "Region \<Rightarrow> Region \<Rightarrow> bool" where
  "usable_disjoint a b \<longleftrightarrow>
     (region_kind a = Usable \<and> region_kind b = Usable \<longrightarrow> region_bytes a \<inter> region_bytes b = {})"

definition valid_map :: "Region list \<Rightarrow> bool" where
  "valid_map rs \<longleftrightarrow> (\<forall>r\<in>set rs. region_ok r) \<and> sorted_wrt usable_disjoint rs"

abbreviation raw_bytes :: "raw_region \<Rightarrow> Region" where
  "raw_bytes t \<equiv> (case t of (s, e, k) \<Rightarrow> \<lparr>region_start = s, region_len = e - s, region_kind = k\<rparr>)"

lemma usable_disjoint_sym: "usable_disjoint a b \<Longrightarrow> usable_disjoint b a"
  by (auto simp: usable_disjoint_def)

lemma unat_region_end: "region_ok r \<Longrightarrow> unat (region_end r) = unat (region_start r) + unat (region_len r)"
  by (simp add: region_ok_def region_end_def word_nat)

lemma usable_disjoint_ordered:
  assumes "region_ok a" "region_ok b" "region_start a \<le> region_start b"
  shows "usable_disjoint a b \<longleftrightarrow>
    \<not> (region_kind a = Usable \<and> region_kind b = Usable \<and> region_start b < region_end a)"
  using assms
  by (auto simp: usable_disjoint_def region_bytes_def word_less_nat_alt word_le_nat_alt
      unat_region_end region_ok_def)

lemma usable_overlap_iff:
  assumes "\<forall>r\<in>set rs. region_ok r" "sorted (map region_start rs)"
  shows "usable_overlap rs \<longleftrightarrow> \<not> sorted_wrt usable_disjoint rs"
  using assms
  by (induction rs) (auto simp: list_ex_iff usable_disjoint_ordered)

text \<open>The fill loop writes the converted prefix of the input and nothing else.\<close>

lemma fill_regions_ok:
  assumes "\<And>s e k. (s, e, k) \<in> set ts \<Longrightarrow> \<exists>r. conv s e k = Inr r" "i + length ts \<le> length out"
  shows "fill_regions conv ts i out
    = (Inr (), take i out @ map (\<lambda>(s, e, k). projr (conv s e k)) ts @ drop (i + length ts) out)"
  using assms
proof (induction ts arbitrary: i out)
  case (Cons t ts)
  obtain s e k where t: "t = (s, e, k)"
    by (cases t)
  with Cons.prems(1) obtain r where r: "conv s e k = Inr r"
    by force
  have "fill_regions conv ts (Suc i) (out[i := r])
      = (Inr (), take (Suc i) (out[i := r]) @ map (\<lambda>(s, e, k). projr (conv s e k)) ts
          @ drop (Suc i + length ts) (out[i := r]))"
    using Cons.prems by (intro Cons.IH) auto
  with Cons.prems(2) show ?case
    by (simp add: t r take_Suc_conv_app_nth)
qed simp

text \<open>The first entry the conversion refuses decides the error.\<close>

lemma fill_regions_error:
  assumes "\<exists>(s, e, k)\<in>set ts. conv s e k = Inl err"
    and "\<And>s e k err'. (s, e, k) \<in> set ts \<Longrightarrow> conv s e k = Inl err' \<Longrightarrow> err' = err"
  shows "fst (fill_regions conv ts i out) = Inl err"
  using assms
proof (induction ts arbitrary: i out)
  case (Cons t ts)
  obtain s e k where t: "t = (s, e, k)"
    by (cases t)
  show ?case
  proof (cases "conv s e k")
    case (Inl err')
    then show ?thesis
      using Cons.prems(2) [of s e k err'] by (simp add: t)
  next
    case (Inr r)
    then have "fst (fill_regions conv ts (Suc i) (out[i := r])) = Inl err"
      using Cons.prems by (intro Cons.IH) (auto simp: t)
    then show ?thesis
      by (simp add: t Inr)
  qed
qed simp

lemma region_from_bytes_simps:
  "s < e \<Longrightarrow> region_from_bytes s e k = Inr (raw_bytes (s, e, k))"
  "\<not> s < e \<Longrightarrow> region_from_bytes s e k = Inl ZeroLength"
  by (auto simp: region_from_bytes_def)

lemma raw_bytes_ok: "s < e \<Longrightarrow> region_ok (raw_bytes (s, e, k))"
  using unat_bound [of e]
  by (simp add: region_ok_def word_less_nat_alt word_le_nat_alt unat_sub)

text \<open>
  On a map that passes the entry checks, the buffer is the sorted conversion of the input
  followed by the untouched tail, and the answer is the overlap check.
\<close>

lemma validate_regions_bytes_eq:
  assumes "length input \<le> MAX_REGIONS" "length input \<le> length out"
    and "\<forall>(s, e, k)\<in>set input. s < e"
  shows "validate_regions_bytes srt input out =
    (let regions = srt (map raw_bytes input)
     in (if usable_overlap regions then Inl Overlap else Inr (length input),
         regions @ drop (length input) out))"
proof -
  have conv: "map (\<lambda>(s, e, k). projr (region_from_bytes s e k)) input = map raw_bytes input"
    using assms(3) by (auto simp: region_from_bytes_simps)
  have "fill_regions region_from_bytes input 0 out
      = (Inr (), take 0 out @ map (\<lambda>(s, e, k). projr (region_from_bytes s e k)) input
          @ drop (0 + length input) out)"
    using assms by (intro fill_regions_ok) (auto simp: region_from_bytes_simps)
  with assms(1,2) show ?thesis
    unfolding conv by (simp add: validate_regions_bytes_def validate_with_def Let_def)
qed

lemma validate_regions_bytes_zero:
  assumes "length input \<le> MAX_REGIONS" "length input \<le> length out"
    and "\<not> (\<forall>(s, e, k)\<in>set input. s < e)"
  shows "fst (validate_regions_bytes srt input out) = Inl ZeroLength"
proof -
  have "fst (fill_regions region_from_bytes input 0 out) = Inl ZeroLength"
    using assms(3)
    by (intro fill_regions_error) (force simp: region_from_bytes_def not_less split: if_splits)+
  with assms(1,2) show ?thesis
    by (cases "fill_regions region_from_bytes input 0 out")
      (simp add: validate_regions_bytes_def validate_with_def)
qed

lemma usable_overlap_srt:
  assumes "unstable_sort region_start srt" "\<forall>r\<in>set rs. region_ok r"
  shows "usable_overlap (srt rs) \<longleftrightarrow> \<not> sorted_wrt usable_disjoint rs"
proof -
  have "usable_overlap (srt rs) \<longleftrightarrow> \<not> sorted_wrt usable_disjoint (srt rs)"
    using assms unstable_sort.srt_set [OF assms(1)] unstable_sort.srt_sorted [OF assms(1)]
    by (intro usable_overlap_iff) auto
  also have "sorted_wrt usable_disjoint (srt rs) \<longleftrightarrow> sorted_wrt usable_disjoint rs"
    using usable_disjoint_sym unstable_sort.srt_mset [OF assms(1)] by (rule sorted_wrt_sym_perm)
  finally show ?thesis .
qed

lemma validate_bytes_answer:
  assumes "unstable_sort region_start srt"
  shows "fst (validate_regions_bytes srt input out) =
    (if length input > MAX_REGIONS \<or> length out < length input then Inl TooManyRegions
     else if \<not> (\<forall>(s, e, k)\<in>set input. s < e) then Inl ZeroLength
     else if sorted_wrt usable_disjoint (map raw_bytes input) then Inr (length input)
     else Inl Overlap)"
proof (cases "length input > MAX_REGIONS \<or> length out < length input")
  case True
  then show ?thesis
    by (simp add: validate_regions_bytes_def validate_with_def)
next
  case fits: False
  show ?thesis
  proof (cases "\<forall>(s, e, k)\<in>set input. s < e")
    case True
    then have "\<forall>r\<in>set (map raw_bytes input). region_ok r"
      using raw_bytes_ok by auto
    with fits True show ?thesis
      using usable_overlap_srt [OF assms]
      by (simp add: validate_regions_bytes_eq Let_def)
  next
    case False
    with fits show ?thesis
      by (simp add: validate_regions_bytes_zero)
  qed
qed

lemma validate_bytes_accepts:
  assumes "unstable_sort region_start srt"
    and "validate_regions_bytes srt input out = (Inr n, out')"
  shows "n = length input \<and> length out' = length out
    \<and> mset (take n out') = mset (map raw_bytes input)
    \<and> sorted (map region_start (take n out')) \<and> valid_map (take n out')
    \<and> drop n out' = drop n out"
proof -
  have fst: "fst (validate_regions_bytes srt input out) = Inr n"
    using assms(2) by simp
  then have fits: "length input \<le> MAX_REGIONS" "length input \<le> length out"
    and lt: "\<forall>(s, e, k)\<in>set input. s < e"
    and n: "n = length input"
    and disj: "sorted_wrt usable_disjoint (map raw_bytes input)"
    unfolding validate_bytes_answer [OF assms(1)] by (auto split: if_splits)
  have ok: "\<forall>r\<in>set (map raw_bytes input). region_ok r"
    using lt raw_bytes_ok by auto
  have out': "out' = srt (map raw_bytes input) @ drop n out"
    using assms(2) fits lt n by (simp add: validate_regions_bytes_eq Let_def)
  note srt = unstable_sort.srt_mset [OF assms(1)] unstable_sort.srt_sorted [OF assms(1)]
    unstable_sort.srt_set [OF assms(1)] unstable_sort.srt_length [OF assms(1)]
  have "valid_map (srt (map raw_bytes input))"
    using ok disj sorted_wrt_sym_perm [OF usable_disjoint_sym srt(1)]
    by (simp add: valid_map_def srt)
  then show ?thesis
    using fits n by (simp add: out' srt)
qed

section \<open>Properties\<close>

text \<open>
  The byte-address validator answers exactly as its documentation lists the checks: too
  many regions first, then an empty region, then two usable regions that share a byte, and
  otherwise the number of regions.
\<close>

lemma validate_regions_bytes_result:
  assumes "unstable_sort region_start srt"
  shows "fst (validate_regions_bytes srt input out) =
    (if length input > MAX_REGIONS \<or> length out < length input then Inl TooManyRegions
     else if \<not> (\<forall>(s, e, k)\<in>set input. s < e) then Inl ZeroLength
     else if sorted_wrt usable_disjoint (map raw_bytes input) then Inr (length input)
     else Inl Overlap)"
  using assms by (rule validate_bytes_answer)

lemma validate_regions_bytes_result_witness:
  "fst (validate_regions_bytes (sort_key region_start)
     [(0x3000, 0x5000, Usable), (0x1000, 0x2000, Usable)] [region_empty, region_empty]) = Inr 2
   \<and> fst (validate_regions_bytes (sort_key region_start)
     [(0x1000, 0x5000, Usable), (0x2000, 0x3000, Usable)] [region_empty, region_empty]) = Inl Overlap"
  unfolding validate_regions_bytes_result [OF stable.unstable_sort_axioms]
  by (simp add: usable_disjoint_def region_bytes_def MAX_REGIONS_def)

text \<open>
  C11: when the validator accepts a map, the first \<open>n\<close> entries of the buffer are the input
  regions, all of them, in order of their start address; none is empty or reaches past
  the end of the address space, no byte lies in two usable regions, and the rest of the
  buffer is untouched.
\<close>

theorem validate_regions_bytes_sound:
  assumes "unstable_sort region_start srt"
    and "validate_regions_bytes srt input out = (Inr n, out')"
  shows "n = length input \<and> length out' = length out
    \<and> mset (take n out') = mset (map raw_bytes input)
    \<and> sorted (map region_start (take n out')) \<and> valid_map (take n out')
    \<and> drop n out' = drop n out"
  using assms by (rule validate_bytes_accepts)

theorem validate_regions_bytes_sound_witness:
  "valid_map (take 2 (snd (validate_regions_bytes (sort_key region_start)
     [(0x3000, 0x5000, Usable), (0x1000, 0x2000, Usable)] [region_empty, region_empty])))"
proof -
  let ?v = "validate_regions_bytes (sort_key region_start)
     [(0x3000, 0x5000, Usable), (0x1000, 0x2000, Usable)] [region_empty, region_empty]"
  have "?v = (Inr 2, snd ?v)"
    by code_simp
  then show ?thesis
    using validate_regions_bytes_sound [OF stable.unstable_sort_axioms] by blast
qed

text \<open>
  The frame-number validator is the byte-address validator on the scaled map, whenever
  scaling the frame numbers to byte addresses does not overflow.
\<close>

lemma validate_regions_frames_eq:
  assumes "\<forall>(s, e, k)\<in>set input. unat s * 4096 < 2 ^ 64 \<and> unat e * 4096 < 2 ^ 64"
  shows "validate_regions srt input out
    = validate_regions_bytes srt (map (\<lambda>(s, e, k). (s * FRAME_SIZE, e * FRAME_SIZE, k)) input) out"
proof -
  have conv: "region_from_frames s e k = region_from_bytes (s * FRAME_SIZE) (e * FRAME_SIZE) k"
    if "unat s * 4096 < 2 ^ 64" "unat e * 4096 < 2 ^ 64" for s e k
    using that
    by (simp add: region_from_frames_def region_from_bytes_def FRAME_SIZE_def checked_mul_def
        word_le_nat_alt unat_mult_small)
  have "fill_regions region_from_frames ts i buf = fill_regions region_from_bytes
      (map (\<lambda>(s, e, k). (s * FRAME_SIZE, e * FRAME_SIZE, k)) ts) i buf"
    if "set ts \<subseteq> set input" for ts i buf
    using that
  proof (induction ts arbitrary: i buf)
    case (Cons t ts)
    obtain s e k where "t = (s, e, k)"
      by (cases t)
    with Cons assms show ?case
      by (auto simp: conv split: sum.splits)
  qed simp
  then show ?thesis
    unfolding validate_regions_def validate_regions_bytes_def validate_with_def length_map by simp
qed

lemma validate_regions_frames_eq_witness:
  "validate_regions (sort_key region_start) [(3, 5, Usable), (1, 2, Reserved)] [region_empty, region_empty]
   = validate_regions_bytes (sort_key region_start)
       [(0x3000, 0x5000, Usable), (0x1000, 0x2000, Reserved)] [region_empty, region_empty]"
  using validate_regions_frames_eq
    [of "[(3, 5, Usable), (1, 2, Reserved)]" "sort_key region_start" "[region_empty, region_empty]"]
  by (simp add: FRAME_SIZE_def)

end
