(* ===== verification/Frames.thy ===== *)
theory Frames
  imports Memory_Map
begin

text \<open>
  Model of \<open>src/kernel/src/frames.rs\<close>: the physical frame allocator, a table of at most
  64 runs of free frames.  \<open>FrameAllocator\<close> keeps the whole 64-entry array; the local
  arrays \<open>collected\<close> and \<open>merged\<close> of \<open>init\<close> are modelled by their live prefixes, and the
  merge loop of \<open>deallocate\<close> works in place, as in the code.  The abstraction of an
  allocator is the list of its free frame numbers.
\<close>

section \<open>Model\<close>

definition MAX_RUNS :: nat where
  "MAX_RUNS = 64"

record FrameRun =
  run_start :: u64
  run_len :: u64

datatype FrameError = TooManyRuns

record FrameAllocator =
  fa_runs :: "FrameRun list"
  run_count :: nat
  total :: u64
  allocated :: u64

definition frames_empty :: FrameAllocator where
  "frames_empty = \<lparr>fa_runs = replicate MAX_RUNS \<lparr>run_start = 0, run_len = 0\<rparr>,
     run_count = 0, total = 0, allocated = 0\<rparr>"

fun collect_runs :: "(u64 \<times> u64) list \<Rightarrow> u64 \<Rightarrow> FrameRun list \<Rightarrow> FrameError + FrameRun list" where
  "collect_runs [] floor collected = Inr collected"
| "collect_runs ((start, fin) # regions) floor collected =
     (if fin \<le> floor then collect_runs regions floor collected
      else let s = max start floor in
        if s \<ge> fin then collect_runs regions floor collected
        else let start_frame = (s + FRAME_SIZE - 1) div FRAME_SIZE;
                 end_frame = fin div FRAME_SIZE in
          if start_frame \<ge> end_frame then collect_runs regions floor collected
          else if length collected \<ge> MAX_RUNS then Inl TooManyRuns
          else collect_runs regions floor
                 (collected @ [\<lparr>run_start = start_frame, run_len = end_frame - start_frame\<rparr>]))"

fun merge_runs :: "FrameRun list \<Rightarrow> FrameRun list \<Rightarrow> FrameError + FrameRun list" where
  "merge_runs [] merged = Inr merged"
| "merge_runs (r # rs) merged =
     (if merged \<noteq> [] \<and> run_start (last merged) + run_len (last merged) = run_start r
      then merge_runs rs (butlast merged @ [(last merged)\<lparr>run_len := run_len (last merged) + run_len r\<rparr>])
      else if length merged \<ge> MAX_RUNS then Inl TooManyRuns
      else merge_runs rs (merged @ [r]))"

definition frames_init ::
  "(FrameRun list \<Rightarrow> FrameRun list) \<Rightarrow> (u64 \<times> u64) list \<Rightarrow> u64 \<Rightarrow> FrameAllocator
     \<Rightarrow> (FrameError + unit) \<times> FrameAllocator" where
  "frames_init srt regions floor fa =
     (case collect_runs regions floor [] of
        Inl e \<Rightarrow> (Inl e, fa)
      | Inr collected \<Rightarrow>
          (case merge_runs (srt collected) [] of
             Inl e \<Rightarrow> (Inl e, fa)
           | Inr merged \<Rightarrow>
               (Inr (), fa\<lparr>fa_runs := merged @ drop (length merged) (fa_runs fa),
                  run_count := length merged,
                  total := sum_list (map run_len merged),
                  allocated := 0\<rparr>)))"

definition total_frames :: "FrameAllocator \<Rightarrow> u64" where
  "total_frames fa = total fa"

definition free_frames :: "FrameAllocator \<Rightarrow> u64" where
  "free_frames fa = sum_list (map run_len (take (run_count fa) (fa_runs fa)))"

definition allocated_frames :: "FrameAllocator \<Rightarrow> u64" where
  "allocated_frames fa = allocated fa"

fun allocate_scan :: "FrameAllocator \<Rightarrow> nat \<Rightarrow> nat \<Rightarrow> u64 option \<times> FrameAllocator" where
  "allocate_scan fa 0 i = (None, fa)"
| "allocate_scan fa (Suc n) i =
     (let r = fa_runs fa ! i in
      if run_len r > 0
      then (Some (run_start r),
            fa\<lparr>fa_runs := (fa_runs fa)[i := \<lparr>run_start = run_start r + 1, run_len = run_len r - 1\<rparr>],
               allocated := allocated fa + 1\<rparr>)
      else allocate_scan fa n (Suc i))"

definition allocate :: "FrameAllocator \<Rightarrow> u64 option \<times> FrameAllocator" where
  "allocate fa = allocate_scan fa (run_count fa) 0"

fun merge_in_place :: "FrameRun list \<Rightarrow> nat \<Rightarrow> nat \<Rightarrow> nat \<Rightarrow> FrameRun list \<times> nat" where
  "merge_in_place a 0 i m = (a, m)"
| "merge_in_place a (Suc n) i m =
     (if m > 0 \<and> run_start (a ! (m - 1)) + run_len (a ! (m - 1)) = run_start (a ! i)
      then merge_in_place
             (a[m - 1 := (a ! (m - 1))\<lparr>run_len := run_len (a ! (m - 1)) + run_len (a ! i)\<rparr>])
             n (Suc i) m
      else merge_in_place (a[m := a ! i]) n (Suc i) (Suc m))"

definition deallocate ::
  "(FrameRun list \<Rightarrow> FrameRun list) \<Rightarrow> u64 \<Rightarrow> FrameAllocator \<Rightarrow> FrameAllocator" where
  "deallocate srt frame fa =
     (if run_count fa \<ge> MAX_RUNS then fa
      else let pushed = (fa_runs fa)[run_count fa := \<lparr>run_start = frame, run_len = 1\<rparr>];
               k = Suc (run_count fa);
               sorted_runs = srt (take k pushed) @ drop k pushed;
               (merged, m) = merge_in_place sorted_runs k 0 0
           in fa\<lparr>fa_runs := merged, run_count := m,
                 allocated := saturating_sub (allocated fa) 1\<rparr>)"

section \<open>The free frames of an allocator\<close>

definition run_frames :: "FrameRun \<Rightarrow> nat list" where
  "run_frames r = [unat (run_start r) ..< unat (run_start r) + unat (run_len r)]"

definition frames_of :: "FrameRun list \<Rightarrow> nat list" where
  "frames_of rs = concat (map run_frames rs)"

definition free_list :: "FrameAllocator \<Rightarrow> nat list" where
  "free_list fa = frames_of (take (run_count fa) (fa_runs fa))"

definition run_ok :: "FrameRun \<Rightarrow> bool" where
  "run_ok r \<longleftrightarrow> unat (run_start r) + unat (run_len r) \<le> 2 ^ 52"

text \<open>
  The invariant: a 64-entry table whose live runs are ranges of 52-bit frame numbers that
  share no frame, and counters that agree with the free list.
\<close>

definition frames_wf :: "FrameAllocator \<Rightarrow> bool" where
  "frames_wf fa \<longleftrightarrow> length (fa_runs fa) = MAX_RUNS \<and> run_count fa \<le> MAX_RUNS
     \<and> (\<forall>r\<in>set (take (run_count fa) (fa_runs fa)). run_ok r)
     \<and> distinct (free_list fa)
     \<and> unat (total fa) = length (free_list fa) + unat (allocated fa)"

lemma frames_of_simps [simp]:
  "frames_of [] = []" "frames_of (r # rs) = run_frames r @ frames_of rs"
  "frames_of (rs @ qs) = frames_of rs @ frames_of qs"
  by (simp_all add: frames_of_def)

lemma length_run_frames [simp]: "length (run_frames r) = unat (run_len r)"
  by (simp add: run_frames_def)

lemma frames_of_bound: "\<forall>r\<in>set rs. run_ok r \<Longrightarrow> f \<in> set (frames_of rs) \<Longrightarrow> f < 2 ^ 52"
  by (induction rs) (auto simp: run_frames_def run_ok_def)

lemma frames_of_perm: "mset rs = mset qs \<Longrightarrow> mset (frames_of rs) = mset (frames_of qs)"
proof -
  have flat: "mset (frames_of rs) = (\<Sum>r\<in>#mset rs. mset (run_frames r))" for rs
    by (induction rs) auto
  show "mset rs = mset qs \<Longrightarrow> ?thesis"
    by (simp add: flat)
qed

text \<open>Distinct 52-bit frame numbers are at most \<open>2 ^ 52\<close> many, so the sums do not wrap.\<close>

lemma length_frames_of_bound:
  assumes "\<forall>r\<in>set rs. run_ok r" "distinct (frames_of rs)"
  shows "length (frames_of rs) \<le> 2 ^ 52"
proof -
  have "set (frames_of rs) \<subseteq> {..<2 ^ 52}"
    using frames_of_bound [OF assms(1)] by auto
  then have "card (set (frames_of rs)) \<le> card {..<(2::nat) ^ 52}"
    by (intro card_mono) auto
  then show ?thesis
    using assms(2) by (simp add: distinct_card)
qed

lemma unat_sum_run_len:
  assumes "\<forall>r\<in>set rs. run_ok r" "distinct (frames_of rs)"
  shows "unat (sum_list (map run_len rs)) = length (frames_of rs)"
  using assms
proof (induction rs)
  case (Cons r rs)
  then have "unat (sum_list (map run_len rs)) = length (frames_of rs)"
    by simp
  with length_frames_of_bound [OF Cons.prems] show ?case
    by (simp add: unat_add_small)
qed simp

section \<open>Merging\<close>

text \<open>
  Both merge loops append a run to the merged prefix, joining it to the last run when it
  starts where that one ends.
\<close>

definition push_run :: "FrameRun list \<Rightarrow> FrameRun \<Rightarrow> FrameRun list" where
  "push_run acc r =
     (if acc \<noteq> [] \<and> run_start (last acc) + run_len (last acc) = run_start r
      then butlast acc @ [(last acc)\<lparr>run_len := run_len (last acc) + run_len r\<rparr>]
      else acc @ [r])"

lemma length_push_run: "length (push_run acc r) \<le> Suc (length acc)"
  by (auto simp: push_run_def)

lemma push_run_frames:
  assumes "\<forall>r\<in>set acc. run_ok r" "run_ok r"
  shows "(\<forall>r\<in>set (push_run acc r). run_ok r)
    \<and> frames_of (push_run acc r) = frames_of acc @ run_frames r"
proof (cases "acc \<noteq> [] \<and> run_start (last acc) + run_len (last acc) = run_start r")
  case True
  let ?l = "last acc"
  have acc: "acc = butlast acc @ [?l]"
    using True by simp
  then have l: "run_ok ?l"
    using assms(1) by (metis in_set_conv_decomp)
  have "run_start r = run_start ?l + run_len ?l"
    using True by simp
  then have start: "unat (run_start r) = unat (run_start ?l) + unat (run_len ?l)"
    using l by (simp add: run_ok_def unat_add_small)
  with assms(2) have len: "unat (run_len ?l + run_len r) = unat (run_len ?l) + unat (run_len r)"
    by (simp add: run_ok_def unat_add_small)
  have join: "run_frames (?l\<lparr>run_len := run_len ?l + run_len r\<rparr>) = run_frames ?l @ run_frames r"
    using upt_add_eq_append [of "unat (run_start ?l)" "unat (run_start ?l) + unat (run_len ?l)"
        "unat (run_len r)"]
    by (simp add: run_frames_def len start add.assoc)
  have ok: "run_ok (?l\<lparr>run_len := run_len ?l + run_len r\<rparr>)"
    using assms(2) start len by (simp add: run_ok_def)
  have "frames_of acc = frames_of (butlast acc) @ run_frames ?l"
    by (subst acc) (simp only: frames_of_simps append_Nil2)
  moreover have "\<forall>r\<in>set (butlast acc). run_ok r"
    using assms(1) by (auto dest: in_set_butlastD)
  ultimately show ?thesis
    using True ok by (simp add: push_run_def join)
qed (use assms in \<open>auto simp: push_run_def\<close>)

lemma foldl_push_run_frames:
  assumes "\<forall>r\<in>set acc. run_ok r" "\<forall>r\<in>set rs. run_ok r"
  shows "(\<forall>r\<in>set (foldl push_run acc rs). run_ok r)
    \<and> frames_of (foldl push_run acc rs) = frames_of (acc @ rs)"
  using assms
proof (induction rs arbitrary: acc)
  case (Cons r rs)
  then have "(\<forall>q\<in>set (push_run acc r). run_ok q)
      \<and> frames_of (push_run acc r) = frames_of acc @ run_frames r"
    by (intro push_run_frames) auto
  with Cons.IH [of "push_run acc r"] Cons.prems show ?case
    by simp
qed simp

lemma length_foldl_push_run: "length (foldl push_run acc rs) \<le> length acc + length rs"
proof (induction rs arbitrary: acc)
  case (Cons r rs)
  show ?case
    using Cons.IH [of "push_run acc r"] length_push_run [of acc r] by simp
qed simp

lemma merge_runs_eq:
  "length merged + length rs \<le> MAX_RUNS \<Longrightarrow> merge_runs rs merged = Inr (foldl push_run merged rs)"
  by (induction rs merged rule: merge_runs.induct) (auto simp: push_run_def Suc_le_eq)

text \<open>
  The in-place loop computes the same runs in the prefix of the array: it only writes
  behind the element it reads.
\<close>

lemma push_run_take:
  assumes "0 < m" "m \<le> length a"
  shows "push_run (take m a) r =
    (if run_start (a ! (m - 1)) + run_len (a ! (m - 1)) = run_start r
     then take m (a[m - 1 := (a ! (m - 1))\<lparr>run_len := run_len (a ! (m - 1)) + run_len r\<rparr>])
     else take m a @ [r])"
proof -
  have *: "take m a \<noteq> []" "last (take m a) = a ! (m - 1)"
    using assms by (cases m; simp add: take_Suc_conv_app_nth)+
  have upd: "butlast (take m a) @ [x] = take m (a[m - 1 := x])" for x
    using assms by (cases m) (simp_all add: take_Suc_conv_app_nth butlast_append)
  show ?thesis
    by (simp add: push_run_def * upd del: take_eq_Nil)
qed

lemma merge_in_place_eq:
  assumes "m \<le> i" "i + n \<le> length a" "merge_in_place a n i m = (a', m')"
  shows "length a' = length a \<and> m' \<le> i + n
    \<and> take m' a' = foldl push_run (take m a) (take n (drop i a))"
  using assms
proof (induction n arbitrary: a i m)
  case (Suc n)
  let ?r = "a ! i"
  have next_el: "take (Suc n) (drop i a) = ?r # take n (drop (Suc i) a)"
    using Suc.prems(2) by (simp add: Cons_nth_drop_Suc flip: take_Suc_Cons)
  show ?case
  proof (cases "m > 0 \<and> run_start (a ! (m - 1)) + run_len (a ! (m - 1)) = run_start ?r")
    case True
    let ?b = "a[m - 1 := (a ! (m - 1))\<lparr>run_len := run_len (a ! (m - 1)) + run_len ?r\<rparr>]"
    have "push_run (take m a) ?r = take m ?b"
      using True Suc.prems by (simp add: push_run_take)
    moreover have "drop (Suc i) ?b = drop (Suc i) a"
      using Suc.prems True by simp
    ultimately show ?thesis
      using Suc.IH [of m "Suc i" ?b] Suc.prems True by (simp add: next_el)
  next
    case False
    let ?b = "a[m := ?r]"
    have "push_run (take m a) ?r = take (Suc m) ?b"
    proof -
      have "push_run (take m a) ?r = take m a @ [?r]"
        using False Suc.prems push_run_take [of m a ?r] by (cases "m = 0") (auto simp: push_run_def)
      then show ?thesis
        using Suc.prems by (simp add: take_Suc_conv_app_nth)
    qed
    moreover have "drop (Suc i) ?b = drop (Suc i) a"
      using Suc.prems by simp
    ultimately show ?thesis
      using Suc.IH [of "Suc m" "Suc i" ?b] Suc.prems False by (auto simp: next_el)
  qed
qed simp

section \<open>Allocation\<close>

text \<open>
  The scan over the array is \<open>pop_run\<close> on the live runs, and \<open>pop_run\<close> takes the first
  free frame.
\<close>

fun pop_run :: "FrameRun list \<Rightarrow> (u64 \<times> FrameRun list) option" where
  "pop_run [] = None"
| "pop_run (r # rs) =
     (if run_len r > 0
      then Some (run_start r, \<lparr>run_start = run_start r + 1, run_len = run_len r - 1\<rparr> # rs)
      else map_option (\<lambda>(f, rs'). (f, r # rs')) (pop_run rs))"

lemma allocate_scan_eq:
  "i + n \<le> length (fa_runs fa) \<Longrightarrow> allocate_scan fa n i =
    (case pop_run (take n (drop i (fa_runs fa))) of
       None \<Rightarrow> (None, fa)
     | Some (f, rs) \<Rightarrow> (Some f, fa\<lparr>fa_runs := take i (fa_runs fa) @ rs @ drop (i + n) (fa_runs fa),
                              allocated := allocated fa + 1\<rparr>))"
proof (induction n arbitrary: i)
  case (Suc n)
  let ?r = "fa_runs fa ! i"
  have el: "take (Suc n) (drop i (fa_runs fa)) = ?r # take n (drop (Suc i) (fa_runs fa))"
    and split: "take (Suc i) (fa_runs fa) = take i (fa_runs fa) @ [?r]"
    and tail: "drop (Suc i) (fa_runs fa)
      = take n (drop (Suc i) (fa_runs fa)) @ drop (i + Suc n) (fa_runs fa)"
    using Suc.prems
    by (simp add: Cons_nth_drop_Suc flip: take_Suc_Cons, simp add: take_Suc_conv_app_nth,
        metis append_take_drop_id drop_drop add.commute add_Suc_shift)
  show ?case
  proof (cases "run_len ?r > 0")
    case True
    with Suc.prems tail show ?thesis
      by (simp add: el Let_def upd_conv_take_nth_drop)
  next
    case False
    then have "allocate_scan fa (Suc n) i = allocate_scan fa n (Suc i)"
      by (simp add: Let_def)
    also have "\<dots> = (case pop_run (take n (drop (Suc i) (fa_runs fa))) of
        None \<Rightarrow> (None, fa)
      | Some (f, rs) \<Rightarrow> (Some f, fa\<lparr>fa_runs := take (Suc i) (fa_runs fa) @ rs @ drop (Suc i + n) (fa_runs fa),
                              allocated := allocated fa + 1\<rparr>))"
      using Suc.prems by (intro Suc.IH) simp
    finally show ?thesis
      using False by (auto simp: el split split: option.splits)
  qed
qed simp

lemma run_frames_pop:
  assumes "run_len r > 0" "run_ok r"
  shows "run_frames r = unat (run_start r)
      # run_frames \<lparr>run_start = run_start r + 1, run_len = run_len r - 1\<rparr>"
    and "run_ok \<lparr>run_start = run_start r + 1, run_len = run_len r - 1\<rparr>"
proof -
  have len: "unat (run_len r - 1) = unat (run_len r) - 1" "0 < unat (run_len r)"
    using assms(1) by (auto simp: unat_sub word_le_nat_alt word_less_nat_alt)
  then have start: "unat (run_start r + 1) = unat (run_start r) + 1"
    using assms(2) by (simp add: run_ok_def unat_add_small)
  from len(2) have "[unat (run_start r) ..< unat (run_start r) + unat (run_len r)]
      = unat (run_start r) # [Suc (unat (run_start r)) ..< unat (run_start r) + unat (run_len r)]"
    by (simp add: upt_conv_Cons)
  with len start show "run_frames r = unat (run_start r)
      # run_frames \<lparr>run_start = run_start r + 1, run_len = run_len r - 1\<rparr>"
    by (simp add: run_frames_def)
  show "run_ok \<lparr>run_start = run_start r + 1, run_len = run_len r - 1\<rparr>"
    using len start assms(2) by (simp add: run_ok_def)
qed

lemma pop_run_None: "pop_run rs = None \<longleftrightarrow> frames_of rs = []"
  by (induction rs) (auto simp: run_frames_def word_less_nat_alt)

lemma pop_run_Some:
  assumes "pop_run rs = Some (f, rs')" "\<forall>r\<in>set rs. run_ok r"
  shows "frames_of rs = unat f # frames_of rs' \<and> length rs' = length rs \<and> (\<forall>r\<in>set rs'. run_ok r)"
  using assms
proof (induction rs arbitrary: rs')
  case (Cons r rs)
  show ?case
  proof (cases "run_len r > 0")
    case True
    then show ?thesis
      using Cons.prems run_frames_pop [of r] by auto
  next
    case False
    with Cons show ?thesis
      by (auto simp: run_frames_def word_less_nat_alt)
  qed
qed simp

lemma allocate_cases:
  assumes "frames_wf fa"
  obtains (empty) "allocate fa = (None, fa)" "free_list fa = []"
  | (some) f fa' where "allocate fa = (Some f, fa')" "free_list fa = unat f # free_list fa'"
      "length (fa_runs fa') = MAX_RUNS" "run_count fa' = run_count fa" "total fa' = total fa"
      "\<forall>r\<in>set (take (run_count fa') (fa_runs fa')). run_ok r" "allocated fa' = allocated fa + 1"
proof -
  let ?live = "take (run_count fa) (fa_runs fa)"
  have len: "length ?live = run_count fa" "length (fa_runs fa) = MAX_RUNS" "run_count fa \<le> MAX_RUNS"
    and ok: "\<forall>r\<in>set ?live. run_ok r"
    using assms by (auto simp: frames_wf_def)
  note scan = allocate_scan_eq [of 0 "run_count fa" fa]
  show ?thesis
  proof (cases "pop_run ?live")
    case None
    with len show ?thesis
      by (intro empty) (simp_all add: allocate_def scan free_list_def flip: pop_run_None)
  next
    case (Some p)
    then obtain f rs where p: "pop_run ?live = Some (f, rs)"
      by (cases p) auto
    with pop_run_Some [OF this ok] len show ?thesis
      by (intro some [of f "fa\<lparr>fa_runs := rs @ drop (run_count fa) (fa_runs fa),
              allocated := allocated fa + 1\<rparr>"])
        (simp_all add: allocate_def scan free_list_def)
  qed
qed

lemma frames_wf_free_bound: "frames_wf fa \<Longrightarrow> f \<in> set (free_list fa) \<Longrightarrow> f < 2 ^ 52"
  using frames_of_bound by (auto simp: frames_wf_def free_list_def)

lemma allocate_wf:
  assumes "frames_wf fa" "allocate fa = (Some f, fa')"
  shows "frames_wf fa' \<and> free_list fa = unat f # free_list fa' \<and> unat (allocated fa') = Suc (unat (allocated fa))"
proof (rule allocate_cases [OF assms(1)])
  fix g ga
  assume "allocate fa = (Some g, ga)" and props: "free_list fa = unat g # free_list ga"
    "length (fa_runs ga) = MAX_RUNS" "run_count ga = run_count fa" "total ga = total fa"
    "\<forall>r\<in>set (take (run_count ga) (fa_runs ga)). run_ok r" "allocated ga = allocated fa + 1"
  with assms(2) have eq: "g = f" "ga = fa'"
    by auto
  have wf: "run_count fa \<le> MAX_RUNS" "distinct (free_list fa)"
      "unat (total fa) = length (free_list fa) + unat (allocated fa)"
    using assms(1) by (auto simp: frames_wf_def)
  have alloc: "unat (allocated fa + 1) = Suc (unat (allocated fa))"
    using wf(3) props(1) unat_bound [of "total fa"] by (simp add: unat_add_small)
  then show ?thesis
    using wf props eq by (auto simp: frames_wf_def)
qed (use assms(2) in auto)

section \<open>Deallocation\<close>

lemma deallocate_full: "run_count fa \<ge> MAX_RUNS \<Longrightarrow> deallocate srt frame fa = fa"
  by (simp add: deallocate_def)

lemma deallocate_frames:
  assumes "unstable_sort run_start srt" "frames_wf fa" "run_count fa < MAX_RUNS"
    and "unat frame < 2 ^ 52"
  defines "fa' \<equiv> deallocate srt frame fa"
  shows "mset (free_list fa') = add_mset (unat frame) (mset (free_list fa))"
    and "length (fa_runs fa') = MAX_RUNS \<and> run_count fa' \<le> MAX_RUNS
      \<and> (\<forall>r\<in>set (take (run_count fa') (fa_runs fa')). run_ok r)
      \<and> total fa' = total fa \<and> allocated fa' = saturating_sub (allocated fa) 1"
proof -
  let ?live = "take (run_count fa) (fa_runs fa)" and ?new = "\<lparr>run_start = frame, run_len = 1 :: u64\<rparr>"
  let ?k = "Suc (run_count fa)"
  let ?pushed = "(fa_runs fa)[run_count fa := ?new]"
  let ?sorted = "srt (take ?k ?pushed) @ drop ?k ?pushed"
  note srt = unstable_sort.srt_mset [OF assms(1)] unstable_sort.srt_set [OF assms(1)]
    unstable_sort.srt_length [OF assms(1)]
  have len: "length (fa_runs fa) = MAX_RUNS"
    and ok: "\<forall>r\<in>set ?live. run_ok r"
    using assms(2) by (auto simp: frames_wf_def)
  have new: "run_ok ?new" "run_frames ?new = [unat frame]"
    using assms(4) by (auto simp: run_ok_def run_frames_def)
  have take_k: "take ?k ?pushed = ?live @ [?new]"
    using assms(3) len by (simp add: take_Suc_conv_app_nth)
  obtain merged m where mip: "merge_in_place ?sorted ?k 0 0 = (merged, m)"
    by (cases "merge_in_place ?sorted ?k 0 0")
  have slen: "length ?sorted = MAX_RUNS" "length (srt (take ?k ?pushed)) = ?k"
    using assms(3) len by (simp_all add: srt)
  have fa': "fa' = fa\<lparr>fa_runs := merged, run_count := m, allocated := saturating_sub (allocated fa) 1\<rparr>"
    using assms(3) mip by (simp add: fa'_def deallocate_def Let_def)
  have "length merged = length ?sorted \<and> m \<le> 0 + ?k
      \<and> take m merged = foldl push_run (take 0 ?sorted) (take ?k (drop 0 ?sorted))"
    using assms(3) slen by (intro merge_in_place_eq mip) auto
  then have merged: "length merged = MAX_RUNS" "m \<le> ?k"
    "take m merged = foldl push_run [] (srt (?live @ [?new]))"
    using slen take_k by simp_all
  have all_ok: "\<forall>r\<in>set (srt (?live @ [?new])). run_ok r"
    using ok new by (simp add: srt)
  have frames: "frames_of (take m merged) = frames_of (srt (?live @ [?new]))"
    "\<forall>r\<in>set (take m merged). run_ok r"
    using foldl_push_run_frames [of "[]" "srt (?live @ [?new])"] all_ok merged(3) by simp_all
  have "mset (frames_of (srt (?live @ [?new]))) = mset (frames_of (?live @ [?new]))"
    by (rule frames_of_perm) (simp add: srt)
  then show "mset (free_list fa') = add_mset (unat frame) (mset (free_list fa))"
    using frames new by (simp add: fa' free_list_def)
  show "length (fa_runs fa') = MAX_RUNS \<and> run_count fa' \<le> MAX_RUNS
      \<and> (\<forall>r\<in>set (take (run_count fa') (fa_runs fa')). run_ok r)
      \<and> total fa' = total fa \<and> allocated fa' = saturating_sub (allocated fa) 1"
    using merged(1,2) frames(2) assms(3) by (simp add: fa')
qed

lemma deallocate_wf:
  assumes "unstable_sort run_start srt" "frames_wf fa" "unat frame < 2 ^ 52"
    and "unat frame \<notin> set (free_list fa)" "allocated fa > 0"
  shows "frames_wf (deallocate srt frame fa)"
proof (cases "run_count fa < MAX_RUNS")
  case True
  note d = deallocate_frames [OF assms(1,2) True assms(3)]
  have "length (free_list (deallocate srt frame fa)) = Suc (length (free_list fa))"
    using d(1) by (metis size_add_mset size_mset)
  moreover have "distinct (free_list (deallocate srt frame fa))"
    using d(1) assms(2,4) by (metis distinct.simps(2) frames_wf_def mset.simps(2) mset_eq_imp_distinct_iff)
  moreover have "0 < unat (allocated fa)"
    using assms(5) by (simp add: word_less_nat_alt)
  ultimately show ?thesis
    using d(2) assms(2) by (simp add: frames_wf_def unat_saturating_sub)
qed (use assms(2) in \<open>simp add: deallocate_full\<close>)

section \<open>Initialisation\<close>

text \<open>
  The frames that lie wholly inside a byte range and at or above the floor.
\<close>

definition region_frames :: "u64 \<Rightarrow> u64 \<times> u64 \<Rightarrow> nat list" where
  "region_frames floor = (\<lambda>(s, e). [(max (unat s) (unat floor) + 4095) div 4096 ..< unat e div 4096])"

lemma region_frames_iff:
  "f \<in> set (region_frames floor (s, e))
     \<longleftrightarrow> unat floor \<le> f * 4096 \<and> unat s \<le> f * 4096 \<and> f * 4096 + 4096 \<le> unat e"
proof -
  have "(x + 4095) div 4096 \<le> f \<longleftrightarrow> x \<le> f * 4096" for x
    by arith
  moreover have "f < y div 4096 \<longleftrightarrow> f * 4096 + 4096 \<le> y" for y
    by arith
  ultimately show ?thesis
    by (auto simp: region_frames_def)
qed

definition frame_range_ok :: "u64 \<times> u64 \<Rightarrow> bool" where
  "frame_range_ok = (\<lambda>(s, e). unat e + 4096 \<le> 2 ^ 64)"

lemma unat_max: "unat (max a b) = max (unat a) (unat b)"
  by (simp add: max_def word_le_nat_alt)

lemma start_frame_round_up:
  assumes "unat s + 4096 < 2 ^ 64"
  shows "unat ((s + FRAME_SIZE - 1) div FRAME_SIZE) = (unat s + 4095) div 4096"
proof -
  have add: "unat (s + 4096) = unat s + 4096"
    using assms by (simp add: unat_add_small)
  then have "unat (s + 4096 - 1) = unat s + 4095"
    by (subst unat_sub) (simp_all add: word_le_nat_alt)
  then show ?thesis
    by (simp add: FRAME_SIZE_def unat_div)
qed

text \<open>One round of the collecting loop adds exactly the frames of its region.\<close>

lemma collect_runs_step:
  assumes "frame_range_ok (s, e)"
  obtains (skip) "region_frames floor (s, e) = []"
      "\<And>rest acc. collect_runs ((s, e) # rest) floor acc = collect_runs rest floor acc"
  | (add) r where "run_frames r = region_frames floor (s, e)" "run_ok r"
      "\<And>rest acc. collect_runs ((s, e) # rest) floor acc =
         (if length acc \<ge> MAX_RUNS then Inl TooManyRuns else collect_runs rest floor (acc @ [r]))"
proof (cases "e \<le> floor \<or> max s floor \<ge> e")
  case True
  then have "region_frames floor (s, e) = []"
    by (auto simp: region_frames_def word_le_nat_alt unat_max intro!: div_le_mono)
  with True show ?thesis
    by (intro skip) (auto simp: Let_def)
next
  case False
  let ?s = "max s floor"
  let ?sf = "(?s + FRAME_SIZE - 1) div FRAME_SIZE" and ?ef = "e div FRAME_SIZE"
  have "unat ?s + 4096 < 2 ^ 64"
    using False assms by (simp add: frame_range_ok_def word_le_nat_alt unat_max not_le)
  then have sf: "unat ?sf = (max (unat s) (unat floor) + 4095) div 4096"
    by (simp add: start_frame_round_up unat_max)
  have ef: "unat ?ef = unat e div 4096"
    by (simp add: FRAME_SIZE_def unat_div)
  have ef_bound: "unat ?ef \<le> 2 ^ 52"
    using assms by (simp add: ef frame_range_ok_def)
  show ?thesis
  proof (cases "?sf \<ge> ?ef")
    case True
    with False show ?thesis
      by (intro skip) (auto simp: Let_def region_frames_def word_le_nat_alt sf ef)
  next
    case lt: False
    let ?r = "\<lparr>run_start = ?sf, run_len = ?ef - ?sf\<rparr>"
    from lt have "unat (?ef - ?sf) = unat ?ef - unat ?sf" "unat ?sf \<le> unat ?ef"
      by (auto simp: unat_sub word_le_nat_alt)
    with ef_bound have "run_frames ?r = region_frames floor (s, e)" "run_ok ?r"
      by (simp_all add: run_frames_def region_frames_def run_ok_def sf ef)
    with False lt show ?thesis
      by (intro add [of ?r]) (auto simp: Let_def)
  qed
qed

lemma collect_runs_frames:
  assumes "\<forall>p\<in>set regions. frame_range_ok p" "\<forall>r\<in>set acc. run_ok r"
    and "length acc + length regions \<le> MAX_RUNS"
  shows "\<exists>res. collect_runs regions floor acc = Inr res \<and> (\<forall>r\<in>set res. run_ok r)
    \<and> length res \<le> MAX_RUNS
    \<and> frames_of res = frames_of acc @ concat (map (region_frames floor) regions)"
  using assms
proof (induction regions arbitrary: acc)
  case (Cons p rest)
  obtain s e where p: "p = (s, e)"
    by (cases p)
  then have "frame_range_ok (s, e)"
    using Cons.prems by simp
  then show ?case
  proof (cases rule: collect_runs_step [where floor = floor])
    case skip
    with Cons p show ?thesis
      by simp
  next
    case (add r)
    then show ?thesis
      using Cons.IH [of "acc @ [r]"] Cons.prems p by simp
  qed
qed simp

definition ranges_disjoint :: "u64 \<times> u64 \<Rightarrow> u64 \<times> u64 \<Rightarrow> bool" where
  "ranges_disjoint = (\<lambda>(s, e) (s', e'). {unat s ..< unat e} \<inter> {unat s' ..< unat e'} = {})"

lemma region_frames_disjoint:
  assumes "ranges_disjoint p q"
  shows "set (region_frames floor p) \<inter> set (region_frames floor q) = {}"
proof -
  obtain s e s' e' where p: "p = (s, e)" and q: "q = (s', e')"
    by (cases p, cases q)
  have "{unat s ..< unat e} \<inter> {unat s' ..< unat e'} = {}"
    using assms by (auto simp: ranges_disjoint_def p q)
  then have "\<not> (unat s \<le> x \<and> x < unat e \<and> unat s' \<le> x \<and> x < unat e')" for x
    by auto
  then show ?thesis
    unfolding p q by (fastforce simp: region_frames_iff)
qed

lemma distinct_region_frames:
  assumes "sorted_wrt ranges_disjoint regions"
  shows "distinct (concat (map (region_frames floor) regions))"
  using assms
proof (induction regions)
  case (Cons p regions)
  then have "set (region_frames floor p) \<inter> set (concat (map (region_frames floor) regions)) = {}"
    using region_frames_disjoint [of p _ floor] by fastforce
  moreover have "distinct (region_frames floor p)"
    by (simp add: region_frames_def split: prod.splits)
  ultimately show ?case
    using Cons by simp
qed simp

lemma frames_init_ok:
  assumes "unstable_sort run_start srt" "length (fa_runs fa) = MAX_RUNS"
    and "length regions \<le> MAX_RUNS" "\<forall>p\<in>set regions. frame_range_ok p"
    and "sorted_wrt ranges_disjoint regions"
  obtains fa' where "frames_init srt regions floor fa = (Inr (), fa')" "frames_wf fa'"
    "allocated fa' = 0" "mset (free_list fa') = mset (concat (map (region_frames floor) regions))"
proof -
  note srt = unstable_sort.srt_mset [OF assms(1)] unstable_sort.srt_set [OF assms(1)]
    unstable_sort.srt_length [OF assms(1)]
  obtain res where res: "collect_runs regions floor [] = Inr res" "\<forall>r\<in>set res. run_ok r"
    "length res \<le> MAX_RUNS" "frames_of res = concat (map (region_frames floor) regions)"
    using collect_runs_frames [of regions "[]" floor] assms(3,4) by auto
  let ?m = "foldl push_run [] (srt res)"
  have m: "\<forall>r\<in>set ?m. run_ok r" "frames_of ?m = frames_of (srt res)" "length ?m \<le> MAX_RUNS"
    "merge_runs (srt res) [] = Inr ?m"
    using foldl_push_run_frames [of "[]" "srt res"] length_foldl_push_run [of "[]" "srt res"] res
    by (simp_all add: srt merge_runs_eq)
  let ?fa = "fa\<lparr>fa_runs := ?m @ drop (length ?m) (fa_runs fa), run_count := length ?m,
    total := sum_list (map run_len ?m), allocated := 0\<rparr>"
  have init: "frames_init srt regions floor fa = (Inr (), ?fa)"
    using res(1) m(4) by (simp add: frames_init_def)
  have frames: "mset (free_list ?fa) = mset (concat (map (region_frames floor) regions))"
    using m(2) res(4) frames_of_perm [OF srt(1) [of res]] by (simp add: free_list_def)
  then have "distinct (free_list ?fa)"
    using distinct_region_frames [OF assms(5)] mset_eq_imp_distinct_iff by blast
  with m assms(2) have "frames_wf ?fa"
    by (simp add: frames_wf_def free_list_def unat_sum_run_len)
  with that init frames show ?thesis
    by simp
qed

section \<open>The allocator as a source of frames\<close>

text \<open>
  What the page-table code needs of its \<open>alloc\<close> argument: a frame it has not handed out
  before, taken from the free set, until the free set is empty.
\<close>

locale frame_source =
  fixes take_frame :: "'s \<Rightarrow> u64 option \<times> 's"
    and src_ok :: "'s \<Rightarrow> bool"
    and free_set :: "'s \<Rightarrow> nat set"
  assumes take_None: "src_ok s \<Longrightarrow> take_frame s = (None, s') \<Longrightarrow> s' = s \<and> free_set s = {}"
    and take_Some: "src_ok s \<Longrightarrow> take_frame s = (Some f, s') \<Longrightarrow>
      src_ok s' \<and> unat f \<in> free_set s \<and> free_set s' = free_set s - {unat f}"
    and free_bound: "src_ok s \<Longrightarrow> n \<in> free_set s \<Longrightarrow> n < 2 ^ 52"
    and free_finite: "src_ok s \<Longrightarrow> finite (free_set s)"
begin

lemma take_ok:
  assumes "src_ok s"
  shows "src_ok (snd (take_frame s))" "free_set (snd (take_frame s)) \<subseteq> free_set s"
proof -
  obtain r s' where eq: "take_frame s = (r, s')"
    by (cases "take_frame s")
  have "src_ok s' \<and> free_set s' \<subseteq> free_set s"
    using take_None [OF assms, of s'] take_Some [OF assms, of _ s'] assms eq
    by (cases r) auto
  then show "src_ok (snd (take_frame s))" "free_set (snd (take_frame s)) \<subseteq> free_set s"
    by (simp_all add: eq)
qed

lemma take_total:
  assumes "src_ok s" "free_set s \<noteq> {}"
  obtains f s' where "take_frame s = (Some f, s')"
  using assms take_None [OF assms(1)] by (cases "take_frame s") (metis not_None_eq)

end

interpretation fr: frame_source allocate frames_wf "\<lambda>fa. set (free_list fa)"
proof unfold_locales
  fix fa fa'
  assume "frames_wf fa" "allocate fa = (None, fa')"
  then show "fa' = fa \<and> set (free_list fa) = {}"
    by (elim allocate_cases) simp_all
next
  fix fa fa' f
  assume "frames_wf fa" and "allocate fa = (Some f, fa')"
  moreover from this have "frames_wf fa'" "free_list fa = unat f # free_list fa'"
    using allocate_wf [of fa f fa'] by blast+
  moreover have "distinct (free_list fa)"
    using \<open>frames_wf fa\<close> by (simp only: frames_wf_def)
  ultimately show "frames_wf fa' \<and> unat f \<in> set (free_list fa)
      \<and> set (free_list fa') = set (free_list fa) - {unat f}"
    by simp
next
  fix fa n
  assume "frames_wf fa" "n \<in> set (free_list fa)"
  then show "n < 2 ^ 52"
    by (rule frames_wf_free_bound)
qed simp

section \<open>Histories of an allocator\<close>

text \<open>
  The states an allocator reaches from \<open>fa0\<close> when its clients allocate and give back
  frames they own, with the set of frames in the clients' hands.
\<close>

inductive frame_history ::
  "(FrameRun list \<Rightarrow> FrameRun list) \<Rightarrow> FrameAllocator \<Rightarrow> FrameAllocator \<Rightarrow> u64 set \<Rightarrow> bool"
  for srt fa0 where
  start: "frame_history srt fa0 fa0 {}"
| alloc: "frame_history srt fa0 fa own \<Longrightarrow> allocate fa = (Some f, fa')
    \<Longrightarrow> frame_history srt fa0 fa' (insert f own)"
| give_back: "frame_history srt fa0 fa own \<Longrightarrow> f \<in> own
    \<Longrightarrow> frame_history srt fa0 (deallocate srt f fa) (own - {f})"

lemma frame_history_inv:
  assumes "frame_history srt fa0 fa own" "unstable_sort run_start srt"
    and "frames_wf fa0"
  shows "frames_wf fa \<and> finite own \<and> unat ` own \<inter> set (free_list fa) = {}
    \<and> unat ` own \<union> set (free_list fa) \<subseteq> set (free_list fa0) \<and> card own \<le> unat (allocated fa)"
  using assms(1)
proof (induction rule: frame_history.induct)
  case start
  then show ?case
    using assms(3) by simp
next
  case (alloc fa own f fa')
  then have a: "frames_wf fa'" "free_list fa = unat f # free_list fa'"
      "unat (allocated fa') = Suc (unat (allocated fa))"
    using allocate_wf [of fa f fa'] by auto
  then have "unat f \<notin> set (free_list fa')" "f \<notin> own"
    using alloc by (auto simp: frames_wf_def)
  with a alloc.IH show ?case
    by auto
next
  case (give_back fa own f)
  then have f: "unat f \<in> set (free_list fa0)" "unat f \<notin> set (free_list fa)" "unat f < 2 ^ 52"
    using frames_wf_free_bound [OF assms(3)] by auto
  have "0 < card own"
    using give_back by (auto simp: card_gt_0_iff)
  with give_back.IH have "allocated fa > 0"
    by (simp add: word_less_nat_alt)
  with f give_back.IH have wf: "frames_wf (deallocate srt f fa)"
    by (intro deallocate_wf assms(2)) auto
  have card: "card (own - {f}) \<le> unat (allocated fa) - 1" "card (own - {f}) \<le> unat (allocated fa)"
    using give_back by (auto simp: card_Diff_singleton)
  show ?case
  proof (cases "run_count fa < MAX_RUNS")
    case True
    note d = deallocate_frames [OF assms(2) conjunct1 [OF give_back.IH] True f(3)]
    have "set (free_list (deallocate srt f fa)) = insert (unat f) (set (free_list fa))"
      using arg_cong [OF d(1), of set_mset] by simp
    with wf d(2) card f give_back show ?thesis
      by (auto simp: unat_saturating_sub dest: unsigned_word_eqI)
  next
    case False
    with wf card give_back show ?thesis
      by (auto simp: deallocate_full)
  qed
qed

section \<open>Properties\<close>



text \<open>
  C3: over any history of allocations and of frees of frames the clients own, a frame that
  \<open>allocate\<close> hands out is in nobody's hands and was free at the start: no frame is handed
  out twice.  When \<open>allocate\<close> answers \<open>None\<close> no free frame is left.
\<close>

theorem frames_no_double_handout:
  assumes "unstable_sort run_start srt" "frames_wf fa0" "frame_history srt fa0 fa own"
  shows "case allocate fa of
      (Some f, fa') \<Rightarrow> f \<notin> own \<and> unat f \<in> set (free_list fa0) \<and> frames_wf fa'
        \<and> free_list fa = unat f # free_list fa'
    | (None, fa') \<Rightarrow> fa' = fa \<and> free_list fa = []"
proof -
  note inv = frame_history_inv [OF assms(3,1,2)]
  then have wf: "frames_wf fa"
    by blast
  show ?thesis
  proof (cases "fst (allocate fa)")
    case None
    then show ?thesis
      using fr.take_None [OF wf, of "snd (allocate fa)"] by (cases "allocate fa") auto
  next
    case (Some f)
    then obtain fa' where a: "allocate fa = (Some f, fa')"
      by (cases "allocate fa") auto
    then show ?thesis
      using allocate_wf [OF wf a] inv by auto
  qed
qed

theorem frames_no_double_handout_witness:
  "\<exists>fa0 fa. frame_history (sort_key run_start) fa0 fa {3}
     \<and> (case allocate fa of
          (Some f, fa') \<Rightarrow> f \<notin> {3} \<and> unat f \<in> set (free_list fa0) \<and> frames_wf fa'
            \<and> free_list fa = unat f # free_list fa'
        | (None, fa') \<Rightarrow> fa' = fa \<and> free_list fa = [])"
proof -
  define fa0 where "fa0 = frames_empty\<lparr>fa_runs := \<lparr>run_start = 3, run_len = 2\<rparr> # replicate 63 \<lparr>run_start = 0, run_len = 0\<rparr>,
    run_count := 1, total := 2\<rparr>"
  have wf: "frames_wf fa0"
    by (simp add: frames_wf_def fa0_def frames_empty_def MAX_RUNS_def free_list_def run_frames_def run_ok_def)
  have "allocate fa0 = (Some 3, snd (allocate fa0))"
    by (simp add: allocate_def fa0_def frames_empty_def)
  then have h: "frame_history (sort_key run_start) fa0 (snd (allocate fa0)) {3}"
    by (rule frame_history.alloc [OF frame_history.start])
  show ?thesis
    by (intro exI conjI) (rule h, rule frames_no_double_handout [OF stable.unstable_sort_axioms wf h])
qed

text \<open>
  Freeing a frame that is not free adds exactly that frame to the free list and keeps
  the table well formed, except when all 64 run slots are in use: then the allocator is
  left as it was and the frame is lost.
\<close>

lemma deallocate_returns_frame:
  assumes "unstable_sort run_start srt" "frames_wf fa" "unat frame < 2 ^ 52"
    and "unat frame \<notin> set (free_list fa)" "allocated fa > 0"
  shows "frames_wf (deallocate srt frame fa)
    \<and> (if run_count fa < MAX_RUNS
       then mset (free_list (deallocate srt frame fa)) = add_mset (unat frame) (mset (free_list fa))
         \<and> unat (allocated_frames (deallocate srt frame fa)) = unat (allocated_frames fa) - 1
       else deallocate srt frame fa = fa)"
  using deallocate_wf [OF assms] deallocate_frames [OF assms(1,2) _ assms(3)] deallocate_full
  by (auto simp: allocated_frames_def unat_saturating_sub)

lemma deallocate_returns_frame_witness:
  "\<exists>fa. frames_wf fa \<and> mset (free_list (deallocate (sort_key run_start) 2 fa))
      = add_mset 2 (mset (free_list fa))"
proof -
  define fa where "fa = frames_empty\<lparr>fa_runs := \<lparr>run_start = 3, run_len = 2\<rparr> # replicate 63 \<lparr>run_start = 0, run_len = 0\<rparr>,
    run_count := 1, total := 3, allocated := 1\<rparr>"
  have "frames_wf fa" "2 \<notin> set (free_list fa)" "allocated fa > 0" "run_count fa < MAX_RUNS"
    by (simp_all add: frames_wf_def fa_def frames_empty_def MAX_RUNS_def free_list_def run_frames_def run_ok_def)
  with deallocate_returns_frame [OF stable.unstable_sort_axioms, of fa 2] show ?thesis
    by auto
qed

text \<open>
  The rounding \<open>(s + FRAME_SIZE - 1) / FRAME_SIZE\<close> wraps for a range that starts in
  the last page of the address space: with the arithmetic of a release build \<open>init\<close>
  then turns a range of less than a page into a run that starts at frame 0 and spans the
  whole address space.
\<close>

lemma frames_init_top_page_wraps:
  "collect_runs [(0xffffffffffffff00, 0xffffffffffffffff)] 0x100000 []
    = Inr [\<lparr>run_start = 0, run_len = 0xfffffffffffff\<rparr>]"
  by (simp add: FRAME_SIZE_def MAX_RUNS_def max_def)

end
