(* ===== verification/Paging.thy ===== *)
theory Paging
  imports Frames
begin

text \<open>
  Model of \<open>src/kernel/src/paging.rs\<close>: the four page-table indices, the entry encodings, and
  the operations that walk and extend the tables through the boot loader's window over
  physical memory.  The machine state holds physical memory as a function from the physical
  address of an 8-byte cell to its contents, the register CR3, the offset of the window, and
  the kernel's frame allocator.
\<close>

section \<open>Indices and entries\<close>

definition index4 :: "u64 \<Rightarrow> nat" where
  "index4 v = unat (drop_bit 39 v AND 0x1FF)"

definition index3 :: "u64 \<Rightarrow> nat" where
  "index3 v = unat (drop_bit 30 v AND 0x1FF)"

definition index2 :: "u64 \<Rightarrow> nat" where
  "index2 v = unat (drop_bit 21 v AND 0x1FF)"

definition index1 :: "u64 \<Rightarrow> nat" where
  "index1 v = unat (drop_bit 12 v AND 0x1FF)"

definition ADDR_MASK :: u64 where
  "ADDR_MASK = 0x000FFFFFFFFFF000"

definition PRESENT :: u64 where
  "PRESENT = push_bit 0 1"

definition WRITABLE :: u64 where
  "WRITABLE = push_bit 1 1"

definition USER :: u64 where
  "USER = push_bit 2 1"

definition NX :: u64 where
  "NX = push_bit 63 1"

definition entry_pointer :: "u64 \<Rightarrow> bool \<Rightarrow> bool \<Rightarrow> u64" where
  "entry_pointer addr present writable =
     (let e = addr AND ADDR_MASK;
          e = (if present then e OR PRESENT else e);
          e = (if writable then e OR WRITABLE else e)
      in e)"

definition entry_page :: "u64 \<Rightarrow> bool \<Rightarrow> bool \<Rightarrow> bool \<Rightarrow> u64" where
  "entry_page frame present writable user =
     (let e = frame AND ADDR_MASK;
          e = (if present then e OR PRESENT else e);
          e = (if writable then e OR WRITABLE else e);
          e = (if user then e OR USER else e)
      in e)"

definition entry_huge :: "u64 \<Rightarrow> bool \<Rightarrow> bool \<Rightarrow> u64" where
  "entry_huge addr present writable =
     (let e = addr AND ADDR_MASK;
          e = (if present then e OR PRESENT else e);
          e = (if writable then e OR WRITABLE else e)
      in e OR push_bit 7 1)"

definition flags_of :: "u64 \<Rightarrow> u16" where
  "flags_of entry = ucast (entry AND (PRESENT OR WRITABLE OR USER))"

section \<open>The machine\<close>

record machine =
  pmem :: "u64 \<Rightarrow> u64"
  cr3 :: u64
  window :: u64
  PHYS_OFFSET :: u64
  FRAMES :: FrameAllocator
  invalidated :: "u64 list"

datatype paging_error = OutOfFrames

text \<open>An access to a virtual address inside the window reaches the physical cell behind it.\<close>

definition mem_read :: "machine \<Rightarrow> u64 \<Rightarrow> u64" where
  "mem_read st va = pmem st (va - window st)"

definition mem_write :: "u64 \<Rightarrow> u64 \<Rightarrow> machine \<Rightarrow> machine" where
  "mem_write va e st = st\<lparr>pmem := (pmem st)(va - window st := e)\<rparr>"

definition current_cr3 :: "machine \<Rightarrow> u64" where
  "current_cr3 st = cr3 st"

definition phys_offset :: "machine \<Rightarrow> u64" where
  "phys_offset st = PHYS_OFFSET st"

definition phys_to_virt :: "u64 \<Rightarrow> u64 \<Rightarrow> u64" where
  "phys_to_virt phys offset = phys + offset"

definition table_read :: "machine \<Rightarrow> u64 \<Rightarrow> u64 \<Rightarrow> nat \<Rightarrow> u64" where
  "table_read st table_phys offset index =
     mem_read st (phys_to_virt table_phys offset + 8 * word_of_nat index)"

definition table_write :: "u64 \<Rightarrow> u64 \<Rightarrow> nat \<Rightarrow> u64 \<Rightarrow> machine \<Rightarrow> machine" where
  "table_write table_phys offset index e st =
     mem_write (phys_to_virt table_phys offset + 8 * word_of_nat index) e st"

text \<open>
  \<open>probe_pml4\<close> and \<open>probe\<close> dereference table addresses directly, without the window; the
  argument \<open>rd\<close> is the virtual memory they read.
\<close>

definition probe_pml4 :: "(u64 \<Rightarrow> u64) \<Rightarrow> machine \<Rightarrow> u64 \<Rightarrow> u64" where
  "probe_pml4 rd st virt =
     (let pml4_addr = current_cr3 st AND ADDR_MASK
      in rd (pml4_addr + 8 * word_of_nat (index4 virt)))"

definition probe :: "(u64 \<Rightarrow> u64) \<Rightarrow> machine \<Rightarrow> u64 \<Rightarrow> u64" where
  "probe rd st virt =
     (let pml4_addr = current_cr3 st AND ADDR_MASK;
          pml4e = rd (pml4_addr + 8 * word_of_nat (index4 virt)) in
      if pml4e AND PRESENT = 0 then 0
      else let pdpt_addr = pml4e AND ADDR_MASK;
               pdpte = rd (pdpt_addr + 8 * word_of_nat (index3 virt)) in
      if pdpte AND PRESENT = 0 then 0
      else if pdpte AND push_bit 7 1 \<noteq> 0 then pdpte
      else let pd_addr = pdpte AND ADDR_MASK;
               pde = rd (pd_addr + 8 * word_of_nat (index2 virt)) in
      if pde AND PRESENT = 0 then 0
      else if pde AND push_bit 7 1 \<noteq> 0 then pde
      else let pt_addr = pde AND ADDR_MASK
      in rd (pt_addr + 8 * word_of_nat (index1 virt)))"

definition translate :: "machine \<Rightarrow> u64 \<Rightarrow> u64 \<Rightarrow> u64" where
  "translate st offset virt =
     (let pml4 = current_cr3 st AND ADDR_MASK;
          pml4e = table_read st pml4 offset (index4 virt) in
      if pml4e AND PRESENT = 0 then 0
      else let pdpt = pml4e AND ADDR_MASK;
               pdpte = table_read st pdpt offset (index3 virt) in
      if pdpte AND PRESENT = 0 then 0
      else if pdpte AND push_bit 7 1 \<noteq> 0 then pdpte
      else let pd = pdpte AND ADDR_MASK;
               pde = table_read st pd offset (index2 virt) in
      if pde AND PRESENT = 0 then 0
      else if pde AND push_bit 7 1 \<noteq> 0 then pde
      else let pt = pde AND ADDR_MASK
      in table_read st pt offset (index1 virt))"

section \<open>Taking over and extending the tables\<close>

definition allocate_frame :: "machine \<Rightarrow> u64 option \<times> machine" where
  "allocate_frame st = (case allocate (FRAMES st) of (r, fa) \<Rightarrow> (r, st\<lparr>FRAMES := fa\<rparr>))"

definition frame_phys :: "machine \<Rightarrow> (paging_error + u64) \<times> machine" where
  "frame_phys st =
     (case allocate_frame st of
        (None, st') \<Rightarrow> (Inl OutOfFrames, st')
      | (Some f, st') \<Rightarrow> (Inr (f * 4096), st'))"

fun copy_entries :: "u64 \<Rightarrow> u64 \<Rightarrow> u64 \<Rightarrow> nat list \<Rightarrow> machine \<Rightarrow> machine" where
  "copy_entries old_cr3 new_cr3 offset [] st = st"
| "copy_entries old_cr3 new_cr3 offset (i # is) st =
     copy_entries old_cr3 new_cr3 offset is
       (table_write new_cr3 offset i (table_read st old_cr3 offset i) st)"

definition takeover :: "u64 \<Rightarrow> machine \<Rightarrow> (paging_error + u64) \<times> machine" where
  "takeover offset st0 =
     (let st = st0\<lparr>PHYS_OFFSET := offset\<rparr> in
      case allocate_frame st of
        (None, st) \<Rightarrow> (Inl OutOfFrames, st)
      | (Some frame, st) \<Rightarrow>
          (let new_cr3 = frame * 4096;
               old_cr3 = current_cr3 st AND ADDR_MASK;
               st = copy_entries old_cr3 new_cr3 offset [0..<512] st
           in (Inr new_cr3, st\<lparr>cr3 := new_cr3\<rparr>)))"

fun zero_entries :: "u64 \<Rightarrow> u64 \<Rightarrow> nat list \<Rightarrow> machine \<Rightarrow> machine" where
  "zero_entries phys offset [] st = st"
| "zero_entries phys offset (i # is) st = zero_entries phys offset is (table_write phys offset i 0 st)"

definition zero_table :: "u64 \<Rightarrow> u64 \<Rightarrow> machine \<Rightarrow> machine" where
  "zero_table phys offset = zero_entries phys offset [0..<512]"

definition alloc_table :: "u64 \<Rightarrow> machine \<Rightarrow> (paging_error + u64) \<times> machine" where
  "alloc_table offset st =
     (case frame_phys st of
        (Inl e, st) \<Rightarrow> (Inl e, st)
      | (Inr p, st) \<Rightarrow> (Inr p, zero_table p offset st))"

text \<open>
  One level of \<open>map_page_impl\<close>: follow a present entry, or allocate a zeroed table and
  enter it with the pointer flags.
\<close>

definition next_level :: "u64 \<Rightarrow> bool \<Rightarrow> u64 \<Rightarrow> nat \<Rightarrow> machine \<Rightarrow> (paging_error + u64) \<times> machine" where
  "next_level offset user table index st =
     (let e = table_read st table offset index in
      if e AND PRESENT \<noteq> 0 then (Inr (e AND ADDR_MASK), st)
      else case alloc_table offset st of
        (Inl err, st) \<Rightarrow> (Inl err, st)
      | (Inr t, st) \<Rightarrow>
          (Inr t, table_write table offset index
             (entry_pointer t True True OR (if user then USER else 0)) st))"

definition map_page_impl ::
  "u64 \<Rightarrow> u64 \<Rightarrow> u64 \<Rightarrow> bool \<Rightarrow> bool \<Rightarrow> machine \<Rightarrow> (paging_error + unit) \<times> machine" where
  "map_page_impl offset virt phys user nx st =
     (let pml4 = current_cr3 st AND ADDR_MASK in
      case next_level offset user pml4 (index4 virt) st of
        (Inl e, st) \<Rightarrow> (Inl e, st)
      | (Inr pdpt, st) \<Rightarrow>
      (case next_level offset user pdpt (index3 virt) st of
        (Inl e, st) \<Rightarrow> (Inl e, st)
      | (Inr pd, st) \<Rightarrow>
      (case next_level offset user pd (index2 virt) st of
        (Inl e, st) \<Rightarrow> (Inl e, st)
      | (Inr pt, st) \<Rightarrow>
          (let leaf = entry_page phys True True user;
               leaf = (if nx then leaf OR NX else leaf);
               st = table_write pt offset (index1 virt) leaf st
           in (Inr (), st\<lparr>invalidated := virt # invalidated st\<rparr>)))))"

definition map_page :: "u64 \<Rightarrow> u64 \<Rightarrow> u64 \<Rightarrow> machine \<Rightarrow> (paging_error + unit) \<times> machine" where
  "map_page offset virt phys = map_page_impl offset virt phys False False"

definition map_user_page :: "u64 \<Rightarrow> u64 \<Rightarrow> u64 \<Rightarrow> machine \<Rightarrow> (paging_error + unit) \<times> machine" where
  "map_user_page offset virt phys = map_page_impl offset virt phys True False"

definition map_user_data :: "u64 \<Rightarrow> u64 \<Rightarrow> u64 \<Rightarrow> machine \<Rightarrow> (paging_error + unit) \<times> machine" where
  "map_user_data offset virt phys = map_page_impl offset virt phys True True"

fun first_absent :: "machine \<Rightarrow> u64 \<Rightarrow> u64 \<Rightarrow> nat list \<Rightarrow> nat option" where
  "first_absent st pml4 offset [] = None"
| "first_absent st pml4 offset (i # is) =
     (if table_read st pml4 offset i AND PRESENT = 0 then Some i
      else first_absent st pml4 offset is)"

definition find_free_top_index :: "u64 \<Rightarrow> machine \<Rightarrow> nat option" where
  "find_free_top_index offset st =
     first_absent st (current_cr3 st AND ADDR_MASK) offset [0..<512]"

fun map_range_from ::
  "u64 \<Rightarrow> u64 \<Rightarrow> nat \<Rightarrow> nat \<Rightarrow> machine \<Rightarrow> (paging_error + unit) \<times> machine" where
  "map_range_from offset virt_base 0 i st = (Inr (), st)"
| "map_range_from offset virt_base (Suc n) i st =
     (case frame_phys st of
        (Inl e, st) \<Rightarrow> (Inl e, st)
      | (Inr phys, st) \<Rightarrow>
      (case map_page offset (virt_base + word_of_nat i * 4096) phys st of
        (Inl e, st) \<Rightarrow> (Inl e, st)
      | (Inr _, st) \<Rightarrow> map_range_from offset virt_base n (Suc i) st))"

definition map_range :: "u64 \<Rightarrow> u64 \<Rightarrow> u64 \<Rightarrow> machine \<Rightarrow> (paging_error + unit) \<times> machine" where
  "map_range offset virt_base cnt st = map_range_from offset virt_base (unat cnt) 0 st"

section \<open>Arithmetic of indices and entries\<close>

lemma index_nat:
  "index4 v = unat v div 2 ^ 39 mod 512" "index3 v = unat v div 2 ^ 30 mod 512"
  "index2 v = unat v div 2 ^ 21 mod 512" "index1 v = unat v div 2 ^ 12 mod 512"
proof -
  have m9: "(0x1FF :: u64) = mask 9"
    by (simp add: mask_eq_exp_minus_1)
  show "index4 v = unat v div 2 ^ 39 mod 512" "index3 v = unat v div 2 ^ 30 mod 512"
    "index2 v = unat v div 2 ^ 21 mod 512" "index1 v = unat v div 2 ^ 12 mod 512"
    unfolding index4_def index3_def index2_def index1_def m9 unat_and_mask unat_drop_bit by simp_all
qed

lemma index_less [simp]: "index4 v < 512" "index3 v < 512" "index2 v < 512" "index1 v < 512"
  by (simp_all add: index_nat)

lemma mod_split: "x mod (a * b) = a * (x div a mod b) + x mod (a :: nat)"
  by (simp add: mod_mult2_eq)

lemma ADDR_MASK_eq: "ADDR_MASK = push_bit 12 (mask 40)"
  by (simp add: ADDR_MASK_def mask_eq_exp_minus_1 push_bit_eq_mult)

lemma unat_and_ADDR_MASK: "unat (a AND ADDR_MASK) = 4096 * (unat a div 4096 mod 2 ^ 40)"
proof -
  have "a AND ADDR_MASK = push_bit 12 (drop_bit 12 a AND mask 40)"
    by (rule bit_word_eqI) (auto simp: ADDR_MASK_eq bit_simps)
  moreover have "unat (drop_bit 12 a AND mask 40) = unat a div 4096 mod 2 ^ 40"
    by (simp add: unat_and_mask unat_drop_bit)
  moreover have "unat a div 4096 mod 2 ^ 40 < 2 ^ 40"
    by simp
  ultimately show ?thesis
    by (simp add: push_bit_eq_mult unat_mult_small)
qed

text \<open>A table address is page aligned and below \<open>2 ^ 52\<close>; its 512 cells are its own.\<close>

definition table_addr :: "u64 \<Rightarrow> bool" where
  "table_addr t \<longleftrightarrow> t AND ADDR_MASK = t"

lemma table_addr_and [simp]: "table_addr (a AND ADDR_MASK)"
  by (simp add: table_addr_def and.assoc)

lemma table_addr_nat: "table_addr t \<longleftrightarrow> unat t mod 4096 = 0 \<and> unat t < 2 ^ 52"
proof -
  have "table_addr t \<longleftrightarrow> 4096 * (unat t div 4096 mod 2 ^ 40) = unat t"
    unfolding table_addr_def word_eq_iff_unsigned [where ?'a = nat] unat_and_ADDR_MASK ..
  also have "\<dots> \<longleftrightarrow> unat t mod 4096 = 0 \<and> unat t div 4096 < 2 ^ 40"
  proof -
    let ?q = "unat t div 4096"
    have "?q mod 2 ^ 40 \<le> ?q" "4096 * ?q + unat t mod 4096 = unat t"
      by simp_all
    moreover have "?q mod 2 ^ 40 = ?q \<longleftrightarrow> ?q < 2 ^ 40"
      by (rule mod_eq_self_iff_div_eq_0 [THEN trans]) (simp add: div_eq_0_iff)
    ultimately show ?thesis
      by linarith
  qed
  also have "unat t div 4096 < 2 ^ 40 \<longleftrightarrow> unat t < 2 ^ 52"
    by (simp add: div_less_iff_less_mult)
  finally show ?thesis .
qed

definition cell :: "u64 \<Rightarrow> nat \<Rightarrow> u64" where
  "cell t i = t + 8 * word_of_nat i"

lemma unat_cell: "table_addr t \<Longrightarrow> i < 512 \<Longrightarrow> unat (cell t i) = unat t + 8 * i"
proof -
  assume t: "table_addr t" and i: "i < 512"
  then have "unat (8 * word_of_nat i :: u64) = 8 * i"
    by (simp add: unat_mult_small unat_of_nat_small)
  with t i show ?thesis
    by (simp add: cell_def table_addr_nat unat_add_small)
qed

lemma cell_inj:
  assumes "table_addr t" "table_addr u" "i < 512" "j < 512"
  shows "cell t i = cell u j \<longleftrightarrow> t = u \<and> i = j"
proof
  assume "cell t i = cell u j"
  then have eq: "unat t + 8 * i = unat u + 8 * j"
    using assms by (metis unat_cell)
  have "unat t mod 4096 = 0" "unat u mod 4096 = 0"
    using assms by (simp_all add: table_addr_nat)
  then have "4096 dvd unat t" "4096 dvd unat u"
    by (simp_all add: mod_eq_0_iff_dvd)
  then obtain x y where xy: "unat t = 4096 * x" "unat u = 4096 * y"
    by (meson dvdE)
  have "x = y"
    using eq assms(3,4) unfolding xy by (cases x y rule: linorder_cases) linarith+
  with eq xy have "unat t = unat u" "i = j"
    by simp_all
  then show "t = u \<and> i = j"
    by (simp add: unsigned_word_eqI)
qed simp

text \<open>The entries the kernel writes decode to what was put in.\<close>

lemma entry_bits:
  "bit (entry_pointer a p w) n \<longleftrightarrow> (12 \<le> n \<and> n < 52 \<and> bit a n) \<or> (n = 0 \<and> p) \<or> (n = 1 \<and> w)"
  "bit (entry_page a p w u) n \<longleftrightarrow>
     (12 \<le> n \<and> n < 52 \<and> bit a n) \<or> (n = 0 \<and> p) \<or> (n = 1 \<and> w) \<or> (n = 2 \<and> u)"
  by (auto simp: entry_pointer_def entry_page_def Let_def ADDR_MASK_eq PRESENT_def WRITABLE_def
      USER_def bit_simps bit_flags)

lemma entry_pointer_decode:
  fixes user :: bool
  assumes "table_addr t"
  defines "e \<equiv> entry_pointer t True True OR (if user then USER else 0)"
  shows "e AND PRESENT \<noteq> 0" "e AND push_bit 7 1 = 0" "e AND ADDR_MASK = t"
proof -
  have "bit (e AND PRESENT) 0"
    by (simp add: e_def bit_and_iff bit_or_iff entry_bits PRESENT_def)
  then show "e AND PRESENT \<noteq> 0"
    by (metis bit_0_eq bot_apply bot_bool_def)
  show "e AND push_bit 7 1 = 0"
    by (rule bit_word_eqI) (auto simp: e_def bit_simps entry_bits USER_def bit_flags)
  have "e AND ADDR_MASK = t AND ADDR_MASK"
    by (rule bit_word_eqI) (auto simp: e_def bit_simps entry_bits USER_def ADDR_MASK_eq bit_flags)
  then show "e AND ADDR_MASK = t"
    using assms(1) by (simp add: table_addr_def)
qed

section \<open>The walk, level by level\<close>

text \<open>
  \<open>walk m n t is\<close> reads the tables from the level-\<open>n\<close> table \<open>t\<close> (4 for a PML4, 1 for a page
  table) along the indices \<open>is\<close>; \<open>child\<close> is the next table below an entry, if the entry is
  present and no huge page; \<open>tabs\<close> are the tables below and including \<open>t\<close>; and \<open>tree\<close>
  says that no table is reached along two paths.
\<close>

definition child :: "(u64 \<Rightarrow> u64) \<Rightarrow> nat \<Rightarrow> u64 \<Rightarrow> nat \<Rightarrow> u64 option" where
  "child m n t i =
     (let e = m (cell t i) in
      if e AND PRESENT = 0 then None
      else if n < 4 \<and> e AND push_bit 7 1 \<noteq> 0 then None
      else Some (e AND ADDR_MASK))"

fun walk :: "(u64 \<Rightarrow> u64) \<Rightarrow> nat \<Rightarrow> u64 \<Rightarrow> nat list \<Rightarrow> u64" where
  "walk m (Suc n) t (i # is) =
     (let e = m (cell t i) in
      if n = 0 then e
      else if e AND PRESENT = 0 then 0
      else if Suc n < 4 \<and> e AND push_bit 7 1 \<noteq> 0 then e
      else walk m n (e AND ADDR_MASK) is)"
| "walk m _ t _ = 0"

fun tabs :: "(u64 \<Rightarrow> u64) \<Rightarrow> nat \<Rightarrow> u64 \<Rightarrow> u64 set" where
  "tabs m 0 t = {}"
| "tabs m (Suc n) t = insert t (\<Union>i<512. case child m (Suc n) t i of None \<Rightarrow> {} | Some u \<Rightarrow> tabs m n u)"

fun tree :: "(u64 \<Rightarrow> u64) \<Rightarrow> nat \<Rightarrow> u64 \<Rightarrow> bool" where
  "tree m 0 t = True"
| "tree m (Suc n) t \<longleftrightarrow>
     (\<forall>i<512. \<forall>u. child m (Suc n) t i = Some u \<longrightarrow>
        tree m n u \<and> t \<notin> tabs m n u
        \<and> (\<forall>j<512. \<forall>w. j \<noteq> i \<longrightarrow> child m (Suc n) t j = Some w \<longrightarrow> tabs m n u \<inter> tabs m n w = {}))"

definition agree :: "(u64 \<Rightarrow> u64) \<Rightarrow> (u64 \<Rightarrow> u64) \<Rightarrow> u64 \<Rightarrow> bool" where
  "agree m m' t \<longleftrightarrow> (\<forall>i<512. m' (cell t i) = m (cell t i))"

lemma child_agree: "agree m m' t \<Longrightarrow> i < 512 \<Longrightarrow> child m' n t i = child m n t i"
  by (simp add: agree_def child_def)

lemma child_table_addr: "child m n t i = Some u \<Longrightarrow> table_addr u"
  by (auto simp: child_def Let_def split: if_splits)

lemma tabs_cong:
  "\<forall>u\<in>tabs m n t. agree m m' u \<Longrightarrow> tabs m' n t = tabs m n t"
proof (induction n arbitrary: t)
  case (Suc n)
  have child: "child m' (Suc n) t i = child m (Suc n) t i" if "i < 512" for i
    using Suc.prems that by (intro child_agree) auto
  moreover have "tabs m' n u = tabs m n u" if "child m (Suc n) t i = Some u" "i < 512" for i u
    using Suc.prems that by (intro Suc.IH) force
  ultimately have "(case child m' (Suc n) t i of None \<Rightarrow> {} | Some u \<Rightarrow> tabs m' n u)
      = (case child m (Suc n) t i of None \<Rightarrow> {} | Some u \<Rightarrow> tabs m n u)" if "i < 512" for i
    using that by (auto split: option.splits)
  then show ?case
    by simp
qed simp

lemma tabs_child: "child m (Suc n) t i = Some u \<Longrightarrow> i < 512 \<Longrightarrow> tabs m n u \<subseteq> tabs m (Suc n) t"
  by force

lemma tree_cong:
  "\<forall>u\<in>tabs m n t. agree m m' u \<Longrightarrow> tree m' n t = tree m n t"
proof (induction n arbitrary: t)
  case (Suc n)
  have child: "child m' (Suc n) t i = child m (Suc n) t i" if "i < 512" for i
    using Suc.prems that by (intro child_agree) auto
  have sub: "\<forall>w\<in>tabs m n u. agree m m' w" if "child m (Suc n) t i = Some u" "i < 512" for i u
    using Suc.prems tabs_child [OF that] by blast
  have "tree m' n u = tree m n u \<and> tabs m' n u = tabs m n u"
    if "child m (Suc n) t i = Some u" "i < 512" for i u
    using sub [OF that] Suc.IH tabs_cong by blast
  then show ?case
    using child by auto
qed simp

lemma walk_cong:
  assumes "\<forall>u\<in>tabs m n t. agree m m' u" "length is = n" "\<forall>i\<in>set is. i < 512"
  shows "walk m' n t is = walk m n t is"
  using assms
proof (induction n arbitrary: t "is")
  case (Suc n)
  then obtain i js where js: "is = i # js" "i < 512" "length js = n" "\<forall>i\<in>set js. i < 512"
    by (cases "is") auto
  have e: "m' (cell t i) = m (cell t i)"
    using Suc.prems(1) js(2) by (auto simp: agree_def)
  show ?case
  proof (cases "child m (Suc n) t i")
    case None
    then show ?thesis
      using e by (auto simp: js(1) Let_def child_def split: if_splits)
  next
    case (Some u)
    have u: "u = m (cell t i) AND ADDR_MASK"
      using Some by (auto simp: child_def Let_def split: if_splits)
    have "\<forall>w\<in>tabs m n u. agree m m' w"
      using Suc.prems(1) tabs_child [OF Some js(2)] by blast
    then have "walk m' n u js = walk m n u js"
      using js by (intro Suc.IH)
    then show ?thesis
      using e u by (simp add: js(1) Let_def)
  qed
qed simp

text \<open>A table whose entries are all zero maps nothing and has no tables below it.\<close>

lemma zero_table_walk:
  assumes "\<forall>i<512. m (cell t i) = 0"
  shows "child m n t i = (if i < 512 then None else child m n t i)"
    and "tabs m (Suc k) t = {t}" and "tree m (Suc k) t"
    and "\<forall>i\<in>set is. i < 512 \<Longrightarrow> walk m (Suc k) t is = 0"
proof -
  have none: "child m n t i = None" if "i < 512" for n i
    using assms that by (simp add: child_def)
  then show "child m n t i = (if i < 512 then None else child m n t i)"
    by simp
  show "tabs m (Suc k) t = {t}" "tree m (Suc k) t"
    using none by auto
  show "\<forall>i\<in>set is. i < 512 \<Longrightarrow> walk m (Suc k) t is = 0"
    using assms by (cases "is") (auto simp: Let_def)
qed

lemma tabs_self [simp]: "t \<in> tabs m (Suc n) t"
  by simp

lemma tree_disjoint:
  "tree m (Suc n) t \<Longrightarrow> child m (Suc n) t i = Some u \<Longrightarrow> child m (Suc n) t j = Some w
     \<Longrightarrow> i < 512 \<Longrightarrow> j < 512 \<Longrightarrow> i \<noteq> j \<Longrightarrow> tabs m n u \<inter> tabs m n w = {}"
  by simp

lemma table_addr_tabs: "x \<in> tabs m n t \<Longrightarrow> table_addr t \<Longrightarrow> table_addr x"
  by (induction n arbitrary: t) (auto split: option.splits intro: child_table_addr)

lemma tabs_subsetI:
  assumes "t \<in> S" "\<And>j w. j < 512 \<Longrightarrow> child m (Suc n) t j = Some w \<Longrightarrow> tabs m n w \<subseteq> S"
  shows "tabs m (Suc n) t \<subseteq> S"
proof -
  have "(case child m (Suc n) t j of None \<Rightarrow> {} | Some w \<Rightarrow> tabs m n w) \<subseteq> S" if "j < 512" for j
    using assms(2) [OF that] by (simp split: option.splits)
  then show ?thesis
    using assms(1) by (simp add: UN_subset_iff)
qed

declare tabs.simps(2) [simp del] tree.simps(2) [simp del]

section \<open>The machine's operations on tables\<close>

definition idxs :: "u64 \<Rightarrow> nat list" where
  "idxs v = [index4 v, index3 v, index2 v, index1 v]"

lemma idxs_ok [simp]: "length (idxs v) = 4" "\<forall>i\<in>set (idxs v). i < 512"
  by (simp_all add: idxs_def)

abbreviation root :: "machine \<Rightarrow> u64" where
  "root st \<equiv> cr3 st AND ADDR_MASK"

abbreviation free :: "machine \<Rightarrow> nat set" where
  "free st \<equiv> set (free_list (FRAMES st))"

lemma table_access:
  "table_read st t (window st) i = pmem st (cell t i)"
  "table_write t (window st) i e st = st\<lparr>pmem := (pmem st)(cell t i := e)\<rparr>"
  by (simp_all add: table_read_def table_write_def mem_read_def mem_write_def phys_to_virt_def
      cell_def algebra_simps)

lemma translate_walk: "translate st (window st) v = walk (pmem st) 4 (root st) (idxs v)"
  by (simp add: translate_def table_access idxs_def current_cr3_def eval_nat_numeral Let_def)

definition faddr :: "nat \<Rightarrow> u64" where
  "faddr f = word_of_nat f * 4096"

lemma unat_faddr: "f < 2 ^ 40 \<Longrightarrow> unat (faddr f) = f * 4096"
  by (simp add: faddr_def unat_mult_small unat_of_nat_small)

lemma table_addr_faddr: "f < 2 ^ 40 \<Longrightarrow> table_addr (faddr f)"
  by (simp add: table_addr_nat unat_faddr)

lemma faddr_inj: "f < 2 ^ 40 \<Longrightarrow> g < 2 ^ 40 \<Longrightarrow> faddr f = faddr g \<longleftrightarrow> f = g"
  by (metis mult_cancel2 unat_faddr zero_neq_numeral)

text \<open>
  The allocator is well formed and hands out frames whose addresses fit the 52 bits an
  entry can hold.
\<close>

definition mach_ok :: "machine \<Rightarrow> bool" where
  "mach_ok st \<longleftrightarrow> frames_wf (FRAMES st) \<and> (\<forall>f\<in>free st. f < 2 ^ 40)"

lemma frame_phys_cases:
  assumes "mach_ok st"
  obtains (out) "frame_phys st = (Inl OutOfFrames, st)" "free st = {}"
  | (some) f fa where "frame_phys st = (Inr (faddr f), st\<lparr>FRAMES := fa\<rparr>)" "f \<in> free st" "f < 2 ^ 40"
      "mach_ok (st\<lparr>FRAMES := fa\<rparr>)" "set (free_list fa) = free st - {f}"
proof -
  have wf: "frames_wf (FRAMES st)" and bound: "\<forall>f\<in>free st. f < 2 ^ 40"
    using assms by (simp_all add: mach_ok_def)
  obtain r fa where a: "allocate (FRAMES st) = (r, fa)"
    by (cases "allocate (FRAMES st)")
  show ?thesis
  proof (cases r)
    case None
    with a fr.take_None [OF wf, of fa] show ?thesis
      by (intro out) (simp_all add: frame_phys_def allocate_frame_def)
  next
    case (Some f)
    have s: "frames_wf fa" "unat f \<in> free st" "set (free_list fa) = free st - {unat f}"
      using fr.take_Some [OF wf a [unfolded Some]] by blast+
    show ?thesis
    proof (rule some [of "unat f" fa])
      show "frame_phys st = (Inr (faddr (unat f)), st\<lparr>FRAMES := fa\<rparr>)"
        using a Some by (simp add: frame_phys_def allocate_frame_def faddr_def)
    qed (use s bound in \<open>auto simp: mach_ok_def\<close>)
  qed
qed

lemma zero_entries_pmem:
  "zero_entries p (window st) is st
     = st\<lparr>pmem := (\<lambda>a. if a \<in> cell p ` set is then 0 else pmem st a)\<rparr>"
proof (induction "is" arbitrary: st)
  case (Cons i "is")
  let ?st = "st\<lparr>pmem := (pmem st)(cell p i := 0)\<rparr>"
  have "zero_entries p (window st) (i # is) st = zero_entries p (window ?st) is ?st"
    by (simp add: table_access)
  also have "\<dots> = ?st\<lparr>pmem := (\<lambda>a. if a \<in> cell p ` set is then 0 else pmem ?st a)\<rparr>"
    by (rule Cons.IH)
  also have "\<dots> = st\<lparr>pmem := (\<lambda>a. if a \<in> cell p ` set (i # is) then 0 else pmem st a)\<rparr>"
    by (auto simp: fun_eq_iff intro!: machine.equality)
  finally show ?case .
qed simp

lemma alloc_table_cases:
  assumes "mach_ok st" "offset = window st"
  obtains (out) "alloc_table offset st = (Inl OutOfFrames, st)" "free st = {}"
  | (some) f fa where "alloc_table offset st = (Inr (faddr f), st\<lparr>FRAMES := fa,
        pmem := (\<lambda>a. if a \<in> cell (faddr f) ` {..<512} then 0 else pmem st a)\<rparr>)"
      "f \<in> free st" "f < 2 ^ 40" "mach_ok (st\<lparr>FRAMES := fa\<rparr>)" "set (free_list fa) = free st - {f}"
proof (rule frame_phys_cases [OF assms(1)])
  assume "frame_phys st = (Inl OutOfFrames, st)" "free st = {}"
  then show ?thesis
    by (intro out) (simp_all add: alloc_table_def)
next
  fix f fa
  assume a: "frame_phys st = (Inr (faddr f), st\<lparr>FRAMES := fa\<rparr>)" "f \<in> free st" "f < 2 ^ 40"
    "mach_ok (st\<lparr>FRAMES := fa\<rparr>)" "set (free_list fa) = free st - {f}"
  have "alloc_table offset st = (Inr (faddr f), st\<lparr>FRAMES := fa,
        pmem := (\<lambda>a. if a \<in> cell (faddr f) ` {..<512} then 0 else pmem st a)\<rparr>)"
    using zero_entries_pmem [of "faddr f" "st\<lparr>FRAMES := fa\<rparr>" "[0..<512]"] a(1)
    by (simp add: alloc_table_def zero_table_def assms(2) atLeast0LessThan cong: if_cong)
  with a show ?thesis
    by (intro some)
qed

section \<open>Growing a tree of tables\<close>

text \<open>
  \<open>tables_ok st n t\<close>: the tables below \<open>t\<close> form a tree and none of them is a free frame.
  \<open>grown st st' n t\<close>: from \<open>st\<close> to \<open>st'\<close> the tree below \<open>t\<close> grew by frames taken from the
  allocator, and no other table was written.
\<close>

definition tables_ok :: "machine \<Rightarrow> nat \<Rightarrow> u64 \<Rightarrow> bool" where
  "tables_ok st n t \<longleftrightarrow> mach_ok st \<and> table_addr t \<and> tree (pmem st) n t
     \<and> tabs (pmem st) n t \<inter> faddr ` free st = {}"

definition taken :: "machine \<Rightarrow> machine \<Rightarrow> u64 set" where
  "taken st st' = faddr ` (free st - free st')"

definition grown :: "machine \<Rightarrow> machine \<Rightarrow> nat \<Rightarrow> u64 \<Rightarrow> bool" where
  "grown st st' n t \<longleftrightarrow> mach_ok st' \<and> window st' = window st \<and> cr3 st' = cr3 st
     \<and> free st' \<subseteq> free st \<and> tree (pmem st') n t
     \<and> tabs (pmem st') n t \<subseteq> tabs (pmem st) n t \<union> taken st st'
     \<and> (\<forall>u. table_addr u \<longrightarrow> u \<notin> tabs (pmem st) n t \<longrightarrow> u \<notin> taken st st'
          \<longrightarrow> agree (pmem st) (pmem st') u)"

lemma grown_refl: "tables_ok st n t \<Longrightarrow> grown st st n t"
  by (auto simp: grown_def tables_ok_def agree_def)

lemma taken_trans:
  "free st1 \<subseteq> free st \<Longrightarrow> free st2 \<subseteq> free st1 \<Longrightarrow> taken st st2 = taken st st1 \<union> taken st1 st2"
  unfolding taken_def image_Un [symmetric] by (rule arg_cong [where f = "image faddr"]) blast

lemma agree_trans: "agree m m1 u \<Longrightarrow> agree m1 m2 u \<Longrightarrow> agree m m2 u"
  by (simp add: agree_def)

lemma grown_trans:
  assumes "grown st st1 n t" "grown st1 st2 n t"
  shows "grown st st2 n t"
proof -
  have sub: "taken st st2 = taken st st1 \<union> taken st1 st2"
    using assms by (intro taken_trans) (auto simp: grown_def)
  have "agree (pmem st) (pmem st2) u"
    if u: "table_addr u" "u \<notin> tabs (pmem st) n t" "u \<notin> taken st st2" for u
  proof (rule agree_trans)
    show "agree (pmem st) (pmem st1) u"
      using assms(1) u sub by (simp add: grown_def)
    have "u \<notin> tabs (pmem st1) n t"
      using assms(1) u sub by (auto simp: grown_def)
    then show "agree (pmem st1) (pmem st2) u"
      using assms(2) u sub by (simp add: grown_def)
  qed
  with assms sub show ?thesis
    by (auto simp: grown_def)
qed

lemma taken_disjoint_free:
  assumes "mach_ok st" "free st' \<subseteq> free st"
  shows "taken st st' \<inter> faddr ` free st' = {}"
proof -
  have "inj_on faddr (free st)"
    using assms(1) faddr_inj by (auto simp: inj_on_def mach_ok_def)
  then have "taken st st' \<inter> faddr ` free st' = faddr ` ((free st - free st') \<inter> free st')"
    using assms(2) unfolding taken_def by (intro inj_on_image_Int [symmetric]) auto
  then show ?thesis
    by auto
qed

lemma grown_tables_ok:
  assumes "tables_ok st n t" "grown st st' n t"
  shows "tables_ok st' n t"
proof -
  have "tabs (pmem st') n t \<subseteq> tabs (pmem st) n t \<union> taken st st'" "free st' \<subseteq> free st"
    using assms(2) by (simp_all add: grown_def)
  moreover have "taken st st' \<inter> faddr ` free st' = {}"
    using assms taken_disjoint_free by (simp add: tables_ok_def grown_def)
  moreover have "tabs (pmem st) n t \<inter> faddr ` free st = {}"
    using assms(1) by (simp add: tables_ok_def)
  ultimately have "tabs (pmem st') n t \<inter> faddr ` free st' = {}"
    by blast
  then show ?thesis
    using assms by (simp add: tables_ok_def grown_def)
qed

lemma walk_child:
  "child m (Suc n) t i = Some u \<Longrightarrow> 0 < n \<Longrightarrow> walk m (Suc n) t (i # js) = walk m n u js"
  by (auto simp: child_def Let_def split: if_splits)

text \<open>Growing the tree below one entry of \<open>t\<close> grows the tree below \<open>t\<close> and leaves the rest alone.\<close>

lemma grown_child:
  assumes ok: "tables_ok st (Suc n) t" and u: "child (pmem st) (Suc n) t i = Some u" "i < 512"
    and g: "grown st st' n u"
  shows "agree (pmem st) (pmem st') t" "grown st st' (Suc n) t"
    "\<forall>j w. j < 512 \<longrightarrow> j \<noteq> i \<longrightarrow> child (pmem st) (Suc n) t j = Some w \<longrightarrow>
       (\<forall>x\<in>tabs (pmem st) n w. agree (pmem st) (pmem st') x)"
proof -
  let ?m = "pmem st" and ?m' = "pmem st'"
  have tr: "tree ?m (Suc n) t" and disj: "tabs ?m (Suc n) t \<inter> faddr ` free st = {}"
    and addr: "table_addr t"
    using ok by (auto simp: tables_ok_def)
  have taken: "taken st st' \<subseteq> faddr ` free st"
    by (auto simp: taken_def)
  have unchanged: "agree ?m ?m' x" if "table_addr x" "x \<notin> tabs ?m n u" "x \<in> tabs ?m (Suc n) t" for x
  proof -
    have "x \<notin> taken st st'"
      using that(3) disj taken by blast
    with g that(1,2) show ?thesis
      by (simp add: grown_def)
  qed
  show t: "agree ?m ?m' t"
    using tr u addr by (intro unchanged) (auto simp: tree.simps)
  have other: "\<forall>x\<in>tabs ?m n w. agree ?m ?m' x"
    if "j < 512" "j \<noteq> i" "child ?m (Suc n) t j = Some w" for j w
  proof
    fix x
    assume x: "x \<in> tabs ?m n w"
    then have "x \<notin> tabs ?m n u"
      using tree_disjoint [OF tr u(1) that(3) u(2) that(1)] that(2) by blast
    with x that show "agree ?m ?m' x"
      using tabs_child [OF that(3,1)] table_addr_tabs [OF x child_table_addr [OF that(3)]]
      by (intro unchanged) auto
  qed
  then show "\<forall>j w. j < 512 \<longrightarrow> j \<noteq> i \<longrightarrow> child ?m (Suc n) t j = Some w \<longrightarrow>
       (\<forall>x\<in>tabs ?m n w. agree ?m ?m' x)"
    by blast
  have child: "child ?m' (Suc n) t j = child ?m (Suc n) t j" if "j < 512" for j
    using t that by (rule child_agree)
  have gu: "tree ?m' n u" "tabs ?m' n u \<subseteq> tabs ?m n u \<union> taken st st'"
    using g by (auto simp: grown_def)
  have same: "tree ?m' n w = tree ?m n w" "tabs ?m' n w = tabs ?m n w"
    if "j < 512" "j \<noteq> i" "child ?m (Suc n) t j = Some w" for j w
    using tree_cong [OF other [OF that]] tabs_cong [OF other [OF that]] by auto
  have sub: "tabs ?m' n w \<subseteq> tabs ?m n w \<union> taken st st'" if "j < 512" "child ?m (Suc n) t j = Some w" for j w
    using gu same that u by (cases "j = i") auto
  have all: "tabs ?m n w \<inter> taken st st' = {}" "t \<notin> taken st st'"
    if "j < 512" "child ?m (Suc n) t j = Some w" for j w
    using disj taken tabs_child [OF that(2,1)] tabs_self [of t ?m n] by blast+
  have "tree ?m' (Suc n) t"
    unfolding tree.simps
  proof (intro allI impI)
    fix j w
    assume j: "j < 512" "child ?m' (Suc n) t j = Some w"
    then have w: "child ?m (Suc n) t j = Some w"
      by (simp add: child)
    have "tabs ?m' n w \<inter> tabs ?m' n x = {}"
      if x: "k < 512" "k \<noteq> j" "child ?m' (Suc n) t k = Some x" for k x
    proof -
      have x': "child ?m (Suc n) t k = Some x"
        using x by (simp add: child)
      have "tabs ?m n w \<inter> tabs ?m n x = {}"
        using tr j(1) w x(1,2) x' by (auto simp: tree.simps)
      then show ?thesis
        using sub [OF j(1) w] sub [OF x(1) x'] all [OF j(1) w] all [OF x(1) x'] same [OF j(1) _ w]
          same [OF x(1) _ x'] x(2)
        by (cases "j = i") auto
    qed
    moreover have "tree ?m' n w"
      using gu same [OF j(1) _ w] tr j(1) w u by (cases "j = i") (auto simp: tree.simps)
    moreover have "t \<notin> tabs ?m' n w"
      using sub [OF j(1) w] all [OF j(1) w] tr j(1) w by (auto simp: tree.simps)
    ultimately show "tree ?m' n w \<and> t \<notin> tabs ?m' n w \<and>
      (\<forall>k<512. \<forall>x. k \<noteq> j \<longrightarrow> child ?m' (Suc n) t k = Some x \<longrightarrow> tabs ?m' n w \<inter> tabs ?m' n x = {})"
      by blast
  qed
  moreover have "tabs ?m' (Suc n) t \<subseteq> tabs ?m (Suc n) t \<union> taken st st'"
  proof -
    have "tabs ?m' n w \<subseteq> tabs ?m (Suc n) t \<union> taken st st'"
      if "j < 512" "child ?m (Suc n) t j = Some w" for j w
      using sub [OF that] tabs_child [OF that(2,1)] by blast
    then show ?thesis
      by (intro tabs_subsetI) (simp_all add: child)
  qed
  moreover have "\<forall>x. table_addr x \<longrightarrow> x \<notin> tabs ?m (Suc n) t \<longrightarrow> x \<notin> taken st st' \<longrightarrow> agree ?m ?m' x"
    using g tabs_child [OF u] by (auto simp: grown_def)
  ultimately show "grown st st' (Suc n) t"
    using g by (simp add: grown_def)
qed

text \<open>
  One level of the mapping walk: it ends at the child of the entry, the tree has grown by
  at most one empty table, and every translation is as before.
\<close>

lemma fresh_table_grown:
  assumes ok: "tables_ok st (Suc n) t" and n: "0 < n" and i: "i < 512"
    and absent: "pmem st (cell t i) AND PRESENT = 0"
    and f: "f \<in> free st" "f < 2 ^ 40" "mach_ok (st\<lparr>FRAMES := fa\<rparr>)" "set (free_list fa) = free st - {f}"
    and e: "e AND PRESENT \<noteq> 0" "e AND push_bit 7 1 = 0" "e AND ADDR_MASK = faddr f"
  defines "m' \<equiv> (\<lambda>a. if a \<in> cell (faddr f) ` {..<512} then 0 else pmem st a)(cell t i := e)"
  defines "st' \<equiv> st\<lparr>FRAMES := fa, pmem := m'\<rparr>"
  shows "grown st st' (Suc n) t" "child (pmem st') (Suc n) t i = Some (faddr f)"
    "length js = Suc n \<Longrightarrow> \<forall>j\<in>set js. j < 512 \<Longrightarrow> walk (pmem st') (Suc n) t js = walk (pmem st) (Suc n) t js"
proof -
  let ?m = "pmem st" and ?p = "faddr f"
  have tr: "tree ?m (Suc n) t" and disj: "tabs ?m (Suc n) t \<inter> faddr ` free st = {}"
    and t: "table_addr t" and p: "table_addr ?p"
    using ok f(2) by (auto simp: tables_ok_def table_addr_faddr)
  have p_new: "?p \<notin> tabs ?m (Suc n) t"
    using disj f(1) by blast
  then have "?p \<noteq> t"
    using tabs_self by metis
  have in_p: "cell x j \<in> cell ?p ` {..<512} \<longleftrightarrow> x = ?p" if "table_addr x" "j < 512" for x j
    using that p by (auto simp: cell_inj)
  have zero: "\<forall>j<512. m' (cell ?p j) = 0"
    using \<open>?p \<noteq> t\<close> t p i by (auto simp: m'_def cell_inj)
  have at_t: "m' (cell t j) = (if j = i then e else ?m (cell t j))" if "j < 512" for j
    using that \<open>?p \<noteq> t\<close> t i by (simp add: m'_def in_p cell_inj)
  have keep: "agree ?m m' x" if "table_addr x" "x \<noteq> ?p" "x \<noteq> t" for x
    using that t i by (auto simp: agree_def m'_def in_p cell_inj)
  have child_i: "child m' (Suc n) t i = Some ?p"
    using e at_t [OF i] by (simp add: child_def)
  then show "child (pmem st') (Suc n) t i = Some (faddr f)"
    by (simp add: st'_def)
  have child_j: "child m' (Suc n) t j = child ?m (Suc n) t j" if "j < 512" "j \<noteq> i" for j
    using that by (simp add: child_def at_t)
  have none: "child ?m (Suc n) t i = None"
    using absent by (simp add: child_def)
  have below: "\<forall>x\<in>tabs ?m n w. agree ?m m' x" if "j < 512" "child ?m (Suc n) t j = Some w" for j w
    using that tr p_new tabs_child [OF that(2,1)] table_addr_tabs [OF _ child_table_addr [OF that(2)]]
    by (intro ballI keep) (auto simp: tree.simps)
  note same = tree_cong [OF below] tabs_cong [OF below]
  obtain k where k: "n = Suc k"
    using n by (cases n) auto
  note new = zero_table_walk(2-4) [OF zero, where k = k, folded k]
  have "tree m' (Suc n) t"
    unfolding tree.simps
  proof (intro allI impI)
    fix j w
    assume j: "j < 512" "child m' (Suc n) t j = Some w"
    have tabs_j: "tabs m' n w = (if j = i then {?p} else tabs ?m n w)"
      using j child_i child_j new same by (cases "j = i") auto
    have "tabs m' n w \<inter> tabs m' n x = {}"
      if x: "l < 512" "l \<noteq> j" "child m' (Suc n) t l = Some x" for l x
    proof -
      have "tabs m' n x = (if l = i then {?p} else tabs ?m n x)"
        using x child_i child_j new same by (cases "l = i") auto
      moreover have "?p \<notin> tabs ?m n y" if "child ?m (Suc n) t a = Some y" "a < 512" for a y
        using p_new tabs_child [OF that] by blast
      moreover have "tabs ?m n w \<inter> tabs ?m n x = {}" if "j \<noteq> i" "l \<noteq> i"
        using tree_disjoint [OF tr] j x child_j that by metis
      ultimately show ?thesis
        using tabs_j j x child_j by auto
    qed
    moreover have "tree m' n w \<and> t \<notin> tabs m' n w"
      using j child_i child_j new same tr \<open>?p \<noteq> t\<close> by (cases "j = i") (auto simp: tree.simps)
    ultimately show "tree m' n w \<and> t \<notin> tabs m' n w \<and>
      (\<forall>l<512. \<forall>x. l \<noteq> j \<longrightarrow> child m' (Suc n) t l = Some x \<longrightarrow> tabs m' n w \<inter> tabs m' n x = {})"
      by blast
  qed
  moreover have taken: "taken st st' = {?p}"
    using f(1,4) by (auto simp: taken_def st'_def)
  moreover have "tabs m' (Suc n) t \<subseteq> tabs ?m (Suc n) t \<union> {?p}"
  proof -
    have "tabs m' n w \<subseteq> tabs ?m (Suc n) t \<union> {?p}" if "j < 512" "child m' (Suc n) t j = Some w" for j w
    proof (cases "j = i")
      case False
      then have "child ?m (Suc n) t j = Some w"
        using that child_j by simp
      then show ?thesis
        using same(2) [OF that(1)] tabs_child [OF _ that(1)] by blast
    qed (use that child_i new in auto)
    then show ?thesis
      by (intro tabs_subsetI) simp_all
  qed
  moreover have "\<forall>x. table_addr x \<longrightarrow> x \<notin> tabs ?m (Suc n) t \<longrightarrow> x \<noteq> ?p \<longrightarrow> agree ?m m' x"
    using keep tabs_self by metis
  ultimately show "grown st st' (Suc n) t"
    using f by (auto simp: grown_def st'_def mach_ok_def)
  show "walk (pmem st') (Suc n) t js = walk (pmem st) (Suc n) t js"
    if len: "length js = Suc n" and js: "\<forall>j\<in>set js. j < 512"
  proof -
    obtain j ks where jk: "js = j # ks" "length ks = n" "j < 512" "\<forall>j\<in>set ks. j < 512"
      using len js by (cases js) auto
    have "walk m' (Suc n) t (j # ks) = walk ?m (Suc n) t (j # ks)"
    proof (cases "j = i")
      case True
      then show ?thesis
        using walk_child [OF child_i n] new(3) [OF jk(4)] absent n by simp
    next
      case False
      show ?thesis
      proof (cases "child ?m (Suc n) t j")
        case None
        with False jk(3) show ?thesis
          by (auto simp: at_t Let_def child_def split: if_splits)
      next
        case (Some w)
        then have "walk m' n w ks = walk ?m n w ks"
          using below [OF jk(3) Some] jk by (intro walk_cong)
        with Some False jk(3) show ?thesis
          using walk_child [OF Some n] walk_child [of m' n t j w, OF _ n] child_j by simp
      qed
    qed
    then show ?thesis
      by (simp add: jk(1) st'_def)
  qed
qed

lemma next_level_grown:
  assumes ok: "tables_ok st (Suc n) t" and n: "0 < n" and i: "i < 512"
    and clear: "walk (pmem st) (Suc n) t (i # is) AND PRESENT = 0"
    and run: "next_level (window st) user t i st = (r, st')"
  shows "grown st st' (Suc n) t"
    and "\<forall>js. length js = Suc n \<longrightarrow> (\<forall>j\<in>set js. j < 512) \<longrightarrow>
      walk (pmem st') (Suc n) t js = walk (pmem st) (Suc n) t js"
    and "case r of Inl e \<Rightarrow> e = OutOfFrames | Inr u \<Rightarrow> child (pmem st') (Suc n) t i = Some u"
proof -
  let ?P = "grown st st' (Suc n) t \<and> (\<forall>js. length js = Suc n \<longrightarrow> (\<forall>j\<in>set js. j < 512) \<longrightarrow>
      walk (pmem st') (Suc n) t js = walk (pmem st) (Suc n) t js)
    \<and> (case r of Inl e \<Rightarrow> e = OutOfFrames | Inr u \<Rightarrow> child (pmem st') (Suc n) t i = Some u)"
  have ?P
  proof (cases "pmem st (cell t i) AND PRESENT = 0")
    case False
    then have "st' = st" "r = Inr (pmem st (cell t i) AND ADDR_MASK)"
      using run by (auto simp: next_level_def table_access Let_def)
    moreover from False clear n have "child (pmem st) (Suc n) t i = Some (pmem st (cell t i) AND ADDR_MASK)"
      by (auto simp: child_def Let_def split: if_splits)
    ultimately show ?thesis
      using grown_refl [OF ok] by simp
  next
    case True
    have mach: "mach_ok st"
      using ok by (simp add: tables_ok_def)
    show ?thesis
    proof (rule alloc_table_cases [OF mach refl])
      assume "alloc_table (window st) st = (Inl OutOfFrames, st)"
      with True run have "st' = st" "r = Inl OutOfFrames"
        by (auto simp: next_level_def table_access)
      then show ?thesis
        using grown_refl [OF ok] by simp
    next
      fix f fa
      let ?e = "entry_pointer (faddr f) True True OR (if user then USER else 0)"
      let ?z = "\<lambda>a. if a \<in> cell (faddr f) ` {..<512} then 0 else pmem st a"
      assume a: "alloc_table (window st) st = (Inr (faddr f), st\<lparr>FRAMES := fa, pmem := ?z\<rparr>)"
        "f \<in> free st" "f < 2 ^ 40" "mach_ok (st\<lparr>FRAMES := fa\<rparr>)" "set (free_list fa) = free st - {f}"
      note entry = entry_pointer_decode [OF table_addr_faddr [OF a(3)], of user]
      have "table_write t (window st) i ?e (st\<lparr>FRAMES := fa, pmem := ?z\<rparr>)
          = st\<lparr>FRAMES := fa, pmem := ?z(cell t i := ?e)\<rparr>"
        using table_access(2) [of t "st\<lparr>FRAMES := fa, pmem := ?z\<rparr>" i ?e] by simp
      with True run a(1) have "st' = st\<lparr>FRAMES := fa, pmem := ?z(cell t i := ?e)\<rparr>" "r = Inr (faddr f)"
        by (auto simp: next_level_def table_access)
      with fresh_table_grown [OF ok n i True a(2-5) entry] show ?thesis
        by simp
    qed
  qed
  then show "grown st st' (Suc n) t"
    and "\<forall>js. length js = Suc n \<longrightarrow> (\<forall>j\<in>set js. j < 512) \<longrightarrow>
      walk (pmem st') (Suc n) t js = walk (pmem st) (Suc n) t js"
    and "case r of Inl e \<Rightarrow> e = OutOfFrames | Inr u \<Rightarrow> child (pmem st') (Suc n) t i = Some u"
    by blast+
qed

section \<open>Mapping a page\<close>

text \<open>The three \<open>next_level\<close> steps and the leaf write of \<open>map_page_impl\<close>, as one recursion.\<close>

fun map_walk ::
  "u64 \<Rightarrow> bool \<Rightarrow> u64 \<Rightarrow> nat list \<Rightarrow> u64 \<Rightarrow> machine \<Rightarrow> (paging_error + unit) \<times> machine" where
  "map_walk offset user leaf [] t st = (Inr (), st)"
| "map_walk offset user leaf [i] t st = (Inr (), table_write t offset i leaf st)"
| "map_walk offset user leaf (i # j # is) t st =
     (case next_level offset user t i st of
        (Inl e, st) \<Rightarrow> (Inl e, st)
      | (Inr u, st) \<Rightarrow> map_walk offset user leaf (j # is) u st)"

definition leaf_entry :: "u64 \<Rightarrow> bool \<Rightarrow> bool \<Rightarrow> u64" where
  "leaf_entry phys user nx =
     (if nx then entry_page phys True True user OR NX else entry_page phys True True user)"

lemma map_page_impl_walk:
  "map_page_impl offset virt phys user nx st =
     (case map_walk offset user (leaf_entry phys user nx) (idxs virt) (root st) st of
        (Inl e, st) \<Rightarrow> (Inl e, st)
      | (Inr _, st) \<Rightarrow> (Inr (), st\<lparr>invalidated := virt # invalidated st\<rparr>))"
  by (simp add: map_page_impl_def idxs_def leaf_entry_def current_cr3_def Let_def
      split: prod.splits sum.splits)

lemma map_leaf_grown:
  assumes ok: "tables_ok st (Suc 0) t" and i: "i < 512"
  shows "grown st (st\<lparr>pmem := (pmem st)(cell t i := leaf)\<rparr>) (Suc 0) t"
proof -
  have t: "table_addr t"
    using ok by (simp add: tables_ok_def)
  have single: "tabs m (Suc 0) t = {t}" "tree m (Suc 0) t" for m
    by (auto simp: tabs.simps(2) tree.simps(2) split: option.splits)
  have "agree (pmem st) ((pmem st)(cell t i := leaf)) u" if "table_addr u" "u \<noteq> t" for u
    using that t i by (auto simp: agree_def cell_inj)
  with ok show ?thesis
    by (auto simp: grown_def tables_ok_def mach_ok_def single)
qed

lemma map_walk_grown:
  assumes "tables_ok st n t" "length is = n" "0 < n" "\<forall>i\<in>set is. i < 512"
    and "walk (pmem st) n t is AND PRESENT = 0"
    and "map_walk (window st) user leaf is t st = (r, st')"
  shows "grown st st' n t
    \<and> (\<forall>js. length js = n \<longrightarrow> (\<forall>j\<in>set js. j < 512) \<longrightarrow> js \<noteq> is \<or> r \<noteq> Inr () \<longrightarrow>
         walk (pmem st') n t js = walk (pmem st) n t js)
    \<and> (r = Inr () \<longrightarrow> walk (pmem st') n t is = leaf)"
  using assms
proof (induction "is" arbitrary: n t st)
  case (Cons i "is")
  show ?case
  proof (cases "is")
    case Nil
    have t: "table_addr t" and i: "i < 512" and n: "n = Suc 0"
      using Cons.prems Nil by (auto simp: tables_ok_def)
    have st': "r = Inr ()" "st' = st\<lparr>pmem := (pmem st)(cell t i := leaf)\<rparr>"
      using Cons.prems Nil by (simp_all add: table_access)
    have "walk (pmem st') n t js = walk (pmem st) n t js"
      if "length js = n" "\<forall>j\<in>set js. j < 512" "js \<noteq> [i]" for js
      using that t i by (cases js) (auto simp: n st' cell_inj)
    moreover have "walk (pmem st') n t [i] = leaf"
      by (simp add: n st')
    moreover have "grown st st' n t"
      using map_leaf_grown Cons.prems(1) i unfolding st' n by blast
    ultimately show ?thesis
      using st'(1) unfolding Nil by blast
  next
    case (Cons j ks)
    obtain k where k: "n = Suc k" "0 < k" "length is = k"
      using Cons.prems(2) Cons by auto
    have i: "i < 512"
      using Cons.prems(4) by simp
    note ok = Cons.prems(1) [unfolded k(1)]
    obtain q st1 where step: "next_level (window st) user t i st = (q, st1)"
      by (cases "next_level (window st) user t i st")
    note lvl = next_level_grown [OF ok k(2) i Cons.prems(5) [unfolded k(1)] step]
    show ?thesis
    proof (cases q)
      case (Inl e)
      then have "st' = st1" "r = Inl e"
        using Cons.prems(6) step Cons by simp_all
      then show ?thesis
        using lvl k(1) by simp
    next
      case (Inr u)
      have u: "child (pmem st1) (Suc k) t i = Some u" and win: "window st1 = window st"
        using lvl Inr by (simp_all add: grown_def)
      have run: "map_walk (window st1) user leaf is u st1 = (r, st')"
        using Cons.prems(6) step Inr Cons win by simp
      have ok1: "tables_ok st1 (Suc k) t"
        by (rule grown_tables_ok [OF ok lvl(1)])
      have disj: "tabs (pmem st1) (Suc k) t \<inter> faddr ` free st1 = {}"
        using ok1 by (simp add: tables_ok_def)
      have oku: "tables_ok st1 k u"
        using ok1 u i tabs_child [OF u i] disj child_table_addr [OF u]
        by (auto simp: tables_ok_def tree.simps(2))
      have "walk (pmem st1) (Suc k) t (i # is) = walk (pmem st) (Suc k) t (i # is)"
        using lvl(2) Cons.prems(2,4) k(1) by (simp del: walk.simps)
      then have clear: "walk (pmem st1) k u is AND PRESENT = 0"
        using Cons.prems(5) walk_child [OF u k(2), of "is"] k(1) by (simp del: walk.simps)
      note ih = Cons.IH [OF oku k(3,2) _ clear run]
      have gu: "grown st1 st' k u"
        using ih Cons.prems(4) by simp
      note up = grown_child [OF ok1 u i gu]
      have walks: "walk (pmem st') (Suc k) t js = walk (pmem st1) (Suc k) t js"
        if js: "length js = Suc k" "\<forall>j\<in>set js. j < 512" "js \<noteq> i # is \<or> r \<noteq> Inr ()" for js
      proof -
        obtain a bs where ab: "js = a # bs" "length bs = k" "a < 512" "\<forall>j\<in>set bs. j < 512"
          using js(1,2) by (cases js) auto
        have cells: "pmem st' (cell t a) = pmem st1 (cell t a)"
          using up(1) ab(3) by (simp add: agree_def)
        show ?thesis
        proof (cases "child (pmem st1) (Suc k) t a")
          case None
          then show ?thesis
            using cells by (auto simp: ab(1) Let_def child_def split: if_splits)
        next
          case (Some w)
          then have w': "child (pmem st') (Suc k) t a = Some w"
            using child_agree [OF up(1) ab(3)] by simp
          have "walk (pmem st') k w bs = walk (pmem st1) k w bs"
          proof (cases "a = i")
            case True
            then have "w = u" "bs \<noteq> is \<or> r \<noteq> Inr ()"
              using Some u js(3) ab(1) by auto
            then show ?thesis
              using ih Cons.prems(4) ab by simp
          next
            case False
            then have "\<forall>x\<in>tabs (pmem st1) k w. agree (pmem st1) (pmem st') x"
              using up(3) ab(3) Some by blast
            then show ?thesis
              using ab by (intro walk_cong)
          qed
          then show ?thesis
            using walk_child [OF Some k(2)] walk_child [OF w' k(2)] ab(1) by simp
        qed
      qed
      have "walk (pmem st') (Suc k) t (i # is) = leaf" if "r = Inr ()"
        using ih that Cons.prems(4) walk_child [of "pmem st'", OF _ k(2)] child_agree [OF up(1) i] u
        by simp
      moreover have "grown st st' n t"
        unfolding k(1) by (rule grown_trans [OF lvl(1) up(2)])
      ultimately show ?thesis
        using walks lvl(2) k(1) by simp
    qed
  qed
qed simp

text \<open>Two virtual addresses have the same indices when they lie in the same page of the 48-bit space.\<close>

definition page_of :: "u64 \<Rightarrow> nat" where
  "page_of v = unat v mod 2 ^ 48 div 2 ^ 12"

lemma page_of_idxs:
  "page_of v = ((index4 v * 512 + index3 v) * 512 + index2 v) * 512 + index1 v"
proof -
  let ?x = "unat v div 2 ^ 12"
  have "page_of v = ?x mod (512 * (512 * (512 * 512)))"
    using mod_mult2_eq [of "unat v" "2 ^ 12" "2 ^ 36"] by (simp add: page_of_def)
  also have "\<dots> = ((index4 v * 512 + index3 v) * 512 + index2 v) * 512 + index1 v"
    unfolding mod_split [of ?x] mod_split [of "?x div 512"] mod_split [of "?x div 512 div 512"]
    by (simp add: index_nat flip: div_mult2_eq)
  finally show ?thesis .
qed

lemma idxs_eq_iff: "idxs v = idxs w \<longleftrightarrow> page_of v = page_of w"
proof
  have digits: "i = j \<and> a = b" if "i < 512" "j < 512" "a * 512 + i = b * 512 + j" for a b i j :: nat
  proof -
    have "(a * 512 + i) mod 512 = (b * 512 + j) mod 512" "(a * 512 + i) div 512 = (b * 512 + j) div 512"
      using that(3) by simp_all
    then show ?thesis
      using that(1,2) by simp
  qed
  assume "page_of v = page_of w"
  then show "idxs v = idxs w"
    using digits unfolding page_of_idxs idxs_def by (metis index_less)
qed (simp add: page_of_idxs idxs_def)

lemma map_page_impl_ok:
  assumes "tables_ok st 4 (root st)" "translate st (window st) virt AND PRESENT = 0"
    and "map_page_impl (window st) virt phys user nx st = (r, st')"
  shows "grown st st' 4 (root st)"
    and "r = Inr () \<or> r = Inl OutOfFrames"
    and "\<forall>v. page_of v \<noteq> page_of virt \<or> r \<noteq> Inr () \<longrightarrow>
      translate st' (window st) v = translate st (window st) v"
    and "r = Inr () \<longrightarrow> translate st' (window st) virt = leaf_entry phys user nx"
proof -
  obtain q st1 where run: "map_walk (window st) user (leaf_entry phys user nx) (idxs virt) (root st) st = (q, st1)"
    by (cases "map_walk (window st) user (leaf_entry phys user nx) (idxs virt) (root st) st")
  have res: "r = q" "pmem st' = pmem st1" "cr3 st' = cr3 st1" "window st' = window st1"
      "FRAMES st' = FRAMES st1"
    using assms(3) run by (auto simp: map_page_impl_walk split: sum.splits)
  note w = map_walk_grown [OF assms(1) idxs_ok(1) _ idxs_ok(2) _ run]
  have clear: "walk (pmem st) 4 (root st) (idxs virt) AND PRESENT = 0"
    using assms(2) by (simp add: translate_walk)
  then have g: "grown st st1 4 (root st)"
    using w by simp
  then show "grown st st' 4 (root st)"
    by (simp add: grown_def res taken_def mach_ok_def)
  have st': "cr3 st' = cr3 st" "window st' = window st"
    using g by (simp_all add: grown_def res)
  show "r = Inr () \<or> r = Inl OutOfFrames"
    by (cases r) (auto intro: paging_error.exhaust)
  have tr: "translate st' (window st) v = walk (pmem st1) 4 (root st) (idxs v)" for v
    using translate_walk [of st' v] by (simp add: st' res(2))
  show "\<forall>v. page_of v \<noteq> page_of virt \<or> r \<noteq> Inr () \<longrightarrow>
      translate st' (window st) v = translate st (window st) v"
    unfolding tr translate_walk using w clear res(1) by (auto simp: idxs_eq_iff)
  show "r = Inr () \<longrightarrow> translate st' (window st) virt = leaf_entry phys user nx"
    unfolding tr using w clear res(1) by auto
qed

lemma leaf_entry_decode:
  "leaf_entry phys user nx AND PRESENT \<noteq> 0"
  "leaf_entry phys user nx AND ADDR_MASK = phys AND ADDR_MASK"
  "leaf_entry phys user nx AND USER \<noteq> 0 \<longleftrightarrow> user"
  "leaf_entry phys user nx AND NX \<noteq> 0 \<longleftrightarrow> nx"
proof -
  let ?e = "leaf_entry phys user nx"
  have bits: "bit ?e n \<longleftrightarrow> (12 \<le> n \<and> n < 52 \<and> bit phys n) \<or> n = 0 \<or> n = 1 \<or> (n = 2 \<and> user) \<or> (n = 63 \<and> nx)" for n
    by (auto simp: leaf_entry_def entry_bits bit_or_iff NX_def bit_flags)
  show "?e AND ADDR_MASK = phys AND ADDR_MASK"
    by (rule bit_word_eqI) (auto simp: bit_and_iff bits ADDR_MASK_eq bit_simps)
  have flag: "?e AND push_bit k 1 \<noteq> 0 \<longleftrightarrow> bit ?e k" if "k < 64" for k
    by (simp add: push_bit_eq_mult and_exp_eq_0_iff_not_bit)
  show "?e AND PRESENT \<noteq> 0" "?e AND USER \<noteq> 0 \<longleftrightarrow> user" "?e AND NX \<noteq> 0 \<longleftrightarrow> nx"
    unfolding PRESENT_def USER_def NX_def by (subst flag; simp add: bits)+
qed

section \<open>Taking over the tables\<close>

lemma disjoint_insert_subset:
  "A \<subseteq> insert x B \<Longrightarrow> x \<notin> F \<Longrightarrow> F \<subseteq> G \<Longrightarrow> B \<inter> G = {} \<Longrightarrow> A \<inter> F = {}"
  by blast

lemma copy_entries_pmem:
  assumes "table_addr old" "table_addr new" "old \<noteq> new" "\<forall>i\<in>set is. i < 512"
  shows "\<exists>m'. copy_entries old new (window st) is st = st\<lparr>pmem := m'\<rparr>
    \<and> (\<forall>i\<in>set is. m' (cell new i) = pmem st (cell old i))
    \<and> (\<forall>a. a \<notin> cell new ` set is \<longrightarrow> m' a = pmem st a)"
  using assms(4)
proof (induction "is" arbitrary: st)
  case Nil
  show ?case
    by (rule exI [of _ "pmem st"]) simp
next
  case (Cons i "is")
  let ?st = "st\<lparr>pmem := (pmem st)(cell new i := pmem st (cell old i))\<rparr>"
  have step: "copy_entries old new (window st) (i # is) st = copy_entries old new (window ?st) is ?st"
    by (simp add: table_access)
  have old: "pmem ?st (cell old j) = pmem st (cell old j)" if "j < 512" for j
    using assms(1-3) Cons.prems that by (simp add: cell_inj)
  obtain m' where m': "copy_entries old new (window ?st) is ?st = ?st\<lparr>pmem := m'\<rparr>"
      "\<forall>j\<in>set is. m' (cell new j) = pmem ?st (cell old j)"
      "\<forall>a. a \<notin> cell new ` set is \<longrightarrow> m' a = pmem ?st a"
    using Cons.IH [of ?st] Cons.prems by auto
  have "m' (cell new j) = pmem st (cell old j)" if "j \<in> set is" for j
    using m'(2) old that Cons.prems by auto
  moreover have "m' (cell new i) = pmem st (cell old i)" if "i \<notin> set is"
  proof -
    have "cell new i \<notin> cell new ` set is"
      using that Cons.prems assms(2) by (auto simp: cell_inj)
    then show ?thesis
      using m'(3) by simp
  qed
  ultimately have "\<forall>j\<in>set (i # is). m' (cell new j) = pmem st (cell old j)"
    by auto
  then show ?case
    using m'(1,3) step by (intro exI [of _ m']) simp
qed

lemma copied_root:
  assumes tr: "tree m (Suc n) old" and old: "table_addr old"
    and new: "table_addr new" "new \<notin> tabs m (Suc n) old"
    and copy: "\<forall>i<512. m' (cell new i) = m (cell old i)"
    and rest: "\<forall>u. table_addr u \<longrightarrow> u \<noteq> new \<longrightarrow> agree m m' u"
  shows "tree m' (Suc n) new" "tabs m' (Suc n) new \<subseteq> insert new (tabs m (Suc n) old)"
    "length is = Suc n \<Longrightarrow> \<forall>i\<in>set is. i < 512 \<Longrightarrow> walk m' (Suc n) new is = walk m (Suc n) old is"
proof -
  have child: "child m' (Suc n) new i = child m (Suc n) old i" if "i < 512" for i
    using copy that by (simp add: child_def)
  have below: "\<forall>x\<in>tabs m n w. agree m m' x" if "i < 512" "child m (Suc n) old i = Some w" for i w
    using tabs_child [OF that(2,1)] new(2) rest table_addr_tabs [OF _ child_table_addr [OF that(2)]] by blast
  note same = tree_cong [OF below] tabs_cong [OF below]
  have "new \<notin> tabs m n w" if "i < 512" "child m (Suc n) old i = Some w" for i w
    using tabs_child [OF that(2,1)] new(2) by blast
  then show "tree m' (Suc n) new"
    using tr same child unfolding tree.simps by simp
  show "tabs m' (Suc n) new \<subseteq> insert new (tabs m (Suc n) old)"
    using child same tabs_child [of m n old] by (intro tabs_subsetI) (auto, blast)
  show "walk m' (Suc n) new is = walk m (Suc n) old is"
    if len: "length is = Suc n" and bound: "\<forall>i\<in>set is. i < 512"
  proof -
    obtain i js where js: "is = i # js" "length js = n" "i < 512" "\<forall>i\<in>set js. i < 512"
      using len bound by (cases "is") auto
    have e: "m' (cell new i) = m (cell old i)"
      using copy js(3) by simp
    show ?thesis
    proof (cases "child m (Suc n) old i")
      case None
      then show ?thesis
        using e by (auto simp: js(1) Let_def child_def split: if_splits)
    next
      case (Some w)
      then have "walk m' n w js = walk m n w js"
        using below [OF js(3) Some] js by (intro walk_cong)
      moreover have "w = m (cell old i) AND ADDR_MASK"
        using Some by (auto simp: child_def Let_def split: if_splits)
      ultimately show ?thesis
        using e by (simp add: js(1) Let_def)
    qed
  qed
qed

lemma takeover_ok:
  assumes ok: "tables_ok st 4 (root st)" and run: "takeover (window st) st = (Inr c, st')"
  obtains f where "f \<in> free st" "c = faddr f" "cr3 st' = c" "window st' = window st"
    "PHYS_OFFSET st' = window st" "free st' = free st - {f}" "tables_ok st' 4 (root st')"
    "\<forall>v. translate st' (window st) v = translate st (window st) v"
    "\<forall>i<512. pmem st' (cell (root st') i) = pmem st (cell (root st) i)"
proof -
  let ?st0 = "st\<lparr>PHYS_OFFSET := window st\<rparr>"
  have mach: "mach_ok ?st0" and old: "table_addr (root st)" and tr: "tree (pmem st) 4 (root st)"
    and disj: "tabs (pmem st) 4 (root st) \<inter> faddr ` free st = {}"
    using ok by (auto simp: tables_ok_def mach_ok_def)
  show ?thesis
  proof (rule frame_phys_cases [OF mach])
    assume "frame_phys ?st0 = (Inl OutOfFrames, ?st0)"
    then show ?thesis
      using run by (auto simp: takeover_def frame_phys_def Let_def split: prod.splits option.splits)
  next
    fix f fa
    let ?st1 = "?st0\<lparr>FRAMES := fa\<rparr>" and ?new = "faddr f"
    assume a: "frame_phys ?st0 = (Inr ?new, ?st1)" "f \<in> free ?st0" "f < 2 ^ 40"
      "mach_ok ?st1" "set (free_list fa) = free ?st0 - {f}"
    then obtain g where g: "allocate_frame ?st0 = (Some g, ?st1)" "g * 4096 = ?new"
      by (auto simp: frame_phys_def split: prod.splits option.splits)
    have new: "table_addr ?new" "?new \<notin> tabs (pmem st) 4 (root st)"
      using a(2,3) disj by (auto simp: table_addr_faddr)
    have ne: "root st \<noteq> ?new"
      using new(2) tabs_self [of "root st" "pmem st" 3] by auto
    obtain m' where m': "copy_entries (root st) ?new (window ?st1) [0..<512] ?st1 = ?st1\<lparr>pmem := m'\<rparr>"
        "\<forall>i\<in>set [0..<512]. m' (cell ?new i) = pmem ?st1 (cell (root st) i)"
        "\<forall>a. a \<notin> cell ?new ` set [0..<512] \<longrightarrow> m' a = pmem ?st1 a"
      using copy_entries_pmem [OF old new(1) ne, of "[0..<512]" ?st1] by auto
    have st': "c = ?new" "st' = ?st1\<lparr>pmem := m', cr3 := ?new\<rparr>"
      using run g m'(1) by (auto simp: takeover_def current_cr3_def Let_def)
    have copy: "\<forall>i<512. m' (cell ?new i) = pmem st (cell (root st) i)"
      using m'(2) by simp
    have "cell u i \<notin> cell ?new ` {0..<512}" if "table_addr u" "u \<noteq> ?new" "i < 512" for u i
      using that new(1) by (auto simp: cell_inj)
    then have rest: "\<forall>u. table_addr u \<longrightarrow> u \<noteq> ?new \<longrightarrow> agree (pmem st) m' u"
      using m'(3) by (simp add: agree_def)
    have four: "Suc 3 = (4 :: nat)"
      by simp
    note root = copied_root [of "pmem st" 3 "root st" ?new m', unfolded four,
        OF tr old new copy rest]
    have root': "root st' = ?new"
      using new(1) by (simp add: st' table_addr_def)
    have "?new \<notin> faddr ` (free st - {f})"
      using a(2,3) ok faddr_inj by (auto simp: tables_ok_def mach_ok_def)
    then have "tabs m' 4 ?new \<inter> faddr ` (free st - {f}) = {}"
      by (rule disjoint_insert_subset [OF root(2) _ image_mono disj]) simp
    moreover have "tree m' 4 ?new"
      by (rule root(1))
    ultimately have "tables_ok st' 4 (root st')"
      using a(4,5) new(1) unfolding root' by (simp add: tables_ok_def mach_ok_def st')
    moreover have "\<forall>v. translate st' (window st) v = translate st (window st) v"
    proof
      fix v
      have "translate st' (window st) v = walk m' 4 ?new (idxs v)"
        using translate_walk [of st' v] root' by (simp add: st')
      also have "\<dots> = walk (pmem st) 4 (root st) (idxs v)"
        using root(3) idxs_ok by blast
      finally show "translate st' (window st) v = translate st (window st) v"
        by (simp add: translate_walk)
    qed
    moreover have "\<forall>i<512. pmem st' (cell (root st') i) = pmem st (cell (root st) i)"
      using copy root' by (simp add: st')
    ultimately show ?thesis
      using a(2,5) st' by (intro that [of f]) simp_all
  qed
qed

lemma takeover_total:
  assumes "mach_ok st" "free st \<noteq> {}"
  shows "\<exists>c st'. takeover offset st = (Inr c, st')"
proof -
  let ?st0 = "st\<lparr>PHYS_OFFSET := offset\<rparr>"
  have "mach_ok ?st0"
    using assms(1) by (simp add: mach_ok_def)
  then show ?thesis
  proof (cases rule: frame_phys_cases)
    case (some f fa)
    then show ?thesis
      by (auto simp: takeover_def frame_phys_def Let_def split: prod.splits option.splits)
  qed (use assms(2) in simp)
qed

section \<open>Mapping a range\<close>

lemma page_of_add: "page_of (base + word_of_nat i * 4096) = (page_of base + i) mod 2 ^ 36"
proof -
  have "unat (base + word_of_nat i * 4096) mod 2 ^ 48 = (unat base + i * 4096) mod 2 ^ 48"
  proof -
    have "unat (base + word_of_nat i * 4096) = (unat base + i * 4096) mod 2 ^ 64"
      by (simp add: unat_word_ariths unsigned_of_nat take_bit_eq_mod mod_simps)
    moreover have "(2 :: nat) ^ 48 dvd 2 ^ 64"
      by (rule le_imp_power_dvd) simp
    ultimately show ?thesis
      by (simp only: mod_mod_cancel)
  qed
  then have "page_of (base + word_of_nat i * 4096) = (unat base + i * 4096) mod 2 ^ 48 div 2 ^ 12"
    by (simp add: page_of_def)
  also have "\<dots> = (unat base + i * 4096) div 2 ^ 12 mod 2 ^ 36"
    using mod_mult2_eq [of "unat base + i * 4096" "2 ^ 12" "2 ^ 36"] by simp
  also have "\<dots> = (unat base div 2 ^ 12 + i) mod 2 ^ 36"
    by (simp add: add.commute)
  also have "\<dots> = (page_of base + i) mod 2 ^ 36"
    using mod_mult2_eq [of "unat base" "2 ^ 12" "2 ^ 36"] by (simp add: page_of_def mod_simps)
  finally show ?thesis .
qed

lemma page_of_range_inj:
  assumes "i < j" "j - i < 2 ^ 36"
  shows "page_of (base + word_of_nat i * 4096) \<noteq> page_of (base + word_of_nat j * 4096)"
proof
  assume "page_of (base + word_of_nat i * 4096) = page_of (base + word_of_nat j * 4096)"
  then have "(page_of base + j) mod 2 ^ 36 = (page_of base + i) mod 2 ^ 36"
    by (simp only: page_of_add)
  then have "2 ^ 36 dvd (page_of base + j) - (page_of base + i)"
    using assms(1) by (subst (asm) mod_eq_dvd_iff_nat) simp_all
  then have "2 ^ 36 dvd j - i"
    by simp
  then have "2 ^ 36 \<le> j - i"
    using assms(1) by (intro dvd_imp_le) simp_all
  with assms(2) show False
    by simp
qed

lemma tables_ok_take:
  assumes "tables_ok st n t" "mach_ok (st\<lparr>FRAMES := fa\<rparr>)" "set (free_list fa) \<subseteq> free st"
  shows "tables_ok (st\<lparr>FRAMES := fa\<rparr>) n t"
  using assms by (auto simp: tables_ok_def)

text \<open>
  \<open>range_mapped base i fs st st'\<close>: from \<open>st\<close> to \<open>st'\<close> the pages from the \<open>i\<close>-th page above
  \<open>base\<close> on have been mapped to the frames \<open>fs\<close>, all taken from the allocator, none of
  them used as a page table, and every other page translates as before.
\<close>

definition range_mapped :: "u64 \<Rightarrow> nat \<Rightarrow> nat list \<Rightarrow> nat \<Rightarrow> machine \<Rightarrow> machine \<Rightarrow> bool" where
  "range_mapped base i fs n st st' \<longleftrightarrow>
     tables_ok st' 4 (root st) \<and> cr3 st' = cr3 st \<and> window st' = window st
     \<and> free st' \<subseteq> free st \<and> distinct fs \<and> set fs \<subseteq> free st - free st'
     \<and> tabs (pmem st') 4 (root st) \<subseteq> tabs (pmem st) 4 (root st) \<union> taken st st'
     \<and> faddr ` set fs \<inter> tabs (pmem st') 4 (root st) = {}
     \<and> (\<forall>k<length fs. translate st' (window st) (base + word_of_nat (i + k) * 4096)
          = leaf_entry (faddr (fs ! k)) False False)
     \<and> (\<forall>v. (\<forall>k<n. page_of v \<noteq> page_of (base + word_of_nat (i + k) * 4096)) \<longrightarrow>
          translate st' (window st) v = translate st (window st) v)"

lemma range_mapped_Cons:
  assumes tl: "range_mapped base (Suc i) fs n st2 st'" and len: "Suc n \<le> 2 ^ 36"
    and st2: "cr3 st2 = cr3 st" "window st2 = window st" "free st2 \<subseteq> free st - {f}"
    and sub: "tabs (pmem st2) 4 (root st) \<subseteq> tabs (pmem st) 4 (root st) \<union> taken st st2"
    and f: "faddr f \<notin> tabs (pmem st2) 4 (root st)" "f \<in> free st" "inj_on faddr (free st)"
    and leaf: "translate st2 (window st) (base + word_of_nat i * 4096) = leaf_entry (faddr f) False False"
    and others: "\<forall>v. page_of v \<noteq> page_of (base + word_of_nat i * 4096) \<longrightarrow>
      translate st2 (window st) v = translate st (window st) v"
  shows "range_mapped base i (f # fs) (Suc n) st st'"
proof -
  let ?page = "\<lambda>k. base + word_of_nat k * 4096"
  have r: "free st' \<subseteq> free st2" "set fs \<subseteq> free st2 - free st'"
      "tabs (pmem st') 4 (root st) \<subseteq> tabs (pmem st2) 4 (root st) \<union> taken st2 st'"
    using tl st2(1) by (simp_all add: range_mapped_def)
  have split: "taken st st' = taken st st2 \<union> taken st2 st'"
    using r(1) st2(3) by (intro taken_trans) auto
  have "faddr f \<notin> taken st2 st'"
    using f(2,3) st2(3) by (auto simp: taken_def inj_on_def)
  then have f': "faddr f \<notin> tabs (pmem st') 4 (root st)"
    using f(1) r(3) by auto
  have far: "page_of (?page i) \<noteq> page_of (?page (Suc i + k))" if "k < n" for k
    using that len by (intro page_of_range_inj) simp_all
  then have keep: "translate st' (window st) (?page i) = translate st2 (window st) (?page i)"
    using tl st2(2) by (simp add: range_mapped_def)
  have "translate st' (window st) (?page (i + k)) = leaf_entry (faddr ((f # fs) ! k)) False False"
    if "k < Suc (length fs)" for k
  proof (cases k)
    case 0
    then show ?thesis
      using keep leaf by simp
  next
    case (Suc j)
    then have "translate st' (window st2) (?page (Suc i + j)) = leaf_entry (faddr (fs ! j)) False False"
      using tl that by (simp add: range_mapped_def)
    then show ?thesis
      using st2(2) Suc by simp
  qed
  moreover have "translate st' (window st) v = translate st (window st) v"
    if v: "\<forall>k<Suc n. page_of v \<noteq> page_of (?page (i + k))" for v
  proof -
    have "page_of v \<noteq> page_of (?page (Suc i + k))" if "k < n" for k
      using v [rule_format, of "Suc k"] that by simp
    then have "translate st' (window st2) v = translate st2 (window st2) v"
      using tl by (simp add: range_mapped_def)
    moreover have "page_of v \<noteq> page_of (?page i)"
      using v [rule_format, of 0] by simp
    ultimately show ?thesis
      using others st2(2) by simp
  qed
  moreover have "tabs (pmem st') 4 (root st) \<subseteq> tabs (pmem st) 4 (root st) \<union> taken st st'"
    using r(3) sub split by blast
  ultimately show ?thesis
    using tl st2 f(2) f' r unfolding range_mapped_def by auto
qed

lemma map_range_from_ok:
  assumes "tables_ok st 4 (root st)" "n \<le> 2 ^ 36"
    and "\<forall>k<n. translate st (window st) (base + word_of_nat (i + k) * 4096) AND PRESENT = 0"
    and "map_range_from (window st) base n i st = (r, st')"
  shows "\<exists>fs. range_mapped base i fs n st st' \<and> (r = Inr () \<longrightarrow> length fs = n)"
  using assms
proof (induction n arbitrary: i st)
  case 0
  then have "range_mapped base i [] 0 st st'" "r = Inr ()"
    by (auto simp: range_mapped_def)
  then show ?case
    by (intro exI [of _ "[]"]) simp
next
  case (Suc n)
  let ?w = "window st" and ?page = "\<lambda>k. base + word_of_nat k * 4096"
  have mach: "mach_ok st" and disj: "tabs (pmem st) 4 (root st) \<inter> faddr ` free st = {}"
    using Suc.prems(1) by (simp_all add: tables_ok_def)
  show ?case
  proof (rule frame_phys_cases [OF mach])
    assume "frame_phys st = (Inl OutOfFrames, st)"
    then have "st' = st" "r = Inl OutOfFrames"
      using Suc.prems(4) by simp_all
    then have "range_mapped base i [] (Suc n) st st'"
      using Suc.prems(1) by (simp add: range_mapped_def)
    then show ?thesis
      using \<open>r = Inl OutOfFrames\<close> by (intro exI [of _ "[]"]) simp
  next
    fix f fa
    let ?st1 = "st\<lparr>FRAMES := fa\<rparr>"
    assume a: "frame_phys st = (Inr (faddr f), ?st1)" "f \<in> free st" "f < 2 ^ 40"
      "mach_ok ?st1" "set (free_list fa) = free st - {f}"
    have ok1: "tables_ok ?st1 4 (root ?st1)"
      using tables_ok_take [OF Suc.prems(1) a(4)] a(5) by simp
    have same1: "translate ?st1 ?w v = translate st ?w v" for v
      using translate_walk [of ?st1 v] translate_walk [of st v] by simp
    have "translate ?st1 ?w (?page i) AND PRESENT = 0"
      using Suc.prems(3) same1 by (metis add_0_right zero_less_Suc)
    obtain q st2 where map: "map_page ?w (?page i) (faddr f) ?st1 = (q, st2)"
      by (cases "map_page ?w (?page i) (faddr f) ?st1")
    note m = map_page_impl_ok [of ?st1 "?page i" "faddr f" False False q st2]
    have g: "grown ?st1 st2 4 (root st)" and q: "q = Inr () \<or> q = Inl OutOfFrames"
      and others: "\<forall>v. page_of v \<noteq> page_of (?page i) \<or> q \<noteq> Inr () \<longrightarrow> translate st2 ?w v = translate st ?w v"
      and leaf: "q = Inr () \<longrightarrow> translate st2 ?w (?page i) = leaf_entry (faddr f) False False"
      using m ok1 map \<open>translate ?st1 ?w (?page i) AND PRESENT = 0\<close> same1 by (simp_all add: map_page_def)
    have st2: "cr3 st2 = cr3 st" "window st2 = ?w" "free st2 \<subseteq> free st - {f}" "tables_ok st2 4 (root st)"
      using g a(5) grown_tables_ok [OF ok1, of st2] by (auto simp: grown_def)
    have inj: "inj_on faddr (free st)"
      using mach faddr_inj by (auto simp: inj_on_def mach_ok_def)
    have f_new: "faddr f \<notin> tabs (pmem st2) 4 (root st)"
    proof -
      have "faddr f \<notin> taken ?st1 st2"
        using a(2,5) inj by (auto simp: taken_def inj_on_def)
      then show ?thesis
        using g disj a(2) by (auto simp: grown_def)
    qed
    have sub2: "tabs (pmem st2) 4 (root st) \<subseteq> tabs (pmem st) 4 (root st) \<union> taken st st2"
      using g a(5) by (auto simp: grown_def taken_def)
    show ?thesis
    proof (cases "q = Inr ()")
      case False
      then have "st' = st2" "r = q" "q = Inl OutOfFrames"
        using Suc.prems(4) a(1) map q by auto
      moreover have "range_mapped base i [] (Suc n) st st2"
        using st2 sub2 others False by (auto simp: range_mapped_def)
      ultimately show ?thesis
        by (intro exI [of _ "[]"]) simp
    next
      case True
      have free_pages: "\<forall>k<n. translate st2 (window st2) (?page (Suc i + k)) AND PRESENT = 0"
      proof (intro allI impI)
        fix k
        assume "k < n"
        then have "page_of (?page i) \<noteq> page_of (?page (Suc i + k))"
          using Suc.prems(2) by (intro page_of_range_inj) simp_all
        then have "translate st2 ?w (?page (Suc i + k)) = translate st ?w (?page (i + Suc k))"
          using others by (metis add_Suc_shift)
        moreover have "translate st ?w (?page (i + Suc k)) AND PRESENT = 0"
          using Suc.prems(3) \<open>k < n\<close> by blast
        ultimately show "translate st2 (window st2) (?page (Suc i + k)) AND PRESENT = 0"
          by (simp only: st2(2))
      qed
      have "map_range_from (window st2) base n (Suc i) st2 = (r, st')"
        using Suc.prems(4) a(1) map True st2(2) by simp
      then obtain fs where fs: "range_mapped base (Suc i) fs n st2 st'" "r = Inr () \<longrightarrow> length fs = n"
        using Suc.IH [of st2 "Suc i"] free_pages Suc.prems(2) st2 by auto
      have "range_mapped base i (f # fs) (Suc n) st st'"
        by (rule range_mapped_Cons [OF fs(1)])
          (use Suc.prems st2 sub2 f_new a leaf True others inj in auto)
      with fs(2) show ?thesis
        by (intro exI [of _ "f # fs"]) simp
    qed
  qed
qed

section \<open>Properties\<close>

text \<open>
  A machine with an empty top-level table at \<open>0x1000\<close> and 128 free frames from frame 16
  on, for the examples.
\<close>

definition sample_machine :: machine where
  "sample_machine = \<lparr>pmem = (\<lambda>_. 0), cr3 = 0x1000, window = 0x10000000000, PHYS_OFFSET = 0,
     FRAMES = frames_empty\<lparr>fa_runs := \<lparr>run_start = 16, run_len = 128\<rparr> # replicate 63 \<lparr>run_start = 0, run_len = 0\<rparr>,
       run_count := 1, total := 128\<rparr>, invalidated = []\<rparr>"

lemma sample_free: "free_list (FRAMES sample_machine) = [16..<144]"
  by (simp add: sample_machine_def frames_empty_def free_list_def run_frames_def)

lemma sample_machine_ok: "tables_ok sample_machine 4 (root sample_machine)"
proof -
  have zero: "\<forall>i<512. pmem sample_machine (cell t i) = 0" for t
    by (simp add: sample_machine_def)
  have root: "root sample_machine = 0x1000" "table_addr 0x1000"
    by (simp_all add: sample_machine_def ADDR_MASK_def table_addr_def)
  have "mach_ok sample_machine"
    unfolding mach_ok_def frames_wf_def sample_free
    by (auto simp: sample_machine_def frames_empty_def MAX_RUNS_def run_ok_def)
  moreover have "faddr f \<noteq> 0x1000" if "f \<in> set [16..<144]" for f
  proof
    assume "faddr f = 0x1000"
    then have "unat (faddr f) = 4096"
      by simp
    moreover have "unat (faddr f) = f * 4096"
      using that by (intro unat_faddr) auto
    ultimately show False
      using that by auto
  qed
  ultimately show ?thesis
    using zero_table_walk(2,3) [OF zero, of 3] root
    by (auto simp: tables_ok_def sample_free)
qed

lemma sample_translate: "translate sample_machine (window sample_machine) v = 0"
proof -
  have "pmem sample_machine = (\<lambda>_. 0)"
    by (simp add: sample_machine_def)
  then show ?thesis
    by (simp add: translate_def table_read_def mem_read_def)
qed



text \<open>
  C4: taking over the page tables keeps every translation: the new root is a frame taken
  from the allocator, CR3 holds its address, the window offset is recorded, and each
  virtual address translates as it did under the boot loader's tables.
\<close>

theorem takeover_preserves_translations:
  assumes "tables_ok st 4 (root st)" "takeover (window st) st = (Inr c, st')"
  shows "cr3 st' = c \<and> phys_offset st' = window st \<and> tables_ok st' 4 (root st')
    \<and> (\<exists>f\<in>free st. c = faddr f \<and> free st' = free st - {f})
    \<and> (\<forall>v. translate st' (window st) v = translate st (window st) v)"
  using takeover_ok [OF assms] by (metis phys_offset_def)

theorem takeover_preserves_translations_witness:
  "let st' = snd (takeover (window sample_machine) sample_machine)
   in cr3 st' = 0x10000 \<and> tables_ok st' 4 (root st')"
proof -
  have "takeover (window sample_machine) sample_machine
      = (Inr 0x10000, snd (takeover (window sample_machine) sample_machine))"
    by (simp add: takeover_def allocate_frame_def allocate_def sample_machine_def frames_empty_def Let_def)
  from takeover_preserves_translations [OF sample_machine_ok this] show ?thesis
    unfolding Let_def by blast
qed

text \<open>
  Mapping a range of unmapped pages that succeeds maps the \<open>k\<close>-th page to the \<open>k\<close>-th of
  \<open>count\<close> distinct frames taken from the allocator, none of which serves as a page table;
  when it runs out of frames it has mapped a prefix.  No other page is affected.
\<close>

lemma map_range_correct:
  assumes "tables_ok st 4 (root st)" "unat cnt \<le> 2 ^ 36"
    and "\<forall>k<unat cnt. translate st (window st) (base + word_of_nat k * 4096) AND PRESENT = 0"
    and "map_range (window st) base cnt st = (r, st')"
  shows "\<exists>fs. range_mapped base 0 fs (unat cnt) st st' \<and> (r = Inr () \<longrightarrow> length fs = unat cnt)"
  using map_range_from_ok [OF assms(1,2), of base 0 r st'] assms(3,4) by (simp add: map_range_def)

lemma map_range_correct_witness:
  "\<exists>fs st'. range_mapped 0x8000000000 0 fs 2 sample_machine st'"
proof -
  obtain r st' where "map_range (window sample_machine) 0x8000000000 2 sample_machine = (r, st')"
    by (cases "map_range (window sample_machine) 0x8000000000 2 sample_machine")
  from map_range_correct [OF sample_machine_ok _ _ this] show ?thesis
    by (auto simp: sample_translate)
qed

text \<open>
  The four indices of an address are below 512 and recombine to its page number, so
  two addresses take the same path through the tables exactly when they lie in the same
  page.
\<close>

lemma indices_determine_page:
  "index4 v < 512 \<and> index3 v < 512 \<and> index2 v < 512 \<and> index1 v < 512
   \<and> ((index4 v * 512 + index3 v) * 512 + index2 v) * 512 + index1 v = unat v mod 2 ^ 48 div 4096
   \<and> (idxs v = idxs w \<longleftrightarrow> unat v mod 2 ^ 48 div 4096 = unat w mod 2 ^ 48 div 4096)"
  using page_of_idxs [of v] idxs_eq_iff [of v w] by (simp add: page_of_def)

end
