(* ===== verification/Heap.thy ===== *)
theory Heap
  imports Lion_Prelude
begin

text \<open>
  Model of \<open>src/kernel/src/heap.rs\<close>: the kernel's linked-list allocator.  Free blocks are
  linked through headers stored in the blocks themselves, so the model keeps the arena as a
  memory of 8-byte cells indexed by address: a node at address \<open>a\<close> has its \<open>next\<close> pointer in
  cell \<open>a\<close> and its \<open>size\<close> in cell \<open>a + 8\<close>, as \<open>repr(C)\<close> lays it out, and the null pointer is 0.
  A pointer to a link, \<open>prev\<close> in the code, is \<open>None\<close> for the list head and \<open>Some a\<close> for the
  \<open>next\<close> field of the node at \<open>a\<close>.  Addresses and sizes are natural numbers: \<open>Layout\<close> bounds
  sizes by \<open>isize::MAX\<close> and every block lies in the arena, so no sum wraps.
\<close>

section \<open>Model\<close>

definition NODE_SIZE :: nat where
  "NODE_SIZE = 16"

definition ALIGN :: nat where
  "ALIGN = 8"

definition align_up :: "u64 \<Rightarrow> u64 \<Rightarrow> u64" where
  "align_up v a = (v + a - 1) AND NOT (a - 1)"

record Layout =
  layout_size :: u64
  layout_align :: u64

record heap_state =
  cells :: "nat \<Rightarrow> nat"
  head :: nat
  used :: nat
  heap_base :: nat
  heap_size :: nat

definition heap_empty :: heap_state where
  "heap_empty = \<lparr>cells = (\<lambda>_. 0), head = 0, used = 0, heap_base = 0, heap_size = 0\<rparr>"

definition write_node :: "nat \<Rightarrow> nat \<Rightarrow> nat \<Rightarrow> heap_state \<Rightarrow> heap_state" where
  "write_node a nxt sz h = h\<lparr>cells := (cells h)(a := nxt, a + 8 := sz)\<rparr>"

definition heap_init :: "nat \<Rightarrow> nat \<Rightarrow> heap_state \<Rightarrow> heap_state" where
  "heap_init base sz h =
     write_node base 0 sz (h\<lparr>heap_base := base, heap_size := sz, used := 0, head := base\<rparr>)"

definition capacity :: "heap_state \<Rightarrow> nat" where
  "capacity h = heap_size h"

definition heap_used :: "heap_state \<Rightarrow> nat" where
  "heap_used h = used h"

definition heap_free :: "heap_state \<Rightarrow> nat" where
  "heap_free h = capacity h - heap_used h"

definition read_link :: "heap_state \<Rightarrow> nat option \<Rightarrow> nat" where
  "read_link h prev = (case prev of None \<Rightarrow> head h | Some a \<Rightarrow> cells h a)"

definition write_link :: "nat option \<Rightarrow> nat \<Rightarrow> heap_state \<Rightarrow> heap_state" where
  "write_link prev v h =
     (case prev of None \<Rightarrow> h\<lparr>head := v\<rparr> | Some a \<Rightarrow> h\<lparr>cells := (cells h)(a := v)\<rparr>)"

text \<open>
  The two loops follow the list until they find their place; on a cyclic list they would
  not return, which is the value \<open>None\<close>.
\<close>

partial_function (option) alloc_loop ::
  "nat \<Rightarrow> nat \<Rightarrow> nat option \<Rightarrow> heap_state \<Rightarrow> (nat \<times> heap_state) option" where
  "alloc_loop need sz prev h =
     (let node = read_link h prev in
      if node = 0 then Some (0, h)
      else let block_size = cells h (node + 8) in
        if block_size \<ge> need
        then let payload = node + NODE_SIZE;
                 h1 = write_link prev (cells h node) h;
                 h2 = h1\<lparr>used := used h1 + sz\<rparr>;
                 tail_bytes = block_size - need
             in Some (payload,
                  if tail_bytes \<ge> NODE_SIZE
                  then (write_node (node + need) (head h2) tail_bytes h2)\<lparr>head := node + need\<rparr>
                  else h2)
        else alloc_loop need sz (Some node) h)"

definition alloc_layout :: "Layout \<Rightarrow> heap_state \<Rightarrow> (nat \<times> heap_state) option" where
  "alloc_layout layout h =
     (if unat (layout_align layout) > ALIGN then Some (0, h)
      else let sz = unat (align_up (layout_size layout) (word_of_nat ALIGN));
               need = sz + NODE_SIZE
           in alloc_loop need sz None h)"

partial_function (option) dealloc_loop ::
  "nat \<Rightarrow> nat \<Rightarrow> nat option \<Rightarrow> heap_state \<Rightarrow> heap_state option" where
  "dealloc_loop block_addr pred prev h =
     (let next = read_link h prev in
      if next = 0 \<or> next > block_addr
      then let h1 = (if next \<noteq> 0 \<and> block_addr + cells h (block_addr + 8) = next
                     then write_node block_addr (cells h next)
                            (cells h (block_addr + 8) + cells h (next + 8)) h
                     else h\<lparr>cells := (cells h)(block_addr := next)\<rparr>)
           in Some (if pred \<noteq> 0 \<and> pred + cells h1 (pred + 8) = block_addr
                    then write_node pred (cells h1 block_addr)
                           (cells h1 (pred + 8) + cells h1 (block_addr + 8)) h1
                    else write_link prev block_addr h1)
      else dealloc_loop block_addr next (Some next) h)"

definition dealloc_layout :: "nat \<Rightarrow> Layout \<Rightarrow> heap_state \<Rightarrow> heap_state option" where
  "dealloc_layout ptr layout h =
     (let sz = unat (align_up (layout_size layout) (word_of_nat ALIGN));
          block_addr = ptr - NODE_SIZE;
          h1 = write_node block_addr 0 (sz + NODE_SIZE) h
      in case dealloc_loop block_addr 0 None h1 of
           None \<Rightarrow> None
         | Some h2 \<Rightarrow> Some (h2\<lparr>used := used h2 - sz\<rparr>))"

fun zero_cells :: "nat \<Rightarrow> nat \<Rightarrow> (nat \<Rightarrow> nat) \<Rightarrow> nat \<Rightarrow> nat" where
  "zero_cells p n m a = (if p \<le> a \<and> a < p + n then 0 else m a)"

definition alloc_zeroed :: "Layout \<Rightarrow> heap_state \<Rightarrow> (nat \<times> heap_state) option" where
  "alloc_zeroed layout h =
     (case alloc_layout layout h of
        None \<Rightarrow> None
      | Some (p, h1) \<Rightarrow>
          Some (p, if p \<noteq> 0
                   then h1\<lparr>cells := zero_cells p (unat (layout_size layout)) (cells h1)\<rparr>
                   else h1))"

section \<open>Rounding\<close>

lemma align_up_nat:
  assumes "unat v + 8 < 2 ^ 64"
  shows "unat (align_up v 8) = 8 * ((unat v + 7) div 8)"
proof -
  let ?x = "v + 8 - 1"
  have x: "unat ?x = unat v + 7"
    using assms by (subst unat_sub) (simp_all add: word_le_nat_alt unat_add_small)
  have "align_up v 8 = ?x AND NOT (mask 3)"
    by (simp add: align_up_def mask_eq_exp_minus_1)
  also have "\<dots> = push_bit 3 (drop_bit 3 ?x)"
    by (rule bit_word_eqI) (auto simp: bit_and_iff bit_not_iff bit_mask_iff bit_push_bit_iff bit_drop_bit_eq)
  finally have "align_up v 8 = 8 * drop_bit 3 ?x"
    by (simp add: push_bit_eq_mult)
  moreover have "unat (drop_bit 3 ?x) = (unat v + 7) div 8"
    by (simp only: unat_drop_bit x) simp
  ultimately show ?thesis
    using assms by (simp add: unat_mult_small)
qed

section \<open>The free list as a list of blocks\<close>

type_synonym block = "nat \<times> nat"

definition block_bytes :: "block \<Rightarrow> nat set" where
  "block_bytes = (\<lambda>(a, s). {a ..< a + s})"

definition apart :: "block \<Rightarrow> block \<Rightarrow> bool" where
  "apart b c \<longleftrightarrow> block_bytes b \<inter> block_bytes c = {}"

definition block_ok :: "heap_state \<Rightarrow> block \<Rightarrow> bool" where
  "block_ok h = (\<lambda>(a, s). heap_base h \<le> a \<and> a + s \<le> heap_base h + heap_size h
     \<and> 0 < a \<and> 8 dvd a \<and> 8 dvd s \<and> NODE_SIZE \<le> s)"

text \<open>\<open>chain m p bs\<close>: the list that starts at \<open>p\<close> consists of the blocks \<open>bs\<close>.\<close>

fun chain :: "(nat \<Rightarrow> nat) \<Rightarrow> nat \<Rightarrow> block list \<Rightarrow> bool" where
  "chain m p [] \<longleftrightarrow> p = 0"
| "chain m p ((a, s) # bs) \<longleftrightarrow> p = a \<and> 0 < a \<and> m (a + 8) = s \<and> chain m (m a) bs"

text \<open>
  The invariant: \<open>fs\<close> are the free blocks in list order and \<open>al\<close> the allocated ones; all lie
  aligned in the arena, no two share a byte, and \<open>used\<close> is the allocated payload.
\<close>

definition heap_inv :: "heap_state \<Rightarrow> block list \<Rightarrow> block list \<Rightarrow> bool" where
  "heap_inv h fs al \<longleftrightarrow> chain (cells h) (head h) fs \<and> (\<forall>b\<in>set (fs @ al). block_ok h b)
     \<and> sorted_wrt apart (fs @ al) \<and> used h = (\<Sum>b\<leftarrow>al. snd b - NODE_SIZE)"

lemma apart_sym: "apart b c \<Longrightarrow> apart c b"
  by (auto simp: apart_def)

lemma apart_perm: "mset xs = mset ys \<Longrightarrow> sorted_wrt apart xs \<longleftrightarrow> sorted_wrt apart ys"
  by (rule sorted_wrt_sym_perm) (rule apart_sym)

definition headers :: "block list \<Rightarrow> nat set" where
  "headers bs = (\<Union>(a, s)\<in>set bs. {a, a + 8})"

lemma headers_simps [simp]:
  "headers [] = {}" "headers ((a, s) # bs) = {a, a + 8} \<union> headers bs"
  "headers (bs @ cs) = headers bs \<union> headers cs"
  by (auto simp: headers_def)

lemma chain_cong:
  "\<forall>x\<in>headers bs. m' x = m x \<Longrightarrow> chain m' p bs = chain m p bs"
proof (induction bs arbitrary: p)
  case (Cons b bs)
  obtain a s where b: "b = (a, s)"
    by (cases b)
  have "chain m' (m a) bs = chain m (m a) bs"
    using Cons by (simp add: b)
  with Cons.prems show ?case
    by (simp add: b)
qed simp

text \<open>
  A block apart from the listed ones may be written anywhere without touching their
  headers.
\<close>

lemma header_in_bytes: "NODE_SIZE \<le> s \<Longrightarrow> {a, a + 8} \<subseteq> block_bytes (a, s)"
  by (auto simp: block_bytes_def NODE_SIZE_def)

lemma apart_headers:
  assumes "\<forall>c\<in>set bs. apart b c" "\<forall>c\<in>set bs. NODE_SIZE \<le> snd c" "X \<subseteq> block_bytes b"
  shows "X \<inter> headers bs = {}"
proof -
  have "headers bs \<subseteq> (\<Union>c\<in>set bs. block_bytes c)"
    using assms(2) header_in_bytes by (fastforce simp: headers_def)
  moreover have "block_bytes b \<inter> (\<Union>c\<in>set bs. block_bytes c) = {}"
    using assms(1) by (auto simp: apart_def)
  ultimately show ?thesis
    using assms(3) by blast
qed

lemma block_bytes_add: "block_bytes (a, s + t) = block_bytes (a, s) \<union> block_bytes (a + s, t)"
  by (auto simp: block_bytes_def)

lemma apart_add: "apart (a, s + t) c \<longleftrightarrow> apart (a, s) c \<and> apart (a + s, t) c"
  by (auto simp: apart_def block_bytes_add)

lemma apart_split: "n \<le> s \<Longrightarrow> apart (a, s) c \<longleftrightarrow> apart (a, n) c \<and> apart (a + n, s - n) c"
  using apart_add [of a n "s - n" c] by simp

text \<open>
  The link that leads past a prefix of the list, what it holds, and the effect of
  rewriting the node or the link at the end of the prefix.
\<close>

definition link_of :: "block list \<Rightarrow> nat option" where
  "link_of bs = (if bs = [] then None else Some (fst (last bs)))"

lemma link_of_simps [simp]: "link_of [] = None" "link_of (bs @ [(a, s)]) = Some a"
  by (simp_all add: link_of_def)

lemma chain_next:
  "chain m p (xs @ [(a, s)] @ ys) \<Longrightarrow> m a = (case ys of [] \<Rightarrow> 0 | b # _ \<Rightarrow> fst b)"
  by (induction xs arbitrary: p) (auto split: list.splits)

lemma read_link_chain:
  assumes "chain (cells h) (head h) (xs @ ys)"
  shows "read_link h (link_of xs) = (case ys of [] \<Rightarrow> 0 | b # _ \<Rightarrow> fst b)"
proof (cases xs rule: rev_cases)
  case Nil
  then show ?thesis
    using assms by (cases ys) (auto simp: read_link_def)
next
  case (snoc zs b)
  obtain a s where "b = (a, s)"
    by (cases b)
  with snoc assms show ?thesis
    using chain_next [of "cells h" "head h" zs a s ys] by (simp add: read_link_def)
qed

lemma chain_suffix: "chain m p (xs @ (a, s) # ys) \<Longrightarrow> m (a + 8) = s \<and> 0 < a \<and> chain m a ((a, s) # ys)"
  by (induction xs arbitrary: p) auto

lemma chain_replace:
  assumes "chain m p (xs @ (a, s) # ys)" "{a, a + 8} \<inter> headers xs = {}" "{a, a + 8} \<inter> headers zs = {}"
    and "chain m v zs"
  shows "chain (m(a := v, a + 8 := t)) p (xs @ (a, t) # zs)"
  using assms(1,2)
proof (induction xs arbitrary: p)
  case Nil
  have "chain (m(a := v, a + 8 := t)) v zs = chain m v zs"
    using assms(3) by (intro chain_cong) auto
  moreover have "(m(a := v, a + 8 := t)) a = v" "(m(a := v, a + 8 := t)) (a + 8) = t"
    by simp_all
  ultimately show ?case
    using Nil assms(4) by (simp only: chain.simps append_Nil)
next
  case (Cons b xs)
  then show ?case
    by (cases b) auto
qed

lemma chain_write_link:
  assumes "chain (cells h) (head h) (xs @ ys)" "sorted_wrt apart xs" "\<forall>c\<in>set xs. NODE_SIZE \<le> snd c"
    and "\<forall>b\<in>set xs. \<forall>c\<in>set zs. apart b c" "\<forall>c\<in>set zs. NODE_SIZE \<le> snd c" "chain (cells h) v zs"
  defines "h' \<equiv> write_link (link_of xs) v h"
  shows "chain (cells h') (head h') (xs @ zs)"
proof (cases xs rule: rev_cases)
  case Nil
  then show ?thesis
    using assms(6) by (simp add: h'_def write_link_def)
next
  case (snoc us b)
  obtain a s where b: "b = (a, s)"
    by (cases b)
  have sz: "NODE_SIZE \<le> s"
    using assms(3) by (simp add: snoc b)
  have "\<forall>c\<in>set us. apart (a, s) c"
    using assms(2) apart_sym by (auto simp: snoc b sorted_wrt_append)
  then have us: "{a, a + 8} \<inter> headers us = {}"
    using assms(3) by (intro apart_headers [of us "(a, s)"] header_in_bytes sz) (auto simp: snoc)
  have zs: "{a, a + 8} \<inter> headers zs = {}"
    using assms(4,5) by (intro apart_headers [of zs "(a, s)"] header_in_bytes sz) (auto simp: snoc b)
  have c: "chain (cells h) (head h) (us @ (a, s) # ys)"
    using assms(1) by (simp add: snoc b)
  have "cells h' = (cells h)(a := v, a + 8 := s)" "head h' = head h"
    using chain_suffix [OF c] by (auto simp: h'_def write_link_def snoc b)
  then show ?thesis
    using chain_replace [OF c us zs assms(6), of s] by (simp add: snoc b)
qed

section \<open>Allocation\<close>

lemma block_ok_size: "block_ok h (a, s) \<Longrightarrow> NODE_SIZE \<le> s"
  by (simp add: block_ok_def)

lemma block_ok_cong:
  "heap_base h' = heap_base h \<Longrightarrow> heap_size h' = heap_size h \<Longrightarrow> block_ok h' = block_ok h"
  by (simp add: block_ok_def)

lemma block_ok_used [simp]: "block_ok (h\<lparr>used := u\<rparr>) = block_ok h"
  by (rule block_ok_cong) simp_all

text \<open>What one successful round of the allocation loop does to the heap.\<close>

definition take_block :: "nat \<Rightarrow> nat \<Rightarrow> nat option \<Rightarrow> nat \<Rightarrow> heap_state \<Rightarrow> heap_state" where
  "take_block need sz prev node h =
     (let h1 = write_link prev (cells h node) h;
          h2 = h1\<lparr>used := used h1 + sz\<rparr>;
          tail_bytes = cells h (node + 8) - need
      in if tail_bytes \<ge> NODE_SIZE
         then (write_node (node + need) (head h2) tail_bytes h2)\<lparr>head := node + need\<rparr>
         else h2)"

lemma alloc_loop_first_fit:
  assumes "chain (cells h) (head h) (xs @ ys)"
  shows "alloc_loop need sz (link_of xs) h =
    (let fits = dropWhile (\<lambda>c. snd c < need) ys; a = fst (hd fits) in
     if fits = [] then Some (0, h)
     else Some (a + NODE_SIZE,
       take_block need sz (link_of (xs @ takeWhile (\<lambda>c. snd c < need) ys)) a h))"
  using assms
proof (induction ys arbitrary: xs)
  case Nil
  then have "read_link h (link_of xs) = 0"
    using read_link_chain [of h xs "[]"] by simp
  then show ?case
    by (subst alloc_loop.simps) simp
next
  case (Cons b ys)
  obtain a s where b: "b = (a, s)"
    by (cases b)
  have node: "read_link h (link_of xs) = a"
    using read_link_chain [OF Cons.prems] by (simp add: b)
  have sz: "cells h (a + 8) = s" "0 < a"
    using chain_suffix [of "cells h" "head h" xs a s ys] Cons.prems by (auto simp: b)
  show ?case
  proof (cases "s < need")
    case True
    have "alloc_loop need sz (link_of xs) h = alloc_loop need sz (link_of (xs @ [(a, s)])) h"
      using node sz True by (subst alloc_loop.simps) simp
    also have "\<dots> = (let fits = dropWhile (\<lambda>c. snd c < need) ys; a' = fst (hd fits) in
       if fits = [] then Some (0, h)
       else Some (a' + NODE_SIZE,
         take_block need sz (link_of ((xs @ [(a, s)]) @ takeWhile (\<lambda>c. snd c < need) ys)) a' h))"
      using Cons.prems by (intro Cons.IH) (simp add: b)
    finally show ?thesis
      using True by (simp add: b Let_def)
  next
    case False
    then show ?thesis
      using node sz by (subst alloc_loop.simps) (simp add: b take_block_def Let_def)
  qed
qed

lemma take_block_fields:
  "heap_base (take_block need sz prev a h) = heap_base h"
  "heap_size (take_block need sz prev a h) = heap_size h"
  "used (take_block need sz prev a h) = used h + sz"
  by (auto simp: take_block_def write_link_def write_node_def Let_def split: option.splits)

lemma take_block_chain:
  fixes sz :: nat
  assumes chain: "chain (cells h) (head h) (xs @ (a, s) # ys)"
    and apart: "sorted_wrt apart (xs @ (a, s) # ys)"
    and sizes: "\<forall>c\<in>set (xs @ (a, s) # ys). NODE_SIZE \<le> snd c"
    and fit: "need \<le> s" "NODE_SIZE \<le> need"
  defines "h' \<equiv> take_block need sz (link_of xs) a h"
    and "rest \<equiv> (if s - need \<ge> NODE_SIZE then [(a + need, s - need)] else [])"
  shows "chain (cells h') (head h') (rest @ xs @ ys)"
proof -
  let ?h1 = "write_link (link_of xs) (cells h a) h"
  have suffix: "cells h (a + 8) = s" "chain (cells h) (cells h a) ys"
    using chain_suffix [OF chain] by auto
  have rel: "sorted_wrt apart xs" "\<forall>b\<in>set xs. \<forall>c\<in>set ys. apart b c"
    "\<forall>c\<in>set (xs @ ys). apart (a, s) c"
    using apart apart_sym by (auto simp: sorted_wrt_append)
  have sz: "\<forall>c\<in>set xs. NODE_SIZE \<le> snd c" "\<forall>c\<in>set ys. NODE_SIZE \<le> snd c"
    using sizes by auto
  have link: "chain (cells ?h1) (head ?h1) (xs @ ys)"
    by (rule chain_write_link [OF chain rel(1) sz(1) rel(2) sz(2) suffix(2)])
  show ?thesis
  proof (cases "s - need \<ge> NODE_SIZE")
    case False
    then show ?thesis
      using link suffix by (simp add: h'_def rest_def take_block_def Let_def)
  next
    case True
    let ?t = "a + need"
    have "{?t, ?t + 8} \<subseteq> block_bytes (a, s)"
      using True fit by (auto simp: block_bytes_def NODE_SIZE_def)
    then have out: "{?t, ?t + 8} \<inter> headers (xs @ ys) = {}"
      using rel(3) sz by (intro apart_headers [of "xs @ ys" "(a, s)"]) auto
    have cells': "cells h' = (cells ?h1)(?t := head ?h1, ?t + 8 := s - need)" "head h' = ?t"
      using True suffix by (simp_all add: h'_def take_block_def write_node_def Let_def)
    have "chain (cells h') (head ?h1) (xs @ ys) = chain (cells ?h1) (head ?h1) (xs @ ys)"
      using out by (intro chain_cong) (auto simp: cells' simp del: headers_simps)
    moreover have "cells h' ?t = head ?h1" "cells h' (?t + 8) = s - need"
      by (simp_all add: cells')
    moreover have "0 < ?t"
      using fit by (simp add: NODE_SIZE_def)
    ultimately show ?thesis
      using link True by (simp add: rest_def cells'(2))
  qed
qed

lemma heap_inv_sizes: "heap_inv h fs al \<Longrightarrow> \<forall>c\<in>set (fs @ al). NODE_SIZE \<le> snd c"
  by (auto simp: heap_inv_def block_ok_def)

lemma take_block_inv:
  assumes inv: "heap_inv h (xs @ (a, s) # ys) al" and fit: "sz + NODE_SIZE \<le> s" "8 dvd sz"
  defines "need \<equiv> sz + NODE_SIZE"
  defines "h' \<equiv> take_block need sz (link_of xs) a h"
    and "rest \<equiv> (if s - need \<ge> NODE_SIZE then [(a + need, s - need)] else [])"
  shows "heap_inv h' (rest @ xs @ ys) ((a, need) # al)"
proof -
  have chain: "chain (cells h) (head h) (xs @ (a, s) # ys)"
    and ok: "\<forall>b\<in>set (xs @ (a, s) # ys) \<union> set al. block_ok h b"
    and apart: "sorted_wrt apart ((xs @ (a, s) # ys) @ al)"
    and used: "used h = (\<Sum>b\<leftarrow>al. snd b - NODE_SIZE)"
    using inv by (auto simp: heap_inv_def)
  have sizes: "\<forall>c\<in>set (xs @ (a, s) # ys). NODE_SIZE \<le> snd c"
    using heap_inv_sizes [OF inv] by auto
  have "chain (cells h') (head h') (rest @ xs @ ys)"
    using take_block_chain [OF chain _ sizes, of need sz] apart fit
    unfolding h'_def rest_def by (simp add: need_def sorted_wrt_append)
  moreover have "\<forall>b\<in>set ((rest @ xs @ ys) @ (a, need) # al). block_ok h' b"
  proof -
    have "block_ok h (a, s)" "8 dvd need"
      using ok fit(2) by (auto simp: need_def NODE_SIZE_def)
    then have "\<forall>b\<in>set ((a, need) # rest). block_ok h b"
      using fit by (auto simp: rest_def block_ok_def need_def intro: dvd_diff_nat)
    then have "\<forall>b\<in>set ((rest @ xs @ ys) @ (a, need) # al). block_ok h b"
      using ok by auto
    then show ?thesis
      unfolding block_ok_cong [of h' h, OF take_block_fields(1,2) [of need sz "link_of xs" a h, folded h'_def]] .
  qed
  moreover have "sorted_wrt apart ((rest @ xs @ ys) @ (a, need) # al)"
  proof -
    have "sorted_wrt apart ((a, s) # xs @ ys @ al)"
      by (rule apart_perm [THEN iffD1, OF _ apart]) simp
    then have others: "sorted_wrt apart (xs @ ys @ al)" "\<forall>c\<in>set (xs @ ys @ al). apart (a, s) c"
      by auto
    have "\<forall>c\<in>set (xs @ ys @ al). apart (a, need) c \<and> apart (a + need, s - need) c"
      using others(2) apart_split [of need s a] fit(1) unfolding need_def by blast
    moreover have "apart (a, need) (a + need, s - need)"
      by (auto simp: apart_def block_bytes_def)
    ultimately have "sorted_wrt apart ((a, need) # rest @ xs @ ys @ al)"
      using others(1) by (auto simp: rest_def)
    then show ?thesis
      by (rule apart_perm [THEN iffD1, rotated]) simp
  qed
  moreover have "used h' = (\<Sum>b\<leftarrow>(a, need) # al. snd b - NODE_SIZE)"
    using used by (simp add: h'_def take_block_fields need_def)
  ultimately show ?thesis
    by (simp add: heap_inv_def)
qed

section \<open>Deallocation\<close>

text \<open>
  The insertion on lists of blocks: in front of the first block at a higher address, joined
  with that block and with the block before it where they touch.
\<close>

definition join_right :: "block \<Rightarrow> block list \<Rightarrow> block list" where
  "join_right b cs =
     (case cs of [] \<Rightarrow> [b]
      | c # cs' \<Rightarrow> if fst b + snd b = fst c then (fst b, snd b + snd c) # cs' else b # cs)"

definition join_left :: "block list \<Rightarrow> block list \<Rightarrow> block list" where
  "join_left xs bs =
     (if xs \<noteq> [] \<and> fst (last xs) + snd (last xs) = fst (hd bs)
      then butlast xs @ (fst (last xs), snd (last xs) + snd (hd bs)) # tl bs
      else xs @ bs)"

definition insert_block :: "block \<Rightarrow> block list \<Rightarrow> block list" where
  "insert_block b fs =
     (let xs = takeWhile (\<lambda>c. fst c \<le> fst b) fs; ys = dropWhile (\<lambda>c. fst c \<le> fst b) fs
      in join_left xs (join_right b ys))"

text \<open>The step of the loop that inserts, with the two joins as updates of the memory.\<close>

definition insert_at :: "nat \<Rightarrow> nat \<Rightarrow> nat option \<Rightarrow> heap_state \<Rightarrow> heap_state" where
  "insert_at block_addr pred prev h =
     (let next = read_link h prev;
          h1 = (if next \<noteq> 0 \<and> block_addr + cells h (block_addr + 8) = next
                then write_node block_addr (cells h next)
                       (cells h (block_addr + 8) + cells h (next + 8)) h
                else h\<lparr>cells := (cells h)(block_addr := next)\<rparr>)
      in if pred \<noteq> 0 \<and> pred + cells h1 (pred + 8) = block_addr
         then write_node pred (cells h1 block_addr)
                (cells h1 (pred + 8) + cells h1 (block_addr + 8)) h1
         else write_link prev block_addr h1)"

definition node_of :: "block list \<Rightarrow> nat" where
  "node_of xs = (if xs = [] then 0 else fst (last xs))"

lemma dealloc_loop_position:
  assumes "chain (cells h) (head h) (xs @ ys)"
  shows "dealloc_loop B (node_of xs) (link_of xs) h =
    (let zs = xs @ takeWhile (\<lambda>c. fst c \<le> B) ys in Some (insert_at B (node_of zs) (link_of zs) h))"
  using assms
proof (induction ys arbitrary: xs)
  case Nil
  then have "read_link h (link_of xs) = 0"
    using read_link_chain [of h xs "[]"] by simp
  then show ?case
    by (subst dealloc_loop.simps) (simp add: insert_at_def Let_def)
next
  case (Cons b ys)
  obtain a s where b: "b = (a, s)"
    by (cases b)
  have node: "read_link h (link_of xs) = a"
    using read_link_chain [OF Cons.prems] by (simp add: b)
  have "0 < a"
    using chain_suffix [of "cells h" "head h" xs a s ys] Cons.prems by (auto simp: b)
  show ?case
  proof (cases "a \<le> B")
    case True
    have "dealloc_loop B (node_of xs) (link_of xs) h
        = dealloc_loop B (node_of (xs @ [(a, s)])) (link_of (xs @ [(a, s)])) h"
      using node \<open>0 < a\<close> True by (subst dealloc_loop.simps) (simp add: node_of_def)
    also have "\<dots> = (let zs = (xs @ [(a, s)]) @ takeWhile (\<lambda>c. fst c \<le> B) ys
        in Some (insert_at B (node_of zs) (link_of zs) h))"
      using Cons.prems by (intro Cons.IH) (simp add: b)
    finally show ?thesis
      using True by (simp add: b)
  next
    case False
    then show ?thesis
      using node by (subst dealloc_loop.simps) (simp add: b insert_at_def Let_def)
  qed
qed

lemma join_right_cases: "\<exists>S' zs. join_right (B, S) ys = (B, S') # zs \<and> set zs \<subseteq> set ys"
  by (cases ys) (auto simp: join_right_def)

lemma join_right_hd: "fst (hd (join_right b ys)) = fst b"
  by (cases ys) (auto simp: join_right_def)

lemma join_right_sizes:
  "NODE_SIZE \<le> S \<Longrightarrow> \<forall>c\<in>set (xs @ ys). NODE_SIZE \<le> snd c \<Longrightarrow> \<forall>c\<in>set (join_right (B, S) ys). NODE_SIZE \<le> snd c"
  by (cases ys) (auto simp: join_right_def)

lemma apart_join:
  "apart x (a, s) \<Longrightarrow> apart x (b, t) \<Longrightarrow> a + s = b \<Longrightarrow> apart x (a, s + t)"
  using apart_add [of a s t x] apart_sym by blast

lemma join_right_apart:
  assumes "sorted_wrt apart ((B, S) # xs @ ys)"
  shows "\<forall>x\<in>set xs. \<forall>z\<in>set (join_right (B, S) ys). apart x z"
proof (cases ys)
  case (Cons c cs)
  have "apart x (B, S)" "apart x c" if "x \<in> set xs" for x
    using assms that apart_sym by (auto simp: Cons sorted_wrt_append)
  with assms show ?thesis
    by (cases c) (auto simp: join_right_def Cons sorted_wrt_append intro: apart_join)
qed (use assms apart_sym in \<open>auto simp: join_right_def\<close>)

lemma join_right_chain:
  assumes chain: "chain (cells h) (head h) (xs @ ys)" and b: "cells h (B + 8) = S" "0 < B"
    and out: "{B, B + 8} \<inter> headers (xs @ ys) = {}"
  defines "next \<equiv> read_link h (link_of xs)"
  defines "h1 \<equiv> (if next \<noteq> 0 \<and> B + cells h (B + 8) = next
                then write_node B (cells h next) (cells h (B + 8) + cells h (next + 8)) h
                else h\<lparr>cells := (cells h)(B := next)\<rparr>)"
  shows "chain (cells h1) (head h1) (xs @ ys)" "chain (cells h1) B (join_right (B, S) ys)" "head h1 = head h"
proof -
  have same: "\<forall>x. x \<noteq> B \<longrightarrow> x \<noteq> B + 8 \<longrightarrow> cells h1 x = cells h x" and head: "head h1 = head h"
    by (auto simp: h1_def write_node_def)
  then show "head h1 = head h"
    by simp
  have keep: "chain (cells h1) p zs = chain (cells h) p zs" if "headers zs \<subseteq> headers (xs @ ys)" for p zs
    using that out same by (intro chain_cong) blast
  show "chain (cells h1) (head h1) (xs @ ys)"
    using keep chain head by simp
  show "chain (cells h1) B (join_right (B, S) ys)"
  proof (cases ys)
    case Nil
    then have "next = 0"
      using read_link_chain [OF chain] by (simp add: next_def)
    then show ?thesis
      using b Nil by (simp add: h1_def join_right_def)
  next
    case (Cons c ys')
    obtain d t where c: "c = (d, t)"
      by (cases c)
    have nxt: "next = d"
      using read_link_chain [OF chain] by (simp add: next_def Cons c)
    have suf: "cells h (d + 8) = t" "0 < d" "chain (cells h) d ys" "chain (cells h) (cells h d) ys'"
      using chain_suffix [of "cells h" "head h" xs d t ys'] chain by (auto simp: Cons c)
    show ?thesis
    proof (cases "B + S = d")
      case True
      have "cells h1 B = cells h d" "cells h1 (B + 8) = S + t"
        using True suf b nxt by (simp_all add: h1_def write_node_def)
      moreover have "chain (cells h1) (cells h d) ys'"
        using suf(4) keep [of ys'] by (auto simp: Cons c)
      ultimately show ?thesis
        using b(2) True by (simp add: join_right_def Cons c)
    next
      case False
      have "cells h1 B = d" "cells h1 (B + 8) = S"
        using False suf b nxt by (simp_all add: h1_def)
      moreover have "chain (cells h1) d ys"
        using suf(3) keep [of ys] by auto
      ultimately show ?thesis
        using b(2) False by (simp add: join_right_def Cons c)
    qed
  qed
qed

lemma insert_at_chain:
  assumes chain: "chain (cells h) (head h) (xs @ ys)" and b: "cells h (B + 8) = S" "0 < B" "NODE_SIZE \<le> S"
    and apart: "sorted_wrt apart ((B, S) # xs @ ys)"
    and sizes: "\<forall>c\<in>set (xs @ ys). NODE_SIZE \<le> snd c"
  defines "h' \<equiv> insert_at B (node_of xs) (link_of xs) h"
  shows "chain (cells h') (head h') (join_left xs (join_right (B, S) ys))"
proof -
  let ?zs = "join_right (B, S) ys"
  define h1 where "h1 = (if read_link h (link_of xs) \<noteq> 0 \<and> B + cells h (B + 8) = read_link h (link_of xs)
      then write_node B (cells h (read_link h (link_of xs))) (cells h (B + 8) + cells h (read_link h (link_of xs) + 8)) h
      else h\<lparr>cells := (cells h)(B := read_link h (link_of xs))\<rparr>)"
  have h': "h' = (if node_of xs \<noteq> 0 \<and> node_of xs + cells h1 (node_of xs + 8) = B
      then write_node (node_of xs) (cells h1 B) (cells h1 (node_of xs + 8) + cells h1 (B + 8)) h1
      else write_link (link_of xs) B h1)"
    by (simp add: h'_def insert_at_def h1_def Let_def)
  have out: "{B, B + 8} \<inter> headers (xs @ ys) = {}"
    using apart sizes by (intro apart_headers [of "xs @ ys" "(B, S)"] header_in_bytes b(3)) auto
  note jr = join_right_chain [OF chain b(1,2) out, folded h1_def]
  have zs_ok: "\<forall>c\<in>set ?zs. NODE_SIZE \<le> snd c" "\<forall>x\<in>set xs. \<forall>z\<in>set ?zs. apart x z"
    by (rule join_right_sizes [OF b(3) sizes], rule join_right_apart [OF apart])
  show ?thesis
  proof (cases xs rule: rev_cases)
    case Nil
    then show ?thesis
      using jr(2) by (simp add: h' node_of_def write_link_def join_left_def)
  next
    case (snoc us c)
    obtain p q where c: "c = (p, q)"
      by (cases c)
    have chain1: "chain (cells h1) (head h1) (us @ (p, q) # ys)"
      using jr(1) by (simp add: snoc c)
    then have q: "cells h1 (p + 8) = q" "0 < p"
      using chain_suffix by blast+
    have node: "node_of xs = p"
      by (simp add: node_of_def snoc c)
    show ?thesis
    proof (cases "p + q = B")
      case False
      then have "h' = write_link (link_of xs) B h1"
        using q node by (simp add: h')
      moreover have "chain (cells (write_link (link_of xs) B h1)) (head (write_link (link_of xs) B h1)) (xs @ ?zs)"
        using apart sizes zs_ok jr
        by (intro chain_write_link [of h1 xs ys]) (auto simp: sorted_wrt_append)
      ultimately show ?thesis
        using False join_right_hd [of "(B, S)" ys] by (simp add: join_left_def snoc c)
    next
      case True
      obtain S' zs where zs: "?zs = (B, S') # zs" "set zs \<subseteq> set ys"
        using join_right_cases by blast
      have B': "cells h1 (B + 8) = S'" "chain (cells h1) (cells h1 B) zs"
        using jr(2) by (simp_all add: zs)
      have p_out: "{p, p + 8} \<inter> headers us = {}" "{p, p + 8} \<inter> headers zs = {}"
        using apart sizes zs(2) apart_sym
        by (intro apart_headers [of _ "(p, q)"] header_in_bytes; auto simp: snoc c sorted_wrt_append)+
      have "h' = write_node p (cells h1 B) (q + S') h1"
        using True q node B' by (simp add: h')
      then have "cells h' = (cells h1)(p := cells h1 B, p + 8 := q + S')" "head h' = head h1"
        by (simp_all add: write_node_def)
      moreover have "join_left xs ?zs = us @ (p, q + S') # zs"
        using True by (simp add: join_left_def snoc c zs)
      ultimately show ?thesis
        using chain_replace [OF chain1 p_out B'(2), of "q + S'"] by simp
    qed
  qed
qed

text \<open>Joining two touching blocks keeps a set of blocks well placed and loses no byte.\<close>

definition placed :: "heap_state \<Rightarrow> block list \<Rightarrow> bool" where
  "placed h bs \<longleftrightarrow> (\<forall>b\<in>set bs. block_ok h b) \<and> sorted_wrt apart bs"

lemma placed_perm: "mset bs = mset cs \<Longrightarrow> placed h bs \<Longrightarrow> placed h cs"
  using apart_perm [of bs cs] mset_eq_setD [of bs cs] by (simp add: placed_def)

lemma placed_join:
  assumes "placed h (us @ (a, s) # (a + s, t) # vs)"
  shows "placed h (us @ (a, s + t) # vs)"
proof -
  have "placed h ((a, s) # (a + s, t) # us @ vs)"
    by (rule placed_perm [OF _ assms]) simp
  then have "placed h ((a, s + t) # us @ vs)"
    by (auto simp: placed_def apart_add block_ok_def)
  then show ?thesis
    by (rule placed_perm [rotated]) simp
qed

lemma placed_join_right:
  assumes "placed h (xs @ b # ys @ al)"
  shows "placed h (xs @ join_right b ys @ al)"
proof (cases ys)
  case (Cons c cs)
  obtain B S d t where bc: "b = (B, S)" "c = (d, t)"
    by (cases b, cases c)
  show ?thesis
    using assms placed_join [of h xs B S t "cs @ al"] by (auto simp: join_right_def Cons bc)
qed (use assms in \<open>simp add: join_right_def\<close>)

lemma placed_join_left:
  assumes "placed h (xs @ zs @ al)" "zs \<noteq> []"
  shows "placed h (join_left xs zs @ al)"
proof (cases "xs = [] \<or> fst (last xs) + snd (last xs) \<noteq> fst (hd zs)")
  case True
  then show ?thesis
    using assms(1) by (auto simp: join_left_def)
next
  case False
  obtain us p q where xs: "xs = us @ [(p, q)]"
    using False by (cases xs rule: rev_cases) auto
  obtain B S vs where zs: "zs = (B, S) # vs"
    using assms(2) by (cases zs) auto
  show ?thesis
    using False assms(1) placed_join [of h us p q S "vs @ al"] by (simp add: join_left_def xs zs)
qed

lemma insert_block_placed:
  assumes "placed h (b # fs @ al)"
  shows "placed h (insert_block b fs @ al)"
proof -
  let ?xs = "takeWhile (\<lambda>c. fst c \<le> fst b) fs" and ?ys = "dropWhile (\<lambda>c. fst c \<le> fst b) fs"
  have "mset fs = mset ?xs + mset ?ys"
    by (metis mset_append takeWhile_dropWhile_id)
  then have "placed h (?xs @ b # ?ys @ al)"
    by (intro placed_perm [OF _ assms]) simp
  then have "placed h (?xs @ join_right b ?ys @ al)"
    by (rule placed_join_right)
  moreover have "join_right b ?ys \<noteq> []"
    by (auto simp: join_right_def split: list.splits)
  ultimately show ?thesis
    unfolding insert_block_def Let_def by (rule placed_join_left)
qed

lemma insert_block_bytes: "(\<Sum>c\<leftarrow>insert_block b fs. snd c) = snd b + (\<Sum>c\<leftarrow>fs. snd c)"
proof -
  have right: "(\<Sum>c\<leftarrow>join_right b ys. snd c) = snd b + (\<Sum>c\<leftarrow>ys. snd c)" for ys
    by (cases ys) (auto simp: join_right_def)
  have left: "(\<Sum>c\<leftarrow>join_left xs zs. snd c) = (\<Sum>c\<leftarrow>xs. snd c) + (\<Sum>c\<leftarrow>zs. snd c)" if "zs \<noteq> []" for xs zs
    using that by (cases xs rule: rev_cases; cases zs) (auto simp: join_left_def)
  have "join_right b ys \<noteq> []" for ys
    by (auto simp: join_right_def split: list.splits)
  moreover have "(\<Sum>c\<leftarrow>takeWhile P fs. snd c) + (\<Sum>c\<leftarrow>dropWhile P fs. snd c) = (\<Sum>c\<leftarrow>fs. snd c)" for P
    by (metis map_append sum_list_append takeWhile_dropWhile_id)
  ultimately show ?thesis
    by (simp add: insert_block_def Let_def left right)
qed

lemma insert_at_fields:
  "heap_base (insert_at B p l h) = heap_base h" "heap_size (insert_at B p l h) = heap_size h"
  "used (insert_at B p l h) = used h"
  by (auto simp: insert_at_def write_link_def write_node_def Let_def split: option.splits)

lemma dealloc_inv:
  assumes inv: "heap_inv h fs al" and b: "(B, sz + NODE_SIZE) \<in> set al"
  obtains h' where "dealloc_loop B 0 None (write_node B 0 (sz + NODE_SIZE) h) = Some h'"
    "heap_inv (h'\<lparr>used := used h' - sz\<rparr>) (insert_block (B, sz + NODE_SIZE) fs)
       (remove1 (B, sz + NODE_SIZE) al)" "used h' = used h"
    "heap_base h' = heap_base h" "heap_size h' = heap_size h"
proof -
  let ?S = "sz + NODE_SIZE" and ?al = "remove1 (B, sz + NODE_SIZE) al"
  let ?xs = "takeWhile (\<lambda>c. fst c \<le> B) fs" and ?ys = "dropWhile (\<lambda>c. fst c \<le> B) fs"
  let ?h1 = "write_node B 0 ?S h"
  let ?h' = "insert_at B (node_of ?xs) (link_of ?xs) ?h1"
  have "placed h (fs @ al)"
    using inv by (simp add: heap_inv_def placed_def)
  then have placed: "placed h ((B, ?S) # fs @ ?al)"
    using b by (elim placed_perm [rotated]) simp
  then have ok: "block_ok h (B, ?S)" "\<forall>c\<in>set fs. apart (B, ?S) c" "sorted_wrt apart ((B, ?S) # fs)"
    by (auto simp: placed_def sorted_wrt_append)
  have sizes: "\<forall>c\<in>set fs. NODE_SIZE \<le> snd c"
    using heap_inv_sizes [OF inv] by simp
  have out: "{B, B + 8} \<inter> headers fs = {}"
    by (intro apart_headers [of fs "(B, ?S)"] header_in_bytes ok(2) sizes) simp
  have chain1: "chain (cells ?h1) (head ?h1) (?xs @ ?ys)"
  proof -
    have "chain (cells ?h1) (head h) fs = chain (cells h) (head h) fs"
      using out by (intro chain_cong) (auto simp: write_node_def)
    then show ?thesis
      using inv by (simp add: heap_inv_def write_node_def)
  qed
  have loop: "dealloc_loop B 0 None ?h1 = Some ?h'"
    using dealloc_loop_position [of ?h1 "[]" fs B] chain1 by (simp add: node_of_def Let_def)
  have "chain (cells ?h') (head ?h') (insert_block (B, ?S) fs)"
    unfolding insert_block_def Let_def fst_conv
  proof (rule insert_at_chain [OF chain1])
    show "cells ?h1 (B + 8) = ?S"
      by (simp add: write_node_def)
    show "0 < B"
      using ok(1) by (simp add: block_ok_def)
  qed (use ok(3) sizes in \<open>simp_all\<close>)
  moreover have "placed h (insert_block (B, ?S) fs @ ?al)"
    by (rule insert_block_placed [OF placed])
  moreover have "block_ok ?h' = block_ok h"
    by (rule block_ok_cong) (simp_all add: insert_at_fields write_node_def)
  moreover have "used ?h' - sz = (\<Sum>c\<leftarrow>?al. snd c - NODE_SIZE)"
  proof -
    have "(\<Sum>c\<leftarrow>al. snd c - NODE_SIZE) = sz + (\<Sum>c\<leftarrow>?al. snd c - NODE_SIZE)"
      using sum_list_map_remove1 [OF b, of "\<lambda>c. snd c - NODE_SIZE"] by simp
    then show ?thesis
      using inv by (simp add: heap_inv_def insert_at_fields write_node_def)
  qed
  ultimately have "heap_inv (?h'\<lparr>used := used ?h' - sz\<rparr>) (insert_block (B, ?S) fs) ?al"
    by (simp add: heap_inv_def placed_def)
  then show ?thesis
    using that [OF loop] by (simp add: insert_at_fields write_node_def)
qed

section \<open>Histories of the heap\<close>

text \<open>
  The live allocations as pointers with the layouts they were made for; the block behind one
  is its header and its payload rounded up to a multiple of eight.
\<close>

definition rounded :: "Layout \<Rightarrow> nat" where
  "rounded l = unat (align_up (layout_size l) (word_of_nat ALIGN))"

definition layout_ok :: "Layout \<Rightarrow> bool" where
  "layout_ok l \<longleftrightarrow> unat (layout_size l) < 2 ^ 63"

definition block_of :: "nat \<times> Layout \<Rightarrow> block" where
  "block_of = (\<lambda>(p, l). (p - NODE_SIZE, rounded l + NODE_SIZE))"

lemma rounded_props:
  assumes "layout_ok l"
  shows "8 dvd rounded l" "unat (layout_size l) \<le> rounded l" "rounded l < unat (layout_size l) + 8"
proof -
  have r: "rounded l = 8 * ((unat (layout_size l) + 7) div 8)"
    using assms align_up_nat [of "layout_size l"] by (simp add: rounded_def layout_ok_def ALIGN_def)
  then show "8 dvd rounded l"
    by simp
  show "unat (layout_size l) \<le> rounded l" "rounded l < unat (layout_size l) + 8"
    unfolding r by linarith+
qed

inductive heap_history :: "nat \<Rightarrow> nat \<Rightarrow> heap_state \<Rightarrow> (nat \<times> Layout) list \<Rightarrow> bool"
  for base total_bytes where
  init: "heap_history base total_bytes (heap_init base total_bytes h) []"
| alloc: "heap_history base total_bytes h live \<Longrightarrow> layout_ok l \<Longrightarrow> alloc_layout l h = Some (p, h')
    \<Longrightarrow> p \<noteq> 0 \<Longrightarrow> heap_history base total_bytes h' ((p, l) # live)"
| dealloc: "heap_history base total_bytes h live \<Longrightarrow> (p, l) \<in> set live \<Longrightarrow> dealloc_layout p l h = Some h'
    \<Longrightarrow> heap_history base total_bytes h' (remove1 (p, l) live)"
| store: "heap_history base total_bytes h live \<Longrightarrow> (p, l) \<in> set live \<Longrightarrow> p \<le> x \<Longrightarrow> x < p + rounded l
    \<Longrightarrow> heap_history base total_bytes (h\<lparr>cells := (cells h)(x := v)\<rparr>) live"

lemma heap_inv_perm:
  assumes "mset al = mset al'" "heap_inv h fs al"
  shows "heap_inv h fs al'"
proof -
  have "(\<Sum>b\<leftarrow>al. snd b - NODE_SIZE) = (\<Sum>b\<leftarrow>al'. snd b - NODE_SIZE)"
    using arg_cong [OF assms(1), of "\<lambda>m. sum_mset (image_mset (\<lambda>b. snd b - NODE_SIZE) m)"]
    by (simp flip: sum_mset_sum_list)
  moreover have "set al = set al'"
    using assms(1) by (rule mset_eq_setD)
  moreover have "sorted_wrt apart (fs @ al) = sorted_wrt apart (fs @ al')"
    using assms(1) by (intro apart_perm) simp
  ultimately show ?thesis
    using assms(2) by (simp add: heap_inv_def)
qed

text \<open>A store into an allocated block leaves the free list as it is.\<close>

lemma heap_inv_store:
  assumes "heap_inv h fs al" "b \<in> set al" "x \<in> block_bytes b"
  shows "heap_inv (h\<lparr>cells := (cells h)(x := v)\<rparr>) fs al"
proof -
  have "\<forall>c\<in>set fs. apart b c"
    using assms(1,2) apart_sym by (auto simp: heap_inv_def sorted_wrt_append)
  then have "{x} \<inter> headers fs = {}"
    using assms(3) heap_inv_sizes [OF assms(1)] by (intro apart_headers [of fs b]) auto
  then have "chain ((cells h)(x := v)) (head h) fs = chain (cells h) (head h) fs"
    by (intro chain_cong) auto
  moreover have "block_ok (h\<lparr>cells := (cells h)(x := v)\<rparr>) = block_ok h"
    by (rule block_ok_cong) simp_all
  ultimately show ?thesis
    using assms(1) by (simp add: heap_inv_def)
qed

lemma heap_init_inv:
  assumes "0 < base" "8 dvd base" "8 dvd n" "NODE_SIZE \<le> n"
  shows "heap_inv (heap_init base n h) [(base, n)] []"
  using assms by (simp add: heap_inv_def heap_init_def write_node_def block_ok_def)

lemma alloc_layout_cases:
  assumes inv: "heap_inv h fs al" and l: "layout_ok l"
  obtains (none) "alloc_layout l h = Some (0, h)"
      "unat (layout_align l) > ALIGN \<or> (\<forall>c\<in>set fs. snd c < rounded l + NODE_SIZE)"
  | (some) a h' fs' where "alloc_layout l h = Some (a + NODE_SIZE, h')"
      "heap_inv h' fs' ((a, rounded l + NODE_SIZE) # al)" "used h' = used h + rounded l"
      "heap_base h' = heap_base h" "heap_size h' = heap_size h"
      "\<exists>c\<in>set fs. rounded l + NODE_SIZE \<le> snd c"
proof (cases "unat (layout_align l) > ALIGN")
  case True
  then show ?thesis
    by (intro none) (simp_all add: alloc_layout_def)
next
  case False
  let ?need = "rounded l + NODE_SIZE"
  let ?xs = "takeWhile (\<lambda>c. snd c < ?need) fs" and ?fits = "dropWhile (\<lambda>c. snd c < ?need) fs"
  have chain: "chain (cells h) (head h) ([] @ fs)"
    using inv by (simp add: heap_inv_def)
  have run: "alloc_layout l h = (if ?fits = [] then Some (0, h)
     else Some (fst (hd ?fits) + NODE_SIZE,
       take_block ?need (rounded l) (link_of ?xs) (fst (hd ?fits)) h))"
    using False alloc_loop_first_fit [OF chain, of ?need "rounded l"]
    by (simp add: alloc_layout_def rounded_def Let_def)
  show ?thesis
  proof (cases ?fits)
    case Nil
    then show ?thesis
      using run by (intro none) auto
  next
    case (Cons c ys)
    obtain a s where c: "c = (a, s)"
      by (cases c)
    have fs: "fs = ?xs @ (a, s) # ys"
      using Cons c by (metis takeWhile_dropWhile_id)
    then have mem: "(a, s) \<in> set fs"
      by (metis in_set_conv_decomp)
    have "\<not> snd (hd ?fits) < ?need"
      using hd_dropWhile [of "\<lambda>c. snd c < ?need" fs] Cons by auto
    then have fit: "?need \<le> s"
      by (simp add: Cons c)
    have inv': "heap_inv h (?xs @ (a, s) # ys) al"
      using inv fs by simp
    show ?thesis
      by (rule some [OF _ take_block_inv [OF inv' fit rounded_props(1) [OF l]]])
        (use run Cons c mem fit in \<open>auto simp: take_block_fields intro: bexI [of _ "(a, s)"]\<close>)
  qed
qed

lemma heap_history_inv:
  assumes "heap_history base n h live" "0 < base" "8 dvd base" "8 dvd n" "NODE_SIZE \<le> n"
  shows "(\<exists>fs. heap_inv h fs (map block_of live)) \<and> (\<forall>(p, l)\<in>set live. layout_ok l \<and> NODE_SIZE < p)
    \<and> heap_base h = base \<and> heap_size h = n"
  using assms(1)
proof (induction rule: heap_history.induct)
  case (init h)
  then show ?case
    using heap_init_inv [OF assms(2-5)] by (auto simp: heap_init_def write_node_def)
next
  case (alloc h live l p h')
  then obtain fs where inv: "heap_inv h fs (map block_of live)"
    by blast
  from inv alloc.hyps(2) show ?case
  proof (cases rule: alloc_layout_cases)
    case none
    with alloc.hyps show ?thesis
      by simp
  next
    case (some a h1 fs')
    then have p: "p = a + NODE_SIZE" "h1 = h'"
      using alloc.hyps by auto
    then have "heap_inv h' fs' (map block_of ((p, l) # live))"
      using some(2) by (simp add: block_of_def)
    moreover have "0 < a"
      using some(2) by (auto simp: heap_inv_def block_ok_def)
    ultimately show ?thesis
      using alloc p some(4,5) by auto
  qed
next
  case (dealloc h live p l h')
  then obtain fs where inv: "heap_inv h fs (map block_of live)" and p: "NODE_SIZE < p"
    by blast
  have b: "(p - NODE_SIZE, rounded l + NODE_SIZE) \<in> set (map block_of live)"
    using dealloc.hyps(2) by (force simp: block_of_def)
  obtain h1 where h1: "dealloc_loop (p - NODE_SIZE) 0 None (write_node (p - NODE_SIZE) 0 (rounded l + NODE_SIZE) h) = Some h1"
      "heap_inv (h1\<lparr>used := used h1 - rounded l\<rparr>) (insert_block (p - NODE_SIZE, rounded l + NODE_SIZE) fs)
       (remove1 (p - NODE_SIZE, rounded l + NODE_SIZE) (map block_of live))"
      "used h1 = used h" "heap_base h1 = heap_base h" "heap_size h1 = heap_size h"
    by (rule dealloc_inv [OF inv b])
  have h': "h' = h1\<lparr>used := used h1 - rounded l\<rparr>"
    using dealloc.hyps(3) h1(1) by (simp add: dealloc_layout_def rounded_def Let_def)
  have "mset (remove1 (block_of (p, l)) (map block_of live)) = mset (map block_of (remove1 (p, l) live))"
    using dealloc.hyps(2) by (simp add: image_mset_Diff)
  then have "heap_inv h' (insert_block (p - NODE_SIZE, rounded l + NODE_SIZE) fs) (map block_of (remove1 (p, l) live))"
    using h1(2) h' by (elim heap_inv_perm) (simp add: block_of_def)
  moreover have "\<forall>(q, k)\<in>set (remove1 (p, l) live). layout_ok k \<and> NODE_SIZE < q"
    using dealloc.IH set_remove1_subset [of "(p, l)" live] by blast
  ultimately show ?case
    using dealloc.IH h1(4,5) h' by auto
next
  case (store h live p l x v)
  then obtain fs where inv: "heap_inv h fs (map block_of live)" and p: "NODE_SIZE < p"
    by blast
  have "x \<in> block_bytes (block_of (p, l))"
    using store.hyps p by (auto simp: block_of_def block_bytes_def)
  then have "heap_inv (h\<lparr>cells := (cells h)(x := v)\<rparr>) fs (map block_of live)"
    using store.hyps(2) by (intro heap_inv_store [OF inv]) auto
  then show ?case
    using store.IH by auto
qed

section \<open>Properties\<close>

text \<open>
  C6: in every state the heap reaches by allocations, frees of live allocations with their
  own layout, and arbitrary stores of the clients into their payloads, each live
  allocation's payload is eight-byte aligned and inside the arena, no two live payloads
  share a byte, and \<open>used\<close> is the sum of the live payload sizes.
\<close>

theorem heap_live_allocations_disjoint:
  assumes "heap_history base n h live" "0 < base" "8 dvd base" "8 dvd n" "NODE_SIZE \<le> n"
  shows "(\<forall>(p, l)\<in>set live. 8 dvd p \<and> base + NODE_SIZE \<le> p \<and> p + unat (layout_size l) \<le> base + n)
    \<and> sorted_wrt (\<lambda>(p, l) (q, k). {p ..< p + unat (layout_size l)} \<inter> {q ..< q + unat (layout_size k)} = {}) live
    \<and> heap_used h = (\<Sum>(p, l)\<leftarrow>live. rounded l)"
proof -
  obtain fs where inv: "heap_inv h fs (map block_of live)"
    and ok: "\<forall>(p, l)\<in>set live. layout_ok l \<and> NODE_SIZE < p" and arena: "heap_base h = base" "heap_size h = n"
    using heap_history_inv [OF assms] by blast
  have sub: "{p ..< p + unat (layout_size l)} \<subseteq> block_bytes (block_of (p, l))"
    if "(p, l) \<in> set live" for p l
    using ok that rounded_props(2) [of l] by (auto simp: block_of_def block_bytes_def)
  have "sorted_wrt (\<lambda>x y. apart (block_of x) (block_of y)) live"
    using inv by (simp add: heap_inv_def sorted_wrt_append sorted_wrt_map)
  then have "sorted_wrt (\<lambda>(p, l) (q, k). {p ..< p + unat (layout_size l)} \<inter> {q ..< q + unat (layout_size k)} = {}) live"
  proof (rule sorted_wrt_mono_rel [rotated])
    fix x y
    assume xy: "x \<in> set live" "y \<in> set live" "apart (block_of x) (block_of y)"
    obtain p l q k where x: "x = (p, l)" and y: "y = (q, k)"
      by (cases x, cases y)
    have "{p ..< p + unat (layout_size l)} \<inter> {q ..< q + unat (layout_size k)} = {}"
      using sub [of p l] sub [of q k] xy unfolding x y apart_def by blast
    then show "(case x of (p, l) \<Rightarrow> \<lambda>(q, k). {p ..< p + unat (layout_size l)} \<inter> {q ..< q + unat (layout_size k)} = {}) y"
      by (simp add: x y)
  qed
  moreover have "8 dvd p \<and> base + NODE_SIZE \<le> p \<and> p + unat (layout_size l) \<le> base + n"
    if "(p, l) \<in> set live" for p l
  proof -
    have "block_ok h (block_of (p, l))" and p: "layout_ok l" "NODE_SIZE < p"
      using inv that ok by (auto simp: heap_inv_def)
    then have b: "base \<le> p - NODE_SIZE" "8 dvd p - NODE_SIZE" "p - NODE_SIZE + (rounded l + NODE_SIZE) \<le> base + n"
      using arena by (auto simp: block_of_def block_ok_def)
    have "8 dvd (p - NODE_SIZE) + NODE_SIZE"
      using b(2) by (intro dvd_add) (simp_all add: NODE_SIZE_def)
    then show ?thesis
      using b p rounded_props(2) [of l] by simp
  qed
  moreover have "heap_used h = (\<Sum>(p, l)\<leftarrow>live. rounded l)"
    using inv by (simp add: heap_inv_def heap_used_def block_of_def comp_def split_def)
  ultimately show ?thesis
    by blast
qed

definition sample_layout :: Layout where
  "sample_layout = \<lparr>layout_size = 20, layout_align = 8\<rparr>"

lemma sample_alloc:
  "\<exists>h'. alloc_layout sample_layout (heap_init 64 128 heap_empty) = Some (80, h')
     \<and> heap_history 64 128 h' [(80, sample_layout)]"
proof -
  let ?h = "heap_init 64 128 heap_empty"
  have "rounded sample_layout = 24" "layout_ok sample_layout"
    by (simp_all add: rounded_def sample_layout_def align_up_def ALIGN_def layout_ok_def)
  then have run: "alloc_layout sample_layout ?h = Some (80, take_block 40 24 None 64 ?h)"
    using alloc_loop_first_fit [of ?h "[]" "[(64, 128)]" 40 24]
    by (simp add: alloc_layout_def rounded_def [symmetric] NODE_SIZE_def heap_init_def write_node_def)
      (simp add: sample_layout_def ALIGN_def)
  moreover have "heap_history 64 128 (take_block 40 24 None 64 ?h) [(80, sample_layout)]"
    by (rule heap_history.alloc [OF heap_history.init _ run]) (use \<open>layout_ok sample_layout\<close> in simp_all)
  ultimately show ?thesis
    by blast
qed

theorem heap_live_allocations_disjoint_witness:
  "\<exists>h'. heap_history 64 128 h' [(80, sample_layout)] \<and> heap_used h' = 24"
proof -
  obtain h' where h': "heap_history 64 128 h' [(80, sample_layout)]"
    using sample_alloc by blast
  have "rounded sample_layout = 24"
    by (simp add: rounded_def sample_layout_def align_up_def ALIGN_def)
  with heap_live_allocations_disjoint [OF h'] h' show ?thesis
    by (auto simp: NODE_SIZE_def)
qed

text \<open>
  C7: allocation on a well-formed heap always returns.  It returns null, leaving the heap
  as it was, exactly when the requested alignment is above eight or no free block can hold
  the rounded payload with its header; otherwise it returns an aligned payload whose block
  joins the allocated ones, and the heap stays well formed.
\<close>

theorem alloc_layout_correct:
  assumes "heap_inv h fs al" "layout_ok l"
  shows "\<exists>p h'. alloc_layout l h = Some (p, h')
    \<and> (if unat (layout_align l) > ALIGN \<or> (\<forall>c\<in>set fs. snd c < rounded l + NODE_SIZE)
       then p = 0 \<and> h' = h
       else 8 dvd p \<and> p \<noteq> 0 \<and> heap_used h' = heap_used h + rounded l
         \<and> (\<exists>fs'. heap_inv h' fs' ((p - NODE_SIZE, rounded l + NODE_SIZE) # al)))"
  using assms
proof (cases rule: alloc_layout_cases)
  case none
  then show ?thesis
    by simp
next
  case (some a h' fs')
  have "8 dvd a" "0 < a"
    using some(2) by (auto simp: heap_inv_def block_ok_def)
  then have "8 dvd a + NODE_SIZE"
    by (intro dvd_add) (simp_all add: NODE_SIZE_def)
  moreover have "\<not> unat (layout_align l) > ALIGN"
    using some(1) \<open>0 < a\<close> by (auto simp: alloc_layout_def)
  moreover have "\<not> (\<forall>c\<in>set fs. snd c < rounded l + NODE_SIZE)"
    using some(6) by (meson not_le)
  ultimately show ?thesis
    using some(1-3) \<open>0 < a\<close> by (auto simp: heap_used_def)
qed

theorem alloc_layout_correct_witness:
  "\<exists>p h'. alloc_layout sample_layout (heap_init 64 128 heap_empty) = Some (p, h') \<and> p \<noteq> 0"
proof -
  have "heap_inv (heap_init 64 128 heap_empty) [(64, 128)] []"
    by (rule heap_init_inv) (simp_all add: NODE_SIZE_def)
  moreover have "layout_ok sample_layout" "rounded sample_layout = 24" "unat (layout_align sample_layout) = 8"
    by (simp_all add: rounded_def sample_layout_def align_up_def ALIGN_def layout_ok_def)
  ultimately show ?thesis
    using alloc_layout_correct [of "heap_init 64 128 heap_empty" "[(64, 128)]" "[]" sample_layout]
    by (auto simp: ALIGN_def NODE_SIZE_def)
qed

text \<open>
  Freeing an allocated block always returns; the block goes back into the free list,
  joined with the free blocks it touches at its place, no byte of the free list is lost, and
  the heap stays well formed.
\<close>

lemma dealloc_layout_correct:
  assumes "heap_inv h fs al" "(p - NODE_SIZE, rounded l + NODE_SIZE) \<in> set al"
  shows "\<exists>h' fs'. dealloc_layout p l h = Some h'
    \<and> heap_inv h' fs' (remove1 (p - NODE_SIZE, rounded l + NODE_SIZE) al)
    \<and> heap_used h' = heap_used h - rounded l
    \<and> (\<Sum>c\<leftarrow>fs'. snd c) = (\<Sum>c\<leftarrow>fs. snd c) + rounded l + NODE_SIZE"
proof (rule dealloc_inv [OF assms])
  fix h'
  assume h': "dealloc_loop (p - NODE_SIZE) 0 None (write_node (p - NODE_SIZE) 0 (rounded l + NODE_SIZE) h) = Some h'"
    "heap_inv (h'\<lparr>used := used h' - rounded l\<rparr>) (insert_block (p - NODE_SIZE, rounded l + NODE_SIZE) fs)
       (remove1 (p - NODE_SIZE, rounded l + NODE_SIZE) al)" "used h' = used h"
  then have "dealloc_layout p l h = Some (h'\<lparr>used := used h' - rounded l\<rparr>)"
    by (simp add: dealloc_layout_def rounded_def Let_def)
  with h' show ?thesis
    by (intro exI [of _ "h'\<lparr>used := used h' - rounded l\<rparr>"]
        exI [of _ "insert_block (p - NODE_SIZE, rounded l + NODE_SIZE) fs"])
      (simp add: heap_used_def insert_block_bytes)
qed

lemma dealloc_layout_correct_witness:
  "\<exists>h h'. heap_used h = 24 \<and> dealloc_layout 80 sample_layout h = Some h' \<and> heap_used h' = 0"
proof -
  have r: "rounded sample_layout = 24" "layout_ok sample_layout" "unat (layout_align sample_layout) = 8"
    by (simp_all add: rounded_def sample_layout_def align_up_def ALIGN_def layout_ok_def)
  obtain h where h: "heap_history 64 128 h [(80, sample_layout)]"
    using sample_alloc by blast
  then obtain fs where inv: "heap_inv h fs [(64, 40)]"
    using heap_history_inv [OF h] r by (auto simp: block_of_def NODE_SIZE_def)
  have "heap_used h = 24"
    using inv by (simp add: heap_inv_def heap_used_def NODE_SIZE_def)
  with dealloc_layout_correct [OF inv, of 80 sample_layout] r show ?thesis
    by (auto simp: NODE_SIZE_def)
qed

end
