(* ===== verification/Sched.thy ===== *)
theory Sched
  imports Lion_Prelude
begin

text \<open>
  Model of \<open>src/kernel/src/sched.rs\<close> and of the switch it calls,
  \<open>src/kernel/asm/switch.asm\<close>.  The first part is the architecture-free scheduler: a ring
  of slots of which the last stands for the boot context.  The second part is the kernel
  target: the statics, the processor's stack pointer, callee-saved registers and
  instruction pointer, and stack memory as 8-byte cells by address.  Stack addresses are
  natural numbers; the indices of the ring stay inside the task vector by the invariant
  \<open>sched_wf\<close>, so no index panics.
\<close>

section \<open>The ring\<close>

definition TASKS_CAP :: nat where
  "TASKS_CAP = 4"

definition STACK_SIZE :: nat where
  "STACK_SIZE = 8192"

datatype TaskState = Ready | Running | Blocked

record Pcb =
  task_state :: TaskState
  saved_rsp :: nat

definition pcb_new :: Pcb where
  "pcb_new = \<lparr>task_state = Ready, saved_rsp = 0\<rparr>"

record Scheduler =
  tasks :: "Pcb list"
  current :: nat
  switches :: u64
  started :: bool
  switch_pending :: bool
  real_tasks :: nat

definition scheduler_new :: Scheduler where
  "scheduler_new = \<lparr>tasks = [], current = 0, switches = 0, started = False,
     switch_pending = False, real_tasks = 0\<rparr>"

definition is_idle :: "Scheduler \<Rightarrow> nat \<Rightarrow> bool" where
  "is_idle s idx \<longleftrightarrow> idx \<ge> real_tasks s"

definition runnable :: "Pcb \<Rightarrow> bool" where
  "runnable p \<longleftrightarrow> task_state p = Ready \<or> task_state p = Running"

definition next_index :: "Pcb list \<Rightarrow> nat \<Rightarrow> nat option" where
  "next_index ts cur =
     (if ts = [] then None
      else find (\<lambda>i. runnable (ts ! i)) (map (\<lambda>step. (cur + step) mod length ts) [1..<Suc (length ts)]))"

definition push_task :: "Pcb \<Rightarrow> Scheduler \<Rightarrow> Scheduler" where
  "push_task pcb s = s\<lparr>tasks := tasks s @ [pcb]\<rparr>"

definition tick :: "Scheduler \<Rightarrow> bool \<times> Scheduler" where
  "tick s =
     (if \<not> started s then (False, s)
      else case next_index (tasks s) (current s) of
        Some i \<Rightarrow> if i \<noteq> current s then (True, s\<lparr>current := i, switch_pending := True\<rparr>) else (False, s)
      | None \<Rightarrow> (False, s))"

section \<open>The kernel target\<close>

record cpu =
  rsp :: nat
  callee_saved :: "nat list"
  rip :: nat

record world =
  sched :: Scheduler
  CURRENT_ID :: nat
  IDLE_RSP :: nat
  TASK_FN :: "nat option"
  SCHED_ON :: bool
  PIT_KICKS :: u64
  regs :: cpu
  stack :: "nat \<Rightarrow> nat"

datatype rsp_slot = IdleSlot | TaskSlot nat

definition store_slot :: "rsp_slot \<Rightarrow> nat \<Rightarrow> world \<Rightarrow> world" where
  "store_slot slot v w =
     (case slot of
        IdleSlot \<Rightarrow> w\<lparr>IDLE_RSP := v\<rparr>
      | TaskSlot i \<Rightarrow> w\<lparr>sched := (sched w)\<lparr>tasks := (tasks (sched w))[i := (tasks (sched w) ! i)\<lparr>saved_rsp := v\<rparr>]\<rparr>\<rparr>)"

definition push_cell :: "nat \<Rightarrow> world \<Rightarrow> world" where
  "push_cell v w =
     w\<lparr>regs := (regs w)\<lparr>rsp := rsp (regs w) - 8\<rparr>, stack := (stack w)(rsp (regs w) - 8 := v)\<rparr>"

fun push_all :: "nat list \<Rightarrow> world \<Rightarrow> world" where
  "push_all [] w = w"
| "push_all (v # vs) w = push_all vs (push_cell v w)"

text \<open>
  \<open>pops n sp m\<close> are the values \<open>n\<close> pops read from address \<open>sp\<close> upwards.  \<open>switch.asm\<close> pushes
  rbx, rbp, r12, r13, r14, r15 in this order and pops them in the opposite one, so the popped
  list reversed is the register list.  The call pushes the return address \<open>ra\<close> first and \<open>ret\<close>
  pops one.
\<close>

definition pops :: "nat \<Rightarrow> nat \<Rightarrow> (nat \<Rightarrow> nat) \<Rightarrow> nat list" where
  "pops n sp m = map (\<lambda>i. m (sp + 8 * i)) [0..<n]"

definition context_switch :: "rsp_slot \<Rightarrow> nat \<Rightarrow> nat \<Rightarrow> world \<Rightarrow> world" where
  "context_switch prev_sp next_sp ra w =
     (let w1 = push_all (callee_saved (regs w)) (push_cell ra w);
          w2 = store_slot prev_sp (rsp (regs w1)) w1
      in w2\<lparr>regs := \<lparr>rsp = next_sp + 56, callee_saved = rev (pops 6 next_sp (stack w2)),
              rip = stack w2 (next_sp + 48)\<rparr>\<rparr>)"

text \<open>
  The task stack: \<open>base\<close> is the address the heap returned for the boxed array, which is
  zeroed; the synthetic frame is laid down from the top.
\<close>

fun zero_down :: "nat \<Rightarrow> nat \<Rightarrow> (nat \<Rightarrow> nat) \<Rightarrow> nat \<times> (nat \<Rightarrow> nat)" where
  "zero_down 0 p m = (p, m)"
| "zero_down (Suc n) p m = zero_down n (p - 8) (m(p := 0))"

definition alloc_task_stack :: "nat \<Rightarrow> nat \<Rightarrow> (nat \<Rightarrow> nat) \<Rightarrow> nat \<times> (nat \<Rightarrow> nat)" where
  "alloc_task_stack base entry_addr m =
     (let m0 = (\<lambda>a. if base \<le> a \<and> a < base + STACK_SIZE then 0 else m a);
          top = base + STACK_SIZE;
          p = top - 8;
          m1 = m0(p := entry_addr);
          (p', m2) = zero_down 6 (p - 8) m1
      in (p' + 8, m2))"

definition spawn :: "nat \<Rightarrow> nat \<Rightarrow> nat \<Rightarrow> world \<Rightarrow> world" where
  "spawn base entry_addr f w0 =
     (let w = w0\<lparr>TASK_FN := Some f\<rparr>; s = sched w in
      if real_tasks s \<ge> TASKS_CAP - 1 then w
      else let (sp, m) = alloc_task_stack base entry_addr (stack w);
               pcb = pcb_new\<lparr>saved_rsp := sp\<rparr>;
               s1 = s\<lparr>tasks := take (real_tasks s) (tasks s) @ pcb # drop (real_tasks s) (tasks s),
                      real_tasks := real_tasks s + 1\<rparr>;
               w1 = w\<lparr>stack := m, sched := s1\<rparr>
           in if real_tasks s1 = 1
              then w1\<lparr>sched := s1\<lparr>started := True\<rparr>, SCHED_ON := True, CURRENT_ID := real_tasks s1\<rparr>
              else w1)"

definition finish :: "world \<Rightarrow> world" where
  "finish w =
     (let s = sched w in
      if real_tasks s = 0 then w
      else w\<lparr>sched := s\<lparr>tasks := tasks s @ [pcb_new], current := real_tasks s\<rparr>,
             CURRENT_ID := real_tasks s\<rparr>)"

definition run_pending_switch :: "nat \<Rightarrow> world \<Rightarrow> world" where
  "run_pending_switch ra w =
     (let s = sched w in
      if \<not> started s \<or> \<not> switch_pending s then w
      else let target = current s;
               w1 = w\<lparr>sched := s\<lparr>switch_pending := False, switches := switches s + 1\<rparr>\<rparr>;
               prev = CURRENT_ID w;
               target_sp = (if target \<ge> real_tasks s then IDLE_RSP w else saved_rsp (tasks s ! target));
               slot = (if prev \<ge> real_tasks s then IdleSlot else TaskSlot prev)
           in context_switch slot target_sp ra (w1\<lparr>CURRENT_ID := target\<rparr>))"

definition sched_switches :: "world \<Rightarrow> u64" where
  "sched_switches w = switches (sched w)"

definition task_count :: "world \<Rightarrow> nat" where
  "task_count w = real_tasks (sched w)"

definition on_timer_irq :: "world \<Rightarrow> world" where
  "on_timer_irq w = (if SCHED_ON w then w\<lparr>PIT_KICKS := PIT_KICKS w + 1\<rparr> else w)"

definition pump_ticks :: "world \<Rightarrow> world" where
  "pump_ticks w =
     (let kicks = PIT_KICKS w; w1 = w\<lparr>PIT_KICKS := 0\<rparr> in
      if kicks = 0 then w1
      else if started (sched w1) then w1\<lparr>sched := snd (tick (sched w1))\<rparr> else w1)"

text \<open>One round of \<open>idle_loop\<close> and of the parking loop of \<open>task_entry\<close>, up to the halt or pause.\<close>

definition loop_round :: "nat \<Rightarrow> world \<Rightarrow> world" where
  "loop_round ra w = run_pending_switch ra (pump_ticks w)"

section \<open>Selection\<close>

definition ring_dist :: "nat \<Rightarrow> nat \<Rightarrow> nat \<Rightarrow> nat" where
  "ring_dist n i j = (j + n - i) mod n"

lemma ring_dist_cases:
  "i \<le> j \<Longrightarrow> j < n \<Longrightarrow> ring_dist n i j = j - i"
  "j < i \<Longrightarrow> i < n \<Longrightarrow> ring_dist n i j = j + n - i"
proof -
  assume "i \<le> j" "j < n"
  then have "j + n - i = (j - i) + n" "j - i < n"
    by simp_all
  then show "ring_dist n i j = j - i"
    by (simp only: ring_dist_def mod_add_self2 mod_less)
next
  assume "j < i" "i < n"
  then have "j + n - i < n"
    by simp
  then show "ring_dist n i j = j + n - i"
    by (simp only: ring_dist_def mod_less)
qed

lemma ring_step:
  assumes "i < n" "j < n" "0 < step" "step \<le> ring_dist n i j"
  shows "ring_dist n ((i + step) mod n) j = ring_dist n i j - step"
proof (cases "i \<le> j")
  case True
  then have "i + step \<le> j"
    using assms by (simp add: ring_dist_cases)
  then show ?thesis
    using True assms(2) by (simp add: ring_dist_cases)
next
  case False
  then have d: "ring_dist n i j = j + n - i"
    using assms(1) by (simp add: ring_dist_cases)
  show ?thesis
  proof (cases "i + step < n")
    case True
    then show ?thesis
      using False d by (simp add: ring_dist_cases)
  next
    case wrap: False
    then have "(i + step) mod n = i + step - n" "i + step - n \<le> j"
      using assms(1,2,4) d by (simp_all add: mod_if)
    then show ?thesis
      using wrap d assms(2) by (simp add: ring_dist_cases)
  qed
qed

lemma ring_reach: "i < n \<Longrightarrow> j < n \<Longrightarrow> (i + ring_dist n i j) mod n = j"
proof -
  assume a: "i < n" "j < n"
  have "(i + ring_dist n i j) mod n = (i + (j + n - i)) mod n"
    unfolding ring_dist_def by (rule mod_add_right_eq)
  also have "i + (j + n - i) = j + n"
    using a by simp
  finally show ?thesis
    using a by simp
qed

text \<open>
  The scan stops at the first runnable slot after the current one, so it never passes a
  runnable slot.
\<close>

lemma next_index_Some:
  assumes "next_index ts cur = Some i"
  obtains step where "0 < step" "step \<le> length ts" "i = (cur + step) mod length ts" "i < length ts"
    "runnable (ts ! i)" "\<forall>k. 0 < k \<longrightarrow> k < step \<longrightarrow> \<not> runnable (ts ! ((cur + k) mod length ts))"
proof -
  let ?f = "\<lambda>step. (cur + step) mod length ts"
  have ne: "ts \<noteq> []"
    using assms by (auto simp: next_index_def)
  have "find (\<lambda>i. runnable (ts ! i)) (map ?f [1..<Suc (length ts)]) = Some i"
    using assms ne by (simp add: next_index_def)
  then obtain k where k: "k < length ts" "runnable (ts ! i)" "i = ?f (Suc k)"
    and before: "\<forall>j<k. \<not> runnable (ts ! ?f (Suc j))"
    by (auto simp: find_Some_iff simp del: upt_Suc)
  have "\<not> runnable (ts ! ?f m)" if "0 < m" "m < Suc k" for m
    using before that by (cases m) auto
  then show ?thesis
    using that [of "Suc k"] k ne by auto
qed

lemma next_index_None: "next_index ts cur = None \<longleftrightarrow> (\<forall>p\<in>set ts. \<not> runnable p)"
proof (cases "ts = []")
  case False
  let ?f = "\<lambda>step. (cur + step) mod length ts"
  have n: "0 < length ts"
    using False by simp
  have "?f ` {1..length ts} = {..<length ts}"
  proof
    show "{..<length ts} \<subseteq> ?f ` {1..length ts}"
    proof
      fix j
      assume "j \<in> {..<length ts}"
      then have j: "j < length ts"
        by simp
      let ?d = "ring_dist (length ts) (cur mod length ts) j"
      have "(cur mod length ts + ?d) mod length ts = j"
        using n j by (intro ring_reach) simp_all
      then have reach: "?f ?d = j"
        by (simp add: mod_simps)
      have "?d < length ts"
        using n by (simp add: ring_dist_def)
      then show "j \<in> ?f ` {1..length ts}"
      proof (cases "?d = 0")
        case True
        then have "?f (length ts) = j"
          using reach by simp
        then show ?thesis
          using n by (intro image_eqI [of _ _ "length ts"]) (simp_all add: Suc_le_eq)
      next
        case False
        then show ?thesis
          using reach \<open>?d < length ts\<close> by (intro image_eqI [of _ _ ?d]) simp_all
      qed
    qed
  qed (use n in auto)
  then have all: "set (map ?f [1..<Suc (length ts)]) = {..<length ts}"
    by (simp add: atLeastLessThanSuc_atLeastAtMost del: upt_Suc)
  have "next_index ts cur = None \<longleftrightarrow> (\<forall>i\<in>set (map ?f [1..<Suc (length ts)]). \<not> runnable (ts ! i))"
    using False unfolding next_index_def by (simp only: if_False find_None_iff) blast
  also have "\<dots> \<longleftrightarrow> (\<forall>p\<in>set ts. \<not> runnable p)"
    unfolding all by (auto simp: all_set_conv_all_nth)
  finally show ?thesis .
qed (simp add: next_index_def)

abbreviation after_ticks :: "nat \<Rightarrow> Scheduler \<Rightarrow> Scheduler" where
  "after_ticks k s \<equiv> ((\<lambda>t. snd (tick t)) ^^ k) s"

lemma tick_closer:
  assumes "started s" "current s < length (tasks s)" "j < length (tasks s)" "runnable (tasks s ! j)"
    and "current s \<noteq> j"
  defines "n \<equiv> length (tasks s)" and "s' \<equiv> snd (tick s)"
  shows "started s'" "tasks s' = tasks s" "current s' < n" "ring_dist n (current s') j < ring_dist n (current s) j"
proof -
  have n: "current s < n" "j < n"
    using assms by simp_all
  let ?d = "ring_dist n (current s) j"
  have d: "0 < ?d"
  proof (rule ccontr)
    assume "\<not> 0 < ?d"
    then show False
      using ring_reach [OF n] assms(5) n by simp
  qed
  have "next_index (tasks s) (current s) \<noteq> None"
    using next_index_None assms(3,4) by (metis nth_mem)
  then obtain i where i: "next_index (tasks s) (current s) = Some i"
    by blast
  then obtain step where step: "0 < step" "i = (current s + step) mod n" "i < n"
      "\<forall>k. 0 < k \<longrightarrow> k < step \<longrightarrow> \<not> runnable (tasks s ! ((current s + k) mod n))"
    unfolding n_def by (rule next_index_Some)
  have "step \<le> ?d"
    using step(4) d ring_reach [OF n] assms(4) by (metis not_le)
  then have closer: "ring_dist n i j < ?d"
    using ring_step [OF n step(1)] step(1,2) d by simp
  then have "i \<noteq> current s"
    by auto
  then have "s' = s\<lparr>current := i, switch_pending := True\<rparr>"
    using assms(1) i by (simp add: s'_def tick_def)
  then show "started s'" "tasks s' = tasks s" "current s' < n" "ring_dist n (current s') j < ?d"
    using assms(1) step(3) closer by simp_all
qed

lemma ticks_reach:
  assumes "started s" "current s < length (tasks s)" "j < length (tasks s)" "runnable (tasks s ! j)"
  shows "\<exists>k\<le>ring_dist (length (tasks s)) (current s) j. current (after_ticks k s) = j"
  using assms
proof (induction "ring_dist (length (tasks s)) (current s) j" arbitrary: s rule: less_induct)
  case less
  show ?case
  proof (cases "current s = j")
    case True
    then show ?thesis
      by (intro exI [of _ 0]) simp
  next
    case False
    let ?s = "snd (tick s)"
    note t = tick_closer [OF less.prems False]
    have "\<exists>k\<le>ring_dist (length (tasks ?s)) (current ?s) j. current (after_ticks k ?s) = j"
      using t less.prems by (intro less.hyps) simp_all
    then obtain k where "k \<le> ring_dist (length (tasks s)) (current ?s) j" "current (after_ticks k ?s) = j"
      using t(2) by auto
    then show ?thesis
      using t(4) by (intro exI [of _ "Suc k"]) (simp add: funpow_Suc_right del: funpow.simps)
  qed
qed

section \<open>Switching\<close>

text \<open>
  The invariant of the running system: after \<open>finish\<close> the ring holds the real tasks and the
  idle slot, and outside a pending switch the cursor is on the running slot.
\<close>

definition sched_wf :: "world \<Rightarrow> bool" where
  "sched_wf w \<longleftrightarrow> started (sched w) \<and> length (tasks (sched w)) = real_tasks (sched w) + 1
     \<and> current (sched w) < length (tasks (sched w)) \<and> CURRENT_ID w \<le> real_tasks (sched w)
     \<and> (\<not> switch_pending (sched w) \<longrightarrow> current (sched w) = CURRENT_ID w)
     \<and> (switch_pending (sched w) \<longrightarrow> current (sched w) \<noteq> CURRENT_ID w)
     \<and> length (callee_saved (regs w)) = 6"

definition slot_rsp :: "world \<Rightarrow> nat \<Rightarrow> nat" where
  "slot_rsp w i = (if i \<ge> real_tasks (sched w) then IDLE_RSP w else saved_rsp (tasks (sched w) ! i))"

text \<open>\<open>parked w i c\<close>: switching to slot \<open>i\<close> resumes with the processor state \<open>c\<close>.\<close>

definition parked :: "world \<Rightarrow> nat \<Rightarrow> cpu \<Rightarrow> bool" where
  "parked w i c \<longleftrightarrow> rsp c = slot_rsp w i + 56 \<and> callee_saved c = rev (pops 6 (slot_rsp w i) (stack w))
     \<and> rip c = stack w (slot_rsp w i + 48)"

lemma pops_6: "pops 6 sp m = [m sp, m (sp + 8), m (sp + 16), m (sp + 24), m (sp + 32), m (sp + 40)]"
  by (simp add: pops_def upt_rec)

lemma push_all_6:
  fixes ra :: nat
  assumes "length vs = 6" "56 \<le> rsp (regs w)"
  defines "w1 \<equiv> push_all vs (push_cell ra w)" and "sp \<equiv> rsp (regs w) - 56"
  shows "rsp (regs w1) = sp" "rev (pops 6 sp (stack w1)) = vs" "stack w1 (sp + 48) = ra"
    "\<forall>a. (a < sp \<or> sp + 56 \<le> a) \<longrightarrow> stack w1 a = stack w a"
    "sched w1 = sched w" "CURRENT_ID w1 = CURRENT_ID w" "IDLE_RSP w1 = IDLE_RSP w"
proof -
  obtain a b c d e f where vs: "vs = [a, b, c, d, e, f]"
    using assms(1) by (auto simp: length_Suc_conv eval_nat_numeral)
  obtain r where r: "rsp (regs w) = r + 56"
    using assms(2) by (metis add.commute le_Suc_ex)
  show "rsp (regs w1) = sp" "rev (pops 6 sp (stack w1)) = vs" "stack w1 (sp + 48) = ra"
    "\<forall>a. (a < sp \<or> sp + 56 \<le> a) \<longrightarrow> stack w1 a = stack w a"
    "sched w1 = sched w" "CURRENT_ID w1 = CURRENT_ID w" "IDLE_RSP w1 = IDLE_RSP w"
    by (auto simp: w1_def sp_def vs r push_cell_def pops_6)
qed

lemma run_pending_switch_step:
  fixes ra :: nat
  assumes wf: "sched_wf w" "switch_pending (sched w)" "56 \<le> rsp (regs w)"
  defines "w' \<equiv> run_pending_switch ra w" and "sp \<equiv> rsp (regs w) - 56"
  shows "slot_rsp w' (CURRENT_ID w) = sp"
    and "\<forall>i. i \<le> real_tasks (sched w) \<longrightarrow> i \<noteq> CURRENT_ID w \<longrightarrow> slot_rsp w' i = slot_rsp w i"
    and "rev (pops 6 sp (stack w')) = callee_saved (regs w)" "stack w' (sp + 48) = ra"
    and "\<forall>a. (a < sp \<or> sp + 56 \<le> a) \<longrightarrow> stack w' a = stack w a"
    and "regs w' = \<lparr>rsp = slot_rsp w (current (sched w)) + 56,
           callee_saved = rev (pops 6 (slot_rsp w (current (sched w))) (stack w')),
           rip = stack w' (slot_rsp w (current (sched w)) + 48)\<rparr>"
    and "CURRENT_ID w' = current (sched w)" "sched_wf w'" "\<not> switch_pending (sched w')"
    and "real_tasks (sched w') = real_tasks (sched w)" "switches (sched w') = switches (sched w) + 1"
    and "map task_state (tasks (sched w')) = map task_state (tasks (sched w))"
proof -
  let ?s = "sched w"
  let ?w0 = "w\<lparr>sched := ?s\<lparr>switch_pending := False, switches := switches ?s + 1\<rparr>, CURRENT_ID := current ?s\<rparr>"
  let ?slot = "if CURRENT_ID w \<ge> real_tasks ?s then IdleSlot else TaskSlot (CURRENT_ID w)"
  let ?w1 = "push_all (callee_saved (regs ?w0)) (push_cell ra ?w0)"
  have six: "length (callee_saved (regs ?w0)) = 6" "56 \<le> rsp (regs ?w0)"
    using wf by (auto simp: sched_wf_def)
  note p = push_all_6 [OF six, of ra]
  have w': "w' = context_switch ?slot (slot_rsp w (current ?s)) ra ?w0"
    using wf(1,2) by (simp add: w'_def run_pending_switch_def sched_wf_def slot_rsp_def Let_def)
  let ?w2 = "store_slot ?slot sp ?w1"
  have eq: "w' = ?w2\<lparr>regs := \<lparr>rsp = slot_rsp w (current ?s) + 56,
      callee_saved = rev (pops 6 (slot_rsp w (current ?s)) (stack ?w2)),
      rip = stack ?w2 (slot_rsp w (current ?s) + 48)\<rparr>\<rparr>"
    using p(1) by (simp add: w' context_switch_def Let_def sp_def)
  have st: "stack ?w2 = stack ?w1" "CURRENT_ID ?w2 = current ?s"
    using p by (auto simp: store_slot_def)
  then have stack': "stack w' = stack ?w1"
    by (simp add: eq)
  show "rev (pops 6 sp (stack w')) = callee_saved (regs w)" "stack w' (sp + 48) = ra"
    "\<forall>a. (a < sp \<or> sp + 56 \<le> a) \<longrightarrow> stack w' a = stack w a"
    using p(2-4) by (simp_all add: stack' sp_def)
  show "regs w' = \<lparr>rsp = slot_rsp w (current ?s) + 56,
           callee_saved = rev (pops 6 (slot_rsp w (current ?s)) (stack w')),
           rip = stack w' (slot_rsp w (current ?s) + 48)\<rparr>"
    using st by (simp add: eq)
  show "CURRENT_ID w' = current ?s"
    using st by (simp add: eq)
  have cur: "CURRENT_ID w \<le> real_tasks ?s" "length (tasks ?s) = real_tasks ?s + 1"
    using wf(1) by (simp_all add: sched_wf_def)
  show "slot_rsp w' (CURRENT_ID w) = sp"
    "\<forall>i. i \<le> real_tasks ?s \<longrightarrow> i \<noteq> CURRENT_ID w \<longrightarrow> slot_rsp w' i = slot_rsp w i"
    "\<not> switch_pending (sched w')" "real_tasks (sched w') = real_tasks ?s"
    "switches (sched w') = switches ?s + 1" "map task_state (tasks (sched w')) = map task_state (tasks ?s)"
    using p(5-7) cur by (auto simp: eq store_slot_def slot_rsp_def map_update nth_list_update intro!: nth_equalityI)
  show "sched_wf w'"
    using wf(1) p(5-7) cur st by (auto simp: sched_wf_def eq store_slot_def pops_def)
qed

text \<open>A tick keeps the invariant: it moves the cursor to another slot and flags the switch.\<close>

lemma pump_ticks_wf:
  assumes "sched_wf w" "\<not> switch_pending (sched w)"
  shows "sched_wf (pump_ticks w)"
proof -
  have "current (snd (tick (sched w))) < length (tasks (sched w))"
    using assms(1) by (auto simp: tick_def sched_wf_def split: option.splits elim!: next_index_Some)
  moreover have "CURRENT_ID w = current (sched w)"
    using assms by (simp add: sched_wf_def)
  ultimately show ?thesis
    using assms by (auto simp: pump_ticks_def sched_wf_def tick_def Let_def split: option.splits)
qed

lemma zero_down_numeral: "zero_down (numeral n) p m = zero_down (pred_numeral n) (p - 8) (m(p := 0))"
  by (simp add: numeral_eq_Suc)

lemma alloc_task_stack_frame:
  fixes base entry :: nat and m :: "nat \<Rightarrow> nat"
  defines "sp \<equiv> fst (alloc_task_stack base entry m)" and "m' \<equiv> snd (alloc_task_stack base entry m)"
  shows "sp + 56 = base + STACK_SIZE" "pops 6 sp m' = [0, 0, 0, 0, 0, 0]" "m' (sp + 48) = entry"
    "\<forall>a. (a < base \<or> base + STACK_SIZE \<le> a) \<longrightarrow> m' a = m a"
  by (simp_all add: sp_def m'_def alloc_task_stack_def STACK_SIZE_def pops_6 Let_def zero_down_numeral)

section \<open>Properties\<close>

text \<open>
  C9: round robin is fair: once started, every runnable slot of the ring is selected within
  fewer ticks than the ring has slots, whatever the states of the other slots.
\<close>

theorem round_robin_fair:
  assumes "started s" "current s < length (tasks s)" "j < length (tasks s)" "runnable (tasks s ! j)"
  shows "\<exists>k<length (tasks s). current (((\<lambda>t. snd (tick t)) ^^ k) s) = j"
proof -
  have "ring_dist (length (tasks s)) (current s) j < length (tasks s)"
    unfolding ring_dist_def using assms(3) by (intro mod_less_divisor) auto
  moreover obtain k where "k \<le> ring_dist (length (tasks s)) (current s) j" "current (after_ticks k s) = j"
    using ticks_reach [OF assms] by blast
  ultimately show ?thesis
    by (intro exI [of _ k]) simp
qed

theorem round_robin_fair_witness:
  "\<exists>k<3. current (((\<lambda>t. snd (tick t)) ^^ k)
     (scheduler_new\<lparr>tasks := [pcb_new, pcb_new\<lparr>task_state := Blocked\<rparr>, pcb_new], current := 2, started := True\<rparr>)) = 0"
  using round_robin_fair [of "scheduler_new\<lparr>tasks := [pcb_new, pcb_new\<lparr>task_state := Blocked\<rparr>, pcb_new],
      current := 2, started := True\<rparr>" 0]
  by (simp add: runnable_def pcb_new_def numeral_3_eq_3)

text \<open>
  A pending switch parks the running slot so that switching back resumes it after its
  call with its registers, stack pointer and return address; it resumes the selected slot
  in the state it was parked in; and every other slot parked outside the 56 bytes below the
  running stack pointer stays parked as it was.
\<close>

lemma run_pending_switch_correct:
  fixes ra :: nat
  assumes "sched_wf w" "switch_pending (sched w)" "56 \<le> rsp (regs w)"
    and "parked w (current (sched w)) c"
    and "\<forall>a. slot_rsp w (current (sched w)) \<le> a \<longrightarrow> a < slot_rsp w (current (sched w)) + 56 \<longrightarrow>
           a < rsp (regs w) - 56 \<or> rsp (regs w) \<le> a"
  defines "w' \<equiv> run_pending_switch ra w"
  shows "sched_wf w' \<and> \<not> switch_pending (sched w') \<and> CURRENT_ID w' = current (sched w) \<and> regs w' = c
    \<and> parked w' (CURRENT_ID w) \<lparr>rsp = rsp (regs w), callee_saved = callee_saved (regs w), rip = ra\<rparr>
    \<and> (\<forall>i d. i \<le> real_tasks (sched w) \<longrightarrow> i \<noteq> CURRENT_ID w \<longrightarrow> parked w i d \<longrightarrow>
         slot_rsp w i + 56 \<le> rsp (regs w) - 56 \<or> rsp (regs w) \<le> slot_rsp w i \<longrightarrow> parked w' i d)"
proof -
  note r = run_pending_switch_step [OF assms(1-3), of ra, folded w'_def]
  let ?t = "slot_rsp w (current (sched w))" and ?sp = "rsp (regs w) - 56"
  have "stack w' (?t + k) = stack w (?t + k)" if "k < 56" for k
    using r(5) assms(3) assms(5) [rule_format, of "?t + k"] that by auto
  then have "pops 6 ?t (stack w') = pops 6 ?t (stack w)" "stack w' (?t + 48) = stack w (?t + 48)"
    by (simp_all add: pops_6) (metis add_0_right zero_less_numeral)
  then have "regs w' = c"
    using assms(4) r(6) by (auto simp: parked_def intro: cpu.equality)
  moreover have "parked w' (CURRENT_ID w) \<lparr>rsp = rsp (regs w), callee_saved = callee_saved (regs w), rip = ra\<rparr>"
    using r(1,3,4) assms(3) by (simp add: parked_def)
  moreover have "parked w' i d"
    if "i \<le> real_tasks (sched w)" "i \<noteq> CURRENT_ID w" "parked w i d"
      "slot_rsp w i + 56 \<le> ?sp \<or> rsp (regs w) \<le> slot_rsp w i" for i d
  proof -
    have "stack w' (slot_rsp w i + k) = stack w (slot_rsp w i + k)" if "k < 56" for k
      using r(5) assms(3) that \<open>slot_rsp w i + 56 \<le> ?sp \<or> rsp (regs w) \<le> slot_rsp w i\<close> by auto
    then have "pops 6 (slot_rsp w i) (stack w') = pops 6 (slot_rsp w i) (stack w)"
        "stack w' (slot_rsp w i + 48) = stack w (slot_rsp w i + 48)"
      by (simp_all add: pops_6) (metis add_0_right zero_less_numeral)
    then show ?thesis
      using that(1-3) r(2) by (simp add: parked_def)
  qed
  ultimately show ?thesis
    using r(7-9) by blast
qed

lemma run_pending_switch_correct_witness:
  "\<exists>w. sched_wf w \<and> CURRENT_ID w = 1
     \<and> regs (run_pending_switch 7 w) = \<lparr>rsp = 1056, callee_saved = [0, 0, 0, 0, 0, 0], rip = 0\<rparr>
     \<and> parked (run_pending_switch 7 w) 1 \<lparr>rsp = 2000, callee_saved = [1, 2, 3, 4, 5, 6], rip = 7\<rparr>"
proof -
  define w where "w = \<lparr>sched = \<lparr>tasks = [pcb_new\<lparr>saved_rsp := 1000\<rparr>, pcb_new], current = 0, switches = 0,
      started = True, switch_pending = True, real_tasks = 1\<rparr>, CURRENT_ID = 1, IDLE_RSP = 0, TASK_FN = None,
      SCHED_ON = True, PIT_KICKS = 0, regs = \<lparr>rsp = 2000, callee_saved = [1, 2, 3, 4, 5, 6], rip = 0\<rparr>,
      stack = (\<lambda>_. 0)\<rparr>"
  let ?c = "\<lparr>rsp = 1056, callee_saved = [0, 0, 0, 0, 0, 0], rip = 0\<rparr>"
  have "parked w (current (sched w)) ?c"
    by (simp add: parked_def slot_rsp_def w_def pops_6)
  moreover have "sched_wf w" "switch_pending (sched w)" "56 \<le> rsp (regs w)" "rsp (regs w) = 2000"
      "callee_saved (regs w) = [1, 2, 3, 4, 5, 6]" "CURRENT_ID w = 1" "slot_rsp w (current (sched w)) = 1000"
    by (simp_all add: sched_wf_def slot_rsp_def w_def)
  ultimately show ?thesis
    using run_pending_switch_correct [of w ?c 7] by (intro exI [of _ w]) auto
qed

text \<open>
  A spawned task starts at its entry: switching to a slot whose saved stack pointer is
  the one of a fresh stack continues at the entry address with all callee-saved registers
  zero and the stack pointer at the top of the 8 KiB stack; memory outside the stack is
  untouched.
\<close>

lemma alloc_task_stack_starts_entry:
  "let (sp, m') = alloc_task_stack base entry_addr m in
     rev (pops 6 sp m') = [0, 0, 0, 0, 0, 0] \<and> m' (sp + 48) = entry_addr \<and> sp + 56 = base + STACK_SIZE
     \<and> m' = (\<lambda>a. if base \<le> a \<and> a < base + STACK_SIZE then m' a else m a)"
  using alloc_task_stack_frame [of base entry_addr m] by (auto simp: case_prod_beta fun_eq_iff)

end
