(* ===== verification/Interrupts.thy ===== *)
theory Interrupts
  imports Lion_Prelude
begin

text \<open>
  Model of \<open>src/kernel/src/interrupts.rs\<close>: the port programs of the interrupt controllers and
  the timer, the handlers, and the deferred work queue.  Port output is a trace of
  (port, value) pairs; the queue is the 64-entry ring with its two cursors.  The ring's
  contract is the locale \<open>bounded_fifo\<close>.
\<close>

section \<open>Controllers and timer\<close>

type_synonym port_trace = "(u16 \<times> u8) list"

record irq_state =
  ports :: port_trace
  interrupt_ready :: bool
  ser_hz :: u64
  tick_count :: u64
  last_scan :: u64
  keys :: u64

definition outb :: "u16 \<Rightarrow> u8 \<Rightarrow> irq_state \<Rightarrow> irq_state" where
  "outb p v st = st\<lparr>ports := ports st @ [(p, v)]\<rparr>"

definition PIC1_CMD :: u16 where "PIC1_CMD = 0x20"
definition PIC1_DATA :: u16 where "PIC1_DATA = 0x21"
definition PIC2_CMD :: u16 where "PIC2_CMD = 0xA0"
definition PIC2_DATA :: u16 where "PIC2_DATA = 0xA1"
definition PIT_CH0 :: u16 where "PIT_CH0 = 0x40"
definition PIT_CTRL :: u16 where "PIT_CTRL = 0x43"
definition PIT_CLOCK :: u64 where "PIT_CLOCK = 1193182"

definition io_wait :: "irq_state \<Rightarrow> irq_state" where
  "io_wait st = outb 0x80 0 st"

fun outb_waits :: "port_trace \<Rightarrow> irq_state \<Rightarrow> irq_state" where
  "outb_waits [] st = st"
| "outb_waits ((p, v) # rest) st = outb_waits rest (io_wait (outb p v st))"

definition remap :: "irq_state \<Rightarrow> irq_state" where
  "remap st =
     (let st = outb_waits [(PIC1_CMD, 0x11), (PIC2_CMD, 0x11), (PIC1_DATA, 0x20), (PIC2_DATA, 0x28),
                           (PIC1_DATA, 0x04), (PIC2_DATA, 0x02), (PIC1_DATA, 0x01), (PIC2_DATA, 0x01)] st;
          st = outb PIC1_DATA 0b11111100 st;
          st = outb PIC2_DATA 0xFF st
      in st\<lparr>interrupt_ready := True\<rparr>)"

definition eoi :: "u8 \<Rightarrow> irq_state \<Rightarrow> irq_state" where
  "eoi irq st = outb PIC1_CMD 0x20 (if irq \<ge> 8 then outb PIC2_CMD 0x20 st else st)"

definition pic_ready :: "irq_state \<Rightarrow> bool" where
  "pic_ready st = interrupt_ready st"

definition pit_divisor :: "u64 \<Rightarrow> u16" where
  "pit_divisor hz =
     (if hz = 0 then 0xFFFF
      else let d = PIT_CLOCK div hz in ucast (if d < 1 then 1 else if d > 0xFFFF then 0xFFFF else d))"

definition timer_init :: "u64 \<Rightarrow> irq_state \<Rightarrow> irq_state" where
  "timer_init hz st =
     (let divisor = pit_divisor hz;
          st = outb PIT_CTRL 0x36 st;
          st = outb PIT_CH0 (ucast (divisor AND 0xFF)) st;
          st = outb PIT_CH0 (ucast (drop_bit 8 divisor)) st
      in st\<lparr>ser_hz := hz\<rparr>)"

definition ticks :: "irq_state \<Rightarrow> u64" where
  "ticks st = tick_count st"

definition last_scancode :: "irq_state \<Rightarrow> u8" where
  "last_scancode st = ucast (last_scan st)"

definition key_count :: "irq_state \<Rightarrow> u64" where
  "key_count st = keys st"

text \<open>
  The handlers: the timer's call into the scheduler is the argument \<open>kick\<close> on the rest of the
  kernel, the scancode the 8042 returns is the argument \<open>sc\<close>, and \<open>feed\<close> is the mouse driver.
\<close>

definition timer_isr :: "('k \<Rightarrow> 'k) \<Rightarrow> irq_state \<times> 'k \<Rightarrow> irq_state \<times> 'k" where
  "timer_isr kick = (\<lambda>(st, k). (eoi 0 (st\<lparr>tick_count := tick_count st + 1\<rparr>), kick k))"

definition keyboard_isr :: "u8 \<Rightarrow> irq_state \<Rightarrow> irq_state" where
  "keyboard_isr sc st = eoi 1 (st\<lparr>last_scan := ucast sc, keys := keys st + 1\<rparr>)"

definition mouse_isr :: "u8 \<Rightarrow> (u8 \<Rightarrow> 'm \<Rightarrow> 'm) \<Rightarrow> irq_state \<times> 'm \<Rightarrow> irq_state \<times> 'm" where
  "mouse_isr raw feed = (\<lambda>(st, m). (eoi 12 st, feed raw m))"

text \<open>The port program of \<open>init\<close> after the descriptor tables are loaded.\<close>

definition interrupts_init :: "irq_state \<Rightarrow> irq_state" where
  "interrupts_init st = timer_init 100 (outb 0xA1 0xEF (remap st))"

section \<open>The deferred work queue\<close>

definition QUEUE_CAP :: nat where
  "QUEUE_CAP = 64"

record 'a work_queue =
  q_head :: nat
  q_tail :: nat
  slots :: "'a option list"

definition queue_empty :: "'a work_queue" where
  "queue_empty = \<lparr>q_head = 0, q_tail = 0, slots = replicate QUEUE_CAP None\<rparr>"

definition enqueue :: "'a \<Rightarrow> 'a work_queue \<Rightarrow> bool \<times> 'a work_queue" where
  "enqueue item q =
     (let len = (QUEUE_CAP + q_tail q - q_head q) mod QUEUE_CAP in
      if len < QUEUE_CAP - 1
      then (True, q\<lparr>slots := (slots q)[q_tail q := Some item], q_tail := (q_tail q + 1) mod QUEUE_CAP\<rparr>)
      else (False, q))"

definition dequeue :: "'a work_queue \<Rightarrow> 'a option \<times> 'a work_queue" where
  "dequeue q =
     (if q_head q \<noteq> q_tail q
      then (slots q ! q_head q,
            q\<lparr>slots := (slots q)[q_head q := None], q_head := (q_head q + 1) mod QUEUE_CAP\<rparr>)
      else (None, q))"

text \<open>
  \<open>run_deferred\<close>: an item is run between two acquisitions of the lock and may itself enqueue,
  so the loop may not end; that is the value \<open>None\<close>.
\<close>

partial_function (option) run_deferred ::
  "('a \<Rightarrow> 'a work_queue \<times> 'w \<Rightarrow> 'a work_queue \<times> 'w) \<Rightarrow> 'a work_queue \<times> 'w \<Rightarrow> ('a work_queue \<times> 'w) option" where
  "run_deferred run st =
     (case st of (q, w) \<Rightarrow>
        (case dequeue q of
           (Some f, q') \<Rightarrow> run_deferred run (run f (q', w))
         | (None, q') \<Rightarrow> Some (q', w)))"

text \<open>The items of the ring, oldest first.\<close>

definition queue_len :: "'a work_queue \<Rightarrow> nat" where
  "queue_len q = (QUEUE_CAP + q_tail q - q_head q) mod QUEUE_CAP"

definition items :: "'a work_queue \<Rightarrow> 'a list" where
  "items q = map (\<lambda>i. the (slots q ! ((q_head q + i) mod QUEUE_CAP))) [0..<queue_len q]"

definition queue_wf :: "'a work_queue \<Rightarrow> bool" where
  "queue_wf q \<longleftrightarrow> q_head q < QUEUE_CAP \<and> q_tail q < QUEUE_CAP \<and> length (slots q) = QUEUE_CAP
     \<and> (\<forall>i<queue_len q. slots q ! ((q_head q + i) mod QUEUE_CAP) \<noteq> None)"

text \<open>The contract of a bounded first-in first-out queue that refuses items when it is full.\<close>

locale bounded_fifo =
  fixes put :: "'a \<Rightarrow> 'q \<Rightarrow> bool \<times> 'q"
    and get :: "'q \<Rightarrow> 'a option \<times> 'q"
    and wf :: "'q \<Rightarrow> bool"
    and contents :: "'q \<Rightarrow> 'a list"
    and cap :: nat
  assumes put_ok: "wf q \<Longrightarrow> length (contents q) < cap \<Longrightarrow>
      \<exists>q'. put x q = (True, q') \<and> wf q' \<and> contents q' = contents q @ [x]"
    and put_full: "wf q \<Longrightarrow> \<not> length (contents q) < cap \<Longrightarrow> put x q = (False, q)"
    and get_Nil: "wf q \<Longrightarrow> contents q = [] \<Longrightarrow> get q = (None, q)"
    and get_Cons: "wf q \<Longrightarrow> contents q = x # xs \<Longrightarrow> \<exists>q'. get q = (Some x, q') \<and> wf q' \<and> contents q' = xs"
    and contents_bound: "wf q \<Longrightarrow> length (contents q) \<le> cap"
begin

fun put_all :: "'a list \<Rightarrow> 'q \<Rightarrow> bool \<times> 'q" where
  "put_all [] q = (True, q)"
| "put_all (x # xs) q = (case put x q of (ok, q') \<Rightarrow> (case put_all xs q' of (oks, q'') \<Rightarrow> (ok \<and> oks, q'')))"

text \<open>A burst is accepted as a whole as long as it fits, and what does not fit is dropped from its end.\<close>

lemma put_all_fits:
  assumes "wf q"
  shows "\<exists>q'. put_all xs q = (length (contents q) + length xs \<le> cap, q') \<and> wf q'
    \<and> contents q' = contents q @ take (cap - length (contents q)) xs"
  using assms
proof (induction xs arbitrary: q)
  case Nil
  then show ?case
    using contents_bound by simp
next
  case (Cons x xs)
  show ?case
  proof (cases "length (contents q) < cap")
    case True
    then obtain q1 where q1: "put x q = (True, q1)" "wf q1" "contents q1 = contents q @ [x]"
      using put_ok Cons.prems by blast
    obtain q2 where "put_all xs q1 = (length (contents q1) + length xs \<le> cap, q2)" "wf q2"
      "contents q2 = contents q1 @ take (cap - length (contents q1)) xs"
      using Cons.IH [OF q1(2)] by blast
    moreover have "cap - length (contents q) = Suc (cap - length (contents q1))"
      using True q1(3) by simp
    ultimately show ?thesis
      using q1 by simp
  next
    case False
    then have "put x q = (False, q)" "length (contents q) = cap"
      using put_full contents_bound Cons.prems by (auto simp: le_antisym not_less)
    then show ?thesis
      using Cons.IH [OF Cons.prems] by auto
  qed
qed

end

section \<open>The ring refines the bounded queue\<close>

lemma length_items [simp]: "length (items q) = queue_len q"
  by (simp add: items_def)

lemma queue_len_le: "queue_len q \<le> 63"
proof -
  have "queue_len q < QUEUE_CAP"
    unfolding queue_len_def by (rule mod_less_divisor) (simp add: QUEUE_CAP_def)
  then show ?thesis
    by (simp add: QUEUE_CAP_def)
qed

lemma queue_tail: "queue_wf q \<Longrightarrow> (q_head q + queue_len q) mod 64 = q_tail q"
proof -
  assume "queue_wf q"
  then have b: "q_head q < 64" "q_tail q < 64"
    by (simp_all add: queue_wf_def QUEUE_CAP_def)
  have "(q_head q + queue_len q) mod 64 = (q_head q + (64 + q_tail q - q_head q)) mod 64"
    by (simp add: queue_len_def QUEUE_CAP_def mod_simps)
  then show ?thesis
    using b by simp
qed

lemma ring_offset_inj:
  assumes "i < 64" "j < 64"
  shows "(h + i) mod 64 = (h + j) mod 64 \<longleftrightarrow> i = (j :: nat)"
proof
  assume a: "(h + i) mod 64 = (h + j) mod 64"
  obtain k where k: "k = h mod 64" "k < 64"
    by simp
  from a have eq: "(k + i) mod 64 = (k + j) mod 64"
    by (simp add: k(1) mod_simps)
  have "(k + x) mod 64 = (if k + x < 64 then k + x else k + x - 64)" if "x < 64" for x
    using that k(2) by (simp add: mod_if)
  note this [OF assms(1)] this [OF assms(2)]
  with eq show "i = j"
    using assms k(2) by (simp split: if_splits)
qed simp

lemma ring_len:
  assumes "h < 64" "t < (64 :: nat)"
  shows "(64 + t - h) mod 64 = (if h \<le> t then t - h else 64 + t - h)"
proof (cases "h \<le> t")
  case True
  then have "64 + t - h = (t - h) + 64" "t - h < 64"
    using assms by simp_all
  then show ?thesis
    using True by (simp only: mod_add_self2 mod_less if_True)
qed (use assms in simp)

lemma ring_inc: "t < 64 \<Longrightarrow> Suc t mod 64 = (if t = 63 then 0 else Suc t)"
  by auto

lemma ring_inc_len:
  assumes "h < 64" "t < 64" "(64 + t - h) mod 64 < (63 :: nat)"
  shows "(64 + (t + 1) mod 64 - h) mod 64 = Suc ((64 + t - h) mod 64)"
  using assms by (auto simp: ring_inc ring_len split: if_splits)

lemma ring_dec_len:
  assumes "h < 64" "t < 64" "h \<noteq> t"
  shows "(64 + t - (h + 1) mod 64) mod 64 = (64 + t - h) mod 64 - (1 :: nat)"
  using assms by (auto simp: ring_inc ring_len)

lemma enqueue_ring:
  fixes x :: 'a and q :: "'a work_queue"
  assumes wf: "queue_wf q" and room: "queue_len q < 63"
  defines "q' \<equiv> q\<lparr>slots := (slots q)[q_tail q := Some x], q_tail := (q_tail q + 1) mod QUEUE_CAP\<rparr>"
  shows "enqueue x q = (True, q')" "queue_len q' = Suc (queue_len q)"
    "\<forall>i<queue_len q. slots q' ! ((q_head q + i) mod 64) = slots q ! ((q_head q + i) mod 64)"
    "slots q' ! ((q_head q + queue_len q) mod 64) = Some x"
proof -
  have b: "q_head q < 64" "q_tail q < 64" "length (slots q) = 64"
    using wf by (simp_all add: queue_wf_def QUEUE_CAP_def)
  show "enqueue x q = (True, q')"
    using room by (simp add: enqueue_def q'_def queue_len_def QUEUE_CAP_def Let_def)
  show "queue_len q' = Suc (queue_len q)"
    using ring_inc_len [OF b(1,2)] room by (simp add: queue_len_def q'_def QUEUE_CAP_def)
  show "slots q' ! ((q_head q + queue_len q) mod 64) = Some x"
    using b queue_tail [OF wf] by (simp add: q'_def)
  show "\<forall>i<queue_len q. slots q' ! ((q_head q + i) mod 64) = slots q ! ((q_head q + i) mod 64)"
  proof (intro allI impI)
    fix i
    assume "i < queue_len q"
    then have "(q_head q + i) mod 64 \<noteq> q_tail q"
      using queue_tail [OF wf] ring_offset_inj [of i "queue_len q" "q_head q"] room by simp
    then show "slots q' ! ((q_head q + i) mod 64) = slots q ! ((q_head q + i) mod 64)"
      by (simp add: q'_def)
  qed
qed

lemma dequeue_ring:
  assumes wf: "queue_wf q" and ne: "0 < queue_len q"
  defines "q' \<equiv> q\<lparr>slots := (slots q)[q_head q := None], q_head := (q_head q + 1) mod QUEUE_CAP\<rparr>"
  shows "dequeue q = (slots q ! q_head q, q')" "queue_len q' = queue_len q - 1"
    "\<forall>i<queue_len q - 1. slots q' ! ((q_head q' + i) mod 64) = slots q ! ((q_head q + Suc i) mod 64)"
proof -
  have b: "q_head q < 64" "q_tail q < 64" "length (slots q) = 64"
    using wf by (simp_all add: queue_wf_def QUEUE_CAP_def)
  have diff: "q_head q \<noteq> q_tail q"
    using ne by (auto simp: queue_len_def)
  show "dequeue q = (slots q ! q_head q, q')"
    using diff by (simp add: dequeue_def q'_def)
  show "queue_len q' = queue_len q - 1"
    using ring_dec_len [OF b(1,2) diff] by (simp add: queue_len_def q'_def QUEUE_CAP_def)
  show "\<forall>i<queue_len q - 1. slots q' ! ((q_head q' + i) mod 64) = slots q ! ((q_head q + Suc i) mod 64)"
  proof (intro allI impI)
    fix i
    assume i: "i < queue_len q - 1"
    have "(q_head q' + i) mod 64 = (q_head q + Suc i) mod 64"
      by (simp add: q'_def QUEUE_CAP_def mod_simps)
    moreover have "(q_head q + Suc i) mod 64 \<noteq> q_head q"
      using ring_offset_inj [of "Suc i" 0 "q_head q"] i queue_len_le [of q] b(1) by simp
    ultimately show "slots q' ! ((q_head q' + i) mod 64) = slots q ! ((q_head q + Suc i) mod 64)"
      by (simp add: q'_def)
  qed
qed

interpretation rq: bounded_fifo enqueue dequeue queue_wf items 63
proof unfold_locales
  fix q :: "'a work_queue" and x
  assume wf: "queue_wf q" and room: "length (items q) < 63"
  let ?q = "q\<lparr>slots := (slots q)[q_tail q := Some x], q_tail := (q_tail q + 1) mod QUEUE_CAP\<rparr>"
  note e = enqueue_ring [OF wf, of x]
  have "items ?q = items q @ [x]"
    using e room by (simp add: items_def QUEUE_CAP_def)
  moreover have "queue_wf ?q"
    using wf e(2-4) room by (auto simp: queue_wf_def less_Suc_eq QUEUE_CAP_def)
  ultimately show "\<exists>q'. enqueue x q = (True, q') \<and> queue_wf q' \<and> items q' = items q @ [x]"
    using e(1) room by (intro exI [of _ ?q]) simp
next
  fix q :: "'a work_queue" and x
  assume "queue_wf q" "\<not> length (items q) < 63"
  then show "enqueue x q = (False, q)"
    by (simp add: enqueue_def queue_len_def QUEUE_CAP_def Let_def)
next
  fix q :: "'a work_queue"
  assume wf: "queue_wf q" and "items q = []"
  then have "queue_len q = 0"
    by (metis length_items list.size(3))
  then have "q_head q = q_tail q"
    using queue_tail [OF wf] wf by (simp add: queue_wf_def QUEUE_CAP_def)
  then show "dequeue q = (None, q)"
    by (simp add: dequeue_def)
next
  fix q :: "'a work_queue" and x xs
  assume wf: "queue_wf q" and c: "items q = x # xs"
  let ?q = "q\<lparr>slots := (slots q)[q_head q := None], q_head := (q_head q + 1) mod QUEUE_CAP\<rparr>"
  have len: "queue_len q = Suc (length xs)"
    using c by (metis length_items length_Cons)
  note d = dequeue_ring [OF wf]
  have hd: "slots q ! q_head q = Some x"
  proof -
    have "slots q ! q_head q \<noteq> None"
      using wf len by (force simp: queue_wf_def QUEUE_CAP_def)
    moreover have "the (slots q ! q_head q) = x"
      using c len wf by (simp add: items_def queue_wf_def QUEUE_CAP_def upt_conv_Cons del: upt_Suc)
    ultimately show ?thesis
      by auto
  qed
  have tl: "map (\<lambda>i. the (slots q ! ((q_head q + Suc i) mod 64))) [0..<length xs] = xs"
    using c len
    by (simp add: items_def QUEUE_CAP_def upt_conv_Cons map_Suc_upt [symmetric] comp_def del: upt_Suc)
  have "items ?q = xs"
    using d len by (subst tl [symmetric]) (simp add: items_def QUEUE_CAP_def)
  moreover have "queue_wf ?q"
    using wf d(2,3) len by (auto simp: queue_wf_def QUEUE_CAP_def)
  ultimately show "\<exists>q'. dequeue q = (Some x, q') \<and> queue_wf q' \<and> items q' = xs"
    using d(1) len hd by (intro exI [of _ ?q]) simp
next
  fix q :: "'a work_queue"
  show "length (items q) \<le> 63"
    using queue_len_le by simp
qed

lemma queue_wf_empty: "queue_wf queue_empty" "items queue_empty = []"
  by (simp_all add: queue_wf_def queue_empty_def queue_len_def QUEUE_CAP_def items_def)

section \<open>Properties\<close>

text \<open>
  C34: the deferred queue is a first-in first-out queue of at most 63 items: an item is
  appended and the answer is true while fewer than 63 are waiting, and otherwise it is
  dropped and the queue unchanged; a burst is accepted in order up to that bound.
\<close>

theorem enqueue_burst:
  assumes "queue_wf q"
  shows "\<exists>q'. foldl (\<lambda>(oks, q) x. case enqueue x q of (ok, q') \<Rightarrow> (oks \<and> ok, q')) (True, q) xs
      = (length (items q) + length xs \<le> 63, q') \<and> queue_wf q'
    \<and> items q' = items q @ take (63 - length (items q)) xs"
proof -
  have "foldl (\<lambda>(oks, q) x. case enqueue x q of (ok, q') \<Rightarrow> (oks \<and> ok, q')) (b, q) xs
      = (case rq.put_all xs q of (ok, q') \<Rightarrow> (b \<and> ok, q'))" for b q
    by (induction xs arbitrary: b q) (simp_all split: prod.splits)
  then show ?thesis
    using rq.put_all_fits [OF assms, of xs] by auto
qed

theorem enqueue_burst_witness:
  "\<exists>q'. foldl (\<lambda>(oks, q) x. case enqueue x q of (ok, q') \<Rightarrow> (oks \<and> ok, q')) (True, queue_empty) [1, 2, 3 :: nat]
      = (True, q') \<and> items q' = [1, 2, 3]"
  using enqueue_burst [OF queue_wf_empty(1), of "[1, 2, 3 :: nat]"] by (auto simp: queue_wf_empty(2) simp del: foldl.simps)

text \<open>
  C33: when the items themselves leave the queue alone, \<open>run_deferred\<close> returns with an empty
  queue after running every waiting item once, oldest first.
\<close>

theorem run_deferred_drains:
  assumes "queue_wf q" "\<forall>f q w. run f (q, w) = (q, effect f w)"
  shows "\<exists>q'. run_deferred run (q, w) = Some (q', fold effect (items q) w) \<and> queue_wf q' \<and> items q' = []"
  using assms(1)
proof (induction "items q" arbitrary: q w)
  case Nil
  then have "dequeue q = (None, q)"
    using rq.get_Nil [of q] by simp
  then have "run_deferred run (q, w) = Some (q, w)"
    by (subst run_deferred.simps) simp
  then show ?case
    using Nil by auto
next
  case (Cons f fs)
  then obtain q1 where q1: "dequeue q = (Some f, q1)" "queue_wf q1" "items q1 = fs"
    using rq.get_Cons by metis
  have "run_deferred run (q, w) = run_deferred run (q1, effect f w)"
    using q1(1) assms(2) by (subst run_deferred.simps) simp
  moreover have "fold effect (items q) w = fold effect fs (effect f w)"
    by (simp flip: Cons.hyps(2))
  ultimately show ?case
    using Cons.hyps(1) [of q1 "effect f w"] q1 by auto
qed

theorem run_deferred_drains_witness:
  "\<exists>q'. run_deferred (\<lambda>f (q, w). (q, f # w)) (snd (enqueue (7 :: nat) queue_empty), []) = Some (q', [7]) \<and> items q' = []"
proof -
  obtain q where q: "enqueue (7 :: nat) queue_empty = (True, q)" "queue_wf q" "items q = [7]"
    using rq.put_ok [OF queue_wf_empty(1), of 7] by (auto simp: queue_wf_empty(2))
  show ?thesis
    using run_deferred_drains [OF q(2), of "\<lambda>f (q, w). (q, f # w)" "\<lambda>f w. f # w" "[]"] q by auto
qed

text \<open>
  The reload value of the timer is never zero, is \<open>1193182 / hz\<close> wherever that fits
  sixteen bits, and the two data bytes \<open>timer_init\<close> writes after the control byte are its low
  and high byte.
\<close>

lemma timer_init_programs_divisor:
  "0 < unat (pit_divisor hz)
   \<and> unat (pit_divisor hz) = (if hz = 0 then 65535 else max 1 (min 65535 (1193182 div unat hz)))
   \<and> (\<exists>lo hi. ports (timer_init hz st) = ports st @ [(0x43, 0x36), (0x40, lo), (0x40, hi)]
        \<and> unat lo + 256 * unat hi = unat (pit_divisor hz))"
proof -
  have div: "unat (PIT_CLOCK div hz) = 1193182 div unat hz"
    by (simp add: PIT_CLOCK_def unat_div)
  have val: "unat (pit_divisor hz) = (if hz = 0 then 65535 else max 1 (min 65535 (1193182 div unat hz)))"
    by (auto simp: pit_divisor_def Let_def unat_ucast_mod word_less_nat_alt div)
  have "unat (ucast (pit_divisor hz AND 0xFF) :: u8) + 256 * unat (ucast (drop_bit 8 (pit_divisor hz)) :: u8)
      = unat (pit_divisor hz)"
  proof -
    have m8: "(0xFF :: u16) = mask 8"
      by (simp add: mask_eq_exp_minus_1)
    have "unat (ucast (pit_divisor hz AND 0xFF) :: u8) = unat (pit_divisor hz) mod 256"
      unfolding m8 unat_ucast_mod unat_and_mask by simp
    moreover have "unat (ucast (drop_bit 8 (pit_divisor hz)) :: u8) = unat (pit_divisor hz) div 256"
      using unat_bound [of "pit_divisor hz"] by (simp add: unat_ucast_mod unat_drop_bit div_less_iff_less_mult)
    ultimately show ?thesis
      by simp
  qed
  then show ?thesis
    unfolding val [symmetric] using val
    by (auto simp: timer_init_def outb_def PIT_CTRL_def PIT_CH0_def Let_def)
qed

end
