(* ===== verification/Ipc.thy ===== *)
theory Ipc
  imports Lion_Prelude
begin

text \<open>
  Model of \<open>src/kernel/src/ipc.rs\<close>: the 64-byte mailbox.  The array is kept whole, with the
  stale bytes behind the length; a caller's output buffer is a list that the operations
  return updated.
\<close>

definition MAILBOX_CAP :: nat where
  "MAILBOX_CAP = 64"

record Mailbox =
  mb_data :: bytes
  mb_len :: nat

definition mailbox_new :: Mailbox where
  "mailbox_new = \<lparr>mb_data = replicate MAILBOX_CAP 0, mb_len = 0\<rparr>"

definition send :: "bytes \<Rightarrow> Mailbox \<Rightarrow> nat \<times> Mailbox" where
  "send msg mb =
     (let n = min (length msg) MAILBOX_CAP
      in (n, mb\<lparr>mb_data := take n msg @ drop n (mb_data mb), mb_len := n\<rparr>))"

definition peek :: "Mailbox \<Rightarrow> bytes \<Rightarrow> nat \<times> bytes" where
  "peek mb out =
     (let n = min (mb_len mb) (length out)
      in (n, take n (mb_data mb) @ drop n out))"

definition drain :: "Mailbox \<Rightarrow> bytes \<Rightarrow> nat \<times> bytes \<times> Mailbox" where
  "drain mb out = (case peek mb out of (n, out') \<Rightarrow> (n, out', mb\<lparr>mb_len := 0\<rparr>))"

definition mailbox_len :: "Mailbox \<Rightarrow> nat" where
  "mailbox_len mb = mb_len mb"

definition mailbox_wf :: "Mailbox \<Rightarrow> bool" where
  "mailbox_wf mb \<longleftrightarrow> length (mb_data mb) = MAILBOX_CAP \<and> mb_len mb \<le> MAILBOX_CAP"

definition held :: "Mailbox \<Rightarrow> bytes" where
  "held mb = take (mb_len mb) (mb_data mb)"

lemma mailbox_new_wf: "mailbox_wf mailbox_new" "held mailbox_new = []"
  by (simp_all add: mailbox_wf_def mailbox_new_def held_def)

lemma send_held:
  assumes "mailbox_wf mb"
  shows "mailbox_wf (snd (send msg mb))" "held (snd (send msg mb)) = take MAILBOX_CAP msg"
    "fst (send msg mb) = length (held (snd (send msg mb)))"
  using assms by (auto simp: send_def mailbox_wf_def held_def Let_def min_def)

lemma peek_held:
  assumes "mailbox_wf mb"
  shows "peek mb out = (min (length (held mb)) (length out),
    take (length out) (held mb) @ drop (length (held mb)) out)"
  using assms by (auto simp: peek_def mailbox_wf_def held_def Let_def min_def)

text \<open>
  A message sent and then drained arrives unchanged, cut to the mailbox's 64 bytes and
  to the receiver's buffer; the bytes of the buffer behind it are untouched, the returned
  counts say how much was stored and copied, and the mailbox is empty afterwards.
\<close>

lemma send_drain_roundtrip:
  assumes "mailbox_wf mb" "send msg mb = (n, mb1)" "drain mb1 out = (k, out', mb2)"
  shows "n = min (length msg) MAILBOX_CAP \<and> k = min n (length out)
    \<and> out' = take k msg @ drop k out \<and> mailbox_wf mb2 \<and> mailbox_len mb2 = 0"
proof -
  have mb1: "mailbox_wf mb1" "held mb1 = take MAILBOX_CAP msg" "n = length (held mb1)"
    using send_held [OF assms(1), of msg] assms(2) by auto
  have "k = min (length (held mb1)) (length out)"
      "out' = take (length out) (held mb1) @ drop (length (held mb1)) out" "mb2 = mb1\<lparr>mb_len := 0\<rparr>"
    using assms(3) peek_held [OF mb1(1), of out] by (auto simp: drain_def)
  then show ?thesis
    using mb1 by (auto simp: mailbox_wf_def mailbox_len_def min_def)
qed

lemma send_drain_roundtrip_witness:
  "drain (snd (send [1, 2, 3] mailbox_new)) [9, 9, 9, 9, 9] = (3, [1, 2, 3, 9, 9], (snd (send [1, 2, 3] mailbox_new))\<lparr>mb_len := 0\<rparr>)
   \<and> mailbox_len ((snd (send [1, 2, 3] mailbox_new))\<lparr>mb_len := 0\<rparr>) = 0"
  using send_drain_roundtrip [OF mailbox_new_wf(1), of "[1, 2, 3]" _ _ "[9, 9, 9, 9, 9]"]
  by (auto simp: send_def drain_def peek_def mailbox_new_def MAILBOX_CAP_def mailbox_len_def)

end
