(* ===== verification/Spinlock.thy ===== *)
theory Spinlock
  imports Lion_Prelude
begin

text \<open>
  Model of \<open>src/kernel/src/spinlock.rs\<close>: a flag taken by an atomic swap.  Each context that
  uses the lock is idle, spinning in \<open>lock\<close>, or holds a guard; a step of the system is one
  atomic action of one context.  The same handshake guards the deferred queue
  (\<open>Q_LOCK\<close> in \<open>interrupts.rs\<close>).
\<close>

section \<open>Model\<close>

datatype lock_pc = Outside | Spinning | Holding

record ('t, 'v) lock_state =
  lock_held :: bool
  lock_value :: 'v
  pc :: "'t \<Rightarrow> lock_pc"

definition spinlock_new :: "'v \<Rightarrow> ('t, 'v) lock_state" where
  "spinlock_new v = \<lparr>lock_held = False, lock_value = v, pc = (\<lambda>_. Outside)\<rparr>"

text \<open>\<open>swap(true)\<close> in \<open>lock\<close>: the old flag decides whether the guard is handed out.\<close>

definition try_swap :: "'t \<Rightarrow> ('t, 'v) lock_state \<Rightarrow> ('t, 'v) lock_state" where
  "try_swap t st =
     (if lock_held st then st\<lparr>lock_held := True\<rparr>
      else st\<lparr>lock_held := True, pc := (pc st)(t := Holding)\<rparr>)"

definition unlock :: "'t \<Rightarrow> ('t, 'v) lock_state \<Rightarrow> ('t, 'v) lock_state" where
  "unlock t st = st\<lparr>lock_held := False, pc := (pc st)(t := Outside)\<rparr>"

inductive lock_step :: "'t \<Rightarrow> ('t, 'v) lock_state \<Rightarrow> ('t, 'v) lock_state \<Rightarrow> bool" where
  enter: "pc st t = Outside \<Longrightarrow> lock_step t st (st\<lparr>pc := (pc st)(t := Spinning)\<rparr>)"
| swap: "pc st t = Spinning \<Longrightarrow> lock_step t st (try_swap t st)"
| access: "pc st t = Holding \<Longrightarrow> lock_step t st (st\<lparr>lock_value := v\<rparr>)"
| drop: "pc st t = Holding \<Longrightarrow> lock_step t st (unlock t st)"

inductive_cases lock_stepE: "lock_step t st st'"

inductive lock_reach :: "'t set \<Rightarrow> ('t, 'v) lock_state \<Rightarrow> ('t, 'v) lock_state \<Rightarrow> bool"
  for movers st0 where
  refl: "lock_reach movers st0 st0"
| step: "lock_reach movers st0 st \<Longrightarrow> t \<in> movers \<Longrightarrow> lock_step t st st' \<Longrightarrow> lock_reach movers st0 st'"

section \<open>Exclusion\<close>

definition lock_inv :: "('t, 'v) lock_state \<Rightarrow> bool" where
  "lock_inv st \<longleftrightarrow> (\<forall>t u. pc st t = Holding \<longrightarrow> pc st u = Holding \<longrightarrow> t = u)
     \<and> (lock_held st \<longleftrightarrow> (\<exists>t. pc st t = Holding))"

lemma lock_step_inv: "lock_step t st st' \<Longrightarrow> lock_inv st \<Longrightarrow> lock_inv st'"
proof (induction rule: lock_step.induct)
  case (enter st t)
  then show ?case
    unfolding lock_inv_def by (auto simp: fun_upd_apply) (metis lock_pc.distinct(3))
next
  case (swap st t)
  then show ?case
    unfolding lock_inv_def try_swap_def by (auto split: if_splits)
qed (auto simp: lock_inv_def unlock_def)

lemma lock_reach_inv: "lock_reach movers st0 st \<Longrightarrow> lock_inv st0 \<Longrightarrow> lock_inv st"
  by (induction rule: lock_reach.induct) (auto intro: lock_step_inv)

lemma lock_new_inv: "lock_inv (spinlock_new v)"
  by (simp add: lock_inv_def spinlock_new_def)

text \<open>
  C35: at most one context holds the guard of a spinlock in any reachable state, the flag is
  set exactly while one does, and only the holder's steps change the protected value.
\<close>

theorem spinlock_exclusion:
  assumes "lock_reach UNIV (spinlock_new v0) st"
  shows "(\<forall>t u. pc st t = Holding \<longrightarrow> pc st u = Holding \<longrightarrow> t = u)
    \<and> (lock_held st \<longleftrightarrow> (\<exists>t. pc st t = Holding))
    \<and> (\<forall>t st'. lock_step t st st' \<longrightarrow> lock_value st' \<noteq> lock_value st \<longrightarrow> pc st t = Holding)"
proof -
  have "lock_inv st"
    by (rule lock_reach_inv [OF assms lock_new_inv])
  moreover have "pc st t = Holding" if "lock_step t st st'" "lock_value st' \<noteq> lock_value st" for t st'
    using that by (elim lock_stepE) (auto simp: try_swap_def unlock_def split: if_splits)
  ultimately show ?thesis
    unfolding lock_inv_def by blast
qed

theorem spinlock_exclusion_witness:
  "\<exists>st. lock_reach UNIV (spinlock_new ()) st \<and> pc st (1 :: nat) = Holding \<and> lock_held st"
proof -
  let ?s0 = "spinlock_new () :: (nat, unit) lock_state"
  let ?s1 = "?s0\<lparr>pc := (pc ?s0)(1 := Spinning)\<rparr>"
  have "lock_step 1 ?s0 ?s1"
    by (rule lock_step.enter) (simp add: spinlock_new_def)
  then have "lock_reach UNIV ?s0 ?s1"
    by (rule lock_reach.step [OF lock_reach.refl UNIV_I])
  moreover have "lock_step 1 ?s1 (try_swap 1 ?s1)"
    by (rule lock_step.swap) simp
  ultimately have r: "lock_reach UNIV ?s0 (try_swap 1 ?s1)"
    by (rule lock_reach.step [OF _ UNIV_I])
  have "pc (try_swap 1 ?s1) 1 = Holding"
    by (simp add: try_swap_def spinlock_new_def)
  with r spinlock_exclusion [OF r] show ?thesis
    by blast
qed

text \<open>
  A context that interrupts the holder and then takes the same lock never gets it: as
  long as only the interrupting context runs, it stays outside or spinning.  An interrupt
  handler that enqueues while the main loop is inside the queue's critical section
  therefore spins forever on a single processor.
\<close>

lemma spin_inside_holder_never_returns:
  assumes "lock_inv st0" "pc st0 holder = Holding" "isr \<noteq> holder" "lock_reach {isr} st0 st"
  shows "pc st isr \<noteq> Holding \<and> lock_held st"
proof -
  have "lock_inv st \<and> pc st holder = Holding"
    using assms(4)
  proof (induction rule: lock_reach.induct)
    case (step st t st')
    have "pc st' holder = Holding"
      using step assms(3) by (auto elim!: lock_stepE simp: try_swap_def unlock_def split: if_splits)
    then show ?case
      using lock_step_inv [OF step.hyps(3)] step.IH by simp
  qed (use assms in simp)
  then show ?thesis
    using assms(3) unfolding lock_inv_def by metis
qed

lemma spin_inside_holder_never_returns_witness:
  "\<exists>st :: (nat, unit) lock_state. lock_reach {1} st st \<and> pc st 0 = Holding \<and> pc st 1 \<noteq> Holding \<and> lock_held st"
proof -
  let ?st = "\<lparr>lock_held = True, lock_value = (), pc = (\<lambda>_. Outside)(0 := Holding)\<rparr> :: (nat, unit) lock_state"
  have "lock_inv ?st"
    by (simp add: lock_inv_def)
  from spin_inside_holder_never_returns [OF this, of 0 1 ?st] show ?thesis
    by (intro exI [of _ ?st]) (simp add: lock_reach.refl)
qed

end
