(* ===== verification/Serial.thy ===== *)
theory Serial
  imports Lion_Prelude
begin

text \<open>
  Model of \<open>src/kernel/src/serial.rs\<close>: the COM1 driver.  The line status register is the
  argument \<open>lsr\<close>, which gives the value of its n-th read; port output is a trace.  Waiting for
  the transmitter polls that register and may not end, which is the value \<open>None\<close>.  The lock
  that serialises whole messages is the one of the theory Spinlock; the functions here are
  what runs inside it.
\<close>

section \<open>Model\<close>

definition COM1 :: u16 where
  "COM1 = 0x3F8"

record serial_state =
  sent :: "(u16 \<times> u8) list"
  polls :: nat

definition serial_outb :: "u16 \<Rightarrow> u8 \<Rightarrow> serial_state \<Rightarrow> serial_state" where
  "serial_outb p v st = st\<lparr>sent := sent st @ [(p, v)]\<rparr>"

definition serial_init :: "serial_state \<Rightarrow> serial_state" where
  "serial_init st =
     (let st = serial_outb (COM1 + 1) 0x00 st;
          st = serial_outb (COM1 + 3) 0x80 st;
          st = serial_outb (COM1 + 0) 0x03 st;
          st = serial_outb (COM1 + 1) 0x00 st;
          st = serial_outb (COM1 + 3) 0x03 st;
          st = serial_outb (COM1 + 2) 0xC7 st
      in serial_outb (COM1 + 4) 0x0B st)"

partial_function (option) wait_empty :: "(nat \<Rightarrow> u8) \<Rightarrow> serial_state \<Rightarrow> serial_state option" where
  "wait_empty lsr st =
     (let st' = st\<lparr>polls := polls st + 1\<rparr> in
      if lsr (polls st) AND 0x20 = 0 then wait_empty lsr st' else Some st')"

definition write_byte_unlocked :: "(nat \<Rightarrow> u8) \<Rightarrow> u8 \<Rightarrow> serial_state \<Rightarrow> serial_state option" where
  "write_byte_unlocked lsr b st = map_option (serial_outb COM1 b) (wait_empty lsr st)"

fun write_bytes :: "(nat \<Rightarrow> u8) \<Rightarrow> bytes \<Rightarrow> serial_state \<Rightarrow> serial_state option" where
  "write_bytes lsr [] st = Some st"
| "write_bytes lsr (b # bs) st = Option.bind (write_byte_unlocked lsr b st) (write_bytes lsr bs)"

definition write_byte :: "(nat \<Rightarrow> u8) \<Rightarrow> u8 \<Rightarrow> serial_state \<Rightarrow> serial_state option" where
  "write_byte lsr b st = write_byte_unlocked lsr b st"

definition write_raw :: "(nat \<Rightarrow> u8) \<Rightarrow> bytes \<Rightarrow> serial_state \<Rightarrow> serial_state option" where
  "write_raw lsr bs st = write_bytes lsr bs st"

definition write_str :: "(nat \<Rightarrow> u8) \<Rightarrow> bytes \<Rightarrow> serial_state \<Rightarrow> serial_state option" where
  "write_str lsr s st = write_bytes lsr s st"

definition HEX :: bytes where
  "HEX = map word_of_nat ([48..<58] @ [97..<103])"

definition write_hex :: "(nat \<Rightarrow> u8) \<Rightarrow> u64 \<Rightarrow> serial_state \<Rightarrow> serial_state option" where
  "write_hex lsr v st =
     write_bytes lsr (map (\<lambda>k. HEX ! unat (drop_bit (4 * k) v AND 0xF)) (rev [0..<16])) st"

function dec_loop :: "u64 \<Rightarrow> nat \<Rightarrow> bytes \<Rightarrow> nat \<times> bytes" where
  "dec_loop n i buf =
     (if n > 0
      then dec_loop (n div 10) (i - 1) (buf[i - 1 := 48 + ucast (n mod 10)])
      else (i, buf))"
  by auto
termination
  by (relation "measure (\<lambda>(n, i, buf). unat n)")
    (auto simp: unat_div word_less_nat_alt intro!: div_less_dividend)

declare dec_loop.simps [simp del]

definition write_dec :: "(nat \<Rightarrow> u8) \<Rightarrow> u64 \<Rightarrow> serial_state \<Rightarrow> serial_state option" where
  "write_dec lsr v st =
     (if v = 0 then write_byte lsr 48 st
      else case dec_loop v 20 (replicate 20 0) of (i, buf) \<Rightarrow> write_bytes lsr (drop i buf) st)"

text \<open>
  The rest of the kernel reports through these four functions; a run of them is the list of
  its calls.
\<close>

datatype serial_call = WriteStr string | WriteHex u64 | WriteDec u64 | WriteByte u8

fun serial_emit :: "(nat \<Rightarrow> u8) \<Rightarrow> serial_call list \<Rightarrow> serial_state \<Rightarrow> serial_state option" where
  "serial_emit lsr [] st = Some st"
| "serial_emit lsr (c # cs) st =
     Option.bind (case c of WriteStr s \<Rightarrow> write_str lsr (map of_char s) st
       | WriteHex v \<Rightarrow> write_hex lsr v st | WriteDec v \<Rightarrow> write_dec lsr v st
       | WriteByte b \<Rightarrow> write_byte lsr b st) (serial_emit lsr cs)"

section \<open>The transmitter\<close>

definition uart_ready :: "(nat \<Rightarrow> u8) \<Rightarrow> bool" where
  "uart_ready lsr \<longleftrightarrow> (\<forall>n. \<exists>m\<ge>n. lsr m AND 0x20 \<noteq> 0)"

lemma wait_empty_returns:
  assumes "uart_ready lsr"
  shows "\<exists>st'. wait_empty lsr st = Some st' \<and> sent st' = sent st"
proof -
  obtain m where m: "m \<ge> polls st" "lsr m AND 0x20 \<noteq> 0"
    using assms by (auto simp: uart_ready_def)
  then show ?thesis
  proof (induction "m - polls st" arbitrary: st)
    case 0
    then have "m = polls st"
      by simp
    with 0 have "wait_empty lsr st = Some (st\<lparr>polls := polls st + 1\<rparr>)"
      by (subst wait_empty.simps) (simp add: Let_def)
    then show ?case
      by simp
  next
    case (Suc d)
    let ?st = "st\<lparr>polls := polls st + 1\<rparr>"
    have ih: "\<exists>st'. wait_empty lsr ?st = Some st' \<and> sent st' = sent ?st"
      using Suc by (intro Suc.hyps(1)) simp_all
    show ?case
    proof (cases "lsr (polls st) AND 0x20 = 0")
      case True
      then have "wait_empty lsr st = wait_empty lsr ?st"
        by (subst wait_empty.simps) (simp add: Let_def)
      with ih show ?thesis
        by simp
    next
      case False
      then have "wait_empty lsr st = Some ?st"
        by (subst wait_empty.simps) (simp add: Let_def)
      then show ?thesis
        by simp
    qed
  qed
qed

lemma write_bytes_returns:
  assumes "uart_ready lsr"
  shows "\<exists>st'. write_bytes lsr bs st = Some st' \<and> sent st' = sent st @ map (\<lambda>b. (COM1, b)) bs"
proof (induction bs arbitrary: st)
  case (Cons b bs)
  obtain st1 where "wait_empty lsr st = Some st1" "sent st1 = sent st"
    using wait_empty_returns [OF assms] by blast
  then have "write_byte_unlocked lsr b st = Some (serial_outb COM1 b st1)"
    by (simp add: write_byte_unlocked_def)
  with Cons.IH [of "serial_outb COM1 b st1"] show ?case
    using \<open>sent st1 = sent st\<close> by (auto simp: serial_outb_def)
qed simp

section \<open>Digits\<close>

fun dec_digits :: "nat \<Rightarrow> bytes" where
  "dec_digits n = (if n = 0 then [] else dec_digits (n div 10) @ [word_of_nat (48 + n mod 10)])"

declare dec_digits.simps [simp del]

lemma dec_digits_0 [simp]: "dec_digits 0 = []"
  by (simp add: dec_digits.simps)

definition digits_value :: "nat \<Rightarrow> (u8 \<Rightarrow> nat) \<Rightarrow> bytes \<Rightarrow> nat" where
  "digits_value base val ds = foldl (\<lambda>acc d. base * acc + val d) 0 ds"

lemma dec_loop_digits:
  assumes "unat n < 10 ^ i" "i \<le> length buf"
  shows "\<exists>j buf'. dec_loop n i buf = (j, buf') \<and> length buf' = length buf \<and> j \<le> i
    \<and> drop j buf' = dec_digits (unat n) @ drop i buf"
  using assms
proof (induction n i buf rule: dec_loop.induct)
  case (1 n i buf)
  show ?case
  proof (cases "n > 0")
    case False
    then have "dec_loop n i buf = (i, buf)" "unat n = 0"
      by (simp_all add: dec_loop.simps word_less_nat_alt)
    then show ?thesis
      by (simp add: dec_digits.simps)
  next
    case True
    then have pos: "0 < unat n"
      by (simp add: word_less_nat_alt)
    have i: "0 < i"
      using 1(2) pos by (cases i) auto
    let ?buf = "buf[i - 1 := 48 + ucast (n mod 10)]"
    have small: "unat (n div 10) < 10 ^ (i - 1)"
      using 1(2) i by (cases i) (auto simp: unat_div div_less_iff_less_mult mult.commute)
    obtain j buf' where j: "dec_loop (n div 10) (i - 1) ?buf = (j, buf')" "length buf' = length buf"
        "j \<le> i - 1" "drop j buf' = dec_digits (unat n div 10) @ drop (i - 1) ?buf"
      using "1.IH" [OF True small] 1(3) le_trans [OF diff_le_self 1(3)] by (auto simp: unat_div)
    have "(48 + ucast (n mod 10) :: u8) = word_of_nat (48 + unat n mod 10)"
    proof -
      have "unat (ucast (n mod 10) :: u8) = unat n mod 10"
        by (simp add: unat_ucast_mod unat_mod)
      then have "(ucast (n mod 10) :: u8) = word_of_nat (unat n mod 10)"
        by (intro unsigned_word_eqI [where ?'a = nat]) (simp add: unat_of_nat_small)
      then show ?thesis
        by simp
    qed
    moreover have "drop (i - 1) ?buf = (48 + ucast (n mod 10)) # drop i buf"
      using i 1(3) by (cases i) (simp_all add: drop_update_swap flip: Cons_nth_drop_Suc)
    ultimately show ?thesis
      using j True pos by (simp add: dec_loop.simps [of n] dec_digits.simps [of "unat n"])
  qed
qed

lemma dec_digits_value:
  "digits_value 10 (\<lambda>d. unat d - 48) (dec_digits n) = n"
  "\<forall>d\<in>set (dec_digits n). 48 \<le> unat d \<and> unat d \<le> 57"
proof (induction n rule: dec_digits.induct)
  case (1 n)
  have d: "unat (word_of_nat (48 + n mod 10) :: u8) = 48 + n mod 10"
    by (rule unat_of_nat_small) simp
  {
    case 1
    then show ?case
      using "1.IH"(1) d by (cases "n = 0") (simp_all add: dec_digits.simps [of n] digits_value_def)
  next
    case 2
    then show ?case
      using "1.IH"(2) d by (cases "n = 0") (auto simp: dec_digits.simps [of n])
  }
qed

lemma dec_digits_hd: "0 < n \<Longrightarrow> hd (dec_digits n) \<noteq> 48"
proof (induction n rule: dec_digits.induct)
  case (1 n)
  show ?case
  proof (cases "n < 10")
    case True
    then have "dec_digits n = [word_of_nat (48 + n)]"
      using 1 by (simp add: dec_digits.simps)
    moreover have "unat (word_of_nat (48 + n) :: u8) = 48 + n"
      using True by (intro unat_of_nat_small) simp
    moreover have "unat (48 :: u8) = 48"
      by simp
    ultimately show ?thesis
      using 1 by (metis add_cancel_left_right list.sel(1) less_irrefl)
  next
    case False
    then have "dec_digits (n div 10) \<noteq> []"
      by (subst dec_digits.simps) simp
    then show ?thesis
      using 1 False by (simp add: dec_digits.simps [of n])
  qed
qed

text \<open>The hexadecimal digit of a nibble and the value it stands for.\<close>

definition hex_value :: "u8 \<Rightarrow> nat" where
  "hex_value d = (if unat d < 58 then unat d - 48 else unat d - 87)"

lemma HEX_value: "n < 16 \<Longrightarrow> hex_value (HEX ! n) = n"
proof -
  have "\<forall>n\<in>set [0..<16]. hex_value (HEX ! n) = n"
    by (simp add: HEX_def hex_value_def upt_rec)
  then show "n < 16 \<Longrightarrow> hex_value (HEX ! n) = n"
    by simp
qed

lemma nibble_value: "unat (drop_bit (4 * k) v AND 0xF) = unat (v :: u64) div 16 ^ k mod 16"
proof -
  have m: "(0xF :: u64) = mask 4"
    by (simp add: mask_eq_exp_minus_1)
  show ?thesis
    unfolding m unat_and_mask unat_drop_bit power_mult by simp
qed

lemma hex_digits_value:
  "digits_value 16 hex_value (map (\<lambda>k. HEX ! unat (drop_bit (4 * k) v AND 0xF)) (rev [0..<n]))
     = unat (v :: u64) mod 16 ^ n"
proof -
  have "foldl (\<lambda>acc d. 16 * acc + hex_value d) a
      (map (\<lambda>k. HEX ! unat (drop_bit (4 * k) v AND 0xF)) (rev [0..<n])) = a * 16 ^ n + unat v mod 16 ^ n" for a
  proof (induction n arbitrary: a)
    case (Suc n)
    have "hex_value (HEX ! unat (drop_bit (4 * n) v AND 0xF)) = unat v div 16 ^ n mod 16"
      unfolding nibble_value by (rule HEX_value) simp
    moreover have "unat v mod 16 ^ Suc n = 16 ^ n * (unat v div 16 ^ n mod 16) + unat v mod 16 ^ n"
      using mod_mult2_eq [of "unat v" "16 ^ n" 16] by (simp add: mult.commute)
    ultimately show ?case
      using Suc.IH by (simp add: algebra_simps)
  qed simp
  then show ?thesis
    by (simp add: digits_value_def)
qed

section \<open>Properties\<close>

text \<open>
  With a transmitter that keeps becoming ready, \<open>write_dec\<close> returns and sends to COM1
  exactly the decimal digits of its argument, most significant first and without leading
  zero.
\<close>

lemma write_dec_correct:
  assumes "uart_ready lsr"
  shows "\<exists>st' ds. write_dec lsr v st = Some st' \<and> sent st' = sent st @ map (\<lambda>d. (COM1, d)) ds
    \<and> digits_value 10 (\<lambda>d. unat d - 48) ds = unat v \<and> list_all (\<lambda>d. 48 \<le> unat d \<and> unat d \<le> 57) ds
    \<and> ds \<noteq> [] \<and> (hd ds = 48 \<longrightarrow> v = 0)"
proof (cases "v = 0")
  case True
  then show ?thesis
    using write_bytes_returns [OF assms, of "[48]" st]
    by (intro exI [of _ "the (write_bytes lsr [48] st)"] exI [of _ "[48]"])
      (auto simp: write_dec_def write_byte_def digits_value_def split: Option.bind_splits)
next
  case False
  then have pos: "0 < unat v"
    by (simp add: unat_eq_0 zero_less_iff_neq_zero)
  have "unat v < 10 ^ 20"
    using unat_bound [of v] by simp
  then obtain i buf where loop: "dec_loop v 20 (replicate 20 0) = (i, buf)" "drop i buf = dec_digits (unat v)"
    using dec_loop_digits [of v 20 "replicate 20 0"] by auto
  obtain st' where st': "write_bytes lsr (dec_digits (unat v)) st = Some st'"
      "sent st' = sent st @ map (\<lambda>d. (COM1, d)) (dec_digits (unat v))"
    using write_bytes_returns [OF assms] by blast
  have "dec_digits (unat v) \<noteq> []"
    using pos by (subst dec_digits.simps) simp
  then show ?thesis
    using False loop st' dec_digits_value [of "unat v"] dec_digits_hd [OF pos]
    by (intro exI [of _ st'] exI [of _ "dec_digits (unat v)"]) (simp add: write_dec_def list_all_iff)
qed

lemma write_dec_correct_witness:
  "\<exists>st' ds. write_dec (\<lambda>_. 0x20) 1207 \<lparr>sent = [], polls = 0\<rparr> = Some st'
     \<and> sent st' = map (\<lambda>d. (COM1, d)) ds \<and> digits_value 10 (\<lambda>d. unat d - 48) ds = 1207"
  using write_dec_correct [of "\<lambda>_. 0x20" 1207 "\<lparr>sent = [], polls = 0\<rparr>"] by (auto simp: uart_ready_def)

text \<open>
  With a transmitter that keeps becoming ready, \<open>write_hex\<close> returns and sends sixteen
  lower-case hexadecimal digits whose value is its argument.
\<close>

lemma write_hex_correct:
  assumes "uart_ready lsr"
  shows "\<exists>st' ds. write_hex lsr v st = Some st' \<and> sent st' = sent st @ map (\<lambda>d. (COM1, d)) ds
    \<and> length ds = 16 \<and> digits_value 16 hex_value ds = unat v"
proof -
  let ?ds = "map (\<lambda>k. HEX ! unat (drop_bit (4 * k) v AND 0xF)) (rev [0..<16])"
  have "digits_value 16 hex_value ?ds = unat v"
    using hex_digits_value [of v 16] unat_bound [of v] by simp
  moreover have "length ?ds = 16"
    by (simp only: length_map length_rev length_upt diff_zero)
  ultimately show ?thesis
    using write_bytes_returns [OF assms, of ?ds st] unfolding write_hex_def by blast
qed

lemma write_hex_correct_witness:
  "\<exists>st' ds. write_hex (\<lambda>_. 0x20) 0xdeadbeef \<lparr>sent = [], polls = 0\<rparr> = Some st'
     \<and> length ds = 16 \<and> digits_value 16 hex_value ds = 0xdeadbeef"
  using write_hex_correct [of "\<lambda>_. 0x20" "0xdeadbeef" "\<lparr>sent = [], polls = 0\<rparr>"] by (auto simp: uart_ready_def)

end
