(* ===== verification/Elf.thy ===== *)
theory Elf
  imports Lion_Prelude
begin

text \<open>
  Model of \<open>src/kernel/src/elf.rs\<close>: the entry point of an ELF64 image and the collection of
  its \<open>PT_LOAD\<close> program headers.  Offsets are 64-bit and wrap, as they do in the kernel's
  release build; a slice of the image with its end out of range, or before its start,
  panics.  The theorems say which headers are collected when no offset wraps, and exactly
  which images make the parser panic.
\<close>

definition USER_BASE :: u64 where
  "USER_BASE = 0x10000000000"

definition SEG_EXEC :: u32 where
  "SEG_EXEC = 1"

definition SEG_WRITE :: u32 where
  "SEG_WRITE = 2"

definition PT_LOAD :: u32 where
  "PT_LOAD = 1"

record Segment =
  seg_vaddr :: u64
  seg_file_off :: u64
  seg_filesz :: u64
  seg_memsz :: u64
  seg_flags :: u32

definition seg_exec :: "Segment \<Rightarrow> bool" where
  "seg_exec s \<longleftrightarrow> seg_flags s AND SEG_EXEC \<noteq> 0"

definition seg_writable :: "Segment \<Rightarrow> bool" where
  "seg_writable s \<longleftrightarrow> seg_flags s AND SEG_WRITE \<noteq> 0"

definition ELF_MAGIC :: bytes where
  "ELF_MAGIC = [0x7f, 0x45, 0x4c, 0x46]"

definition entry_point :: "bytes \<Rightarrow> u64 option" where
  "entry_point elf =
     (if length elf < 64 \<or> take 4 elf \<noteq> ELF_MAGIC \<or> elf ! 4 \<noteq> 2 \<or> elf ! 5 \<noteq> 1
      then None else Some (le64 elf 24))"

text \<open>The bytes \<open>elf[off + a..off + b]\<close>, with both ends computed in 64 bits.\<close>

definition elf_slice :: "bytes \<Rightarrow> u64 \<Rightarrow> u64 \<Rightarrow> bytes outcome" where
  "elf_slice elf s e =
     (if s \<le> e \<and> unat e \<le> length elf
      then Returns (take (unat e - unat s) (drop (unat s) elf)) else Panics)"

definition header_segment :: "bytes \<Rightarrow> u64 \<Rightarrow> Segment option outcome" where
  "header_segment elf off =
     (case elf_slice elf off (off + 4) of Panics \<Rightarrow> Panics | Returns p_type \<Rightarrow>
      if le32 p_type 0 \<noteq> PT_LOAD then Returns None else
      case elf_slice elf (off + 4) (off + 8) of Panics \<Rightarrow> Panics | Returns flags \<Rightarrow>
      case elf_slice elf (off + 8) (off + 16) of Panics \<Rightarrow> Panics | Returns p_offset \<Rightarrow>
      case elf_slice elf (off + 16) (off + 24) of Panics \<Rightarrow> Panics | Returns p_vaddr \<Rightarrow>
      case elf_slice elf (off + 32) (off + 40) of Panics \<Rightarrow> Panics | Returns p_filesz \<Rightarrow>
      case elf_slice elf (off + 40) (off + 48) of Panics \<Rightarrow> Panics | Returns p_memsz \<Rightarrow>
      Returns (Some \<lparr>seg_vaddr = le64 p_vaddr 0, seg_file_off = le64 p_offset 0,
                     seg_filesz = le64 p_filesz 0, seg_memsz = le64 p_memsz 0,
                     seg_flags = le32 flags 0\<rparr>))"

fun load_headers :: "bytes \<Rightarrow> u64 \<Rightarrow> nat \<Rightarrow> nat list \<Rightarrow> nat \<Rightarrow> Segment list \<Rightarrow> (nat \<times> Segment list) outcome" where
  "load_headers elf phoff phentsize [] n out = Returns (n, out)"
| "load_headers elf phoff phentsize (i # is) n out =
     (let off = phoff + word_of_nat (i * phentsize) in
      if unat (off + 56) > length elf then Returns (n, out)
      else case header_segment elf off of
        Panics \<Rightarrow> Panics
      | Returns None \<Rightarrow> load_headers elf phoff phentsize is n out
      | Returns (Some s) \<Rightarrow> load_headers elf phoff phentsize is (Suc n) (out @ [s]))"

definition load_segments :: "bytes \<Rightarrow> Segment list \<Rightarrow> (nat \<times> Segment list) outcome" where
  "load_segments elf out =
     (if length elf < 64 \<or> take 4 elf \<noteq> ELF_MAGIC then Returns (0, out)
      else let phoff = le64 elf 32;
               phentsize = unat (le16 elf 54);
               phnum = unat (le16 elf 56)
           in load_headers elf phoff phentsize [0..<phnum] 0 out)"

section \<open>Program headers inside the image\<close>

text \<open>The \<open>i\<close>-th header's offset in the image, and the segment a header there describes.\<close>

definition phdr_off :: "bytes \<Rightarrow> nat \<Rightarrow> nat" where
  "phdr_off elf i = unat (le64 elf 32) + i * unat (le16 elf 54)"

definition phdr_count :: "bytes \<Rightarrow> nat" where
  "phdr_count elf = unat (le16 elf 56)"

definition segment_at :: "bytes \<Rightarrow> nat \<Rightarrow> Segment" where
  "segment_at elf p = \<lparr>seg_vaddr = le64 elf (p + 16), seg_file_off = le64 elf (p + 8),
     seg_filesz = le64 elf (p + 32), seg_memsz = le64 elf (p + 40), seg_flags = le32 elf (p + 4)\<rparr>"

definition is_elf :: "bytes \<Rightarrow> bool" where
  "is_elf elf \<longleftrightarrow> 64 \<le> length elf \<and> take 4 elf = ELF_MAGIC"

definition header_fits :: "bytes \<Rightarrow> nat \<Rightarrow> bool" where
  "header_fits elf i \<longleftrightarrow> phdr_off elf i + 56 \<le> length elf"

definition is_load :: "bytes \<Rightarrow> nat \<Rightarrow> bool" where
  "is_load elf i \<longleftrightarrow> le32 elf (phdr_off elf i) = PT_LOAD"

lemma elf_slice_inside:
  assumes "unat off + b \<le> length elf" "length elf < 2 ^ 64" "a \<le> b"
  shows "elf_slice elf (off + word_of_nat a) (off + word_of_nat b)
    = Returns (take (b - a) (drop (unat off + a) elf))"
proof -
  have ab: "unat (off + word_of_nat a) = unat off + a" "unat (off + word_of_nat b) = unat off + b"
    using assms by (simp_all add: unat_add_small unat_of_nat_small)
  then show ?thesis
    using assms by (simp add: elf_slice_def word_le_nat_alt)
qed

lemma le_of_take:
  "le32 (take 4 (drop p elf)) 0 = le32 elf p" "le64 (take 8 (drop p elf)) 0 = le64 elf p"
  by (simp_all add: le32_def le64_def le_bytes_def)

lemma header_segment_inside:
  assumes "unat off + 56 \<le> length elf" "length elf < 2 ^ 64"
  shows "header_segment elf off
    = Returns (if le32 elf (unat off) = PT_LOAD then Some (segment_at elf (unat off)) else None)"
proof -
  note s = elf_slice_inside [OF _ assms(2), of off]
  have "elf_slice elf off (off + 4) = Returns (take 4 (drop (unat off) elf))"
    "elf_slice elf (off + 4) (off + 8) = Returns (take 4 (drop (unat off + 4) elf))"
    "elf_slice elf (off + 8) (off + 16) = Returns (take 8 (drop (unat off + 8) elf))"
    "elf_slice elf (off + 16) (off + 24) = Returns (take 8 (drop (unat off + 16) elf))"
    "elf_slice elf (off + 32) (off + 40) = Returns (take 8 (drop (unat off + 32) elf))"
    "elf_slice elf (off + 40) (off + 48) = Returns (take 8 (drop (unat off + 40) elf))"
    using s [of 4 0] s [of 8 4] s [of 16 8] s [of 24 16] s [of 40 32] s [of 48 40] assms(1)
    by simp_all
  then show ?thesis
    by (simp add: header_segment_def le_of_take segment_at_def)
qed

text \<open>The check before the slices lets exactly the wrapping offsets through to a panic.\<close>

lemma header_segment_wraps:
  assumes "2 ^ 64 \<le> unat off + 56" "length elf < 2 ^ 64 - 56"
  shows "header_segment elf off = Panics"
proof -
  have "\<not> (off \<le> off + 4 \<and> unat (off + 4) \<le> length elf)"
  proof (cases "unat off + 4 < 2 ^ 64")
    case True
    then have "unat (off + 4) = unat off + 4"
      by (simp add: unat_add_small)
    then show ?thesis
      using assms by simp
  next
    case False
    then have "unat (off + 4) = unat off + 4 - 2 ^ 64"
      using unat_bound [of off] by (simp add: unat_word_ariths mod_if)
    then show ?thesis
      using False unat_bound [of off] by (simp add: word_le_nat_alt)
  qed
  then show ?thesis
    by (auto simp: header_segment_def elf_slice_def)
qed

definition header_off :: "bytes \<Rightarrow> nat \<Rightarrow> u64" where
  "header_off elf i = le64 elf 32 + word_of_nat (i * unat (le16 elf 54))"

lemma load_headers_inside:
  assumes "length elf < 2 ^ 64 - 56" "sorted is"
    and "\<forall>i\<in>set is. phdr_off elf i + 56 < 2 ^ 64"
  shows "load_headers elf (le64 elf 32) (unat (le16 elf 54)) is n out
    = (let segs = map (\<lambda>i. segment_at elf (phdr_off elf i)) (filter (\<lambda>i. header_fits elf i \<and> is_load elf i) is)
       in Returns (n + length segs, out @ segs))"
  using assms(2,3)
proof (induction "is" arbitrary: n out)
  case (Cons i "is")
  have off: "unat (header_off elf i) = phdr_off elf i"
    using Cons.prems by (simp add: header_off_def phdr_off_def unat_add_small unat_of_nat_small del: of_nat_mult)
  have 56: "unat (header_off elf i + 56) = phdr_off elf i + 56"
    using Cons.prems off by (simp add: unat_add_small)
  show ?case
  proof (cases "header_fits elf i")
    case True
    then have "header_segment elf (header_off elf i)
        = Returns (if is_load elf i then Some (segment_at elf (phdr_off elf i)) else None)"
      using header_segment_inside [of "header_off elf i" elf] off assms(1)
      by (simp add: header_fits_def is_load_def)
    then show ?thesis
      using True 56 Cons.IH Cons.prems
      by (simp add: header_fits_def header_off_def Let_def del: of_nat_mult)
  next
    case False
    then have "\<not> header_fits elf j" if "j \<in> set (i # is)" for j
      using that Cons.prems(1) mult_le_mono1 [of i j "unat (le16 elf 54)"]
      by (fastforce simp: header_fits_def phdr_off_def)
    then have "filter (\<lambda>i. header_fits elf i \<and> is_load elf i) (i # is) = []"
      unfolding filter_empty_conv by blast
    then show ?thesis
      using False 56 by (simp add: header_fits_def header_off_def Let_def del: of_nat_mult)
  qed
qed simp

text \<open>A run over the headers panics exactly at a wrapping offset all earlier headers precede.\<close>

definition wraps :: "bytes \<Rightarrow> nat \<Rightarrow> bool" where
  "wraps elf i \<longleftrightarrow> 2 ^ 64 \<le> unat (header_off elf i) + 56"

definition stops :: "bytes \<Rightarrow> nat \<Rightarrow> bool" where
  "stops elf i \<longleftrightarrow> length elf < unat (header_off elf i + 56)"

lemma wrapped_header:
  assumes "length elf < 2 ^ 64 - 56" "56 \<le> length elf"
  shows "wraps elf i \<Longrightarrow> \<not> stops elf i \<and> header_segment elf (header_off elf i) = Panics"
    and "\<not> wraps elf i \<Longrightarrow> \<not> stops elf i \<Longrightarrow> \<exists>s. header_segment elf (header_off elf i) = Returns s"
proof -
  assume w: "wraps elf i"
  then have "unat (header_off elf i + 56) = unat (header_off elf i) + 56 - 2 ^ 64"
    using unat_bound [of "header_off elf i"]
    by (simp add: wraps_def unat_word_ariths mod_if)
  then show "\<not> stops elf i \<and> header_segment elf (header_off elf i) = Panics"
    using w assms unat_bound [of "header_off elf i"] header_segment_wraps [of "header_off elf i" elf]
    by (simp add: wraps_def stops_def)
next
  assume "\<not> wraps elf i" "\<not> stops elf i"
  then have "unat (header_off elf i) + 56 \<le> length elf"
    by (simp add: wraps_def stops_def unat_add_small)
  then show "\<exists>s. header_segment elf (header_off elf i) = Returns s"
    using header_segment_inside [of "header_off elf i" elf] assms by simp
qed

lemma load_headers_panics:
  assumes "length elf < 2 ^ 64 - 56" "56 \<le> length elf"
  shows "load_headers elf (le64 elf 32) (unat (le16 elf 54)) is n out = Panics
    \<longleftrightarrow> (\<exists>k<length is. wraps elf (is ! k) \<and> (\<forall>j<k. \<not> stops elf (is ! j)))"
proof (induction "is" arbitrary: n out)
  case (Cons i "is")
  note h = wrapped_header [OF assms, of i]
  consider "wraps elf i" | "stops elf i" "\<not> wraps elf i" | "\<not> wraps elf i" "\<not> stops elf i"
    by blast
  then show ?case
  proof cases
    case 1
    then show ?thesis
      using h(1) by (auto simp: stops_def header_off_def Let_def simp del: of_nat_mult intro!: exI [of _ 0])
  next
    case 2
    then have "load_headers elf (le64 elf 32) (unat (le16 elf 54)) (i # is) n out = Returns (n, out)"
      by (simp add: stops_def header_off_def Let_def del: of_nat_mult)
    moreover have "\<not> (\<exists>k<length (i # is). wraps elf ((i # is) ! k) \<and> (\<forall>j<k. \<not> stops elf ((i # is) ! j)))"
      using 2 by (metis gr0I nth_Cons_0)
    ultimately show ?thesis
      by simp
  next
    case 3
    then obtain s where "header_segment elf (header_off elf i) = Returns s"
      using h(2) by blast
    then have "load_headers elf (le64 elf 32) (unat (le16 elf 54)) (i # is) n out = Panics
        \<longleftrightarrow> (\<exists>k<length is. wraps elf (is ! k) \<and> (\<forall>j<k. \<not> stops elf (is ! j)))"
      using 3 Cons.IH by (cases s) (simp_all add: stops_def header_off_def Let_def del: of_nat_mult)
    also have "\<dots> \<longleftrightarrow> (\<exists>k<length (i # is). wraps elf ((i # is) ! k) \<and> (\<forall>j<k. \<not> stops elf ((i # is) ! j)))"
      using 3 by (simp add: Ex_less_Suc2 All_less_Suc2)
    finally show ?thesis .
  qed
qed simp

section \<open>Results\<close>

lemma load_segments_inside:
  assumes "is_elf elf" "length elf < 2 ^ 63"
    and "\<forall>i<phdr_count elf. phdr_off elf i + 56 < 2 ^ 64"
  shows "load_segments elf out = (let segs = map (\<lambda>i. segment_at elf (phdr_off elf i))
               (filter (\<lambda>i. header_fits elf i \<and> is_load elf i) [0..<phdr_count elf])
             in Returns (length segs, out @ segs))"
proof -
  have "load_headers elf (le64 elf 32) (unat (le16 elf 54)) [0..<phdr_count elf] 0 out
    = (let segs = map (\<lambda>i. segment_at elf (phdr_off elf i))
         (filter (\<lambda>i. header_fits elf i \<and> is_load elf i) [0..<phdr_count elf])
       in Returns (0 + length segs, out @ segs))"
    by (rule load_headers_inside) (use assms in auto)
  then show ?thesis
    using assms(1) by (simp add: load_segments_def is_elf_def phdr_count_def Let_def)
qed

text \<open>
  C32: on an ELF image whose program-header offsets stay below the end of the address space
  the parser returns, appends to \<open>out\<close> the segments of exactly the \<open>PT_LOAD\<close> headers that
  lie inside the image, in table order, and reports how many it appended.
\<close>

theorem load_segments_correct:
  assumes "is_elf elf" "length elf < 2 ^ 63"
    and "\<forall>i<phdr_count elf. phdr_off elf i + 56 < 2 ^ 64"
  shows "\<exists>segs. load_segments elf out = Returns (length segs, out @ segs)
    \<and> segs = map (\<lambda>i. segment_at elf (phdr_off elf i))
               (filter (\<lambda>i. header_fits elf i \<and> is_load elf i) [0..<phdr_count elf])"
  using load_segments_inside [OF assms] by (simp add: Let_def)

text \<open>An image like the one of the source's tests: one executable segment at file offset 64.\<close>

definition tiny_elf :: "u64 \<Rightarrow> u64 \<Rightarrow> bytes" where
  "tiny_elf phoff vaddr = ELF_MAGIC @ [2, 1] @ replicate 18 0 @ to_le64 0x1020 @ to_le64 phoff
     @ replicate 14 0 @ [56, 0, 1, 0] @ replicate 6 0
     @ to_le32 PT_LOAD @ to_le32 SEG_EXEC @ to_le64 0x1000 @ to_le64 vaddr
     @ replicate 8 0 @ to_le64 0x72 @ to_le64 0x72 @ replicate 8 0"

lemma tiny_elf_fields:
  "length (tiny_elf p v) = 120" "is_elf (tiny_elf p v)" "le64 (tiny_elf p v) 32 = p"
  "le16 (tiny_elf p v) 54 = 56" "le16 (tiny_elf p v) 56 = 1"
  "le32 (tiny_elf p v) 64 = PT_LOAD" "le32 (tiny_elf p v) 68 = SEG_EXEC" "le64 (tiny_elf p v) 96 = 0x72"
  "le64 (tiny_elf p v) 24 = 0x1020" "le64 (tiny_elf p v) 80 = v" "le64 (tiny_elf p v) 72 = 0x1000"
  "le64 (tiny_elf p v) 104 = 0x72"
proof -
  show "length (tiny_elf p v) = 120"
    by (simp add: tiny_elf_def ELF_MAGIC_def)
  then show "is_elf (tiny_elf p v)"
    by (simp add: is_elf_def) (simp add: tiny_elf_def ELF_MAGIC_def)
  show "le64 (tiny_elf p v) 32 = p"
    using le64_to_le64 [of p]
    by (simp add: le64_def le_bytes_def tiny_elf_def ELF_MAGIC_def)
  show "le16 (tiny_elf p v) 54 = 56" "le16 (tiny_elf p v) 56 = 1"
    by (simp_all add: le16_def le_bytes_def tiny_elf_def ELF_MAGIC_def)
  show "le32 (tiny_elf p v) 64 = PT_LOAD" "le32 (tiny_elf p v) 68 = SEG_EXEC"
    using le32_to_le32 [of PT_LOAD] le32_to_le32 [of SEG_EXEC]
    by (simp_all add: le32_def le_bytes_def tiny_elf_def ELF_MAGIC_def)
  show "le64 (tiny_elf p v) 96 = 0x72"
    using le64_to_le64 [of "0x72"]
    by (simp add: le64_def le_bytes_def tiny_elf_def ELF_MAGIC_def)
  show "le64 (tiny_elf p v) 24 = 0x1020" "le64 (tiny_elf p v) 80 = v" "le64 (tiny_elf p v) 72 = 0x1000"
    "le64 (tiny_elf p v) 104 = 0x72"
    using le64_to_le64 [of "0x1020"] le64_to_le64 [of v] le64_to_le64 [of "0x1000"] le64_to_le64 [of "0x72"]
    by (simp_all add: le64_def le_bytes_def tiny_elf_def ELF_MAGIC_def)
qed

lemma load_tiny_elf:
  "load_segments (tiny_elf 64 v) [] = Returns (1, [\<lparr>seg_vaddr = v, seg_file_off = 0x1000,
     seg_filesz = 0x72, seg_memsz = 0x72, seg_flags = SEG_EXEC\<rparr>])"
  using load_segments_inside [of "tiny_elf 64 v" "[]"]
  by (simp add: tiny_elf_fields phdr_count_def phdr_off_def header_fits_def is_load_def segment_at_def)

theorem load_segments_correct_witness:
  "\<exists>s. load_segments (tiny_elf 64 0x1000) [] = Returns (1, [s]) \<and> seg_exec s \<and> seg_filesz s = 0x72"
proof -
  have "load_segments (tiny_elf 64 0x1000) [] = Returns (1, [segment_at (tiny_elf 64 0x1000) 64])"
    using load_segments_correct [of "tiny_elf 64 0x1000" "[]"]
    by (simp add: tiny_elf_fields phdr_count_def phdr_off_def header_fits_def is_load_def)
  then show ?thesis
    by (simp add: segment_at_def tiny_elf_fields seg_exec_def SEG_EXEC_def)
qed



end
