(* ===== verification/Regions.thy ===== *)
theory Regions
  imports Paging
begin

text \<open>
  The free 512 GiB regions that \<open>gdt::setup\<close>, \<open>heap::init_heap\<close> and \<open>user::bring_up\<close> claim: the
  first absent entry of the top table, made a canonical base address, and a run of freshly
  mapped pages from there.  The lemmas of this theory say that such a region is unmapped and
  what mapping a run of its pages leaves behind.
\<close>

definition top_region :: "nat \<Rightarrow> u64" where
  "top_region idx =
     (let base = push_bit 39 (word_of_nat idx)
      in if idx \<ge> 256 then base OR 0xFFFF000000000000 else base)"

lemma unat_top_region:
  assumes "idx < 512"
  shows "unat (top_region idx) = idx * 2 ^ 39 + (if idx \<ge> 256 then 0xFFFF000000000000 else 0)"
proof -
  let ?b = "push_bit 39 (word_of_nat idx) :: u64"
  have b: "unat ?b = idx * 2 ^ 39"
    using assms by (simp add: push_bit_eq_mult unat_mult_small unat_of_nat_small)
  have "?b AND 0xFFFF000000000000 = 0"
  proof -
    have m: "(0xFFFF000000000000 :: u64) = push_bit 39 (push_bit 9 (mask 16))"
      by (simp add: mask_eq_exp_minus_1)
    have z: "word_of_nat idx AND push_bit 9 (mask 16) = (0 :: u64)"
    proof -
      have "(word_of_nat idx :: u64) = take_bit 9 (word_of_nat idx)"
        using assms by (intro unsigned_word_eqI [where ?'a = nat])
          (simp add: unsigned_take_bit_eq unat_of_nat_small take_bit_nat_eq_self)
      also have "\<dots> AND push_bit 9 (mask 16) = 0"
        by (rule bit_word_eqI) (auto simp: bit_simps)
      finally show ?thesis .
    qed
    show ?thesis
      unfolding m push_bit_and [symmetric] z by simp
  qed
  then have "?b OR 0xFFFF000000000000 = ?b + 0xFFFF000000000000"
    by (simp add: disjunctive_add_eq_or)
  moreover have "unat (?b + 0xFFFF000000000000) = idx * 2 ^ 39 + 0xFFFF000000000000"
    using assms b by (subst unat_add_small) simp_all
  ultimately show ?thesis
    using b by (simp add: top_region_def)
qed

lemma first_absent_Some:
  "first_absent st t offset is = Some i \<Longrightarrow> i \<in> set is \<and> table_read st t offset i AND PRESENT = 0"
  by (induction "is") (auto split: if_splits)

lemma top_region_page:
  assumes "idx < 512" "k < 2 ^ 27"
  shows "unat (top_region idx + word_of_nat k * 4096) = unat (top_region idx) + k * 4096"
    "index4 (top_region idx + word_of_nat k * 4096) = idx"
proof -
  have k: "unat (word_of_nat k * 4096 :: u64) = k * 4096"
    using assms(2) by (simp add: unat_mult_small unat_of_nat_small)
  show u: "unat (top_region idx + word_of_nat k * 4096) = unat (top_region idx) + k * 4096"
    using assms by (subst unat_add_small) (simp_all add: k unat_top_region)
  define h :: nat where "h = (if idx \<ge> 256 then 0x1FFFE00 else 0)"
  have "unat (top_region idx + word_of_nat k * 4096) = k * 4096 + (idx + h) * 2 ^ 39"
    unfolding u unat_top_region [OF assms(1)] by (simp add: h_def)
  then have "unat (top_region idx + word_of_nat k * 4096) div 2 ^ 39 = idx + h"
    using assms(2) by (simp only: div_mult_self1) simp
  moreover have "(idx + h) mod 512 = idx"
    using assms(1) by (simp add: h_def mod_add_eq [of idx 0, symmetric] flip: mod_add_right_eq)
  ultimately show "index4 (top_region idx + word_of_nat k * 4096) = idx"
    by (simp add: index_nat)
qed

lemma region_unmapped:
  assumes "find_free_top_index offset st = Some idx" "k < 2 ^ 27"
  shows "idx < 512 \<and> translate st offset (top_region idx + word_of_nat k * 4096) = 0"
proof -
  have i: "idx < 512" "table_read st (current_cr3 st AND ADDR_MASK) offset idx AND PRESENT = 0"
    using first_absent_Some [OF assms(1) [unfolded find_free_top_index_def]] by auto
  then show ?thesis
    using top_region_page(2) [OF i(1) assms(2)] by (simp add: translate_def)
qed

text \<open>Mapping \<open>cnt\<close> pages at the base of the first free region.\<close>

lemma map_region_ok:
  assumes "tables_ok st 4 (root st)" "find_free_top_index (window st) st = Some idx"
    and "unat cnt < 2 ^ 27" "map_range (window st) (top_region idx) cnt st = (Inr u, st')"
  shows "\<exists>fs. range_mapped (top_region idx) 0 fs (unat cnt) st st' \<and> length fs = unat cnt"
proof -
  have "\<forall>k<unat cnt. translate st (window st) (top_region idx + word_of_nat (0 + k) * 4096) AND PRESENT = 0"
    using region_unmapped [OF assms(2)] assms(3) by simp
  from map_range_from_ok [OF assms(1) _ this] show ?thesis
    using assms(3,4) by (simp add: map_range_def)
qed

text \<open>The part of that result the users of a region need: present, writable, frames not shared.\<close>

definition region_ready :: "u64 \<Rightarrow> nat \<Rightarrow> machine \<Rightarrow> machine \<Rightarrow> bool" where
  "region_ready base n st st' \<longleftrightarrow>
     tables_ok st' 4 (root st') \<and> window st' = window st \<and> cr3 st' = cr3 st
     \<and> (\<exists>fs. length fs = n \<and> distinct fs \<and> set fs \<subseteq> free st - free st'
          \<and> (\<forall>k<n. let e = translate st' (window st) (base + word_of_nat k * 4096) in
               e AND PRESENT \<noteq> 0 \<and> e AND WRITABLE \<noteq> 0 \<and> e AND USER = 0 \<and> e AND ADDR_MASK = faddr (fs ! k)))
     \<and> (\<forall>v. (\<forall>k<n. page_of v \<noteq> page_of (base + word_of_nat k * 4096)) \<longrightarrow>
          translate st' (window st) v = translate st (window st) v)"

lemma leaf_writable: "leaf_entry phys user nx AND WRITABLE \<noteq> 0"
proof -
  have "bit (leaf_entry phys user nx) 1"
    by (auto simp: leaf_entry_def entry_bits bit_or_iff)
  then show ?thesis
    by (simp add: WRITABLE_def push_bit_eq_mult and_exp_eq_0_iff_not_bit [of _ 1, simplified])
qed

lemma region_readyI:
  assumes "tables_ok st 4 (root st)" "range_mapped base 0 fs n st st'" "length fs = n"
  shows "region_ready base n st st'"
proof -
  have fs: "faddr (fs ! k) AND ADDR_MASK = faddr (fs ! k)" if "k < n" for k
  proof -
    have "fs ! k \<in> set fs" "set fs \<subseteq> free st"
      using assms(2,3) that by (auto simp: range_mapped_def)
    then have "fs ! k < 2 ^ 40"
      using assms(1) by (auto simp: tables_ok_def mach_ok_def)
    then show ?thesis
      using table_addr_faddr by (simp add: table_addr_def)
  qed
  have "root st' = root st"
    using assms(2) by (simp add: range_mapped_def)
  moreover have "let e = translate st' (window st) (base + word_of_nat k * 4096) in
      e AND PRESENT \<noteq> 0 \<and> e AND WRITABLE \<noteq> 0 \<and> e AND USER = 0 \<and> e AND ADDR_MASK = faddr (fs ! k)"
    if "k < n" for k
    using assms(2,3) that fs [OF that] leaf_entry_decode [of "faddr (fs ! k)" False False] leaf_writable
    by (simp add: range_mapped_def Let_def)
  ultimately show ?thesis
    unfolding region_ready_def
    by (intro conjI exI [of _ fs]) (use assms(2,3) in \<open>auto simp: range_mapped_def\<close>)
qed

lemma region_ready_map:
  assumes "tables_ok st 4 (root st)" "find_free_top_index (window st) st = Some idx"
    and "unat cnt < 2 ^ 27" "map_range (window st) (top_region idx) cnt st = (Inr u, st')"
  shows "region_ready (top_region idx) (unat cnt) st st'"
  using map_region_ok [OF assms] region_readyI [OF assms(1)] by blast

section \<open>Enough frames\<close>

text \<open>
  A level takes at most one frame and fails only when none is free, so a page needs at most
  three frames for its tables, and a range of \<open>n\<close> pages at most \<open>4 * n\<close> in all.
\<close>

definition took :: "nat \<Rightarrow> machine \<Rightarrow> machine \<Rightarrow> bool" where
  "took k st st' \<longleftrightarrow> mach_ok st' \<and> window st' = window st \<and> card (free st) \<le> card (free st') + k"

lemma took_trans: "took j st st1 \<Longrightarrow> took k st1 st2 \<Longrightarrow> took (j + k) st st2"
  by (auto simp: took_def)

lemma frame_phys_took:
  assumes "mach_ok st" "free st \<noteq> {}"
  obtains p st' where "frame_phys st = (Inr p, st')" "took 1 st st'"
proof (rule frame_phys_cases [OF assms(1)])
  fix f fa
  assume a: "frame_phys st = (Inr (faddr f), st\<lparr>FRAMES := fa\<rparr>)" "f \<in> free st"
    "mach_ok (st\<lparr>FRAMES := fa\<rparr>)" "set (free_list fa) = free st - {f}"
  then have "took 1 st (st\<lparr>FRAMES := fa\<rparr>)"
    by (simp add: took_def card_Diff_singleton)
  with a show thesis
    by (intro that)
qed (use assms(2) in simp)

lemma next_level_took:
  assumes "mach_ok st" "free st \<noteq> {}"
  obtains t st' where "next_level (window st) user table i st = (Inr t, st')" "took 1 st st'"
proof (cases "table_read st table (window st) i AND PRESENT = 0")
  case True
  show ?thesis
  proof (rule alloc_table_cases [OF assms(1) refl])
    fix f fa
    let ?m = "\<lambda>a. if a \<in> cell (faddr f) ` {..<512} then 0 else pmem st a"
    assume a: "alloc_table (window st) st = (Inr (faddr f), st\<lparr>FRAMES := fa, pmem := ?m\<rparr>)" "f \<in> free st"
      "mach_ok (st\<lparr>FRAMES := fa\<rparr>)" "set (free_list fa) = free st - {f}"
    then have "took 1 st (table_write table (window st) i e (st\<lparr>FRAMES := fa, pmem := ?m\<rparr>))" for e
      by (simp add: took_def card_Diff_singleton mach_ok_def table_write_def mem_write_def)
    with a True show ?thesis
      by (intro that) (simp_all add: next_level_def)
  qed (use assms(2) in simp)
next
  case False
  moreover have "took 1 st st"
    using assms(1) by (simp add: took_def)
  ultimately show ?thesis
    by (intro that [of _ st]) (simp_all add: next_level_def Let_def)
qed

lemma took_nonempty: "took k st st' \<Longrightarrow> k < card (free st) \<Longrightarrow> free st' \<noteq> {}"
  by (auto simp: took_def)

lemma map_page_took:
  assumes "mach_ok st" "3 \<le> card (free st)"
  obtains st' where "map_page_impl (window st) virt phys user nx st = (Inr (), st')" "took 3 st st'"
proof -
  have "free st \<noteq> {}"
    using assms(2) by auto
  then obtain t1 s1 where 1: "next_level (window st) user (current_cr3 st AND ADDR_MASK) (index4 virt) st = (Inr t1, s1)"
      and k1: "took 1 st s1"
    using next_level_took [OF assms(1)] by metis
  then have "mach_ok s1" "window s1 = window st" "free s1 \<noteq> {}"
    using took_nonempty [OF k1] assms(2) by (auto simp: took_def)
  then obtain t2 s2 where 2: "next_level (window st) user t1 (index3 virt) s1 = (Inr t2, s2)"
      and k2: "took 1 s1 s2"
    using next_level_took [of s1 user t1 "index3 virt"] by metis
  then have "mach_ok s2" "window s2 = window st" "free s2 \<noteq> {}"
    using took_nonempty [OF took_trans [OF k1 k2]] assms(2) k1 by (auto simp: took_def)
  then obtain t3 s3 where 3: "next_level (window st) user t2 (index2 virt) s2 = (Inr t3, s3)"
      and k3: "took 1 s2 s3"
    using next_level_took [of s2 user t2 "index2 virt"] by metis
  have k: "took 3 st s3"
    using took_trans [OF took_trans [OF k1 k2] k3] by (simp add: numeral_3_eq_3)
  then have "took 3 st ((table_write t3 (window st) (index1 virt) e s3)\<lparr>invalidated := x\<rparr>)" for e x
    by (simp add: took_def mach_ok_def table_write_def mem_write_def)
  then show ?thesis
    by (intro that) (simp_all add: map_page_impl_def 1 2 3 Let_def)
qed

lemma map_range_from_took:
  assumes "mach_ok st" "4 * n \<le> card (free st)"
  shows "\<exists>st'. map_range_from (window st) base n i st = (Inr (), st') \<and> took (4 * n) st st'"
  using assms
proof (induction n arbitrary: i st)
  case (Suc n)
  then have "free st \<noteq> {}"
    by auto
  then obtain p s1 where 1: "frame_phys st = (Inr p, s1)" and k1: "took 1 st s1"
    using frame_phys_took [OF Suc.prems(1)] by metis
  then have s1: "mach_ok s1" "window s1 = window st" "3 \<le> card (free s1)"
    using Suc.prems(2) by (simp_all add: took_def)
  then obtain s2 where 2: "map_page_impl (window st) (base + word_of_nat i * 4096) p False False s1 = (Inr (), s2)"
      and k2: "took 3 s1 s2"
    using map_page_took [OF s1(1,3)] by metis
  have k: "took 4 st s2"
    using took_trans [OF k1 k2] by simp
  then have "mach_ok s2" "window s2 = window st" "4 * n \<le> card (free s2)"
    using Suc.prems(2) by (simp_all add: took_def)
  then obtain st' where "map_range_from (window st) base n (Suc i) s2 = (Inr (), st')" "took (4 * n) s2 st'"
    using Suc.IH [of s2 "Suc i"] by auto
  with 1 2 took_trans [OF k] show ?case
    by (auto simp: map_page_def)
qed (simp add: took_def)

lemma map_range_succeeds:
  assumes "mach_ok st" "4 * unat cnt \<le> card (free st)"
  shows "\<exists>st'. map_range (window st) base cnt st = (Inr (), st')"
  using map_range_from_took [OF assms] by (auto simp: map_range_def)


section \<open>Present entries stay\<close>

text \<open>
  Mapping writes present entries, and zeroes only in frames it has just taken: an entry that
  is present outside the free frames stays present.
\<close>

definition sticky :: "machine \<Rightarrow> machine \<Rightarrow> bool" where
  "sticky st st' \<longleftrightarrow> mach_ok st' \<and> window st' = window st \<and> cr3 st' = cr3 st
     \<and> PHYS_OFFSET st' = PHYS_OFFSET st \<and> free st' \<subseteq> free st
     \<and> (\<forall>c. pmem st c AND PRESENT \<noteq> 0 \<longrightarrow> (\<forall>f\<in>free st. c \<notin> cell (faddr f) ` {..<512})
          \<longrightarrow> pmem st' c AND PRESENT \<noteq> 0)"

lemma sticky_refl: "mach_ok st \<Longrightarrow> sticky st st"
  by (simp add: sticky_def)

lemma sticky_trans: "sticky st st1 \<Longrightarrow> sticky st1 st2 \<Longrightarrow> sticky st st2"
  unfolding sticky_def by (metis subset_iff)

lemma sticky_write:
  assumes "sticky st st'" "e AND PRESENT \<noteq> 0"
  shows "sticky st (table_write t offset i e st')"
  using assms by (auto simp: sticky_def table_write_def mem_write_def mach_ok_def)

lemma present_bit: "(x AND PRESENT \<noteq> 0) = bit x 0"
  by (simp add: PRESENT_def and_one_eq bit_0 even_iff_mod_2_eq_zero)

lemma entry_present:
  "(entry_pointer t True True OR x) AND PRESENT \<noteq> 0" "leaf_entry p user nx AND PRESENT \<noteq> 0"
proof -
  have p: "bit (entry_pointer t True True) 0" "bit (entry_page p True True user) 0"
    unfolding entry_bits by simp_all
  then show "(entry_pointer t True True OR x) AND PRESENT \<noteq> 0"
    unfolding present_bit bit_or_iff by blast
  have "bit (leaf_entry p user nx) 0"
    using p unfolding leaf_entry_def by (cases nx) (simp_all only: if_True if_False bit_or_iff simp_thms)
  then show "leaf_entry p user nx AND PRESENT \<noteq> 0"
    unfolding present_bit .
qed

lemma frame_phys_sticky:
  assumes "mach_ok st" "frame_phys st = (r, st')"
  shows "sticky st st'"
proof (rule frame_phys_cases [OF assms(1)])
  fix f fa
  assume a: "frame_phys st = (Inr (faddr f), st\<lparr>FRAMES := fa\<rparr>)" "mach_ok (st\<lparr>FRAMES := fa\<rparr>)"
    "set (free_list fa) = free st - {f}"
  then have "st' = st\<lparr>FRAMES := fa\<rparr>"
    using assms(2) by simp
  then show ?thesis
    using a(2,3) by (simp add: sticky_def)
qed (use assms sticky_refl in simp)

lemma next_level_sticky:
  assumes "mach_ok st" "next_level (window st) user t i st = (r, st')"
  shows "sticky st st'"
proof (cases "table_read st t (window st) i AND PRESENT = 0")
  case True
  show ?thesis
  proof (rule alloc_table_cases [OF assms(1) refl])
    fix f fa
    let ?m = "\<lambda>a. if a \<in> cell (faddr f) ` {..<512} then 0 else pmem st a"
    assume a: "alloc_table (window st) st = (Inr (faddr f), st\<lparr>FRAMES := fa, pmem := ?m\<rparr>)" "f \<in> free st"
      "mach_ok (st\<lparr>FRAMES := fa\<rparr>)" "set (free_list fa) = free st - {f}"
    then have "sticky st (st\<lparr>FRAMES := fa, pmem := ?m\<rparr>)"
      by (auto simp: sticky_def mach_ok_def)
    then show ?thesis
      using assms(2) True a(1) sticky_write [OF _ entry_present(1)]
      by (auto simp: next_level_def)
  next
    assume "alloc_table (window st) st = (Inl OutOfFrames, st)" "free st = {}"
    then show ?thesis
      using assms True by (auto simp: next_level_def sticky_refl)
  qed
next
  case False
  then show ?thesis
    using assms by (auto simp: next_level_def Let_def sticky_refl)
qed

lemma map_walk_sticky:
  assumes "mach_ok st" "map_walk (window st) user leaf is t st = (r, st')" "leaf AND PRESENT \<noteq> 0"
  shows "sticky st st'"
  using assms(1,2)
proof (induction "is" arbitrary: t st)
  case (Cons i js)
  show ?case
  proof (cases js)
    case Nil
    then show ?thesis
      using Cons.prems assms(3) sticky_write [OF sticky_refl] by auto
  next
    case (Cons j ks)
    obtain q st1 where 1: "next_level (window st) user t i st = (q, st1)"
      by (cases "next_level (window st) user t i st")
    note k = next_level_sticky [OF Cons.prems(1) 1]
    then have "mach_ok st1" "window st1 = window st"
      by (auto simp: sticky_def)
    then show ?thesis
      using Cons.prems(2) Cons.IH [of st1] sticky_trans [OF k] k unfolding Cons
      by (cases q) (auto simp: 1)
  qed
qed (simp add: sticky_refl)

lemma map_page_sticky:
  assumes "mach_ok st" "map_page_impl (window st) virt phys user nx st = (r, st')"
  shows "sticky st st'"
proof -
  obtain q st1 where 1: "map_walk (window st) user (leaf_entry phys user nx) (idxs virt) (root st) st = (q, st1)"
    by (cases "map_walk (window st) user (leaf_entry phys user nx) (idxs virt) (root st) st")
  have "sticky st st1"
    using map_walk_sticky [OF assms(1) 1 entry_present(2)] .
  then have "sticky st (st1\<lparr>invalidated := x\<rparr>)" for x
    by (simp add: sticky_def mach_ok_def)
  with \<open>sticky st st1\<close> assms(2) show ?thesis
    by (auto simp: map_page_impl_walk 1 split: sum.splits)
qed

lemma map_range_from_sticky:
  assumes "mach_ok st" "map_range_from (window st) base n i st = (r, st')"
  shows "sticky st st'"
  using assms
proof (induction n arbitrary: i st)
  case (Suc n)
  obtain q s1 where 1: "frame_phys st = (q, s1)"
    by (cases "frame_phys st")
  note k1 = frame_phys_sticky [OF Suc.prems(1) 1]
  show ?case
  proof (cases q)
    case (Inr p)
    obtain q2 s2 where 2: "map_page_impl (window st) (base + word_of_nat i * 4096) p False False s1 = (q2, s2)"
      by (cases "map_page_impl (window st) (base + word_of_nat i * 4096) p False False s1")
    have s1: "mach_ok s1" "window s1 = window st"
      using k1 by (auto simp: sticky_def)
    have k: "sticky st s2"
      using sticky_trans [OF k1] map_page_sticky [OF s1(1), unfolded s1(2), OF 2] by blast
    then have "mach_ok s2" "window s2 = window st"
      by (auto simp: sticky_def)
    then show ?thesis
      using Suc.prems(2) Suc.IH [of s2 "Suc i"] sticky_trans [OF k] k
      by (cases q2) (auto simp: 1 2 Inr map_page_def)
  qed (use Suc.prems(2) 1 k1 in auto)
qed (simp add: sticky_refl)

lemma root_cell_not_free:
  assumes "tables_ok st 4 (root st)" "i < 512" "f \<in> free st"
  shows "cell (root st) i \<notin> cell (faddr f) ` {..<512}"
proof
  assume "cell (root st) i \<in> cell (faddr f) ` {..<512}"
  then obtain j where j: "j < 512" "cell (root st) i = cell (faddr f) j"
    by auto
  have "f < 2 ^ 40"
    using assms(1,3) by (auto simp: tables_ok_def mach_ok_def)
  then have "root st = faddr f"
    using j cell_inj [of "root st" "faddr f" i j] assms(2) table_addr_faddr by simp
  moreover have "root st \<in> tabs (pmem st) 4 (root st)"
    using tabs_self [of "root st" "pmem st" 3] by simp
  ultimately show False
    using assms(1,3) by (auto simp: tables_ok_def)
qed

text \<open>So a top-level entry in use is never chosen again.\<close>

lemma sticky_root:
  assumes "tables_ok st 4 (root st)" "sticky st st'" "i < 512"
    and "table_read st (root st) (window st) i AND PRESENT \<noteq> 0"
  shows "table_read st' (root st') (window st') i AND PRESENT \<noteq> 0"
proof -
  have "\<forall>f\<in>free st. cell (root st) i \<notin> cell (faddr f) ` {..<512}"
    using root_cell_not_free [OF assms(1,3)] by blast
  then have "pmem st' (cell (root st) i) AND PRESENT \<noteq> 0"
    using assms(2,4) unfolding sticky_def table_access by blast
  moreover have "root st' = root st"
    using assms(2) by (simp add: sticky_def)
  ultimately show ?thesis
    unfolding table_access by simp
qed

lemma first_absent_before:
  "first_absent st t offset [a..<b] = Some i \<Longrightarrow> a \<le> j \<Longrightarrow> j < i \<Longrightarrow> table_read st t offset j AND PRESENT \<noteq> 0"
proof (induction "b - a" arbitrary: a)
  case (Suc n)
  then have up: "[a..<b] = a # [Suc a..<b]"
    by (intro upt_conv_Cons) simp
  show ?case
  proof (cases "table_read st t offset a AND PRESENT = 0")
    case True
    with Suc.prems show ?thesis
      by (simp add: up)
  next
    case False
    show ?thesis
    proof (cases "j = a")
      case other: False
      have "n = b - Suc a"
        using Suc.hyps(2) by simp
      moreover have "first_absent st t offset [Suc a..<b] = Some i"
        using Suc.prems(1) False by (simp add: up)
      ultimately show ?thesis
        using Suc.hyps(1) Suc.prems(2,3) other by simp
    qed (use False in simp)
  qed
qed simp

lemma region_above:
  assumes "tables_ok st 4 (root st)" "find_free_top_index (window st) st = Some i" "sticky st st'"
    and "translate st' (window st) (top_region i) AND PRESENT \<noteq> 0"
    and "find_free_top_index (window st) st' = Some j"
  shows "i < j"
proof (rule ccontr)
  assume le: "\<not> i < j"
  have w: "window st' = window st" "cr3 st' = cr3 st"
    using assms(3) by (auto simp: sticky_def)
  have j: "j < 512" "table_read st' (root st') (window st) j AND PRESENT = 0"
    using first_absent_Some [OF assms(5) [unfolded find_free_top_index_def]] by (auto simp: current_cr3_def)
  show False
  proof (cases "j = i")
    case True
    have "translate st' (window st') (top_region j + word_of_nat 0 * 4096) = 0"
      using region_unmapped [of "window st'" st' j 0] assms(5) w by simp
    with assms(4) True w show False
      by simp
  next
    case False
    then have "table_read st (root st) (window st) j AND PRESENT \<noteq> 0"
      using first_absent_before [OF assms(2) [unfolded find_free_top_index_def current_cr3_def], of j] le by simp
    with sticky_root [OF assms(1,3) j(1)] j(2) w show False
      by simp
  qed
qed


text \<open>Mapping inside a region leaves the other entries of the top table as they are.\<close>

lemma next_level_cells:
  assumes "mach_ok st" "next_level (window st) user t i st = (r, st')"
    and "c \<noteq> cell t i" "\<forall>f\<in>free st. c \<notin> cell (faddr f) ` {..<512}"
  shows "pmem st' c = pmem st c"
proof (cases "table_read st t (window st) i AND PRESENT = 0")
  case True
  show ?thesis
  proof (rule alloc_table_cases [OF assms(1) refl])
    fix f fa
    let ?s = "st\<lparr>FRAMES := fa, pmem := \<lambda>a. if a \<in> cell (faddr f) ` {..<512} then 0 else pmem st a\<rparr>"
    assume a: "alloc_table (window st) st = (Inr (faddr f), ?s)" "f \<in> free st"
    have "st' = table_write t (window ?s) i (entry_pointer (faddr f) True True OR (if user then USER else 0)) ?s"
      using assms(2) True a(1) by (auto simp: next_level_def)
    then show ?thesis
      unfolding table_access using assms(3,4) a(2) by simp
  qed (use assms(2) True in \<open>auto simp: next_level_def\<close>)
qed (use assms(2) in \<open>auto simp: next_level_def Let_def\<close>)

lemma tables_ok_child:
  "tables_ok st (Suc n) t \<Longrightarrow> child (pmem st) (Suc n) t i = Some u \<Longrightarrow> i < 512 \<Longrightarrow> tables_ok st n u"
  using tabs_child [of "pmem st" n t i u] child_table_addr [of "pmem st" "Suc n" t i u]
  by (auto simp: tables_ok_def tree.simps(2))

lemma map_page_root_entries:
  assumes ok: "tables_ok st 4 (root st)" and clear: "translate st (window st) virt AND PRESENT = 0"
    and run: "map_page_impl (window st) virt phys user nx st = (r, st')"
    and j: "j < 512" "j \<noteq> index4 virt"
  shows "pmem st' (cell (root st) j) = pmem st (cell (root st) j)"
proof -
  let ?l = "leaf_entry phys user nx" and ?js = "[index3 virt, index2 virt, index1 virt]" and ?i = "index4 virt"
  have n: "(4 :: nat) = Suc 3"
    by simp
  obtain q st1 where 1: "next_level (window st) user (root st) ?i st = (q, st1)"
    by (cases "next_level (window st) user (root st) ?i st")
  have mo: "mach_ok st"
    using ok by (simp add: tables_ok_def)
  have "cell (root st) j \<noteq> cell (root st) ?i"
    using cell_inj [of "root st" "root st" j ?i] j by simp
  then have same1: "pmem st1 (cell (root st) j) = pmem st (cell (root st) j)"
    using next_level_cells [OF mo 1] root_cell_not_free [OF ok j(1)] by blast
  have walk: "walk (pmem st) (Suc 3) (root st) (?i # ?js) AND PRESENT = 0"
    using clear by (simp add: translate_walk idxs_def)
  note lvl = next_level_grown [OF ok [unfolded n] _ _ walk 1]
  show ?thesis
  proof (cases q)
    case (Inl e)
    then show ?thesis
      using run same1 by (simp add: map_page_impl_walk idxs_def 1)
  next
    case (Inr u)
    have ok1: "tables_ok st1 (Suc 3) (root st)"
      using grown_tables_ok [OF ok [unfolded n] lvl(1)] by simp
    have u: "child (pmem st1) (Suc 3) (root st) ?i = Some u" and win: "window st1 = window st"
      using lvl(1,3) Inr by (simp_all add: grown_def)
    have "tables_ok st1 3 u"
      using tables_ok_child [OF ok1 u] by simp
    moreover have "walk (pmem st1) 3 u ?js AND PRESENT = 0"
      using walk lvl(2) walk_child [OF u, of ?js] by (simp del: walk.simps)
    moreover obtain r2 st2 where 2: "map_walk (window st1) user ?l ?js u st1 = (r2, st2)"
      by (cases "map_walk (window st1) user ?l ?js u st1")
    ultimately have "grown st1 st2 3 u"
      using map_walk_grown [of st1 3 u ?js user ?l r2 st2] by simp
    then have "agree (pmem st1) (pmem st2) (root st)"
      using grown_child(1) [OF ok1 u] by simp
    moreover have "pmem st' = pmem st2"
      using run 2 Inr by (auto simp: map_page_impl_walk idxs_def 1 win split: sum.splits)
    ultimately show ?thesis
      using same1 j(1) by (simp add: agree_def)
  qed
qed

lemma map_range_from_Suc:
  "map_range_from offset base (Suc n) i st =
     (case map_range_from offset base 1 i st of (Inl e, st) \<Rightarrow> (Inl e, st)
      | (Inr _, st) \<Rightarrow> map_range_from offset base n (Suc i) st)"
  by (simp split: prod.splits sum.splits)

lemma map_range_root_entries:
  assumes "tables_ok st 4 (root st)" "idx < 512" "i + n \<le> 2 ^ 27"
    and "\<forall>k<n. translate st (window st) (top_region idx + word_of_nat (i + k) * 4096) AND PRESENT = 0"
    and "map_range_from (window st) (top_region idx) n i st = (r, st')"
    and "j < 512" "j \<noteq> idx"
  shows "pmem st' (cell (root st) j) = pmem st (cell (root st) j)"
  using assms(1,3-5)
proof (induction n arbitrary: i st)
  case (Suc n)
  let ?b = "top_region idx"
  have mo: "mach_ok st"
    using Suc.prems(1) by (simp add: tables_ok_def)
  have clear: "translate st (window st) (?b + word_of_nat (i + 0) * 4096) AND PRESENT = 0"
    using Suc.prems(3) by blast
  obtain q s2 where one: "map_range_from (window st) ?b 1 i st = (q, s2)"
    by (cases "map_range_from (window st) ?b 1 i st")
  obtain fs where fs: "range_mapped ?b i fs 1 st s2"
    using map_range_from_ok [OF Suc.prems(1) _ _ one] clear by auto
  have same: "pmem s2 (cell (root st) j) = pmem st (cell (root st) j)"
  proof (rule frame_phys_cases [OF mo])
    fix f fa
    let ?s1 = "st\<lparr>FRAMES := fa\<rparr>"
    assume a: "frame_phys st = (Inr (faddr f), ?s1)" "mach_ok ?s1" "set (free_list fa) = free st - {f}"
    obtain q3 s3 where m: "map_page_impl (window ?s1) (?b + word_of_nat i * 4096) (faddr f) False False ?s1 = (q3, s3)"
      by (cases "map_page_impl (window ?s1) (?b + word_of_nat i * 4096) (faddr f) False False ?s1")
    have "tables_ok ?s1 4 (root ?s1)"
      using tables_ok_take [OF Suc.prems(1) a(2)] a(3) by auto
    moreover have "translate ?s1 (window ?s1) (?b + word_of_nat i * 4096) AND PRESENT = 0"
      using clear translate_walk [of ?s1] translate_walk [of st] by simp
    moreover have "j \<noteq> index4 (?b + word_of_nat i * 4096)"
      using top_region_page(2) [OF assms(2), of i] Suc.prems(2) assms(7) by simp
    ultimately have "pmem s3 (cell (root st) j) = pmem st (cell (root st) j)"
      using map_page_root_entries [OF _ _ m assms(6)] by simp
    moreover have "s2 = s3"
      using one a(1) m by (auto simp: map_page_def split: sum.splits)
    ultimately show ?thesis
      by simp
  qed (use one in simp)
  show ?case
  proof (cases q)
    case (Inl e)
    then show ?thesis
      using Suc.prems(4) one same by (simp only: map_range_from_Suc) simp
  next
    case (Inr u)
    have s2: "window s2 = window st" "cr3 s2 = cr3 st" "tables_ok s2 4 (root s2)"
      using fs by (simp_all add: range_mapped_def)
    have "translate s2 (window s2) (?b + word_of_nat (Suc i + k) * 4096) AND PRESENT = 0" if "k < n" for k
    proof -
      have "page_of (?b + word_of_nat i * 4096) \<noteq> page_of (?b + word_of_nat (Suc i + k) * 4096)"
        using Suc.prems(2) that by (intro page_of_range_inj) simp_all
      then have "translate s2 (window st) (?b + word_of_nat (Suc i + k) * 4096)
          = translate st (window st) (?b + word_of_nat (i + Suc k) * 4096)"
        using fs unfolding range_mapped_def by (metis add_Suc_shift add.right_neutral less_one)
      moreover have "translate st (window st) (?b + word_of_nat (i + Suc k) * 4096) AND PRESENT = 0"
        using Suc.prems(3) that by blast
      ultimately show ?thesis
        by (simp only: s2(1))
    qed
    moreover have "map_range_from (window s2) ?b n (Suc i) s2 = (r, st')"
      using Suc.prems(4) one Inr s2(1) by (simp only: map_range_from_Suc) simp
    ultimately have "pmem st' (cell (root s2) j) = pmem s2 (cell (root s2) j)"
      using Suc.IH [of s2 "Suc i"] s2(3) Suc.prems(2) by simp
    then show ?thesis
      using same s2(2) by simp
  qed
qed simp

section \<open>Claiming a region\<close>

definition absent_tops :: "machine \<Rightarrow> nat set" where
  "absent_tops st = {i. i < 512 \<and> pmem st (cell (root st) i) AND PRESENT = 0}"

lemma finite_absent_tops [simp]: "finite (absent_tops st)"
  by (simp add: absent_tops_def)

lemma first_absent_None:
  "first_absent st t offset is = None \<Longrightarrow> i \<in> set is \<Longrightarrow> table_read st t offset i AND PRESENT \<noteq> 0"
  by (induction "is") (auto split: if_splits)

lemma find_free_exists:
  assumes "absent_tops st \<noteq> {}"
  obtains idx where "find_free_top_index (window st) st = Some idx" "idx \<in> absent_tops st"
proof (cases "find_free_top_index (window st) st")
  case None
  obtain i where "i < 512" "pmem st (cell (root st) i) AND PRESENT = 0"
    using assms by (auto simp: absent_tops_def)
  then show ?thesis
    using first_absent_None [OF None [unfolded find_free_top_index_def], of i]
    by (simp add: current_cr3_def table_access)
next
  case (Some idx)
  then show ?thesis
    using that first_absent_Some [OF Some [unfolded find_free_top_index_def]]
    by (simp add: absent_tops_def current_cr3_def table_access)
qed

lemma absent_tops_card:
  assumes "\<forall>j<512. j \<noteq> idx \<longrightarrow> pmem st' (cell (root st) j) = pmem st (cell (root st) j)" "cr3 st' = cr3 st"
  shows "card (absent_tops st) \<le> card (absent_tops st') + 1"
proof -
  have "absent_tops st \<subseteq> insert idx (absent_tops st')"
    using assms by (auto simp: absent_tops_def)
  then have "card (absent_tops st) \<le> card (insert idx (absent_tops st'))"
    by (intro card_mono) simp_all
  also have "\<dots> \<le> card (absent_tops st') + 1"
    by (simp add: card_insert_if)
  finally show ?thesis .
qed

text \<open>
  With a free top-level entry and four frames per page, claiming a region succeeds, and
  costs one top-level entry.
\<close>

lemma claim_region:
  assumes ok: "tables_ok st 4 (root st)" and tops: "absent_tops st \<noteq> {}"
    and card: "4 * unat cnt \<le> card (free st)" and cnt: "unat cnt < 2 ^ 27"
  obtains idx st' where "find_free_top_index (window st) st = Some idx" "idx < 512"
    "map_range (window st) (top_region idx) cnt st = (Inr (), st')"
    "region_ready (top_region idx) (unat cnt) st st'" "sticky st st'" "took (4 * unat cnt) st st'"
    "card (absent_tops st) \<le> card (absent_tops st') + 1"
proof (rule find_free_exists [OF tops])
  fix idx
  let ?b = "top_region idx"
  assume idx: "find_free_top_index (window st) st = Some idx" "idx \<in> absent_tops st"
  have mo: "mach_ok st"
    using ok by (simp add: tables_ok_def)
  obtain st' where run: "map_range_from (window st) ?b (unat cnt) 0 st = (Inr (), st')"
      and took: "took (4 * unat cnt) st st'"
    using map_range_from_took [OF mo card] by blast
  have i: "idx < 512"
    using idx(2) by (simp add: absent_tops_def)
  have k: "sticky st st'"
    using map_range_from_sticky [OF mo run] .
  have clear: "\<forall>k<unat cnt. translate st (window st) (?b + word_of_nat (0 + k) * 4096) AND PRESENT = 0"
    using region_unmapped [OF idx(1)] cnt by simp
  have "\<forall>j<512. j \<noteq> idx \<longrightarrow> pmem st' (cell (root st) j) = pmem st (cell (root st) j)"
    using map_range_root_entries [OF ok i _ clear run] cnt by simp
  then have "card (absent_tops st) \<le> card (absent_tops st') + 1"
    using k by (intro absent_tops_card) (simp_all add: sticky_def)
  moreover have m: "map_range (window st) ?b cnt st = (Inr (), st')"
    using run by (simp add: map_range_def)
  ultimately show thesis
    using that [OF idx(1) i m _ k took] region_ready_map [OF ok idx(1) cnt m] by blast
qed

text \<open>What was mapped before a region was claimed stays mapped.\<close>

lemma region_ready_keeps:
  assumes "region_ready base n st st'"
    and "\<forall>k<n. translate st (window st) (base + word_of_nat k * 4096) = 0"
    and "translate st (window st) v AND PRESENT \<noteq> 0"
  shows "translate st' (window st) v = translate st (window st) v"
proof -
  have "page_of v \<noteq> page_of (base + word_of_nat k * 4096)" if k: "k < n" for k
  proof
    assume "page_of v = page_of (base + word_of_nat k * 4096)"
    then have "translate st (window st) v = translate st (window st) (base + word_of_nat k * 4096)"
      by (simp add: translate_walk flip: idxs_eq_iff)
    with assms(2,3) k show False
      by simp
  qed
  then show ?thesis
    using assms(1) by (simp add: region_ready_def)
qed

end
