(* ===== verification/Gdt.thy ===== *)
theory Gdt
  imports Regions Serial
begin

text \<open>
  Model of \<open>src/kernel/src/gdt.rs\<close>: the segment and TSS descriptors, the task state segment with
  the field offsets \<open>repr(C)\<close> gives it, and \<open>setup\<close>, which maps three pages, writes the table and
  the TSS into them and loads the registers.  The bytes of the mapped pages are the field
  \<open>vbytes\<close>, kernel memory by virtual address; the page tables are in the machine of the theory
  Paging.  The theorems say what the CPU finds in the seven slots, and where it finds the two
  stack pointers of the TSS.
\<close>

section \<open>Descriptors\<close>

record SegmentDescriptor =
  sd_limit_low :: u16
  sd_base_low :: u16
  sd_base_mid :: u8
  sd_access :: u8
  sd_granularity :: u8
  sd_base_high :: u8

definition flat_descriptor :: "u8 \<Rightarrow> u8 \<Rightarrow> SegmentDescriptor" where
  "flat_descriptor a g = \<lparr>sd_limit_low = 0, sd_base_low = 0, sd_base_mid = 0, sd_access = a,
     sd_granularity = g, sd_base_high = 0\<rparr>"

definition new_code64 :: SegmentDescriptor where
  "new_code64 = flat_descriptor 0x9A 0xA0"

definition new_data64 :: SegmentDescriptor where
  "new_data64 = flat_descriptor 0x92 0x00"

definition null_descriptor :: SegmentDescriptor where
  "null_descriptor = flat_descriptor 0 0"

definition new_user_code :: SegmentDescriptor where
  "new_user_code = flat_descriptor 0xFA 0xA0"

definition new_user_data :: SegmentDescriptor where
  "new_user_data = flat_descriptor 0xF2 0x00"

definition segment_bytes :: "SegmentDescriptor \<Rightarrow> bytes" where
  "segment_bytes d = to_le16 (sd_limit_low d) @ to_le16 (sd_base_low d)
     @ [sd_base_mid d, sd_access d, sd_granularity d, sd_base_high d]"

definition KERNEL_CODE :: u16 where
  "KERNEL_CODE = 0x08"

definition KERNEL_DATA :: u16 where
  "KERNEL_DATA = 0x10"

definition KERNEL_TSS :: u16 where
  "KERNEL_TSS = 0x18"

definition USER_CODE :: u16 where
  "USER_CODE = 0x28"

definition USER_DATA :: u16 where
  "USER_DATA = 0x30"

definition GDT_ENTRIES :: nat where
  "GDT_ENTRIES = 3"

definition GDT_TSS_ENTRIES :: nat where
  "GDT_TSS_ENTRIES = 7"

definition build_gdt :: "SegmentDescriptor list" where
  "build_gdt = [null_descriptor, new_code64, new_data64]"

section \<open>The task state segment\<close>

text \<open>
  \<open>repr(C)\<close> places each field at the next multiple of its alignment and rounds the size up to
  the largest alignment.  The fields of \<open>TaskStateSegment\<close> are given by size and alignment.
\<close>

definition round_to :: "nat \<Rightarrow> nat \<Rightarrow> nat" where
  "round_to a n = (n + a - 1) div a * a"

fun field_offsets :: "nat \<Rightarrow> (nat \<times> nat) list \<Rightarrow> nat list" where
  "field_offsets n [] = [n]"
| "field_offsets n ((sz, al) # fs) = round_to al n # field_offsets (round_to al n + sz) fs"

definition TSS_FIELDS :: "(nat \<times> nat) list" where
  "TSS_FIELDS = [(4, 4), (8, 8), (8, 8), (8, 8), (8, 8), (7 * 8, 8), (8, 8), (2, 2), (2, 2)]"

definition tss_offset :: "nat \<Rightarrow> nat" where
  "tss_offset k = field_offsets 0 TSS_FIELDS ! k"

definition tss_size :: nat where
  "tss_size = round_to 8 (last (field_offsets 0 TSS_FIELDS))"

record TaskStateSegment =
  rsp0 :: u64
  rsp1 :: u64
  rsp2 :: u64
  tss_ist :: "u64 list"
  io_map_base :: u16

definition tss_new :: TaskStateSegment where
  "tss_new = \<lparr>rsp0 = 0, rsp1 = 0, rsp2 = 0, tss_ist = replicate 7 0, io_map_base = 0\<rparr>"

definition tss_set_rsp0 :: "u64 \<Rightarrow> TaskStateSegment \<Rightarrow> TaskStateSegment" where
  "tss_set_rsp0 addr t = t\<lparr>rsp0 := addr\<rparr>"

definition set_ist0 :: "u64 \<Rightarrow> TaskStateSegment \<Rightarrow> TaskStateSegment" where
  "set_ist0 addr t = t\<lparr>tss_ist := (tss_ist t)[0 := addr]\<rparr>"

record TssDescriptor =
  td_limit_low :: u16
  td_base_low :: u16
  td_base_mid :: u8
  td_access :: u8
  td_flags :: u8
  td_base_hi :: u8
  td_base_upper :: u32
  td_reserved :: u32

definition available :: "u64 \<Rightarrow> TssDescriptor" where
  "available tss_base =
     \<lparr>td_limit_low = word_of_nat (tss_size - 1), td_base_low = ucast tss_base,
      td_base_mid = ucast (drop_bit 16 tss_base), td_access = 0x89, td_flags = 0x00,
      td_base_hi = ucast (drop_bit 24 tss_base), td_base_upper = ucast (drop_bit 32 tss_base),
      td_reserved = 0\<rparr>"

definition tss_descriptor_bytes :: "TssDescriptor \<Rightarrow> bytes" where
  "tss_descriptor_bytes d = to_le16 (td_limit_low d) @ to_le16 (td_base_low d)
     @ [td_base_mid d, td_access d, td_flags d, td_base_hi d]
     @ to_le32 (td_base_upper d) @ to_le32 (td_reserved d)"

record Gdtr =
  gdtr_limit :: u16
  gdtr_base :: u64

definition gdtr_of :: "u64 \<Rightarrow> SegmentDescriptor list \<Rightarrow> Gdtr" where
  "gdtr_of addr table = \<lparr>gdtr_limit = word_of_nat (length (concat (map segment_bytes table)) - 1), gdtr_base = addr\<rparr>"

text \<open>The 10-byte image \<open>lgdt\<close> reads.\<close>

definition gdtr_image :: "u16 \<Rightarrow> u64 \<Rightarrow> bytes" where
  "gdtr_image limit base = [ucast limit, ucast (drop_bit 8 limit)] @ to_le64 base"

section \<open>Installation\<close>

record gdt_state =
  mach :: machine
  vbytes :: "u64 \<Rightarrow> u8"
  TSS_VBASE :: u64
  gdtr_reg :: bytes
  data_segments :: u16
  task_register :: u16
  console :: "serial_call list"

definition copy_bytes :: "u64 \<Rightarrow> bytes \<Rightarrow> (u64 \<Rightarrow> u8) \<Rightarrow> u64 \<Rightarrow> u8" where
  "copy_bytes a bs m = (\<lambda>x. if unat (x - a) < length bs then bs ! unat (x - a) else m x)"

definition gdt_load :: "u64 \<Rightarrow> gdt_state \<Rightarrow> gdt_state" where
  "gdt_load gtab s =
     (let table = concat (map segment_bytes build_gdt);
          limit = word_of_nat (length table - 1)
      in s\<lparr>vbytes := copy_bytes gtab table (vbytes s), gdtr_reg := gdtr_image limit gtab,
           data_segments := KERNEL_DATA\<rparr>)"

definition set_rsp0 :: "u64 \<Rightarrow> gdt_state \<Rightarrow> gdt_state" where
  "set_rsp0 r s = s\<lparr>vbytes := copy_bytes (TSS_VBASE s + 0x1000 + 8) (to_le64 r) (vbytes s)\<rparr>"

definition gdt_setup :: "gdt_state \<Rightarrow> gdt_state outcome" where
  "gdt_setup s =
     (let offset = phys_offset (mach s) in
      case find_free_top_index offset (mach s) of None \<Rightarrow> Panics | Some idx \<Rightarrow>
      let base = top_region idx;
          s = s\<lparr>TSS_VBASE := base\<rparr> in
      case map_range offset base 3 (mach s) of (Inl _, _) \<Rightarrow> Panics | (Inr _, m) \<Rightarrow>
      let tss_v = base + 0x1000;
          ist_top = base + 0x3000;
          vb = copy_bytes tss_v (replicate 4096 0) (vbytes s);
          vb = copy_bytes (tss_v + word_of_nat (tss_offset 5)) (to_le64 ist_top) vb;
          vb = copy_bytes base (concat (map segment_bytes build_gdt)) vb;
          vb = copy_bytes (base + 3 * 8) (tss_descriptor_bytes (available (base + 0x1000))) vb;
          vb = copy_bytes (base + 5 * 8) (segment_bytes new_user_code) vb;
          vb = copy_bytes (base + 6 * 8) (segment_bytes new_user_data) vb;
          limit = word_of_nat (GDT_TSS_ENTRIES * 8 - 1)
      in Returns (s\<lparr>mach := m, vbytes := vb, gdtr_reg := gdtr_image limit base,
           data_segments := KERNEL_DATA, task_register := KERNEL_TSS,
           console := console s @ [WriteStr ''LIONOS_GDT_OK ist0='', WriteHex ist_top,
             WriteStr [CHR 0x0D, CHR 0x0A]]\<rparr>))"

section \<open>Reading back what was copied\<close>

definition read_bytes :: "(u64 \<Rightarrow> u8) \<Rightarrow> u64 \<Rightarrow> nat \<Rightarrow> bytes" where
  "read_bytes m a n = map (\<lambda>k. m (a + word_of_nat k)) [0..<n]"

lemma read_bytes_append:
  "read_bytes m a (n + k) = read_bytes m a n @ read_bytes m (a + word_of_nat n) k"
proof -
  have "[0..<n + k] = [0..<n] @ map (\<lambda>j. n + j) [0..<k]"
    using upt_add_eq_append [of 0 n k] map_add_upt [of n k] by (simp add: add.commute)
  then show ?thesis
    by (simp add: read_bytes_def o_def add.assoc)
qed

lemma copy_bytes_at:
  assumes "p < 2 ^ 32" "j < 2 ^ 32" "length bs < 2 ^ 32"
  shows "copy_bytes (base + word_of_nat j) bs m (base + word_of_nat p)
    = (if j \<le> p \<and> p < j + length bs then bs ! (p - j) else m (base + word_of_nat p))"
proof -
  have d: "(base + word_of_nat p) - (base + word_of_nat j) = (word_of_nat p - word_of_nat j :: u64)"
    by simp
  have u: "unat (word_of_nat p :: u64) = p" "unat (word_of_nat j :: u64) = j"
    using assms(1,2) by (simp_all add: unat_of_nat_small)
  have "unat (word_of_nat p - word_of_nat j :: u64) = (if j \<le> p then p - j else p + 2 ^ 64 - j)"
    using unat_sub_if' [of "word_of_nat p :: u64" "word_of_nat j"] by (simp add: u)
  then show ?thesis
    unfolding copy_bytes_def d using assms by auto
qed

lemma read_copied:
  assumes "j + length bs < 2 ^ 32"
  shows "read_bytes (copy_bytes (base + word_of_nat j) bs m) (base + word_of_nat j) (length bs) = bs"
proof (rule nth_equalityI)
  fix k
  assume "k < length (read_bytes (copy_bytes (base + word_of_nat j) bs m) (base + word_of_nat j) (length bs))"
  then show "read_bytes (copy_bytes (base + word_of_nat j) bs m) (base + word_of_nat j) (length bs) ! k = bs ! k"
    using assms copy_bytes_at [of "j + k" j bs base m] by (simp add: read_bytes_def add.assoc)
qed (simp add: read_bytes_def)

lemma read_other:
  assumes "i + n \<le> j \<or> j + length bs \<le> i" "i + n < 2 ^ 32" "j + length bs < 2 ^ 32"
  shows "read_bytes (copy_bytes (base + word_of_nat j) bs m) (base + word_of_nat i) n
    = read_bytes m (base + word_of_nat i) n"
  unfolding read_bytes_def
proof (rule map_cong [OF refl])
  fix k
  assume "k \<in> set [0..<n]"
  then show "copy_bytes (base + word_of_nat j) bs m (base + word_of_nat i + word_of_nat k)
      = m (base + word_of_nat i + word_of_nat k)"
    using assms copy_bytes_at [of "i + k" j bs base m] by (auto simp: add.assoc)
qed

lemma read_slice:
  assumes "read_bytes m a N = xs" "i + n \<le> N"
  shows "read_bytes m (a + word_of_nat i) n = take n (drop i xs)"
  using assms by (auto simp: read_bytes_def add.assoc intro!: nth_equalityI)

section \<open>Descriptors in memory\<close>

lemma length_segment_bytes [simp]: "length (segment_bytes d) = 8"
  by (simp add: segment_bytes_def)

lemma length_tss_descriptor_bytes [simp]: "length (tss_descriptor_bytes d) = 16"
  by (simp add: tss_descriptor_bytes_def)

definition td_base :: "TssDescriptor \<Rightarrow> u64" where
  "td_base d = ucast (td_base_low d) OR push_bit 16 (ucast (td_base_mid d))
     OR push_bit 24 (ucast (td_base_hi d)) OR push_bit 32 (ucast (td_base_upper d))"

lemma td_base_available: "td_base (available a) = a"
proof (rule bit_word_eqI)
  fix n :: nat
  assume "n < LENGTH(64)"
  consider "n < 16" | "16 \<le> n" "n < 24" | "24 \<le> n" "n < 32" | "32 \<le> n"
    by linarith
  then show "bit (td_base (available a)) n = bit a n"
    using \<open>n < LENGTH(64)\<close>
    by cases (auto simp: td_base_def available_def bit_simps dest: bit_imp_le_length)
qed

lemma tss_layout:
  "tss_offset 1 = 8" "tss_offset 5 = 40" "tss_size = 112"
  by (simp_all add: tss_offset_def tss_size_def TSS_FIELDS_def round_to_def)

section \<open>The mapped pages after installation\<close>

definition gdt_slots :: "u64 \<Rightarrow> bytes" where
  "gdt_slots base = concat (map segment_bytes build_gdt)
     @ tss_descriptor_bytes (available (base + 0x1000))
     @ segment_bytes new_user_code @ segment_bytes new_user_data"

definition setup_bytes :: "u64 \<Rightarrow> (u64 \<Rightarrow> u8) \<Rightarrow> u64 \<Rightarrow> u8" where
  "setup_bytes base vb =
     copy_bytes (base + 6 * 8) (segment_bytes new_user_data)
      (copy_bytes (base + 5 * 8) (segment_bytes new_user_code)
       (copy_bytes (base + 3 * 8) (tss_descriptor_bytes (available (base + 0x1000)))
        (copy_bytes base (concat (map segment_bytes build_gdt))
         (copy_bytes (base + 0x1000 + word_of_nat (tss_offset 5)) (to_le64 (base + 0x3000))
          (copy_bytes (base + 0x1000) (replicate 4096 0) vb)))))"

lemma gdt_setup_result:
  assumes "gdt_setup s = Returns s'"
  obtains idx m where "find_free_top_index (phys_offset (mach s)) (mach s) = Some idx"
    "map_range (phys_offset (mach s)) (top_region idx) 3 (mach s) = (Inr (), m)"
    "s' = s\<lparr>TSS_VBASE := top_region idx, mach := m, vbytes := setup_bytes (top_region idx) (vbytes s),
       gdtr_reg := gdtr_image 55 (top_region idx), data_segments := KERNEL_DATA,
       task_register := KERNEL_TSS, console := console s @ [WriteStr ''LIONOS_GDT_OK ist0='',
         WriteHex (top_region idx + 0x3000), WriteStr [CHR 0x0D, CHR 0x0A]]\<rparr>"
  using assms unfolding gdt_setup_def Let_def GDT_TSS_ENTRIES_def setup_bytes_def [symmetric]
  by (auto split: option.splits prod.splits sum.splits)

lemma length_build_gdt [simp]: "length (concat (map segment_bytes build_gdt)) = 24"
  by (simp add: build_gdt_def)

lemma setup_slots: "read_bytes (setup_bytes base vb) base 56 = gdt_slots base"
proof -
  let ?m = "setup_bytes base vb"
  have "read_bytes ?m (base + word_of_nat 0) 24 = concat (map segment_bytes build_gdt)"
    unfolding setup_bytes_def
    using read_other [of 0 24 48 "segment_bytes new_user_data" base]
      read_other [of 0 24 40 "segment_bytes new_user_code" base]
      read_other [of 0 24 24 "tss_descriptor_bytes (available (base + 0x1000))" base]
      read_copied [of 0 "concat (map segment_bytes build_gdt)" base]
    by simp
  moreover have "read_bytes ?m (base + word_of_nat 24) 16 = tss_descriptor_bytes (available (base + 0x1000))"
    unfolding setup_bytes_def
    using read_other [of 24 16 48 "segment_bytes new_user_data" base]
      read_other [of 24 16 40 "segment_bytes new_user_code" base]
      read_copied [of 24 "tss_descriptor_bytes (available (base + 0x1000))" base]
    by simp
  moreover have "read_bytes ?m (base + word_of_nat 40) 8 = segment_bytes new_user_code"
    unfolding setup_bytes_def
    using read_other [of 40 8 48 "segment_bytes new_user_data" base]
      read_copied [of 40 "segment_bytes new_user_code" base]
    by simp
  moreover have "read_bytes ?m (base + word_of_nat 48) 8 = segment_bytes new_user_data"
    unfolding setup_bytes_def using read_copied [of 48 "segment_bytes new_user_data" base] by simp
  moreover have "read_bytes ?m base 56 = read_bytes ?m (base + word_of_nat 0) 24
      @ read_bytes ?m (base + word_of_nat 24) 16 @ read_bytes ?m (base + word_of_nat 40) 8
      @ read_bytes ?m (base + word_of_nat 48) 8"
    using read_bytes_append [of ?m base 24 32] read_bytes_append [of ?m "base + 24" 16 16]
      read_bytes_append [of ?m "base + 40" 8 8] by (simp add: add.assoc)
  ultimately show ?thesis
    by (simp add: gdt_slots_def)
qed

lemma setup_tss_byte:
  assumes "p < 4096"
  shows "setup_bytes base vb (base + word_of_nat (4096 + p))
    = (if 40 \<le> p \<and> p < 48 then to_le64 (base + 0x3000) ! (p - 40) else 0)"
proof -
  note at = copy_bytes_at [of "4096 + p" _ _ base]
  have "setup_bytes base vb (base + word_of_nat (4096 + p))
      = copy_bytes (base + word_of_nat 4136) (to_le64 (base + 0x3000))
          (copy_bytes (base + word_of_nat 4096) (replicate 4096 0) vb) (base + word_of_nat (4096 + p))"
    unfolding setup_bytes_def tss_layout
    using assms at [of 48 "segment_bytes new_user_data"] at [of 40 "segment_bytes new_user_code"]
      at [of 24 "tss_descriptor_bytes (available (base + 0x1000))"]
      at [of 0 "concat (map segment_bytes build_gdt)"]
    by (simp add: add.assoc)
  also have "\<dots> = (if 40 \<le> p \<and> p < 48 then to_le64 (base + 0x3000) ! (p - 40) else 0)"
    using assms at [of 4136 "to_le64 (base + 0x3000)"] at [of 4096 "replicate 4096 0" vb]
    by (auto simp: )
  finally show ?thesis .
qed

text \<open>
  A 64-bit field read four bytes before the place where a value was stored, with zeros in
  between, is the value shifted up by 32 bits.
\<close>

lemma le64_misaligned: "le64 (replicate 4 0 @ take 4 (to_le64 v)) 0 = push_bit 32 v"
proof -
  have "le_nat (replicate 4 0 @ take 4 (to_le64 v)) = 2 ^ 32 * (unat v mod 2 ^ 32)"
    by (simp add: le_nat_append to_le64_def take_le_digits le_nat_le_digits le_nat_zeros)
  then have "le64 (replicate 4 0 @ take 4 (to_le64 v)) 0 = word_of_nat (2 ^ 32 * (unat v mod 2 ^ 32))"
    by (simp add: le64_def le_bytes_def)
  also have "\<dots> = push_bit 32 v"
    by (rule unsigned_word_eqI [where ?'a = nat])
      (simp add: push_bit_eq_mult unat_word_ariths unsigned_of_nat take_bit_eq_mod mult_mod_right mult.commute
        del: of_nat_mult of_nat_power)
  finally show ?thesis .
qed

section \<open>Results\<close>

text \<open>The descriptor bytes a selector picks from the installed table.\<close>

definition slot :: "gdt_state \<Rightarrow> u16 \<Rightarrow> nat \<Rightarrow> bytes" where
  "slot s sel n = read_bytes (vbytes s) (TSS_VBASE s + ucast sel) n"

text \<open>
  A \<open>setup\<close> that returns has mapped three supervisor pages at the first free top-level
  region, without touching any other translation, and the selectors the kernel uses pick the
  descriptors it means them to: the two kernel and the two ring-3 segments, and a TSS
  descriptor whose scattered base is the address of the second page.  The loaded limit covers
  exactly the seven slots.
\<close>

lemma gdt_setup_installs:
  assumes "tables_ok (mach s) 4 (root (mach s))" "phys_offset (mach s) = window (mach s)"
    and "gdt_setup s = Returns s'"
  shows "region_ready (TSS_VBASE s') 3 (mach s) (mach s')
    \<and> slot s' KERNEL_CODE 8 = segment_bytes new_code64
    \<and> slot s' KERNEL_DATA 8 = segment_bytes new_data64
    \<and> slot s' USER_CODE 8 = segment_bytes new_user_code
    \<and> slot s' USER_DATA 8 = segment_bytes new_user_data
    \<and> (\<exists>d. slot s' KERNEL_TSS 16 = tss_descriptor_bytes d \<and> td_base d = TSS_VBASE s' + 0x1000
          \<and> td_access d = 0x89)
    \<and> gdtr_reg s' = to_le16 (word_of_nat (length (gdt_slots (TSS_VBASE s')) - 1)) @ to_le64 (TSS_VBASE s')
    \<and> data_segments s' = KERNEL_DATA \<and> task_register s' = KERNEL_TSS"
proof -
  obtain idx m where idx: "find_free_top_index (window (mach s)) (mach s) = Some idx"
      and m: "map_range (window (mach s)) (top_region idx) 3 (mach s) = (Inr (), m)"
      and s': "s' = s\<lparr>TSS_VBASE := top_region idx, mach := m, vbytes := setup_bytes (top_region idx) (vbytes s),
       gdtr_reg := gdtr_image 55 (top_region idx), data_segments := KERNEL_DATA,
       task_register := KERNEL_TSS, console := console s @ [WriteStr ''LIONOS_GDT_OK ist0='',
         WriteHex (top_region idx + 0x3000), WriteStr [CHR 0x0D, CHR 0x0A]]\<rparr>"
    using gdt_setup_result [OF assms(3)] assms(2) by metis
  let ?b = "top_region idx"
  have part: "read_bytes (setup_bytes ?b (vbytes s)) (?b + word_of_nat i) n = take n (drop i (gdt_slots ?b))"
    if "i + n \<le> 56" for i n
    using read_slice [OF setup_slots that] .
  have "length (gdt_slots ?b) = 56"
    by (simp add: gdt_slots_def)
  moreover have "gdtr_image 55 ?b = to_le16 55 @ to_le64 ?b"
    by (simp add: gdtr_image_def to_le16_def le_digits_numeral)
  moreover have "slot s' KERNEL_CODE 8 = segment_bytes new_code64" "slot s' KERNEL_DATA 8 = segment_bytes new_data64"
    "slot s' USER_CODE 8 = segment_bytes new_user_code" "slot s' USER_DATA 8 = segment_bytes new_user_data"
    "slot s' KERNEL_TSS 16 = tss_descriptor_bytes (available (?b + 0x1000))"
    using part [of 8 8] part [of 16 8] part [of 40 8] part [of 48 8] part [of 24 16]
    by (simp_all add: slot_def s' KERNEL_CODE_def KERNEL_DATA_def USER_CODE_def USER_DATA_def KERNEL_TSS_def
        gdt_slots_def build_gdt_def)
  moreover have "region_ready ?b 3 (mach s) m"
    using region_ready_map [OF assms(1) idx _ m] by simp
  moreover have "td_access (available (?b + 0x1000)) = 0x89"
    by (simp add: available_def)
  ultimately show ?thesis
    using td_base_available by (auto simp: s')
qed

text \<open>A machine whose recorded window offset is the real one, as after \<open>takeover\<close>.\<close>

definition sample_gdt :: gdt_state where
  "sample_gdt = \<lparr>mach = sample_machine\<lparr>PHYS_OFFSET := window sample_machine\<rparr>, vbytes = (\<lambda>_. 0xCC),
     TSS_VBASE = 0, gdtr_reg = [], data_segments = 0, task_register = 0, console = []\<rparr>"

lemma sample_gdt_ok:
  "tables_ok (mach sample_gdt) 4 (root (mach sample_gdt))"
  "phys_offset (mach sample_gdt) = window (mach sample_gdt)"
proof -
  have "tables_ok (sample_machine\<lparr>PHYS_OFFSET := window sample_machine\<rparr>) 4 (root sample_machine)"
    using sample_machine_ok by (simp add: tables_ok_def mach_ok_def)
  then show "tables_ok (mach sample_gdt) 4 (root (mach sample_gdt))"
    by (simp add: sample_gdt_def)
  show "phys_offset (mach sample_gdt) = window (mach sample_gdt)"
    by (simp add: sample_gdt_def phys_offset_def)
qed

lemma sample_region:
  "find_free_top_index (window sample_machine) (sample_machine\<lparr>PHYS_OFFSET := x\<rparr>) = Some 0"
  unfolding find_free_top_index_def
  by (subst upt_conv_Cons) (simp_all add: sample_machine_def table_read_def mem_read_def)

lemma sample_gdt_setup: "\<exists>s'. gdt_setup sample_gdt = Returns s' \<and> TSS_VBASE s' = 0"
proof -
  let ?m = "sample_machine\<lparr>PHYS_OFFSET := window sample_machine\<rparr>"
  have "mach_ok ?m"
    using sample_machine_ok by (simp add: tables_ok_def mach_ok_def)
  moreover have "free ?m = free sample_machine" "4 * unat (3 :: u64) = 12"
    by simp_all
  then have "4 * unat (3 :: u64) \<le> card (free ?m)"
    unfolding sample_free set_upt card_atLeastLessThan by simp
  ultimately obtain st' where "map_range (window ?m) 0 3 ?m = (Inr (), st')"
    using map_range_succeeds by blast
  moreover have "top_region 0 = 0"
    by (simp add: top_region_def)
  ultimately show ?thesis
    by (simp add: gdt_setup_def sample_gdt_def sample_region phys_offset_def Let_def)
qed

lemma gdt_setup_installs_witness:
  "\<exists>s'. gdt_setup sample_gdt = Returns s' \<and> region_ready 0 3 (mach sample_gdt) (mach s')
     \<and> slot s' USER_CODE 8 = [0, 0, 0, 0, 0, 0xFA, 0xA0, 0]"
proof -
  obtain s' where s': "gdt_setup sample_gdt = Returns s'" "TSS_VBASE s' = 0"
    using sample_gdt_setup by blast
  from gdt_setup_installs [OF sample_gdt_ok s'(1)] s' show ?thesis
    by (simp add: segment_bytes_def new_user_code_def flat_descriptor_def to_le16_def le_digits_numeral)
qed

definition cpu_rsp0 :: "gdt_state \<Rightarrow> u64" where
  "cpu_rsp0 s = le64 (read_bytes (vbytes s) (TSS_VBASE s + 0x1000 + 4) 8) 0"

definition cpu_ist1 :: "gdt_state \<Rightarrow> u64" where
  "cpu_ist1 s = le64 (read_bytes (vbytes s) (TSS_VBASE s + 0x1000 + 36) 8) 0"

lemma setup_ist1:
  assumes "idx < 512"
  shows "le64 (read_bytes (setup_bytes (top_region idx) vb) (top_region idx + 0x1000 + 36) 8) 0 = 0x300000000000"
proof -
  let ?b = "top_region idx"
  have "read_bytes (setup_bytes ?b vb) (?b + word_of_nat 4132) 8 = replicate 4 0 @ take 4 (to_le64 (?b + 0x3000))"
  proof (rule nth_equalityI)
    fix k
    assume "k < length (read_bytes (setup_bytes ?b vb) (?b + word_of_nat 4132) 8)"
    then have k: "k < 8"
      by (simp add: read_bytes_def)
    have "?b + word_of_nat 4132 + word_of_nat k = ?b + word_of_nat (4096 + (36 + k))"
      by simp
    then have "read_bytes (setup_bytes ?b vb) (?b + word_of_nat 4132) 8 ! k
        = (if 4 \<le> k then to_le64 (?b + 0x3000) ! (k - 4) else 0)"
      using setup_tss_byte [of "36 + k" ?b vb] k
      by (simp add: read_bytes_def add.assoc del: of_nat_add)
    then show "read_bytes (setup_bytes ?b vb) (?b + word_of_nat 4132) 8 ! k
        = (replicate 4 0 @ take 4 (to_le64 (?b + 0x3000))) ! k"
      using k by (simp add: nth_append)
  qed (simp add: read_bytes_def)
  then have "le64 (read_bytes (setup_bytes ?b vb) (?b + 0x1000 + 36) 8) 0 = push_bit 32 (?b + 0x3000)"
    using le64_misaligned by (simp add: add.assoc)
  also have "\<dots> = push_bit 32 ?b + 0x300000000000"
    by (simp add: push_bit_add)
  also have "push_bit 32 ?b = 0"
  proof (rule unsigned_word_eqI [where ?'a = nat])
    have "unat ?b * 2 ^ 32 mod 2 ^ 64 = (idx * 2 ^ 7 + (if idx \<ge> 256 then 0xFFFF0000 else 0)) * 2 ^ 32 * 2 ^ 32 mod 2 ^ 64"
      by (simp add: unat_top_region [OF assms])
    then show "unat (push_bit 32 ?b) = unat (0 :: u64)"
      by (simp add: push_bit_eq_mult unat_word_ariths mult.commute)
  qed
  finally show ?thesis
    by simp
qed

lemma read_frame:
  assumes "i + n \<le> 4104 \<or> 4112 \<le> i" "i + n < 2 ^ 32"
  shows "read_bytes (vbytes (set_rsp0 r s)) (TSS_VBASE s + word_of_nat i) n
    = read_bytes (vbytes s) (TSS_VBASE s + word_of_nat i) n"
  using read_other [of i n 4104 "to_le64 r" "TSS_VBASE s" "vbytes s"] assms
  by (simp add: set_rsp0_def add.assoc)

lemma setup_padding:
  "read_bytes (setup_bytes base vb) (base + word_of_nat 4100) 4 = replicate 4 0"
proof (rule nth_equalityI)
  fix k
  assume "k < length (read_bytes (setup_bytes base vb) (base + word_of_nat 4100) 4)"
  then have "k < 4"
    by (simp add: read_bytes_def)
  moreover have "base + word_of_nat 4100 + word_of_nat k = base + word_of_nat (4096 + (4 + k))"
    by simp
  ultimately show "read_bytes (setup_bytes base vb) (base + word_of_nat 4100) 4 ! k = replicate 4 0 ! k"
    using setup_tss_byte [of "4 + k" base vb] by (simp add: read_bytes_def add.assoc del: of_nat_add)
qed (simp add: read_bytes_def)

lemma set_rsp0_image:
  "read_bytes (vbytes (set_rsp0 r s)) (TSS_VBASE s + word_of_nat 4100) 8
   = read_bytes (vbytes s) (TSS_VBASE s + word_of_nat 4100) 4 @ take 4 (to_le64 r)"
proof -
  let ?m = "vbytes (set_rsp0 r s)" and ?b = "TSS_VBASE s"
  have "read_bytes ?m (?b + word_of_nat 4104) 8 = to_le64 r"
    using read_copied [of 4104 "to_le64 r" ?b "vbytes s"] by (simp add: set_rsp0_def add.assoc)
  then have "read_bytes ?m (?b + word_of_nat 4104) 4 = take 4 (to_le64 r)"
    using read_slice [of ?m "?b + word_of_nat 4104" 8 "to_le64 r" 0 4] by simp
  then show ?thesis
    using read_bytes_append [of ?m "?b + word_of_nat 4100" 4 4] read_frame [of 4100 4 r s]
    by (simp add: add.assoc)
qed

text \<open>
  C39: the CPU reads RSP0 at byte 4 and IST1 at byte 36 of the TSS, but \<open>TaskStateSegment\<close> is
  laid out by \<open>repr(C)\<close>, which puts four bytes of padding before \<open>rsp0\<close>: the structure has 112
  bytes, \<open>set_rsp0\<close> stores at byte 8 and \<open>setup\<close> stores the double-fault stack at byte 40.  The CPU
  then finds the requested RSP0 shifted left by 32 bits and, whatever region was chosen, the
  address \<open>0x300000000000\<close> as the double-fault stack.
\<close>

theorem tss_fields_misplaced:
  assumes "gdt_setup s = Returns s'"
  shows "cpu_ist1 s' = 0x300000000000 \<and> cpu_ist1 (set_rsp0 r s') = 0x300000000000
    \<and> cpu_rsp0 (set_rsp0 r s') = push_bit 32 r \<and> tss_size = 112"
proof -
  obtain idx where idx: "find_free_top_index (phys_offset (mach s)) (mach s) = Some idx"
      and s': "TSS_VBASE s' = top_region idx" "vbytes s' = setup_bytes (top_region idx) (vbytes s)"
    by (rule gdt_setup_result [OF assms]) auto
  have "idx < 512"
    using region_unmapped [OF idx, of 0] by simp
  then have ist: "cpu_ist1 s' = 0x300000000000"
    using setup_ist1 by (simp add: cpu_ist1_def s')
  moreover have "cpu_ist1 (set_rsp0 r s') = cpu_ist1 s'"
    using read_frame [of 4132 8 r s'] by (simp add: cpu_ist1_def set_rsp0_def add.assoc)
  moreover have "cpu_rsp0 (set_rsp0 r s') = push_bit 32 r"
    using set_rsp0_image [of r s'] setup_padding [of "top_region idx" "vbytes s"] le64_misaligned [of r]
    by (simp add: cpu_rsp0_def s' set_rsp0_def add.assoc)
  ultimately show ?thesis
    by (simp add: tss_layout)
qed

theorem tss_fields_misplaced_witness:
  "\<exists>s'. gdt_setup sample_gdt = Returns s' \<and> cpu_ist1 s' = 0x300000000000
     \<and> cpu_rsp0 (set_rsp0 0xFFFF800000042000 s') = 0x4200000000000"
proof -
  obtain s' where s': "gdt_setup sample_gdt = Returns s'"
    using sample_gdt_setup by blast
  from tss_fields_misplaced [OF s', of "0xFFFF800000042000"] s' show ?thesis
    by simp
qed

end
