(* ===== verification/Idt.thy ===== *)
theory Idt
  imports Gdt
begin

text \<open>
  Model of \<open>src/kernel/src/idt.rs\<close>: the 16-byte gates, the 256-entry table with the kernel's
  exception handlers, and the pseudo-descriptor \<open>lidt\<close> reads.  Handlers are their link
  addresses.  The theorem says that a gate returns the address it was built from and that the
  boot sequence leaves exactly the installed vectors present.
\<close>

record InterruptStackFrame =
  instruction_pointer :: u64
  code_segment :: u64
  cpu_flags :: u64
  stack_pointer :: u64
  stack_segment :: u64

record IdtEntry =
  base_low :: u16
  selector :: u16
  ist :: u8
  type_attr :: u8
  base_mid :: u16
  base_hi :: u32
  reserved :: u32

definition missing :: IdtEntry where
  "missing = \<lparr>base_low = 0, selector = 0, ist = 0, type_attr = 0, base_mid = 0, base_hi = 0, reserved = 0\<rparr>"

definition interrupt_gate :: "u64 \<Rightarrow> u16 \<Rightarrow> u8 \<Rightarrow> IdtEntry" where
  "interrupt_gate handler sel i =
     \<lparr>base_low = ucast (handler AND 0xFFFF), selector = sel, ist = i AND 0x07, type_attr = 0x8E,
      base_mid = ucast (drop_bit 16 handler AND 0xFFFF),
      base_hi = ucast (drop_bit 32 handler AND 0xFFFFFFFF), reserved = 0\<rparr>"

definition handler_address :: "IdtEntry \<Rightarrow> u64" where
  "handler_address e =
     ucast (base_low e) OR push_bit 16 (ucast (base_mid e)) OR push_bit 32 (ucast (base_hi e))"

text \<open>The bytes of a gate in memory: \<open>repr(C)\<close> adds no padding to these field widths.\<close>

definition gate_bytes :: "IdtEntry \<Rightarrow> bytes" where
  "gate_bytes e = to_le16 (base_low e) @ to_le16 (selector e) @ [ist e, type_attr e]
     @ to_le16 (base_mid e) @ to_le32 (base_hi e) @ to_le32 (reserved e)"

definition IDT_SIZE :: nat where
  "IDT_SIZE = 256"

type_synonym Idt = "IdtEntry list"

definition idt_new :: Idt where
  "idt_new = replicate IDT_SIZE missing"

definition idt_set :: "u8 \<Rightarrow> u64 \<Rightarrow> u8 \<Rightarrow> Idt \<Rightarrow> Idt" where
  "idt_set index handler i idt = idt[unat index := interrupt_gate handler KERNEL_CODE i]"

definition idt_get :: "Idt \<Rightarrow> u8 \<Rightarrow> IdtEntry" where
  "idt_get idt index = idt ! unat index"

record Idtr =
  idtr_limit :: u16
  idtr_base :: u64

definition idtr_of :: "u64 \<Rightarrow> Idt \<Rightarrow> Idtr" where
  "idtr_of addr idt = \<lparr>idtr_limit = word_of_nat (length (concat (map gate_bytes idt)) - 1), idtr_base = addr\<rparr>"

record fault_handlers =
  divide_error :: u64
  invalid_opcode :: u64
  double_fault :: u64
  general_protection_fault :: u64
  page_fault :: u64

text \<open>
  What the handlers report on the serial line before they halt: the vector with a code, the
  interrupted address, and for a page fault the register CR2.
\<close>

definition fault_report :: "u8 \<Rightarrow> u64 \<Rightarrow> serial_call list" where
  "fault_report vector extra = [WriteStr ([CHR 0x0D, CHR 0x0A] @ ''LIONOS_FAULT vector=''),
     WriteHex (ucast vector), WriteStr '' info='', WriteHex extra, WriteStr [CHR 0x0D, CHR 0x0A]]"

definition report_frame :: "InterruptStackFrame \<Rightarrow> serial_call list" where
  "report_frame frame = [WriteStr ''LIONOS_FAULT_RIP='', WriteHex (instruction_pointer frame),
     WriteStr [CHR 0x0D, CHR 0x0A]]"

definition cr2_report :: "u64 \<Rightarrow> serial_call list" where
  "cr2_report cr2 = [WriteStr ''LIONOS_CR2='', WriteHex cr2, WriteStr [CHR 0x0D, CHR 0x0A]]"

datatype fault = DivideError | InvalidOpcode | DoubleFault | GeneralProtection | PageFault

fun fault_calls :: "fault \<Rightarrow> InterruptStackFrame \<Rightarrow> u64 \<Rightarrow> u64 \<Rightarrow> serial_call list" where
  "fault_calls DivideError frame err cr2 = fault_report 0x00 0"
| "fault_calls InvalidOpcode frame err cr2 = fault_report 0x06 0"
| "fault_calls DoubleFault frame err cr2 = fault_report 0x08 0xDEAD @ report_frame frame"
| "fault_calls GeneralProtection frame err cr2 = fault_report 0x0D err @ report_frame frame"
| "fault_calls PageFault frame err cr2 = fault_report 0x0E err @ report_frame frame @ cr2_report cr2"

definition idt_init :: "fault_handlers \<Rightarrow> u64 \<Rightarrow> Idt \<Rightarrow> Idt \<times> Idtr" where
  "idt_init h addr idt =
     (let idt = idt_set 0x00 (divide_error h) 0 idt;
          idt = idt_set 0x06 (invalid_opcode h) 0 idt;
          idt = idt_set 0x08 (double_fault h) 1 idt;
          idt = idt_set 0x0D (general_protection_fault h) 0 idt;
          idt = idt_set 0x0E (page_fault h) 0 idt
      in (idt, idtr_of addr idt))"

definition install :: "u8 \<Rightarrow> u64 \<Rightarrow> u8 \<Rightarrow> Idt \<Rightarrow> Idt" where
  "install = idt_set"

text \<open>The gates \<open>interrupts::init\<close> installs after \<open>idt::init\<close>.\<close>

definition irq_gates :: "u64 \<Rightarrow> u64 \<Rightarrow> u64 \<Rightarrow> Idt \<Rightarrow> Idt" where
  "irq_gates timer keyboard mouse idt =
     install 0x2C mouse 0 (install 0x21 keyboard 0 (install 0x20 timer 0 idt))"

section \<open>Gates\<close>

lemma handler_address_gate: "handler_address (interrupt_gate handler sel i) = handler"
proof -
  have m: "(0xFFFF :: u64) = mask 16" "(0xFFFFFFFF :: u64) = mask 32"
    by (simp_all add: mask_eq_exp_minus_1)
  let ?g = "\<lparr>base_low = ucast (handler AND mask 16), selector = sel, ist = i AND 0x07, type_attr = 0x8E,
    base_mid = ucast (drop_bit 16 handler AND mask 16),
    base_hi = ucast (drop_bit 32 handler AND mask 32), reserved = 0\<rparr>"
  show ?thesis
    unfolding handler_address_def interrupt_gate_def m
  proof (rule bit_word_eqI)
    fix n :: nat
    show "n < LENGTH(64) \<Longrightarrow> bit (ucast (base_low ?g) OR push_bit 16 (ucast (base_mid ?g))
      OR push_bit 32 (ucast (base_hi ?g)) :: u64) n = bit handler n"
      by (cases "n < 32") (auto simp: bit_simps dest: bit_imp_le_length)
  qed
qed

lemma gate_fields [simp]:
  "selector (interrupt_gate a s i) = s" "type_attr (interrupt_gate a s i) = 0x8E"
  "ist (interrupt_gate a s i) = i AND 7"
  by (simp_all add: interrupt_gate_def)

lemma length_gate_bytes [simp]: "length (gate_bytes e) = 16"
  by (simp add: gate_bytes_def)

lemma length_gates [simp]: "length (concat (map gate_bytes idt)) = 16 * length idt"
  by (induction idt) auto

lemma length_idt_set [simp]: "length (idt_set v h i idt) = length idt"
  by (simp add: idt_set_def)

lemma idt_get_set:
  assumes "length idt = IDT_SIZE"
  shows "idt_get (idt_set v h i idt) w = (if w = v then interrupt_gate h KERNEL_CODE i else idt_get idt w)"
proof -
  have "unat w < 256" "unat v < 256"
    using unat_bound [of w] unat_bound [of v] by simp_all
  then show ?thesis
    using assms by (simp add: idt_get_def idt_set_def IDT_SIZE_def nth_list_update word_eq_iff_unsigned [where ?'a = nat])
qed

lemma idt_get_new: "idt_get idt_new v = missing"
  using unat_bound [of v] by (simp add: idt_get_def idt_new_def IDT_SIZE_def)

section \<open>Results\<close>

text \<open>The table after boot: each vector with its handler's address and its stack-table index.\<close>

definition boot_vectors :: "fault_handlers \<Rightarrow> u64 \<Rightarrow> u64 \<Rightarrow> u64 \<Rightarrow> u8 \<rightharpoonup> u64 \<times> u8" where
  "boot_vectors h timer keyboard mouse =
     [0x00 \<mapsto> (divide_error h, 0), 0x06 \<mapsto> (invalid_opcode h, 0), 0x08 \<mapsto> (double_fault h, 1),
      0x0D \<mapsto> (general_protection_fault h, 0), 0x0E \<mapsto> (page_fault h, 0),
      0x20 \<mapsto> (timer, 0), 0x21 \<mapsto> (keyboard, 0), 0x2C \<mapsto> (mouse, 0)]"

lemma boot_gate:
  assumes "idt_init h addr idt_new = (idt, r)"
  shows "idt_get (irq_gates timer keyboard mouse idt) v =
    (case boot_vectors h timer keyboard mouse v of
       None \<Rightarrow> missing | Some (a, i) \<Rightarrow> interrupt_gate a KERNEL_CODE i)"
proof -
  have "length idt_new = IDT_SIZE"
    by (simp add: idt_new_def)
  with assms show ?thesis
    by (auto simp: idt_init_def irq_gates_def install_def boot_vectors_def Let_def idt_get_set idt_get_new)
qed

text \<open>
  C31: after the boot sequence (\<open>idt::init\<close> on the empty table, then the three gates of
  \<open>interrupts::init\<close>) each of the eight vectors holds a present interrupt gate on the kernel
  code selector that decodes to its handler's 64-bit address, the double fault alone with
  stack-table index 1; every other vector is absent; and the loaded limit covers exactly the
  256 gates.
\<close>

theorem idt_after_boot:
  assumes "idt_init h addr idt_new = (idt, r)"
  shows "(case boot_vectors h timer keyboard mouse v of
      None \<Rightarrow> idt_get (irq_gates timer keyboard mouse idt) v = missing
    | Some (a, i) \<Rightarrow> (let e = idt_get (irq_gates timer keyboard mouse idt) v in
        handler_address e = a \<and> selector e = KERNEL_CODE \<and> type_attr e = 0x8E \<and> ist e = i))
    \<and> unat (idtr_limit r) + 1 = 16 * IDT_SIZE \<and> idtr_base r = addr"
proof -
  have "i AND 7 = i" if "boot_vectors h timer keyboard mouse v = Some (a, i)" for a i
    using that by (auto simp: boot_vectors_def split: if_splits)
  moreover have "unat (idtr_limit r) + 1 = 16 * IDT_SIZE" "idtr_base r = addr"
    using assms by (auto simp: idt_init_def idtr_of_def Let_def idt_new_def IDT_SIZE_def)
  ultimately show ?thesis
    using boot_gate [OF assms, of timer keyboard mouse v] handler_address_gate
    by (auto simp: Let_def split: option.splits)
qed

theorem idt_after_boot_witness:
  "let idt = fst (idt_init \<lparr>divide_error = 1, invalid_opcode = 2, double_fault = 0xFFFF800000001234,
                            general_protection_fault = 4, page_fault = 5\<rparr> 0x9000 idt_new)
   in handler_address (idt_get (irq_gates 6 7 8 idt) 8) = 0xFFFF800000001234
      \<and> ist (idt_get (irq_gates 6 7 8 idt) 8) = 1"
proof -
  let ?h = "\<lparr>divide_error = 1, invalid_opcode = 2, double_fault = 0xFFFF800000001234,
    general_protection_fault = 4, page_fault = 5\<rparr>"
  have "boot_vectors ?h 6 7 8 8 = Some (0xFFFF800000001234, 1)"
    by (simp add: boot_vectors_def)
  then show ?thesis
    using idt_after_boot [of ?h "0x9000" _ _ 6 7 8 8, OF surjective_pairing] by (simp add: Let_def)
qed

end
