(* ===== verification/Syscall.thy ===== *)
theory Syscall
  imports Gdt Ipc
begin

text \<open>
  Model of \<open>src/kernel/src/syscall.rs\<close>: the number table, the MSR values, the bounds-checked copy
  from user memory and the dispatcher.  The state keeps the statics of the module, the model
  specific registers, the AC flag that opens the SMAP window, and a log of every byte read from
  user memory with the AC flag at the time.  What the dispatcher prints is the list of its calls
  to the serial driver.  The theorems confine the user reads to the loaded program's range and
  refine the dispatcher to an abstract description of the ABI.
\<close>

section \<open>Numbers and registers\<close>

definition SYS_EXIT :: u64 where "SYS_EXIT = 0"
definition SYS_PUTC :: u64 where "SYS_PUTC = 1"
definition SYS_PUTS :: u64 where "SYS_PUTS = 2"
definition SYS_GETC :: u64 where "SYS_GETC = 3"
definition SYS_LEDGET :: u64 where "SYS_LEDGET = 4"
definition SYS_SLEEP :: u64 where "SYS_SLEEP = 5"
definition SYS_RECV :: u64 where "SYS_RECV = 6"
definition SYS_SEND :: u64 where "SYS_SEND = 7"

definition ERRNO_ENOSYS :: int where "ERRNO_ENOSYS = -38"
definition ERRNO_EINVAL :: int where "ERRNO_EINVAL = -22"
definition ERRNO_EACCES :: int where "ERRNO_EACCES = -13"
definition ERRNO_EFAULT :: int where "ERRNO_EFAULT = -14"

lemmas sys_numbers = SYS_EXIT_def SYS_PUTC_def SYS_PUTS_def SYS_GETC_def SYS_LEDGET_def
  SYS_SLEEP_def SYS_RECV_def SYS_SEND_def

definition lookup :: "u64 \<Rightarrow> string option" where
  "lookup n =
     (if n = SYS_EXIT then Some ''exit''
      else if n = SYS_PUTC then Some ''putc''
      else if n = SYS_PUTS then Some ''puts''
      else if n = SYS_GETC then Some ''getc''
      else if n = SYS_LEDGET then Some ''ledget''
      else if n = SYS_SLEEP then Some ''sleep''
      else if n = SYS_RECV then Some ''recv''
      else if n = SYS_SEND then Some ''send''
      else None)"

definition name_of :: "u64 \<Rightarrow> string" where
  "name_of n = (case lookup n of Some s \<Rightarrow> s | None \<Rightarrow> ''unknown'')"

definition MSR_STAR :: u32 where "MSR_STAR = 0xC0000081"
definition MSR_LSTAR :: u32 where "MSR_LSTAR = 0xC0000082"
definition MSR_SFMASK :: u32 where "MSR_SFMASK = 0xC0000084"

definition star_value :: u64 where
  "star_value = push_bit 48 (ucast USER_CODE) OR push_bit 32 (ucast KERNEL_CODE)"

definition sfmask_value :: u64 where
  "sfmask_value = push_bit 9 1"

definition cpu_has_syscall :: "(u32 \<Rightarrow> u32 \<Rightarrow> u32 list) \<Rightarrow> bool" where
  "cpu_has_syscall cpuid \<longleftrightarrow> cpuid 0x80000001 0 ! 3 AND push_bit 11 1 \<noteq> 0"

section \<open>The dispatcher\<close>

record sys_state =
  SYSCALLS :: u64
  MAILBOX :: Mailbox
  USER_VA_START :: u64
  USER_VA_END :: u64
  SMAP_ENABLED :: bool
  SYSCALL_KSTACK :: u64
  msrs :: "u32 \<Rightarrow> u64"
  ac_flag :: bool
  user_reads :: "(u64 \<times> bool) list"
  sys_out :: "serial_call list"

definition enable :: "u64 \<Rightarrow> sys_state \<Rightarrow> sys_state" where
  "enable lstar s =
     (let m = (msrs s)(MSR_STAR := star_value);
          m = m(MSR_LSTAR := lstar);
          m = m(MSR_SFMASK := sfmask_value);
          efer = m 0xC0000080
      in s\<lparr>msrs := m(0xC0000080 := efer OR 1)\<rparr>)"

definition seed_mailbox :: "bytes \<Rightarrow> sys_state \<Rightarrow> sys_state" where
  "seed_mailbox line s = s\<lparr>MAILBOX := snd (send line (MAILBOX s))\<rparr>"

definition set_user_range :: "u64 \<Rightarrow> u64 \<Rightarrow> sys_state \<Rightarrow> sys_state" where
  "set_user_range st en s = s\<lparr>USER_VA_START := st, USER_VA_END := en\<rparr>"

definition set_smap :: "bool \<Rightarrow> sys_state \<Rightarrow> sys_state" where
  "set_smap enabled s = s\<lparr>SMAP_ENABLED := enabled\<rparr>"

text \<open>
  The copy of \<open>n\<close> bytes reads user memory \<open>um\<close> byte by byte; \<open>dst\<close> is the caller's slice of
  that length.
\<close>

definition copy_user :: "(u64 \<Rightarrow> u8) \<Rightarrow> u64 \<Rightarrow> nat \<Rightarrow> sys_state \<Rightarrow> bytes \<times> sys_state" where
  "copy_user um src n s =
     (let as = map (\<lambda>k. src + word_of_nat k) [0..<n]
      in (map um as, s\<lparr>user_reads := user_reads s @ map (\<lambda>a. (a, ac_flag s)) as\<rparr>))"

definition user_copy_in :: "(u64 \<Rightarrow> u8) \<Rightarrow> bytes \<Rightarrow> u64 \<Rightarrow> nat \<Rightarrow> sys_state \<Rightarrow> bool \<times> bytes \<times> sys_state" where
  "user_copy_in um dst src n st =
     (let s = USER_VA_START st; e = USER_VA_END st in
      if s = 0 \<or> src < s then (False, dst, st)
      else let want_end = saturating_add src (word_of_nat n) in
      if want_end > e then (False, dst, st)
      else let smap = SMAP_ENABLED st;
               st = (if smap then st\<lparr>ac_flag := True\<rparr> else st);
               (bs, st) = copy_user um src n st;
               st = (if smap then st\<lparr>ac_flag := False\<rparr> else st)
           in (True, bs, st))"

definition say :: "serial_call list \<Rightarrow> sys_state \<Rightarrow> sys_state" where
  "say cs s = s\<lparr>sys_out := sys_out s @ cs\<rparr>"

definition CRLF :: string where
  "CRLF = [CHR 0x0D, CHR 0x0A]"

definition fold_head :: "bytes \<Rightarrow> u64" where
  "fold_head tmp = foldl (\<lambda>acc b. push_bit 8 acc OR ucast b) 0 tmp"

definition syscall_dispatch ::
  "(u64 \<Rightarrow> u8) \<Rightarrow> u64 \<Rightarrow> u64 \<Rightarrow> u64 \<Rightarrow> u64 \<Rightarrow> u64 \<Rightarrow> u64 \<Rightarrow> sys_state \<Rightarrow> int \<times> sys_state" where
  "syscall_dispatch um num a0 a1 a2 a3 user_rsp st =
     (let st = st\<lparr>SYSCALLS := SYSCALLS st + 1\<rparr> in
      if num = SYS_PUTS then
        (let n = unat (min a1 64);
             (ok, buf, st) = user_copy_in um (replicate n 0) a0 n st
         in (0, say ([WriteStr ''LIONOS_SYS_PUTS ok='', WriteDec (if ok then 1 else 0), WriteStr '' str=\"'']
                     @ map WriteByte buf @ [WriteStr (''\"'' @ CRLF)]) st))
      else if num = SYS_GETC then
        (0, say [WriteStr ''LIONOS_USER_CS='', WriteHex a0, WriteStr '' rstk='', WriteHex user_rsp,
                 WriteStr CRLF] st)
      else if num = SYS_RECV then
        (case drain (MAILBOX st) (replicate 8 0) of (n, tmp, mb) \<Rightarrow>
           (0, say [WriteStr ''LIONOS_SHELL_READ n='', WriteDec (word_of_nat n), WriteStr '' head='',
                    WriteHex (fold_head tmp), WriteStr CRLF] (st\<lparr>MAILBOX := mb\<rparr>)))
      else if num = SYS_SEND then
        (case send (map of_char ''ok!'') (MAILBOX st) of (n, mb) \<Rightarrow>
           (0, say [WriteStr ''LIONOS_SHELL_WROTE n='', WriteDec (word_of_nat n), WriteStr CRLF]
                 (st\<lparr>MAILBOX := mb\<rparr>)))
      else if num = SYS_PUTC \<or> num = SYS_SLEEP \<or> num = SYS_LEDGET then (0, st)
      else if num = SYS_EXIT then
        (0, say [WriteStr ''LIONOS_USER_CALLS='', WriteDec (SYSCALLS st), WriteStr CRLF] st)
      else (ERRNO_ENOSYS, st))"

section \<open>The copy stays inside the program's range\<close>

definition new_reads :: "sys_state \<Rightarrow> sys_state \<Rightarrow> (u64 \<times> bool) list" where
  "new_reads s s' = drop (length (user_reads s)) (user_reads s')"

lemma unat_all_ones: "unat (- 1 :: u64) = 2 ^ 64 - 1"
  by (simp add: unsigned_minus_1_eq_mask mask_eq_exp_minus_1)

lemma user_copy_in_reads:
  assumes "user_copy_in um dst src n s = (ok, buf, s')" "n \<le> 64" "USER_VA_END s \<noteq> - 1" "\<not> ac_flag s"
  shows "user_reads s' = user_reads s @ new_reads s s'
    \<and> (\<forall>(a, ac)\<in>set (new_reads s s'). USER_VA_START s \<le> a \<and> a < USER_VA_END s \<and> ac = SMAP_ENABLED s)
    \<and> \<not> ac_flag s' \<and> (ok \<longrightarrow> new_reads s s' \<noteq> [] \<or> n = 0)
    \<and> (ok \<longrightarrow> buf = map (\<lambda>k. um (src + word_of_nat k)) [0..<n]) \<and> (\<not> ok \<longrightarrow> buf = dst \<and> s' = s)"
proof (cases "USER_VA_START s = 0 \<or> src < USER_VA_START s \<or> saturating_add src (word_of_nat n) > USER_VA_END s")
  case True
  then have "ok = False" "buf = dst" "s' = s"
    using assms(1) by (auto simp: user_copy_in_def Let_def split: if_splits)
  then show ?thesis
    using assms(4) by (simp add: new_reads_def)
next
  case False
  have n: "unat (word_of_nat n :: u64) = n"
    using assms(2) by (simp add: unat_of_nat_small)
  have "unat (USER_VA_END s) \<noteq> 2 ^ 64 - 1"
    using assms(3) unat_all_ones by (metis unsigned_word_eqI)
  then have fits: "unat src + n \<le> unat (USER_VA_END s)"
    using False unat_bound [of "USER_VA_END s"] unat_bound [of src]
    by (auto simp: word_less_nat_alt not_less unat_saturating_add n)
  have in_range: "USER_VA_START s \<le> src + word_of_nat k \<and> src + word_of_nat k < USER_VA_END s" if "k < n" for k
  proof -
    have "unat (src + word_of_nat k) = unat src + k"
      using that fits unat_bound [of "USER_VA_END s"] assms(2) by (simp add: unat_add_small unat_of_nat_small)
    then show ?thesis
      using that fits False by (auto simp: word_less_nat_alt word_le_nat_alt)
  qed
  define rs where "rs = map (\<lambda>k. (src + word_of_nat k, SMAP_ENABLED s)) [0..<n]"
  have "ok" "buf = map (\<lambda>k. um (src + word_of_nat k)) [0..<n]" "user_reads s' = user_reads s @ rs" "\<not> ac_flag s'"
    using assms(1,4) False by (auto simp: user_copy_in_def copy_user_def Let_def rs_def split: if_splits)
  moreover have "new_reads s s' = rs"
    using calculation(3) by (simp add: new_reads_def)
  moreover have "\<forall>(a, ac)\<in>set rs. USER_VA_START s \<le> a \<and> a < USER_VA_END s \<and> ac = SMAP_ENABLED s"
    using in_range by (auto simp: rs_def)
  ultimately show ?thesis
    by (auto simp: rs_def)
qed

lemma user_copy_in_ok:
  assumes "user_copy_in um dst src n s = (ok, buf, s')" "n \<le> 64" "USER_VA_END s \<noteq> - 1"
  shows "ok \<longleftrightarrow> USER_VA_START s \<noteq> 0 \<and> USER_VA_START s \<le> src \<and> unat src + n \<le> unat (USER_VA_END s)"
proof -
  have n: "unat (word_of_nat n :: u64) = n"
    using assms(2) by (simp add: unat_of_nat_small)
  have "unat (USER_VA_END s) \<noteq> 2 ^ 64 - 1"
    using assms(3) unat_all_ones by (metis unsigned_word_eqI)
  then have "saturating_add src (word_of_nat n) > USER_VA_END s \<longleftrightarrow> unat (USER_VA_END s) < unat src + n"
    using unat_bound [of "USER_VA_END s"] by (auto simp: word_less_nat_alt unat_saturating_add n)
  then show ?thesis
    using assms(1) by (auto simp: user_copy_in_def copy_user_def Let_def not_less split: if_splits)
qed

lemma user_copy_in_frame:
  assumes "user_copy_in um dst src n s = (ok, buf, s')"
  shows "MAILBOX s' = MAILBOX s" "SYSCALLS s' = SYSCALLS s" "USER_VA_START s' = USER_VA_START s"
    "USER_VA_END s' = USER_VA_END s" "SMAP_ENABLED s' = SMAP_ENABLED s" "sys_out s' = sys_out s"
  using assms by (auto simp: user_copy_in_def copy_user_def Let_def split: if_splits)

section \<open>The ABI as ring 3 sees it\<close>

text \<open>
  The abstract state is the pending message, the number of calls, and the program's range as
  two natural numbers; there is no SMAP window, no read log and no fixed-size buffer.
\<close>

record abi =
  pending :: bytes
  calls :: u64
  lo :: nat
  hi :: nat

definition sys_abs :: "sys_state \<Rightarrow> abi" where
  "sys_abs s = \<lparr>pending = held (MAILBOX s), calls = SYSCALLS s,
     lo = unat (USER_VA_START s), hi = unat (USER_VA_END s)\<rparr>"

definition abi_buffer :: "(u64 \<Rightarrow> u8) \<Rightarrow> u64 \<Rightarrow> nat \<Rightarrow> abi \<Rightarrow> bool \<times> bytes" where
  "abi_buffer um a0 n a =
     (if lo a \<noteq> 0 \<and> lo a \<le> unat a0 \<and> unat a0 + n \<le> hi a
      then (True, map (\<lambda>k. um (a0 + word_of_nat k)) [0..<n]) else (False, replicate n 0))"

definition abi_step :: "(u64 \<Rightarrow> u8) \<Rightarrow> u64 \<Rightarrow> u64 \<Rightarrow> u64 \<Rightarrow> u64 \<Rightarrow> abi \<Rightarrow> int \<times> serial_call list \<times> abi" where
  "abi_step um num a0 a1 rsp a0' =
     (let a = a0'\<lparr>calls := calls a0' + 1\<rparr> in
      case lookup num of
        None \<Rightarrow> (-38, [], a)
      | Some f \<Rightarrow>
          (0,
           if f = ''puts'' then
             (case abi_buffer um a0 (min (unat a1) 64) a of (ok, bs) \<Rightarrow>
                [WriteStr ''LIONOS_SYS_PUTS ok='', WriteDec (if ok then 1 else 0), WriteStr '' str=\"'']
                @ map WriteByte bs @ [WriteStr (''\"'' @ CRLF)])
           else if f = ''getc'' then
             [WriteStr ''LIONOS_USER_CS='', WriteHex a0, WriteStr '' rstk='', WriteHex rsp, WriteStr CRLF]
           else if f = ''recv'' then
             [WriteStr ''LIONOS_SHELL_READ n='', WriteDec (word_of_nat (min (length (pending a)) 8)),
              WriteStr '' head='', WriteHex (fold_head (take 8 (pending a @ replicate 8 0))), WriteStr CRLF]
           else if f = ''send'' then [WriteStr ''LIONOS_SHELL_WROTE n='', WriteDec 3, WriteStr CRLF]
           else if f = ''exit'' then [WriteStr ''LIONOS_USER_CALLS='', WriteDec (calls a), WriteStr CRLF]
           else [],
           if f = ''recv'' then a\<lparr>pending := []\<rparr>
           else if f = ''send'' then a\<lparr>pending := map of_char ''ok!''\<rparr> else a))"

definition sys_ok :: "sys_state \<Rightarrow> bool" where
  "sys_ok s \<longleftrightarrow> mailbox_wf (MAILBOX s) \<and> USER_VA_END s \<noteq> - 1 \<and> \<not> ac_flag s"

lemma lookup_cases:
  obtains "num = SYS_EXIT" "lookup num = Some ''exit''" | "num = SYS_PUTC" "lookup num = Some ''putc''"
  | "num = SYS_PUTS" "lookup num = Some ''puts''" | "num = SYS_GETC" "lookup num = Some ''getc''"
  | "num = SYS_LEDGET" "lookup num = Some ''ledget''" | "num = SYS_SLEEP" "lookup num = Some ''sleep''"
  | "num = SYS_RECV" "lookup num = Some ''recv''" | "num = SYS_SEND" "lookup num = Some ''send''"
  | "num \<notin> {SYS_EXIT, SYS_PUTC, SYS_PUTS, SYS_GETC, SYS_LEDGET, SYS_SLEEP, SYS_RECV, SYS_SEND}" "lookup num = None"
  by (auto simp: lookup_def sys_numbers split: if_splits)

lemma drain_held:
  assumes "mailbox_wf mb"
  shows "drain mb (replicate 8 0) = (min (length (held mb)) 8, take 8 (held mb @ replicate 8 0), mb\<lparr>mb_len := 0\<rparr>)"
  using peek_held [OF assms, of "replicate 8 0"] by (simp add: drain_def min_def)

lemma min_64: "unat (min a1 64 :: u64) = min (unat a1) 64"
  by (auto simp: min_def word_le_nat_alt)

lemma puts_abs:
  assumes "sys_ok s" "user_copy_in um (replicate n 0) a0 n s = (ok, buf, s')" "n \<le> 64"
  shows "abi_buffer um a0 n (sys_abs s) = (ok, buf)" "sys_ok s'"
proof -
  have c: "USER_VA_END s \<noteq> - 1" "\<not> ac_flag s"
    using assms(1) by (simp_all add: sys_ok_def)
  note r = user_copy_in_reads [OF assms(2,3) c] and ok = user_copy_in_ok [OF assms(2,3) c(1)]
  have "lo (sys_abs s) \<noteq> 0 \<longleftrightarrow> USER_VA_START s \<noteq> 0"
    by (simp add: sys_abs_def unat_eq_0)
  then show "abi_buffer um a0 n (sys_abs s) = (ok, buf)"
    using r ok by (auto simp: abi_buffer_def sys_abs_def word_le_nat_alt)
  show "sys_ok s'"
    using assms(1) r user_copy_in_frame [OF assms(2)] by (auto simp: sys_ok_def)
qed

lemma dispatch_puts:
  assumes "sys_ok s" "syscall_dispatch um SYS_PUTS a0 a1 a2 a3 rsp s = (r, s')"
  shows "\<exists>out. abi_step um SYS_PUTS a0 a1 rsp (sys_abs s) = (r, out, sys_abs s')
    \<and> sys_out s' = sys_out s @ out \<and> sys_ok s'"
proof -
  let ?s = "s\<lparr>SYSCALLS := SYSCALLS s + 1\<rparr>" and ?n = "min (unat a1) 64"
  obtain ok buf t where c: "user_copy_in um (replicate ?n 0) a0 ?n ?s = (ok, buf, t)"
    by (cases "user_copy_in um (replicate ?n 0) a0 ?n ?s")
  have "sys_ok ?s"
    using assms(1) by (simp add: sys_ok_def)
  note p = puts_abs [OF this c] and f = user_copy_in_frame [OF c]
  have "sys_abs ?s = (sys_abs s)\<lparr>calls := calls (sys_abs s) + 1\<rparr>"
    by (simp add: sys_abs_def)
  then show ?thesis
    using assms(2) p f c
    by (auto simp: syscall_dispatch_def abi_step_def lookup_def sys_numbers min_64 say_def sys_abs_def sys_ok_def Let_def)
qed

lemma dispatch_other:
  assumes "sys_ok s" "num \<noteq> SYS_PUTS" "syscall_dispatch um num a0 a1 a2 a3 rsp s = (r, s')"
  shows "\<exists>out. abi_step um num a0 a1 rsp (sys_abs s) = (r, out, sys_abs s')
    \<and> sys_out s' = sys_out s @ out \<and> sys_ok s' \<and> user_reads s' = user_reads s"
proof -
  have wf: "mailbox_wf (MAILBOX s)"
    using assms(1) by (simp add: sys_ok_def)
  note d = drain_held [OF wf] and m = send_held [OF wf, of "map of_char ''ok!''"]
  have e: "mailbox_wf (MAILBOX s\<lparr>mb_len := 0\<rparr>)" "held (MAILBOX s\<lparr>mb_len := 0\<rparr>) = []"
    using wf by (simp_all add: mailbox_wf_def held_def)
  obtain n mb where sd: "send (map of_char ''ok!'') (MAILBOX s) = (n, mb)"
    by (cases "send (map of_char ''ok!'') (MAILBOX s)")
  with m have s: "mailbox_wf mb" "held mb = map of_char ''ok!''" "n = 3"
    by (simp_all add: MAILBOX_CAP_def)
  show ?thesis
    using assms
    by (cases num rule: lookup_cases)
      (auto simp: syscall_dispatch_def abi_step_def sys_numbers sd [simplified] s d e say_def sys_abs_def sys_ok_def
        ERRNO_ENOSYS_def Let_def)
qed

section \<open>Results\<close>

lemma dispatch_abi:
  assumes "sys_ok s" "syscall_dispatch um num a0 a1 a2 a3 rsp s = (r, s')"
  shows "\<exists>out. abi_step um num a0 a1 rsp (sys_abs s) = (r, out, sys_abs s') \<and> sys_out s' = sys_out s @ out \<and> sys_ok s'"
  using assms dispatch_puts dispatch_other by metis


definition sample_sys :: sys_state where
  "sample_sys = \<lparr>SYSCALLS = 0, MAILBOX = snd (send (map of_char ''LiOS'') mailbox_new),
     USER_VA_START = 0x8000000000, USER_VA_END = 0x8000003000, SMAP_ENABLED = True,
     SYSCALL_KSTACK = 0, msrs = (\<lambda>_. 0), ac_flag = False, user_reads = [], sys_out = []\<rparr>"

lemma sample_sys_ok: "sys_ok sample_sys"
  using send_held(1) [OF mailbox_new_wf(1)] by (simp add: sys_ok_def sample_sys_def)


text \<open>
  C13: the dispatcher reads user memory only inside the range of the loaded program, only
  with the SMAP window open when SMAP is enabled, and leaves the window closed.
\<close>

theorem syscall_reads_confined:
  assumes "sys_ok s" "syscall_dispatch um num a0 a1 a2 a3 rsp s = (r, s')"
  shows "\<exists>rs. user_reads s' = user_reads s @ rs \<and> \<not> ac_flag s'
    \<and> (\<forall>(a, ac)\<in>set rs. USER_VA_START s \<le> a \<and> a < USER_VA_END s \<and> ac = SMAP_ENABLED s)"
proof (cases "num = SYS_PUTS")
  case True
  let ?s = "s\<lparr>SYSCALLS := SYSCALLS s + 1\<rparr>" and ?n = "min (unat a1) 64"
  obtain ok buf t where c: "user_copy_in um (replicate ?n 0) a0 ?n ?s = (ok, buf, t)"
    by (cases "user_copy_in um (replicate ?n 0) a0 ?n ?s")
  have "user_reads s' = user_reads t" "ac_flag s' = ac_flag t"
    using assms(2) True c by (auto simp: syscall_dispatch_def sys_numbers min_64 say_def Let_def)
  moreover note user_copy_in_reads [OF c]
  ultimately show ?thesis
    using assms(1) by (intro exI [of _ "new_reads ?s t"]) (auto simp: sys_ok_def)
next
  case False
  then have "user_reads s' = user_reads s" "sys_ok s'"
    using dispatch_other [OF assms(1) _ assms(2)] by blast+
  then show ?thesis
    by (simp add: sys_ok_def)
qed

theorem syscall_reads_confined_witness:
  "\<exists>rs. user_reads (snd (syscall_dispatch (\<lambda>_. 65) SYS_PUTS 0x8000001000 5 0 0 0 sample_sys)) = rs
     \<and> (\<forall>(a, ac)\<in>set rs. 0x8000000000 \<le> a \<and> a < 0x8000003000 \<and> ac)"
  using syscall_reads_confined [OF sample_sys_ok surjective_pairing, of "\<lambda>_. 65" SYS_PUTS "0x8000001000" 5 0 0 0]
  by (simp add: sample_sys_def)

end
