(* ===== verification/Text.thy ===== *)
theory Text
  imports Lion_Prelude
begin

text \<open>
  Strings as the kernel's \<open>alloc::string::String\<close> holds them: UTF-8 byte sequences.  The theory
  has the conversions of Rust's library that the sources call: \<open>String::from_utf16_lossy\<close>,
  \<open>String::from_utf8_lossy\<close>, \<open>eq_ignore_ascii_case\<close>, \<open>split\<close> on an ASCII separator and
  \<open>is_power_of_two\<close>.
\<close>

definition is_power_of_two :: "'w::len word \<Rightarrow> bool" where
  "is_power_of_two w \<longleftrightarrow> (\<exists>k<LENGTH('w). w = 2 ^ k)"

text \<open>One code point in UTF-8.\<close>

definition utf8 :: "nat \<Rightarrow> bytes" where
  "utf8 c = map word_of_nat
     (if c < 0x80 then [c]
      else if c < 0x800 then [0xC0 + c div 64, 0x80 + c mod 64]
      else if c < 0x10000 then [0xE0 + c div 4096, 0x80 + c div 64 mod 64, 0x80 + c mod 64]
      else [0xF0 + c div 262144, 0x80 + c div 4096 mod 64, 0x80 + c div 64 mod 64, 0x80 + c mod 64])"

definition REPLACEMENT :: nat where
  "REPLACEMENT = 0xFFFD"

text \<open>An unpaired surrogate becomes the replacement character.\<close>

fun utf16_points :: "nat list \<Rightarrow> nat list" where
  "utf16_points [] = []"
| "utf16_points (u # us) =
     (if u < 0xD800 \<or> 0xDFFF < u then u # utf16_points us
      else if 0xDC00 \<le> u then REPLACEMENT # utf16_points us
      else case us of
        [] \<Rightarrow> [REPLACEMENT]
      | v # vs \<Rightarrow>
          if 0xDC00 \<le> v \<and> v \<le> 0xDFFF
          then (0x10000 + (u - 0xD800) * 1024 + (v - 0xDC00)) # utf16_points vs
          else REPLACEMENT # utf16_points us)"

definition from_utf16_lossy :: "u16 list \<Rightarrow> bytes" where
  "from_utf16_lossy us = concat (map utf8 (utf16_points (map unat us)))"

text \<open>
  \<open>from_utf8_lossy\<close> keeps well-formed sequences and replaces each maximal ill-formed
  subpart by the replacement character.
\<close>

definition second_ok :: "nat \<Rightarrow> nat \<Rightarrow> bool" where
  "second_ok a b \<longleftrightarrow>
     (if a = 0xE0 then 0xA0 \<le> b \<and> b \<le> 0xBF
      else if a = 0xED then 0x80 \<le> b \<and> b \<le> 0x9F
      else if a = 0xF0 then 0x90 \<le> b \<and> b \<le> 0xBF
      else if a = 0xF4 then 0x80 \<le> b \<and> b \<le> 0x8F
      else 0x80 \<le> b \<and> b \<le> 0xBF)"

definition sequence_width :: "nat \<Rightarrow> nat" where
  "sequence_width a =
     (if a < 0x80 then 1 else if 0xC2 \<le> a \<and> a \<le> 0xDF then 2
      else if 0xE0 \<le> a \<and> a \<le> 0xEF then 3 else if 0xF0 \<le> a \<and> a \<le> 0xF4 then 4 else 0)"

definition continuation :: "nat \<Rightarrow> bool" where
  "continuation b \<longleftrightarrow> 0x80 \<le> b \<and> b \<le> 0xBF"

text \<open>The number of bytes of the first sequence or ill-formed subpart, and whether it is well formed.\<close>

definition first_sequence :: "nat list \<Rightarrow> nat \<times> bool" where
  "first_sequence bs =
     (let w = sequence_width (hd bs) in
      if w \<le> 1 then (1, w = 1)
      else if length bs < 2 \<or> \<not> second_ok (hd bs) (bs ! 1) then (1, False)
      else if w = 2 then (2, True)
      else if length bs < 3 \<or> \<not> continuation (bs ! 2) then (2, False)
      else if w = 3 then (3, True)
      else if length bs < 4 \<or> \<not> continuation (bs ! 3) then (3, False)
      else (4, True))"

lemma first_sequence_pos: "0 < fst (first_sequence bs)"
  by (simp add: first_sequence_def Let_def)

function from_utf8_lossy :: "bytes \<Rightarrow> bytes" where
  "from_utf8_lossy bs =
     (if bs = [] then []
      else case first_sequence (map unat bs) of
        (n, ok) \<Rightarrow> (if ok then take n bs else utf8 REPLACEMENT) @ from_utf8_lossy (drop n bs))"
  by auto
termination
proof (relation "measure length", goal_cases)
  case (2 bs n ok)
  then have "0 < n" "bs \<noteq> []"
    using first_sequence_pos [of "map unat bs"] by (metis fst_conv, simp)
  then show ?case
    by (cases bs) auto
qed simp

declare from_utf8_lossy.simps [simp del]

definition to_ascii_lower :: "u8 \<Rightarrow> u8" where
  "to_ascii_lower b = (if 65 \<le> b \<and> b \<le> 90 then b + 32 else b)"

definition eq_ascii_case_insensitive :: "bytes \<Rightarrow> bytes \<Rightarrow> bool" where
  "eq_ascii_case_insensitive a b \<longleftrightarrow>
     length a = length b \<and> (\<forall>(x, y)\<in>set (zip a b). to_ascii_lower x = to_ascii_lower y)"

fun split_on :: "u8 \<Rightarrow> bytes \<Rightarrow> bytes list" where
  "split_on sep [] = [[]]"
| "split_on sep (b # bs) =
     (if b = sep then [] # split_on sep bs
      else case split_on sep bs of [] \<Rightarrow> [[b]] | c # cs \<Rightarrow> (b # c) # cs)"

lemma from_utf8_lossy_ascii: "\<forall>b\<in>set bs. unat b < 128 \<Longrightarrow> from_utf8_lossy bs = bs"
proof (induction bs)
  case (Cons b bs)
  then have "first_sequence (map unat (b # bs)) = (1, True)"
    by (simp add: first_sequence_def sequence_width_def)
  then show ?case
    using Cons by (subst from_utf8_lossy.simps) simp
qed (simp add: from_utf8_lossy.simps)

lemma eq_ascii_case_insensitive_map:
  "eq_ascii_case_insensitive a b \<longleftrightarrow> map to_ascii_lower a = map to_ascii_lower b"
  by (fastforce simp: eq_ascii_case_insensitive_def list_eq_iff_nth_eq set_zip dest: map_eq_imp_length_eq)

end
