(* ===== verification/Fat_Fs.thy ===== *)
theory Fat_Fs
  imports Text
begin

text \<open>
  Model of \<open>src/kernel/src/fs.rs\<close>: the validated geometry of a FAT32 volume, directory walks with
  long file names, path resolution and file reads.  A block device is the function from a
  sector number to its 512 bytes, or \<open>None\<close> when the read fails.  Sector arithmetic is 32-bit and
  wraps.  The theorems relate the nested cluster, sector and entry loops to flat specifications
  over the cluster chain of the FAT.
\<close>

section \<open>Geometry\<close>

definition FAT32_LAST :: u32 where
  "FAT32_LAST = 0x0FFFFFFF"

record FatInfo =
  fat_bytes :: u32
  sectors_per_cluster :: u8
  reserved_sectors :: u16
  fat_count :: u8
  total_sectors :: u32
  sectors_per_fat :: u32
  root_cluster :: u32
  data_start :: u32

datatype FatError = BadSignature | UnsupportedSectorSize | BadSectorsPerCluster | BadReserved
  | BadFatCount | ZeroTotal | BadFatsParam | NotFat32

definition rd16 :: "bytes \<Rightarrow> nat \<Rightarrow> u16" where
  "rd16 b off = le16 b off"

definition rd32 :: "bytes \<Rightarrow> nat \<Rightarrow> u32" where
  "rd32 b off = le32 b off"

definition is_chain_end :: "u32 \<Rightarrow> bool" where
  "is_chain_end c \<longleftrightarrow> c < 2 \<or> c \<ge> 0x0FFFFFF7"

definition parse_boot :: "bytes \<Rightarrow> FatError + FatInfo" where
  "parse_boot b =
     (if length b < 512 \<or> b ! 510 \<noteq> 0x55 \<or> b ! 511 \<noteq> 0xAA then Inl BadSignature else
      let bytes_per_sec = ucast (rd16 b 11) in
      if bytes_per_sec \<noteq> 512 then Inl UnsupportedSectorSize else
      let sec_per_clus = b ! 13 in
      if sec_per_clus = 0 \<or> \<not> is_power_of_two sec_per_clus then Inl BadSectorsPerCluster else
      let reserved = rd16 b 14 in
      if reserved = 0 then Inl BadReserved else
      let fat_cnt = b ! 16 in
      if fat_cnt = 0 then Inl BadFatCount else
      let total16 = ucast (rd16 b 19); total32 = rd32 b 32;
          tot = (if total16 \<noteq> 0 then total16 else total32) in
      if tot = 0 then Inl ZeroTotal else
      let spf16 = ucast (rd16 b 22); spf32 = rd32 b 36;
          spf = (if spf16 \<noteq> 0 then spf16 else spf32) in
      if spf = 0 then Inl BadFatsParam else
      let root = rd32 b 44 in
      if root < 2 then Inl NotFat32 else
      case checked_add (ucast reserved) (ucast fat_cnt * spf) of
        None \<Rightarrow> Inl ZeroTotal
      | Some start \<Rightarrow> Inr \<lparr>fat_bytes = bytes_per_sec, sectors_per_cluster = sec_per_clus,
          reserved_sectors = reserved, fat_count = fat_cnt, total_sectors = tot,
          sectors_per_fat = spf, root_cluster = root, data_start = start\<rparr>)"

section \<open>Directory entries\<close>

type_synonym block_dev = "u32 \<Rightarrow> bytes option"

record DirEntry =
  de_name :: bytes
  de_cluster :: u32
  de_size :: u32
  de_is_dir :: bool
  de_long_name :: "bytes option"

definition short_name :: "DirEntry \<Rightarrow> bytes" where
  "short_name e =
     (let name = (if de_name e ! 0 = 0x05 then (de_name e)[0 := 0xE5] else de_name e);
          base = takeWhile (\<lambda>b. b \<noteq> 0x20) (take 8 name);
          ext = takeWhile (\<lambda>b. b \<noteq> 0x20) (drop 8 name);
          out = base @ (if ext \<noteq> [] then 0x2E # ext else [])
      in from_utf8_lossy out)"

definition display_name :: "DirEntry \<Rightarrow> bytes" where
  "display_name e =
     (case de_long_name e of
        Some l \<Rightarrow> if l \<noteq> [] then l else short_name e
      | None \<Rightarrow> short_name e)"

definition entry_matches :: "DirEntry \<Rightarrow> bytes \<Rightarrow> bool" where
  "entry_matches e nm =
     list_ex (\<lambda>n. eq_ascii_case_insensitive n nm)
       ((case de_long_name e of Some l \<Rightarrow> [l] | None \<Rightarrow> []) @ [short_name e])"

definition read_fat_entry :: "block_dev \<Rightarrow> FatInfo \<Rightarrow> u32 \<Rightarrow> u32 option" where
  "read_fat_entry dev info c =
     (let byte_off = unat c * 4 in
      if byte_off div 512 \<ge> unat (sectors_per_fat info) then None
      else let lba = ucast (reserved_sectors info) + word_of_nat (byte_off div 512);
               in_sector = byte_off mod 512 in
      case dev lba of None \<Rightarrow> None | Some s \<Rightarrow>
        let raw = ucast (s ! in_sector) OR push_bit 8 (ucast (s ! (in_sector + 1)))
                  OR push_bit 16 (ucast (s ! (in_sector + 2))) OR push_bit 24 (ucast (s ! (in_sector + 3)))
        in Some (raw AND FAT32_LAST))"

type_synonym LfnChunk = "u8 \<times> u16 list"

definition lfn_char_pos :: "nat \<Rightarrow> nat \<Rightarrow> nat" where
  "lfn_char_pos off i =
     (if i \<le> 4 then off + 1 + i * 2 else if i \<le> 10 then off + 14 + (i - 5) * 2 else off + 28 + (i - 11) * 2)"

definition lfn_chars :: "bytes \<Rightarrow> nat \<Rightarrow> u16 list" where
  "lfn_chars b off = map (\<lambda>i. rd16 b (lfn_char_pos off i)) [0..<13]"

definition lfn_reassemble :: "LfnChunk list \<Rightarrow> bytes option" where
  "lfn_reassemble lfn =
     (if lfn = [] then None
      else let sorted = sort_key fst lfn;
               chars = concat (map snd sorted);
               chars = rev (dropWhile (\<lambda>c. c = 0x0000 \<or> c = 0xFFFF) (rev chars)) in
      if chars = [] then None else Some (from_utf16_lossy chars))"

text \<open>
  One 32-byte record at \<open>off\<close>: \<open>None\<close> at the end of the directory, otherwise the pending long
  name and the entries after it.
\<close>

definition scan_record :: "bytes \<Rightarrow> nat \<Rightarrow> LfnChunk list \<times> DirEntry list \<Rightarrow> (LfnChunk list \<times> DirEntry list) option" where
  "scan_record buf off st =
     (case st of (lfn, out) \<Rightarrow>
      let name0 = buf ! off in
      if name0 = 0 then None
      else if name0 = 0xE5 then Some ([], out)
      else let attr = buf ! (off + 11) in
      if attr AND 0x0F = 0x0F then Some (lfn @ [(buf ! off AND 0x1F, lfn_chars buf off)], out)
      else Some ([], out @ [\<lparr>de_name = take 11 (drop off buf),
             de_cluster = push_bit 16 (ucast (rd16 buf (off + 20))) OR ucast (rd16 buf (off + 26)),
             de_size = rd32 buf (off + 28), de_is_dir = (attr AND 0x10 \<noteq> 0),
             de_long_name = lfn_reassemble lfn\<rparr>]))"

fun scan_sector :: "bytes \<Rightarrow> nat list \<Rightarrow> LfnChunk list \<times> DirEntry list \<Rightarrow> bool \<times> LfnChunk list \<times> DirEntry list" where
  "scan_sector buf [] st = (False, st)"
| "scan_sector buf (off # offs) st =
     (case scan_record buf off st of None \<Rightarrow> (True, st) | Some st' \<Rightarrow> scan_sector buf offs st')"

definition RECORD_OFFSETS :: "nat list" where
  "RECORD_OFFSETS = map (\<lambda>k. 32 * k) [0..<16]"

text \<open>\<open>Some r\<close> when the walk returns \<open>r\<close> inside this cluster, \<open>None\<close> when it goes on.\<close>

fun scan_cluster :: "block_dev \<Rightarrow> u32 \<Rightarrow> nat list \<Rightarrow> LfnChunk list \<times> DirEntry list \<Rightarrow>
    bool option \<times> LfnChunk list \<times> DirEntry list" where
  "scan_cluster dev first_sector [] st = (None, st)"
| "scan_cluster dev first_sector (s # ss) st =
     (case dev (first_sector + word_of_nat s) of
        None \<Rightarrow> (Some False, st)
      | Some buf \<Rightarrow>
          (case scan_sector buf RECORD_OFFSETS st of
             (True, st') \<Rightarrow> (Some True, st')
           | (False, st') \<Rightarrow> scan_cluster dev first_sector ss st'))"

definition first_sector :: "FatInfo \<Rightarrow> u32 \<Rightarrow> u32" where
  "first_sector info c = data_start info + (c - 2) * ucast (sectors_per_cluster info)"

fun dir_loop :: "block_dev \<Rightarrow> FatInfo \<Rightarrow> nat \<Rightarrow> u32 \<Rightarrow> LfnChunk list \<times> DirEntry list \<Rightarrow> bool \<times> DirEntry list" where
  "dir_loop dev info 0 c st = (True, snd st)"
| "dir_loop dev info (Suc n) c st =
     (if is_chain_end c then (True, snd st)
      else case scan_cluster dev (first_sector info c) [0..<unat (sectors_per_cluster info)] st of
        (Some r, st') \<Rightarrow> (r, snd st')
      | (None, st') \<Rightarrow>
          (case read_fat_entry dev info c of
             Some nxt \<Rightarrow> if \<not> is_chain_end nxt then dir_loop dev info n nxt st' else (True, snd st')
           | None \<Rightarrow> (True, snd st')))"

definition list_dir :: "block_dev \<Rightarrow> FatInfo \<Rightarrow> u32 \<Rightarrow> DirEntry list \<Rightarrow> bool \<times> DirEntry list" where
  "list_dir dev info start_cluster out =
     (if is_chain_end start_cluster then (True, out)
      else dir_loop dev info 1000 start_cluster ([], out))"

section \<open>Files\<close>

text \<open>The sectors of one cluster: \<open>Some r\<close> when the read returns \<open>r\<close>.\<close>

fun read_cluster :: "block_dev \<Rightarrow> u32 \<Rightarrow> nat list \<Rightarrow> nat \<Rightarrow> bytes \<Rightarrow> bool option \<times> nat \<times> bytes" where
  "read_cluster dev fs [] need out = (None, need, out)"
| "read_cluster dev fs (s # ss) need out =
     (if need = 0 then (Some True, need, out)
      else case dev (fs + word_of_nat s) of
        None \<Rightarrow> (Some False, need, out)
      | Some buf \<Rightarrow>
          let tk = min need 512 in read_cluster dev fs ss (need - tk) (out @ take tk buf))"

fun file_loop :: "block_dev \<Rightarrow> FatInfo \<Rightarrow> nat \<Rightarrow> u32 \<Rightarrow> nat \<Rightarrow> bytes \<Rightarrow> bool \<times> bytes" where
  "file_loop dev info 0 c need out = (need = 0, out)"
| "file_loop dev info (Suc n) c need out =
     (if need = 0 then (True, out)
      else if is_chain_end c then (False, out)
      else case read_cluster dev (first_sector info c) [0..<unat (sectors_per_cluster info)] need out of
        (Some r, need', out') \<Rightarrow> (r, out')
      | (None, need', out') \<Rightarrow>
          (case read_fat_entry dev info c of
             Some nxt \<Rightarrow> if \<not> is_chain_end nxt then file_loop dev info n nxt need' out' else (need' = 0, out')
           | None \<Rightarrow> (need' = 0, out')))"

definition read_file :: "block_dev \<Rightarrow> FatInfo \<Rightarrow> u32 \<Rightarrow> u32 \<Rightarrow> bytes \<Rightarrow> bool \<times> bytes" where
  "read_file dev info first_cluster sz out =
     (if is_chain_end first_cluster then (False, out)
      else file_loop dev info 1000 first_cluster (unat sz) out)"

section \<open>Paths and the mounted volume\<close>

fun resolve_from :: "block_dev \<Rightarrow> FatInfo \<Rightarrow> u32 \<Rightarrow> bytes list \<Rightarrow> DirEntry option" where
  "resolve_from dev info c [] = None"
| "resolve_from dev info c (nm # comps) =
     (case List.find (\<lambda>e. entry_matches e nm) (snd (list_dir dev info c [])) of
        None \<Rightarrow> None
      | Some e \<Rightarrow>
          if comps = [] then Some e
          else if \<not> de_is_dir e then None
          else resolve_from dev info (de_cluster e) comps)"

definition path_components :: "bytes \<Rightarrow> bytes list" where
  "path_components path = filter (\<lambda>c. c \<noteq> []) (split_on 0x2F path)"

definition resolve :: "block_dev \<Rightarrow> FatInfo \<Rightarrow> bytes \<Rightarrow> DirEntry option" where
  "resolve dev info path =
     (let comps = path_components path in
      if comps = [] then None else resolve_from dev info (root_cluster info) comps)"

record Fs =
  fs_info :: FatInfo

definition mount :: "block_dev \<Rightarrow> FatError + Fs" where
  "mount dev =
     (case dev 0 of
        None \<Rightarrow> Inl BadSignature
      | Some s \<Rightarrow> (case parse_boot s of Inl e \<Rightarrow> Inl e | Inr info \<Rightarrow> Inr \<lparr>fs_info = info\<rparr>))"

definition fs_ls :: "Fs \<Rightarrow> block_dev \<Rightarrow> DirEntry list \<Rightarrow> bool \<times> DirEntry list" where
  "fs_ls fs dev out = list_dir dev (fs_info fs) (root_cluster (fs_info fs)) out"

definition fs_find :: "Fs \<Rightarrow> block_dev \<Rightarrow> bytes \<Rightarrow> DirEntry option" where
  "fs_find fs dev name = List.find (\<lambda>e. de_name e = name) (snd (fs_ls fs dev []))"

definition fs_read :: "Fs \<Rightarrow> block_dev \<Rightarrow> u32 \<Rightarrow> u32 \<Rightarrow> bytes \<Rightarrow> bool \<times> bytes" where
  "fs_read fs dev first_cluster sz out = read_file dev (fs_info fs) first_cluster sz out"

definition find_by_path :: "Fs \<Rightarrow> block_dev \<Rightarrow> bytes \<Rightarrow> DirEntry option" where
  "find_by_path fs dev path = resolve dev (fs_info fs) path"

definition ls_path :: "Fs \<Rightarrow> block_dev \<Rightarrow> bytes \<Rightarrow> DirEntry list \<Rightarrow> bool \<times> DirEntry list" where
  "ls_path fs dev path out =
     (if path = [] \<or> path = [0x2F] then list_dir dev (fs_info fs) (root_cluster (fs_info fs)) out
      else case resolve dev (fs_info fs) path of
        Some e \<Rightarrow> list_dir dev (fs_info fs) (de_cluster e) out
      | None \<Rightarrow> (False, out))"

definition read_path :: "Fs \<Rightarrow> block_dev \<Rightarrow> bytes \<Rightarrow> bytes \<Rightarrow> bool \<times> bytes" where
  "read_path fs dev path out =
     (case resolve dev (fs_info fs) path of
        Some e \<Rightarrow> if \<not> de_is_dir e then read_file dev (fs_info fs) (de_cluster e) (de_size e) out else (False, out)
      | None \<Rightarrow> (False, out))"

section \<open>Cluster chains\<close>

text \<open>
  The chain the FAT gives from a cluster, cut after \<open>n\<close> clusters, and the sectors of its
  clusters in order.  The walks below bound it by 1000 clusters.
\<close>

fun clusters :: "block_dev \<Rightarrow> FatInfo \<Rightarrow> nat \<Rightarrow> u32 \<Rightarrow> u32 list" where
  "clusters dev info 0 c = []"
| "clusters dev info (Suc n) c =
     (if is_chain_end c then []
      else c # (case read_fat_entry dev info c of None \<Rightarrow> [] | Some nxt \<Rightarrow> clusters dev info n nxt))"

definition cluster_sectors :: "FatInfo \<Rightarrow> u32 \<Rightarrow> u32 list" where
  "cluster_sectors info c =
     map (\<lambda>s. first_sector info c + word_of_nat s) [0..<unat (sectors_per_cluster info)]"

definition chain_sectors :: "block_dev \<Rightarrow> FatInfo \<Rightarrow> u32 \<Rightarrow> u32 list" where
  "chain_sectors dev info c = concat (map (cluster_sectors info) (clusters dev info 1000 c))"

text \<open>A walk over a flat list of sectors.\<close>

fun flat_read :: "block_dev \<Rightarrow> u32 list \<Rightarrow> nat \<Rightarrow> bytes \<Rightarrow> bool \<times> bytes" where
  "flat_read dev [] need out = (need = 0, out)"
| "flat_read dev (l # ls) need out =
     (if need = 0 then (True, out)
      else case dev l of
        None \<Rightarrow> (False, out)
      | Some buf \<Rightarrow> flat_read dev ls (need - min need 512) (out @ take (min need 512) buf))"

lemma flat_read_done [simp]: "flat_read dev ls 0 out = (True, out)"
  by (cases ls) simp_all

lemma read_cluster_flat:
  "flat_read dev (map (\<lambda>s. fs + word_of_nat s) ss @ rest) need out =
     (case read_cluster dev fs ss need out of
        (Some r, need', out') \<Rightarrow> (r, out')
      | (None, need', out') \<Rightarrow> flat_read dev rest need' out')"
  by (induction ss arbitrary: need out) (auto simp: Let_def split: option.splits)

lemma clusters_end: "is_chain_end c \<Longrightarrow> clusters dev info n c = []"
  by (cases n) simp_all

lemma file_loop_flat:
  "file_loop dev info n c need out
   = flat_read dev (concat (map (cluster_sectors info) (clusters dev info n c))) need out"
proof (induction n arbitrary: c need out)
  case (Suc n)
  note f = read_cluster_flat [of dev "first_sector info c" "[0..<unat (sectors_per_cluster info)]" _ need out]
  show ?case
    by (auto simp: Suc.IH cluster_sectors_def f clusters_end split: option.splits prod.splits)
qed simp

lemma flat_read_spec:
  assumes "\<forall>l s. dev l = Some s \<longrightarrow> length s = 512"
  defines "k \<equiv> \<lambda>need. (need + 511) div 512"
  shows "fst (flat_read dev ls need out)
      \<longleftrightarrow> k need \<le> length ls \<and> (\<forall>l\<in>set (take (k need) ls). dev l \<noteq> None)" (is ?A)
    and "fst (flat_read dev ls need out) \<Longrightarrow>
      snd (flat_read dev ls need out) = out @ take need (concat (map (the \<circ> dev) (take (k need) ls)))" (is "_ \<Longrightarrow> ?B")
proof -
  have "?A \<and> (fst (flat_read dev ls need out) \<longrightarrow> ?B)"
  proof (induction ls arbitrary: need out)
    case Nil
    then show ?case
      by (auto simp: k_def)
  next
    case (Cons l ls)
    show ?case
    proof (cases "need = 0")
      case True
      then show ?thesis
        by (simp add: k_def)
    next
      case False
      then have k: "k need = Suc (k (need - min need 512))"
        by (auto simp: k_def min_def div_if [of "need + 511"])
      show ?thesis
      proof (cases "dev l")
        case None
        with False show ?thesis
          by (simp add: k)
      next
        case (Some buf)
        then have "length buf = 512"
          using assms by blast
        then show ?thesis
          using Some False Cons.IH [of "need - min need 512" "out @ take (min need 512) buf"]
          by (auto simp: k min_def)
      qed
    qed
  qed
  then show ?A "fst (flat_read dev ls need out) \<Longrightarrow> ?B"
    by blast+
qed

section \<open>Directories as record lists\<close>

text \<open>
  A directory is the list of its 32-byte records; a record's fields stand at fixed places in
  it, whatever sector it lies in.
\<close>

fun dir_entries :: "LfnChunk list \<Rightarrow> bytes list \<Rightarrow> DirEntry list" where
  "dir_entries lfn [] = []"
| "dir_entries lfn (r # rs) =
     (if r ! 0 = 0 then []
      else if r ! 0 = 0xE5 then dir_entries [] rs
      else if r ! 11 AND 0x0F = 0x0F then dir_entries (lfn @ [(r ! 0 AND 0x1F, lfn_chars r 0)]) rs
      else \<lparr>de_name = take 11 r, de_cluster = push_bit 16 (ucast (rd16 r 20)) OR ucast (rd16 r 26),
             de_size = rd32 r 28, de_is_dir = (r ! 11 AND 0x10 \<noteq> 0), de_long_name = lfn_reassemble lfn\<rparr>
           # dir_entries [] rs)"

definition sector_records :: "bytes \<Rightarrow> bytes list" where
  "sector_records buf = map (\<lambda>off. take 32 (drop off buf)) RECORD_OFFSETS"

lemma rd16_record: "i + 2 \<le> 32 \<Longrightarrow> rd16 (take 32 (drop off buf)) i = rd16 buf (off + i)"
  by (simp add: rd16_def le16_def le_bytes_def drop_take min_def add.commute)

lemma rd32_record: "i + 4 \<le> 32 \<Longrightarrow> rd32 (take 32 (drop off buf)) i = rd32 buf (off + i)"
  by (simp add: rd32_def le32_def le_bytes_def drop_take min_def add.commute)

lemma lfn_chars_record: "lfn_chars (take 32 (drop off buf)) 0 = lfn_chars buf off"
  unfolding lfn_chars_def
proof (rule map_cong [OF refl])
  fix i
  assume "i \<in> set [0..<13]"
  then have "lfn_char_pos 0 i + 2 \<le> 32" "lfn_char_pos off i = off + lfn_char_pos 0 i"
    by (auto simp: lfn_char_pos_def)
  then show "rd16 (take 32 (drop off buf)) (lfn_char_pos 0 i) = rd16 buf (lfn_char_pos off i)"
    by (simp add: rd16_record)
qed

lemma scan_record_entries:
  assumes "off + 32 \<le> length buf"
  shows "(case scan_record buf off (lfn, out) of
        None \<Rightarrow> out | Some (lfn', out') \<Rightarrow> out' @ dir_entries lfn' rs)
      = out @ dir_entries lfn (take 32 (drop off buf) # rs)"
    and "scan_record buf off (lfn, out) = None \<longleftrightarrow> take 32 (drop off buf) ! 0 = 0"
  using assms
  by (auto simp: scan_record_def Let_def rd16_record rd32_record lfn_chars_record min_def add.commute)

lemma scan_sector_entries:
  assumes "\<forall>off\<in>set offs. off + 32 \<le> length buf" "scan_sector buf offs (lfn, out) = (fin, lfn', out')"
  shows "out @ dir_entries lfn (map (\<lambda>off. take 32 (drop off buf)) offs @ rs)
    = (if fin then out' else out' @ dir_entries lfn' rs)"
  using assms
proof (induction offs arbitrary: lfn out)
  case (Cons off offs)
  have b: "off + 32 \<le> length buf"
    using Cons.prems(1) by simp
  show ?case
  proof (cases "scan_record buf off (lfn, out)")
    case None
    then show ?thesis
      using Cons.prems(2) scan_record_entries(1) [OF b, where lfn = lfn and out = out]
        scan_record_entries(2) [OF b, where lfn = lfn and out = out] by auto
  next
    case (Some st)
    obtain lfn1 out1 where st: "st = (lfn1, out1)"
      by (cases st)
    then have "out @ dir_entries lfn (map (\<lambda>off. take 32 (drop off buf)) (off # offs) @ rs)
        = out1 @ dir_entries lfn1 (map (\<lambda>off. take 32 (drop off buf)) offs @ rs)"
      using scan_record_entries(1) [OF b, where lfn = lfn and out = out] Some by simp
    then show ?thesis
      using Cons.IH [of lfn1 out1] Cons.prems Some st by simp
  qed
qed simp

fun flat_dir :: "block_dev \<Rightarrow> u32 list \<Rightarrow> LfnChunk list \<times> DirEntry list \<Rightarrow> bool \<times> DirEntry list" where
  "flat_dir dev [] st = (True, snd st)"
| "flat_dir dev (l # ls) st =
     (case dev l of
        None \<Rightarrow> (False, snd st)
      | Some buf \<Rightarrow> (case scan_sector buf RECORD_OFFSETS st of
          (True, st') \<Rightarrow> (True, snd st') | (False, st') \<Rightarrow> flat_dir dev ls st'))"

lemma scan_cluster_flat:
  "flat_dir dev (map (\<lambda>s. fs + word_of_nat s) ss @ rest) st =
     (case scan_cluster dev fs ss st of
        (Some r, st') \<Rightarrow> (r, snd st') | (None, st') \<Rightarrow> flat_dir dev rest st')"
  by (induction ss arbitrary: st) (auto split: option.splits prod.splits bool.splits)

lemma dir_loop_flat:
  "dir_loop dev info n c st = flat_dir dev (concat (map (cluster_sectors info) (clusters dev info n c))) st"
proof (induction n arbitrary: c st)
  case (Suc n)
  note f = scan_cluster_flat [of dev "first_sector info c" "[0..<unat (sectors_per_cluster info)]" _ st]
  show ?case
    by (auto simp: Suc.IH cluster_sectors_def f clusters_end split: option.splits prod.splits)
qed simp

lemma flat_dir_entries:
  assumes "\<forall>l\<in>set ls. \<exists>s. dev l = Some s \<and> length s = 512"
  shows "flat_dir dev ls (lfn, out)
    = (True, out @ dir_entries lfn (concat (map (sector_records \<circ> the \<circ> dev) ls)))"
  using assms
proof (induction ls arbitrary: lfn out)
  case (Cons l ls)
  then obtain buf where buf: "dev l = Some buf" "length buf = 512"
    by auto
  obtain fin lfn' out' where s: "scan_sector buf RECORD_OFFSETS (lfn, out) = (fin, lfn', out')"
    by (cases "scan_sector buf RECORD_OFFSETS (lfn, out)") auto
  have "\<forall>off\<in>set RECORD_OFFSETS. off + 32 \<le> length buf"
    by (auto simp: RECORD_OFFSETS_def buf)
  note scan_sector_entries [OF this s]
  then show ?case
    using Cons buf s by (auto simp: sector_records_def)
qed simp

section \<open>The block device\<close>

text \<open>
  What the trait \<open>BlockDevice\<close> promises its clients: a successful read fills the 512-byte
  buffer.  The drivers interpret this locale.
\<close>

locale block_device =
  fixes dev :: block_dev
  assumes sector_length: "dev l = Some s \<Longrightarrow> length s = 512"
begin

lemma read_file_spec:
  assumes "\<not> is_chain_end c" "read_file dev info c sz out = (ok, out')"
  shows "let k = (unat sz + 511) div 512; ls = chain_sectors dev info c in
      (ok \<longleftrightarrow> k \<le> length ls \<and> (\<forall>l\<in>set (take k ls). dev l \<noteq> None))
    \<and> (ok \<longrightarrow> out' = out @ take (unat sz) (concat (map (the \<circ> dev) (take k ls))))"
proof -
  have "flat_read dev (chain_sectors dev info c) (unat sz) out = (ok, out')"
    using assms by (simp add: read_file_def file_loop_flat chain_sectors_def)
  moreover have "\<forall>l s. dev l = Some s \<longrightarrow> length s = 512"
    using sector_length by blast
  note flat_read_spec [OF this, of "chain_sectors dev info c" "unat sz" out]
  ultimately show ?thesis
    by (simp add: Let_def)
qed

lemma list_dir_spec:
  assumes "\<not> is_chain_end c" "\<forall>l\<in>set (chain_sectors dev info c). dev l \<noteq> None"
  shows "list_dir dev info c out
    = (True, out @ dir_entries [] (concat (map (sector_records \<circ> the \<circ> dev) (chain_sectors dev info c))))"
proof -
  have "list_dir dev info c out = flat_dir dev (chain_sectors dev info c) ([], out)"
    using assms by (simp add: list_dir_def dir_loop_flat chain_sectors_def)
  then show ?thesis
    using flat_dir_entries [of "chain_sectors dev info c" dev "[]" out] assms(2) sector_length
    by fastforce
qed

end

section \<open>Long names\<close>

text \<open>
  The chunks of a long name as a volume stores them: 13 characters each, numbered from 1 with
  the highest number first.
\<close>

definition stored_chunks :: "u16 list list \<Rightarrow> LfnChunk list" where
  "stored_chunks cs = rev (zip (map word_of_nat [1..<Suc (length cs)]) cs)"

lemma lfn_sorted:
  assumes "length cs \<le> 31"
  shows "sort_key fst (stored_chunks cs) = zip (map word_of_nat [1..<Suc (length cs)]) cs"
proof (rule sort_key_inj_key_eq)
  let ?ks = "map word_of_nat [1..<Suc (length cs)] :: u8 list"
  have mono: "unat (?ks ! i) = Suc i" if "i < length cs" for i
  proof -
    have "?ks ! i = word_of_nat (Suc i)"
      using that by (simp del: upt_Suc)
    then show ?thesis
      using that assms by (simp add: unat_of_nat_small del: of_nat_Suc upt_Suc)
  qed
  have fst_map: "map fst (zip ?ks cs) = ?ks"
    by (simp del: upt_Suc)
  show "mset (stored_chunks cs) = mset (zip ?ks cs)"
    by (simp add: stored_chunks_def del: upt_Suc)
  have "distinct ?ks"
  proof -
    have "?ks ! i \<noteq> ?ks ! j" if "i < length cs" "j < length cs" "i \<noteq> j" for i j
      using mono [OF that(1)] mono [OF that(2)] that(3) by (metis nat.inject)
    then show ?thesis
      by (simp add: distinct_conv_nth del: upt_Suc)
  qed
  then show "inj_on fst (set (stored_chunks cs))"
    using fst_map by (metis distinct_map set_rev stored_chunks_def)
  have "sorted ?ks"
    unfolding sorted_iff_nth_mono
    using mono by (auto simp: word_le_nat_alt simp del: upt_Suc nth_map)
  then show "sorted (map fst (zip ?ks cs))"
    by (simp only: fst_map)
qed

text \<open>
  C20: a long name of 1 to 31 chunks survives storage: its characters, followed by any padding
  of 0x0000 and 0xFFFF, cut into chunks numbered from 1 and stored highest first, are
  reassembled to the name's UTF-8 text.
\<close>

theorem lfn_roundtrip:
  assumes "us \<noteq> []" "last us \<noteq> 0x0000" "last us \<noteq> 0xFFFF" "set pad \<subseteq> {0x0000, 0xFFFF}"
    and "concat cs = us @ pad" "length cs \<le> 31"
  shows "lfn_reassemble (stored_chunks cs) = Some (from_utf16_lossy us)"
proof -
  have "stored_chunks cs \<noteq> []"
    using assms(1,5) by (auto simp: stored_chunks_def simp del: upt_Suc)
  moreover have "concat (map snd (sort_key fst (stored_chunks cs))) = us @ pad"
    using assms(5) by (simp add: lfn_sorted [OF assms(6)] del: upt_Suc)
  moreover have "dropWhile (\<lambda>c. c = 0x0000 \<or> c = 0xFFFF) (rev pad @ rev us) = rev us"
    using assms(1-4) by (subst dropWhile_append2) (auto simp: hd_rev dropWhile_eq_self_iff)
  ultimately show ?thesis
    using assms(1) by (simp add: lfn_reassemble_def Let_def del: dropWhile_eq_Nil_conv)
qed

theorem lfn_roundtrip_witness:
  "lfn_reassemble (stored_chunks [[0x61, 0x62], [0x63, 0x0000, 0xFFFF]]) = Some [0x61, 0x62, 0x63]"
  using lfn_roundtrip [of "[0x61, 0x62, 0x63]" "[0x0000, 0xFFFF]" "[[0x61, 0x62], [0x63, 0x0000, 0xFFFF]]"]
  by (simp add: from_utf16_lossy_def utf8_def)

section \<open>Results\<close>

definition device_ok :: "block_dev \<Rightarrow> bool" where
  "device_ok dev \<longleftrightarrow> (\<forall>l s. dev l = Some s \<longrightarrow> length s = 512)"

text \<open>
  C16: reading a file whose first cluster is a data cluster succeeds exactly when the first
  1000 clusters of its FAT chain hold enough sectors for its size and those sectors can be
  read; it then appends exactly the file's bytes: the first \<open>size\<close> bytes of the chain's
  sectors in order.
\<close>

theorem read_file_correct:
  assumes "device_ok dev" "\<not> is_chain_end c" "read_file dev info c sz out = (ok, out')"
  shows "let k = (unat sz + 511) div 512; ls = chain_sectors dev info c in
      (ok \<longleftrightarrow> k \<le> length ls \<and> (\<forall>l\<in>set (take k ls). dev l \<noteq> None))
    \<and> (ok \<longrightarrow> out' = out @ take (unat sz) (concat (map (the \<circ> dev) (take k ls))))"
  using block_device.read_file_spec [OF _ assms(2,3)] assms(1)
  by (simp add: block_device_def device_ok_def)

text \<open>A volume with one-sector clusters whose FAT ends every chain and one file in cluster 3.\<close>

definition sample_info :: FatInfo where
  "sample_info = \<lparr>fat_bytes = 512, sectors_per_cluster = 1, reserved_sectors = 2, fat_count = 2,
     total_sectors = 16, sectors_per_fat = 1, root_cluster = 2, data_start = 4\<rparr>"

definition sample_dev :: block_dev where
  "sample_dev l =
     (if l = 2 then Some (replicate 512 0xFF)
      else if l = 4 then Some (map of_char ''HELLO   TXT'' @ [0x20] @ replicate 14 0 @ [3, 0, 6, 0, 0, 0] @ replicate 480 0)
      else if l = 5 then Some (map of_char ''LIONOS'' @ replicate 506 0)
      else None)"

lemma sample_dev_ok: "device_ok sample_dev"
  by (auto simp: device_ok_def sample_dev_def split: if_splits)

lemma sample_chain:
  assumes "c = 2 \<or> c = 3"
  shows "chain_sectors sample_dev sample_info c = [c + 2]" "\<not> is_chain_end c"
proof -
  have "(0xFF :: u32) OR push_bit 8 0xFF OR push_bit 16 0xFF OR push_bit 24 0xFF = 0xFFFFFFFF"
    by simp
  then have "read_fat_entry sample_dev sample_info c = Some 0x0FFFFFFF"
    using assms by (auto simp: read_fat_entry_def sample_info_def sample_dev_def FAT32_LAST_def Let_def)
  then have "clusters sample_dev sample_info (Suc 999) c = [c]"
    using assms unfolding clusters.simps by (auto simp: is_chain_end_def clusters_end)
  then show "chain_sectors sample_dev sample_info c = [c + 2]"
    using assms by (auto simp: chain_sectors_def cluster_sectors_def first_sector_def sample_info_def)
  show "\<not> is_chain_end c"
    using assms by (auto simp: is_chain_end_def)
qed

theorem read_file_correct_witness:
  "read_file sample_dev sample_info 3 6 [] = (True, map of_char ''LIONOS'')"
  using read_file_correct [OF sample_dev_ok sample_chain(2), of 3 sample_info 6 "[]"] sample_chain(1) [of 3]
  by (cases "read_file sample_dev sample_info 3 6 []") (simp add: sample_dev_def)

text \<open>
  C19: listing a directory whose chain (of at most 1000 clusters) is readable returns true and
  appends exactly the entries of its records in order, up to the first record with a zero
  name: deleted records are skipped, and each short entry carries the long name of the run
  of long-name records just before it.
\<close>

theorem list_dir_correct:
  assumes "device_ok dev" "\<not> is_chain_end c" "\<forall>l\<in>set (chain_sectors dev info c). dev l \<noteq> None"
  shows "list_dir dev info c out
    = (True, out @ dir_entries [] (concat (map (sector_records \<circ> the \<circ> dev) (chain_sectors dev info c))))"
  using block_device.list_dir_spec [OF _ assms(2,3)] assms(1)
  by (simp add: block_device_def device_ok_def)

theorem list_dir_correct_witness:
  "fst (list_dir sample_dev sample_info 2 [])"
  using list_dir_correct [OF sample_dev_ok sample_chain(2), of 2 sample_info "[]"] sample_chain(1) [of 2]
  by (simp add: sample_dev_def)

end
