(* ===== verification/Ide.thy ===== *)
theory Ide
  imports Fat_Fs
begin

text \<open>
  Model of \<open>src/kernel/src/drivers/ide.rs\<close>: the ATA programmed-I/O driver, over an arbitrary drive
  given by its port functions on a state.  The I/O delay between polls writes the POST port,
  which no drive decodes, and is left out.  A drive that follows the ATA register protocol
  (\<open>ata_conforms\<close>) makes the driver a faithful block device: the file system on top of it reads
  the medium.
\<close>

section \<open>The driver\<close>

definition ATA_PRIMARY :: u16 where "ATA_PRIMARY = 0x1F0"
definition ATA_SECONDARY :: u16 where "ATA_SECONDARY = 0x170"
definition REG_DATA :: u16 where "REG_DATA = 0"
definition REG_DRIVE :: u16 where "REG_DRIVE = 6"
definition REG_STAT :: u16 where "REG_STAT = 7"
definition REG_SECCNT :: u16 where "REG_SECCNT = 2"
definition REG_LBA_LO :: u16 where "REG_LBA_LO = 3"
definition REG_LBA_MID :: u16 where "REG_LBA_MID = 4"
definition REG_LBA_HI :: u16 where "REG_LBA_HI = 5"
definition STATUS_BSY :: u8 where "STATUS_BSY = 0x80"
definition STATUS_DRQ :: u8 where "STATUS_DRQ = 0x08"
definition STATUS_ERR :: u8 where "STATUS_ERR = 0x01"

lemmas ata_regs = REG_DATA_def REG_DRIVE_def REG_STAT_def REG_SECCNT_def REG_LBA_LO_def
  REG_LBA_MID_def REG_LBA_HI_def

record 'd ports =
  port_outb :: "u16 \<Rightarrow> u8 \<Rightarrow> 'd \<Rightarrow> 'd"
  port_inb :: "u16 \<Rightarrow> 'd \<Rightarrow> u8 \<times> 'd"
  port_inw :: "u16 \<Rightarrow> 'd \<Rightarrow> u16 \<times> 'd"

record AtaDisk =
  ata_base :: u16
  ata_capacity :: u32

definition lba28_capacity :: "u16 \<Rightarrow> u16 \<Rightarrow> u32" where
  "lba28_capacity w60 w61 = push_bit 16 (ucast w61) OR ucast w60"

definition drive_reg :: "u32 \<Rightarrow> u8" where
  "drive_reg lba = 0xE0 OR (ucast (drop_bit 24 lba) AND 0x0F)"

fun wait_bs_loop :: "'d ports \<Rightarrow> u16 \<Rightarrow> nat \<Rightarrow> 'd \<Rightarrow> bool \<times> 'd" where
  "wait_bs_loop p base 0 d = (False, d)"
| "wait_bs_loop p base (Suc n) d =
     (case port_inb p (base + REG_STAT) d of
        (st, d) \<Rightarrow> if st AND STATUS_BSY = 0 then (True, d) else wait_bs_loop p base n d)"

definition wait_bs :: "'d ports \<Rightarrow> u16 \<Rightarrow> 'd \<Rightarrow> bool \<times> 'd" where
  "wait_bs p base d = wait_bs_loop p base 20000 d"

fun read_words :: "'d ports \<Rightarrow> u16 \<Rightarrow> nat \<Rightarrow> 'd \<Rightarrow> bytes \<times> 'd" where
  "read_words p base 0 d = ([], d)"
| "read_words p base (Suc n) d =
     (case port_inw p (base + REG_DATA) d of
        (w, d) \<Rightarrow> (case read_words p base n d of
          (bs, d) \<Rightarrow> (ucast (w AND 0xFF) # ucast (drop_bit 8 w) # bs, d)))"

definition identify :: "'d ports \<Rightarrow> u16 \<Rightarrow> 'd \<Rightarrow> bytes option \<times> 'd" where
  "identify p base d =
     (let d = port_outb p (base + REG_DRIVE) 0xA0 d in
      case wait_bs p base d of (False, d) \<Rightarrow> (None, d) | (True, d) \<Rightarrow>
      let d = port_outb p (base + REG_SECCNT) 0 d;
          d = port_outb p (base + REG_LBA_LO) 0 d;
          d = port_outb p (base + REG_LBA_MID) 0 d;
          d = port_outb p (base + REG_LBA_HI) 0 d;
          d = port_outb p (base + REG_STAT) 0xEC d in
      case wait_bs p base d of (False, d) \<Rightarrow> (None, d) | (True, d) \<Rightarrow>
      case port_inb p (base + REG_STAT) d of (st, d) \<Rightarrow>
      if st AND STATUS_ERR \<noteq> 0 then (None, d)
      else if st AND STATUS_DRQ = 0 then (None, d)
      else case read_words p base 256 d of (out, d) \<Rightarrow> (Some out, d))"

definition from_identify :: "u16 \<Rightarrow> bytes \<Rightarrow> AtaDisk" where
  "from_identify base ident =
     (let lo = le16 ident 120; hi = le16 ident 122
      in \<lparr>ata_base = base, ata_capacity = lba28_capacity lo hi\<rparr>)"

fun probe_bases :: "'d ports \<Rightarrow> u16 list \<Rightarrow> 'd \<Rightarrow> AtaDisk list \<times> 'd" where
  "probe_bases p [] d = ([], d)"
| "probe_bases p (base # bases) d =
     (case identify p base d of (r, d) \<Rightarrow>
      case probe_bases p bases d of (out, d) \<Rightarrow>
      (case r of None \<Rightarrow> out | Some i \<Rightarrow> from_identify base i # out, d))"

definition probe_all :: "'d ports \<Rightarrow> 'd \<Rightarrow> AtaDisk list \<times> 'd" where
  "probe_all p d = probe_bases p [ATA_PRIMARY, ATA_SECONDARY] d"

definition ide_probe :: "'d ports \<Rightarrow> 'd \<Rightarrow> AtaDisk option \<times> 'd" where
  "ide_probe p d = (case probe_all p d of (ds, d) \<Rightarrow> (case ds of [] \<Rightarrow> None | x # _ \<Rightarrow> Some x, d))"

definition read_sector :: "'d ports \<Rightarrow> AtaDisk \<Rightarrow> u32 \<Rightarrow> bytes \<Rightarrow> 'd \<Rightarrow> bool \<times> bytes \<times> 'd" where
  "read_sector p disk lba buf d =
     (let base = ata_base disk in
      if lba \<ge> ata_capacity disk then (False, buf, d)
      else case wait_bs p base d of (False, d) \<Rightarrow> (False, buf, d) | (True, d) \<Rightarrow>
      let d = port_outb p (base + REG_DRIVE) (drive_reg lba) d;
          d = port_outb p (base + REG_SECCNT) 1 d;
          d = port_outb p (base + REG_LBA_LO) (ucast (lba AND 0xFF)) d;
          d = port_outb p (base + REG_LBA_MID) (ucast (drop_bit 8 lba AND 0xFF)) d;
          d = port_outb p (base + REG_LBA_HI) (ucast (drop_bit 16 lba AND 0xFF)) d;
          d = port_outb p (base + REG_STAT) 0x20 d in
      case wait_bs p base d of (False, d) \<Rightarrow> (False, buf, d) | (True, d) \<Rightarrow>
      case port_inb p (base + REG_STAT) d of (st, d) \<Rightarrow>
      if st AND STATUS_ERR \<noteq> 0 then (False, buf, d)
      else case read_words p base 256 d of (buf, d) \<Rightarrow>
      case port_inb p (base + REG_STAT) d of (st, d) \<Rightarrow>
      if st AND STATUS_ERR \<noteq> 0 then (False, buf, d) else (True, buf, d))"

text \<open>The block device the file system sees when it reads through the driver from state \<open>d\<close>.\<close>

definition ata_sector :: "'d ports \<Rightarrow> AtaDisk \<Rightarrow> 'd \<Rightarrow> block_dev" where
  "ata_sector p disk d lba =
     (case read_sector p disk lba (replicate 512 0) d of (ok, buf, _) \<Rightarrow> if ok then Some buf else None)"

lemma length_read_words: "length (fst (read_words p base n d)) = 2 * n"
  by (induction n arbitrary: d) (auto split: prod.splits, metis fst_conv)

lemma read_sector_length:
  assumes "read_sector p disk lba buf d = (ok, buf', d')" "length buf = 512"
  shows "length buf' = 512"
  using assms length_read_words [of p "ata_base disk" 256]
  by (auto simp: read_sector_def Let_def split: prod.splits bool.splits if_splits) (metis fst_conv)+

interpretation ata: block_device "ata_sector p disk d" for p disk d
proof
  fix l s
  assume "ata_sector p disk d l = Some s"
  then show "length s = 512"
    using read_sector_length [of p disk l "replicate 512 0" d]
    by (auto simp: ata_sector_def split: prod.splits if_splits)
qed

section \<open>The drive's protocol\<close>

text \<open>
  The behaviour ATA documents for a drive in LBA mode, seen through an abstraction of its
  state to a phase and its task-file registers.  An idle drive accepts register writes; the
  command 0x20 with a count of one starts reading the sector the registers name, keeps the
  busy bit for a bounded number of status reads, and then streams 256 little-endian words.
\<close>

datatype ata_phase = Idle | Busy u32 nat | Stream u32 nat

definition task_lba :: "(u16 \<Rightarrow> u8) \<Rightarrow> u32" where
  "task_lba r = push_bit 24 (ucast (r REG_DRIVE AND 0x0F)) OR push_bit 16 (ucast (r REG_LBA_HI))
     OR push_bit 8 (ucast (r REG_LBA_MID)) OR ucast (r REG_LBA_LO)"

definition medium_word :: "(u32 \<Rightarrow> bytes) \<Rightarrow> u32 \<Rightarrow> nat \<Rightarrow> u16" where
  "medium_word medium l k = le16 (medium l) (2 * k)"

definition status_is :: "'d ports \<Rightarrow> u16 \<Rightarrow> 'd \<Rightarrow> bool \<Rightarrow> 'd \<Rightarrow> bool" where
  "status_is p base d busy d' \<longleftrightarrow>
     (\<exists>st. port_inb p (base + REG_STAT) d = (st, d') \<and> (st AND STATUS_BSY \<noteq> 0 \<longleftrightarrow> busy)
           \<and> st AND STATUS_ERR = 0)"

definition ata_conforms ::
  "'d ports \<Rightarrow> u16 \<Rightarrow> u32 \<Rightarrow> (u32 \<Rightarrow> bytes) \<Rightarrow> ('d \<Rightarrow> ata_phase) \<Rightarrow> ('d \<Rightarrow> u16 \<Rightarrow> u8) \<Rightarrow> bool" where
  "ata_conforms p base cap medium phase regs \<longleftrightarrow>
     (\<forall>d. phase d = Idle \<longrightarrow> (\<exists>d'. status_is p base d False d' \<and> phase d' = Idle))
   \<and> (\<forall>d l t. phase d = Busy l (Suc t) \<longrightarrow> (\<exists>d'. status_is p base d True d' \<and> phase d' = Busy l t))
   \<and> (\<forall>d l. phase d = Busy l 0 \<longrightarrow> (\<exists>d'. status_is p base d False d' \<and> phase d' = Stream l 0))
   \<and> (\<forall>d l. phase d = Stream l 0 \<longrightarrow> (\<exists>d'. status_is p base d False d' \<and> phase d' = Stream l 0))
   \<and> (\<forall>d l k. phase d = Stream l k \<longrightarrow> (\<exists>d'. port_inw p (base + REG_DATA) d = (medium_word medium l k, d')
         \<and> phase d' = (if k = 255 then Idle else Stream l (Suc k))))
   \<and> (\<forall>d r v. phase d = Idle \<longrightarrow> r \<in> {2, 3, 4, 5, 6} \<longrightarrow>
         phase (port_outb p (base + r) v d) = Idle \<and> regs (port_outb p (base + r) v d) = (regs d)(r := v))
   \<and> (\<forall>d. phase d = Idle \<longrightarrow> regs d REG_SECCNT = 1 \<longrightarrow> regs d REG_DRIVE AND 0xF0 = 0xE0 \<longrightarrow>
         task_lba (regs d) < cap \<longrightarrow>
         (\<exists>t<20000. phase (port_outb p (base + REG_STAT) 0x20 d) = Busy (task_lba (regs d)) t))"

section \<open>The driver on a conforming drive\<close>

lemma wait_bs_idle:
  assumes "ata_conforms p base cap medium phase regs" "phase d = Idle"
  shows "\<exists>d'. wait_bs p base d = (True, d') \<and> phase d' = Idle"
proof -
  obtain d' where "status_is p base d False d'" "phase d' = Idle"
    using assms(1) [unfolded ata_conforms_def, THEN conjunct1] assms(2) by blast
  then have "wait_bs_loop p base (Suc 19999) d = (True, d') \<and> phase d' = Idle"
    unfolding wait_bs_loop.simps by (auto simp: status_is_def)
  then show ?thesis
    by (auto simp: wait_bs_def)
qed

lemma wait_bs_busy:
  assumes "ata_conforms p base cap medium phase regs" "phase d = Busy l t" "t < n"
  shows "\<exists>d'. wait_bs_loop p base n d = (True, d') \<and> phase d' = Stream l 0"
  using assms(2,3)
proof (induction t arbitrary: n d)
  case 0
  then obtain d' where "status_is p base d False d'" "phase d' = Stream l 0"
    using assms(1) unfolding ata_conforms_def by blast
  then show ?case
    using 0 by (cases n) (auto simp: status_is_def)
next
  case (Suc t)
  then obtain d' where d': "status_is p base d True d'" "phase d' = Busy l t"
    using assms(1) unfolding ata_conforms_def by blast
  obtain m where "n = Suc m" "t < m"
    using Suc.prems(2) by (cases n) auto
  then show ?case
    using Suc.IH [OF d'(2), of m] d'(1) by (auto simp: status_is_def)
qed

lemma word_bytes:
  assumes "k + 1 < length bs"
  shows "ucast (le16 bs k AND 0xFF) = bs ! k" "ucast (drop_bit 8 (le16 bs k)) = bs ! (k + 1)"
proof -
  have m: "(0xFF :: u16) = mask 8"
    by (simp add: mask_eq_exp_minus_1)
  have "take 2 (drop k bs) = [bs ! k, bs ! (k + 1)]"
    using assms by (simp add: numeral_2_eq_2 take_Suc_conv_app_nth)
  then have "le_bytes 2 bs k = unat (bs ! k) + 256 * unat (bs ! (k + 1))"
    by (simp add: le_bytes_def)
  moreover have b: "unat (bs ! k) < 256" "unat (bs ! (k + 1)) < 256"
    using unat_bound [of "bs ! k"] unat_bound [of "bs ! (k + 1)"] by simp_all
  ultimately have w: "unat (le16 bs k) = unat (bs ! k) + 256 * unat (bs ! (k + 1))"
    by (simp add: le16_def unat_of_nat_small del: of_nat_add of_nat_mult)
  show "ucast (le16 bs k AND 0xFF) = bs ! k"
    unfolding m using b by (intro unsigned_word_eqI [where ?'a = nat]) (simp add: unat_ucast_mod unat_and_mask w)
  show "ucast (drop_bit 8 (le16 bs k)) = bs ! (k + 1)"
    using b by (intro unsigned_word_eqI [where ?'a = nat]) (simp add: unat_ucast_mod unat_drop_bit w)
qed

lemma read_words_stream:
  assumes "ata_conforms p base cap medium phase regs" "length (medium l) = 512"
    and "phase d = Stream l k" "k + Suc n = 256"
  shows "\<exists>d'. read_words p base (Suc n) d = (drop (2 * k) (medium l), d') \<and> phase d' = Idle"
  using assms(3,4)
proof (induction n arbitrary: k d)
  case 0
  then have k: "k = 255"
    by simp
  obtain d' where d': "port_inw p (base + REG_DATA) d = (medium_word medium l k, d')" "phase d' = Idle"
    using assms(1) 0 k unfolding ata_conforms_def by (metis (no_types, lifting))
  moreover have "drop 510 (medium l) = [medium l ! 510, medium l ! 511]"
    using assms(2) by (simp add: Cons_nth_drop_Suc [symmetric])
  ultimately show ?case
    using word_bytes [of 510 "medium l"] assms(2) by (simp add: k medium_word_def)
next
  case (Suc n)
  then have k: "k < 255"
    by simp
  obtain d1 where d1: "port_inw p (base + REG_DATA) d = (medium_word medium l k, d1)" "phase d1 = Stream l (Suc k)"
    using assms(1) Suc.prems(1) k unfolding ata_conforms_def by (metis (no_types, lifting) less_irrefl)
  obtain d' where d': "read_words p base (Suc n) d1 = (drop (2 * Suc k) (medium l), d')" "phase d' = Idle"
    using Suc.IH [OF d1(2)] Suc.prems(2) by auto
  have "drop (2 * k) (medium l) = medium l ! (2 * k) # medium l ! (2 * k + 1) # drop (2 * Suc k) (medium l)"
    using assms(2) k by (simp add: Cons_nth_drop_Suc)
  then show ?case
    using word_bytes [of "2 * k" "medium l"] assms(2) d1(1) d' k
    by (simp add: medium_word_def del: read_words.simps) (simp only: read_words.simps(2) [of p base "Suc n"], simp)
qed

lemma drive_reg_fields:
  "drive_reg lba AND 0x0F = ucast (drop_bit 24 lba) AND 0x0F" "drive_reg lba AND 0xF0 = 0xE0"
  by (simp_all add: drive_reg_def word_ao_dist and.assoc)

lemma lba_parts:
  assumes "lba < 2 ^ 28"
  shows "push_bit 24 (ucast (drive_reg lba AND 0x0F)) OR push_bit 16 (ucast (ucast (drop_bit 16 lba AND 0xFF) :: u8))
     OR push_bit 8 (ucast (ucast (drop_bit 8 lba AND 0xFF) :: u8)) OR ucast (ucast (lba AND 0xFF) :: u8) = lba"
proof -
  have m: "(0xFF :: u32) = mask 8" "(0x0F :: u8) = mask 4"
    by (simp_all add: mask_eq_exp_minus_1)
  have "lba = take_bit 28 lba"
    using assms by (intro unsigned_word_eqI [where ?'a = nat])
      (simp add: unsigned_take_bit_eq take_bit_nat_eq_self word_less_nat_alt)
  then have hi: "\<not> bit lba n" if "28 \<le> n" for n
    using that by (metis bit_take_bit_iff not_less)
  have "bit (push_bit 24 (ucast (ucast (drop_bit 24 lba) AND mask 4 :: u8)) OR push_bit 16 (ucast (ucast (drop_bit 16 lba AND mask 8) :: u8))
     OR push_bit 8 (ucast (ucast (drop_bit 8 lba AND mask 8) :: u8)) OR ucast (ucast (lba AND mask 8) :: u8) :: u32) n = bit lba n"
    if "n < 32" for n
  proof -
    consider "n < 8" | "8 \<le> n" "n < 16" | "16 \<le> n" "n < 24" | "24 \<le> n" "n < 28" | "28 \<le> n"
      by linarith
    then show ?thesis
      using that by cases (auto simp: bit_simps hi dest: bit_imp_le_length)
  qed
  then show ?thesis
    unfolding drive_reg_fields(1) unfolding m by (intro bit_word_eqI) simp
qed

text \<open>The six register writes of a read command.\<close>

definition issue_read :: "'d ports \<Rightarrow> u16 \<Rightarrow> u32 \<Rightarrow> 'd \<Rightarrow> 'd" where
  "issue_read p base lba d =
     port_outb p (base + REG_STAT) 0x20
      (port_outb p (base + REG_LBA_HI) (ucast (drop_bit 16 lba AND 0xFF))
       (port_outb p (base + REG_LBA_MID) (ucast (drop_bit 8 lba AND 0xFF))
        (port_outb p (base + REG_LBA_LO) (ucast (lba AND 0xFF))
         (port_outb p (base + REG_SECCNT) 1
          (port_outb p (base + REG_DRIVE) (drive_reg lba) d)))))"

lemma write_reg:
  assumes "ata_conforms p base cap medium phase regs" "phase d = Idle" "r \<in> {2, 3, 4, 5, 6}"
  shows "phase (port_outb p (base + r) v d) = Idle" "regs (port_outb p (base + r) v d) = (regs d)(r := v)"
  using assms unfolding ata_conforms_def by blast+

lemma issue_read_busy:
  assumes c: "ata_conforms p base cap medium phase regs" and "phase d = Idle" "lba < cap" "lba < 2 ^ 28"
  shows "\<exists>t<20000. phase (issue_read p base lba d) = Busy lba t"
proof -
  define d1 where "d1 = port_outb p (base + REG_DRIVE) (drive_reg lba) d"
  define d2 where "d2 = port_outb p (base + REG_SECCNT) 1 d1"
  define d3 where "d3 = port_outb p (base + REG_LBA_LO) (ucast (lba AND 0xFF)) d2"
  define d4 where "d4 = port_outb p (base + REG_LBA_MID) (ucast (drop_bit 8 lba AND 0xFF)) d3"
  define d5 where "d5 = port_outb p (base + REG_LBA_HI) (ucast (drop_bit 16 lba AND 0xFF)) d4"
  have w1: "phase d1 = Idle" "regs d1 = (regs d)(REG_DRIVE := drive_reg lba)"
    using write_reg [OF c assms(2), of REG_DRIVE] by (simp_all add: d1_def ata_regs)
  have w2: "phase d2 = Idle" "regs d2 = (regs d1)(REG_SECCNT := 1)"
    using write_reg [OF c w1(1), of REG_SECCNT] by (simp_all add: d2_def ata_regs)
  have w3: "phase d3 = Idle" "regs d3 = (regs d2)(REG_LBA_LO := ucast (lba AND 0xFF))"
    using write_reg [OF c w2(1), of REG_LBA_LO] by (simp_all add: d3_def ata_regs)
  have w4: "phase d4 = Idle" "regs d4 = (regs d3)(REG_LBA_MID := ucast (drop_bit 8 lba AND 0xFF))"
    using write_reg [OF c w3(1), of REG_LBA_MID] by (simp_all add: d4_def ata_regs)
  have w5: "phase d5 = Idle" "regs d5 = (regs d4)(REG_LBA_HI := ucast (drop_bit 16 lba AND 0xFF))"
    using write_reg [OF c w4(1), of REG_LBA_HI] by (simp_all add: d5_def ata_regs)
  have "regs d5 REG_DRIVE = drive_reg lba" "regs d5 REG_SECCNT = 1" "regs d5 REG_LBA_LO = ucast (lba AND 0xFF)"
      "regs d5 REG_LBA_MID = ucast (drop_bit 8 lba AND 0xFF)" "regs d5 REG_LBA_HI = ucast (drop_bit 16 lba AND 0xFF)"
    unfolding w5(2) w4(2) w3(2) w2(2) w1(2) by (simp_all add: ata_regs)
  then have "task_lba (regs d5) = lba" "regs d5 REG_SECCNT = 1" "regs d5 REG_DRIVE AND 0xF0 = 0xE0"
    using lba_parts [OF assms(4)] drive_reg_fields(2) by (simp_all add: task_lba_def)
  with w5(1) c assms(3) have "\<exists>t<20000. phase (port_outb p (base + REG_STAT) 0x20 d5) = Busy lba t"
    unfolding ata_conforms_def by metis
  then show ?thesis
    by (simp add: issue_read_def d1_def d2_def d3_def d4_def d5_def)
qed

lemma read_sector_conforms:
  assumes c: "ata_conforms p (ata_base disk) (ata_capacity disk) medium phase regs"
    and "\<forall>l. length (medium l) = 512" "ata_capacity disk \<le> 2 ^ 28" "phase d = Idle" "lba < ata_capacity disk"
  shows "\<exists>d'. read_sector p disk lba buf d = (True, medium lba, d') \<and> phase d' = Idle"
proof -
  let ?b = "ata_base disk"
  have "lba < 2 ^ 28"
    using assms(3,5) by simp
  obtain d1 where d1: "wait_bs p ?b d = (True, d1)" "phase d1 = Idle"
    using wait_bs_idle [OF c assms(4)] by blast
  obtain t where t: "t < 20000" "phase (issue_read p ?b lba d1) = Busy lba t"
    using issue_read_busy [OF c d1(2) assms(5) \<open>lba < 2 ^ 28\<close>] by blast
  obtain d2 where d2: "wait_bs p ?b (issue_read p ?b lba d1) = (True, d2)" "phase d2 = Stream lba 0"
    using wait_bs_busy [OF c t(2,1)] by (auto simp: wait_bs_def)
  obtain st d3 where d3: "port_inb p (?b + REG_STAT) d2 = (st, d3)" "st AND STATUS_ERR = 0" "phase d3 = Stream lba 0"
    using c d2(2) unfolding ata_conforms_def status_is_def by metis
  obtain d4 where d4: "read_words p ?b (Suc 255) d3 = (drop (2 * 0) (medium lba), d4)" "phase d4 = Idle"
    using read_words_stream [OF c _ d3(3), of 255] assms(2) by auto
  then have rw: "read_words p ?b 256 d3 = (medium lba, d4)"
    by simp
  obtain st' d5 where d5: "port_inb p (?b + REG_STAT) d4 = (st', d5)" "st' AND STATUS_ERR = 0" "phase d5 = Idle"
    using c d4(2) unfolding ata_conforms_def status_is_def by metis
  show ?thesis
    using assms(5) d1(1) d2(1) d3 rw d5 by (simp add: read_sector_def issue_read_def Let_def)
qed

section \<open>Results\<close>

definition medium_dev :: "u32 \<Rightarrow> (u32 \<Rightarrow> bytes) \<Rightarrow> block_dev" where
  "medium_dev cap medium l = (if l < cap then Some (medium l) else None)"

text \<open>
  C17: on a drive that follows the ATA protocol, with a 28-bit capacity, the driver presents the
  medium: from every idle state a sector below the capacity reads as the medium's 512 bytes
  and leaves the drive idle, and every other sector is refused without touching the drive or
  the buffer.  Every operation of the file system through the driver therefore equals the
  operation on the medium, whatever idle state it starts from.
\<close>

theorem ata_driver_presents_medium:
  assumes "ata_conforms p (ata_base disk) (ata_capacity disk) medium phase regs"
    and "\<forall>l. length (medium l) = 512" "ata_capacity disk \<le> 2 ^ 28" "phase d = Idle"
  shows "(\<forall>lba buf. if lba < ata_capacity disk
        then \<exists>d'. read_sector p disk lba buf d = (True, medium lba, d') \<and> phase d' = Idle
        else read_sector p disk lba buf d = (False, buf, d))
    \<and> read_path fs (ata_sector p disk d) path out = read_path fs (medium_dev (ata_capacity disk) medium) path out"
proof -
  have r: "\<exists>d'. read_sector p disk lba buf d = (True, medium lba, d') \<and> phase d' = Idle"
    if "lba < ata_capacity disk" for lba buf
    using read_sector_conforms [OF assms that] by blast
  have n: "read_sector p disk lba buf d = (False, buf, d)" if "\<not> lba < ata_capacity disk" for lba buf
    using that by (simp add: read_sector_def not_less)
  have "ata_sector p disk d = medium_dev (ata_capacity disk) medium"
  proof
    fix l
    show "ata_sector p disk d l = medium_dev (ata_capacity disk) medium l"
      using r [of l "replicate 512 0"] n [of l "replicate 512 0"]
      by (cases "l < ata_capacity disk") (auto simp: ata_sector_def medium_dev_def)
  qed
  with r n show ?thesis
    by auto
qed

text \<open>A simulated drive with 100 sectors that is busy for two status reads.\<close>

record sim_drive =
  sim_phase :: ata_phase
  sim_regs :: "u16 \<Rightarrow> u8"

definition sim_medium :: "u32 \<Rightarrow> bytes" where
  "sim_medium l = replicate 512 (ucast l)"

definition sim_ports :: "sim_drive ports" where
  "sim_ports = \<lparr>
     port_outb = (\<lambda>port v d. if port - 0x1F0 = 7 then d\<lparr>sim_phase := Busy (task_lba (sim_regs d)) 2\<rparr>
       else d\<lparr>sim_regs := (sim_regs d)(port - 0x1F0 := v)\<rparr>),
     port_inb = (\<lambda>port d. case sim_phase d of
         Busy l (Suc t) \<Rightarrow> (0x80, d\<lparr>sim_phase := Busy l t\<rparr>)
       | Busy l 0 \<Rightarrow> (0x58, d\<lparr>sim_phase := Stream l 0\<rparr>)
       | _ \<Rightarrow> (0x50, d)),
     port_inw = (\<lambda>port d. case sim_phase d of
         Stream l k \<Rightarrow> (medium_word sim_medium l k, d\<lparr>sim_phase := (if k = 255 then Idle else Stream l (Suc k))\<rparr>)
       | _ \<Rightarrow> (0, d))\<rparr>"

lemma sim_conforms: "ata_conforms sim_ports 0x1F0 100 sim_medium sim_phase sim_regs"
  unfolding ata_conforms_def status_is_def STATUS_BSY_def STATUS_ERR_def
  by (intro conjI) (auto simp: sim_ports_def ata_regs)

theorem ata_driver_presents_medium_witness:
  "ata_sector sim_ports \<lparr>ata_base = 0x1F0, ata_capacity = 100\<rparr> \<lparr>sim_phase = Idle, sim_regs = (\<lambda>_. 0)\<rparr> 42
   = Some (replicate 512 42)"
proof -
  let ?disk = "\<lparr>ata_base = 0x1F0, ata_capacity = 100\<rparr>" and ?d = "\<lparr>sim_phase = Idle, sim_regs = (\<lambda>_. 0)\<rparr>"
  have h: "\<forall>l. length (sim_medium l) = 512" "ata_capacity ?disk \<le> 2 ^ 28" "sim_phase ?d = Idle"
    by (simp_all add: sim_medium_def)
  have c: "ata_conforms sim_ports (ata_base ?disk) (ata_capacity ?disk) sim_medium sim_phase sim_regs"
    using sim_conforms by simp
  have "\<exists>d'. read_sector sim_ports ?disk 42 (replicate 512 0) ?d = (True, sim_medium 42, d') \<and> sim_phase d' = Idle"
    using ata_driver_presents_medium [OF c h, THEN conjunct1, THEN spec [of _ "42 :: u32"],
        THEN spec [of _ "replicate 512 0"]] by simp
  then show ?thesis
    by (auto simp: ata_sector_def sim_medium_def)
qed

end
