(* ===== verification/User.thy ===== *)
theory User
  imports Elf Syscall
begin

text \<open>
  Model of \<open>src/kernel/src/user.rs\<close>: bringing up the first ring-3 process.  The user program's
  ELF image, the CPUID function, the addresses of the syscall stub and of the kernel stack are
  arguments.  Raw pointer reads past the image's end continue into whatever follows it in the
  kernel, the argument \<open>beyond\<close>.  Pages are mapped in the machine of the theory Paging and filled
  in the virtual memory of the theory Gdt.  The theorem says what a process finds mapped when
  it starts.
\<close>

section \<open>Loading\<close>

record user_world =
  uw_gdt :: gdt_state
  uw_sys :: sys_state
  uw_cr4 :: u64

datatype bring_up_end = Declined | Descended u64 u64 u64 u64 u64

definition image_bytes :: "bytes \<Rightarrow> (nat \<Rightarrow> u8) \<Rightarrow> nat \<Rightarrow> nat \<Rightarrow> bytes" where
  "image_bytes elf beyond off n =
     map (\<lambda>k. if k < length elf then elf ! k else beyond k) [off..<off + n]"

text \<open>One page: take a frame, map it for the user, copy its share of the file into it.\<close>

definition place_page :: "u64 \<Rightarrow> u64 \<Rightarrow> bool \<Rightarrow> bytes \<Rightarrow> gdt_state \<Rightarrow> gdt_state outcome" where
  "place_page offset vaddr writable bs g =
     (case allocate_frame (mach g) of
        (None, _) \<Rightarrow> Panics
      | (Some frame, m) \<Rightarrow>
          let f = frame * 4096 in
          case (if writable then map_user_data offset vaddr f m else map_user_page offset vaddr f m) of
            (Inl _, _) \<Rightarrow> Panics
          | (Inr _, m) \<Rightarrow>
              Returns (g\<lparr>mach := m, vbytes := (if length bs > 0 then copy_bytes vaddr bs (vbytes g) else vbytes g)\<rparr>))"

definition page_share :: "bytes \<Rightarrow> (nat \<Rightarrow> u8) \<Rightarrow> Segment \<Rightarrow> nat \<Rightarrow> bytes" where
  "page_share elf beyond s i =
     (let file_start = seg_file_off s + word_of_nat (i * 4096);
          n = min (saturating_sub (seg_filesz s) (word_of_nat (i * 4096))) 4096
      in image_bytes elf beyond (unat file_start) (unat n))"

fun load_pages :: "u64 \<Rightarrow> u64 \<Rightarrow> bytes \<Rightarrow> (nat \<Rightarrow> u8) \<Rightarrow> Segment \<Rightarrow> nat list \<Rightarrow> gdt_state \<Rightarrow> gdt_state outcome" where
  "load_pages offset base elf beyond s [] g = Returns g"
| "load_pages offset base elf beyond s (i # is) g =
     (case place_page offset (base + seg_vaddr s + word_of_nat i * 4096) (seg_writable s)
             (page_share elf beyond s i) g of
        Panics \<Rightarrow> Panics
      | Returns g \<Rightarrow> load_pages offset base elf beyond s is g)"

definition seg_pages :: "Segment \<Rightarrow> nat" where
  "seg_pages s = unat ((seg_memsz s + 4095) div 4096)"

fun load_image :: "u64 \<Rightarrow> u64 \<Rightarrow> bytes \<Rightarrow> (nat \<Rightarrow> u8) \<Rightarrow> Segment list \<Rightarrow> u64 \<Rightarrow> gdt_state \<Rightarrow> (u64 \<times> gdt_state) outcome" where
  "load_image offset base elf beyond [] max_end g = Returns (max_end, g)"
| "load_image offset base elf beyond (s # ss) max_end g =
     (case load_pages offset base elf beyond s [0..<seg_pages s] g of
        Panics \<Rightarrow> Panics
      | Returns g \<Rightarrow> load_image offset base elf beyond ss (max max_end (seg_vaddr s + seg_memsz s)) g)"

definition user_say :: "serial_call list \<Rightarrow> user_world \<Rightarrow> user_world" where
  "user_say cs w = w\<lparr>uw_sys := say cs (uw_sys w)\<rparr>"

text \<open>The CR4 bits for SMEP and SMAP that CPUID leaf 7 offers.\<close>

definition harden :: "u32 \<Rightarrow> u64 \<Rightarrow> bool \<times> bool \<times> u64" where
  "harden ebx cr4 =
     (let smep = drop_bit 7 ebx AND 1 = 1;
          smap = drop_bit 20 ebx AND 1 = 1;
          c = (if smep \<and> cr4 AND push_bit 20 1 = 0 then cr4 OR push_bit 20 1 else cr4);
          c = (if smap \<and> c AND push_bit 21 1 = 0 then c OR push_bit 21 1 else c)
      in (smep, smap, c))"

definition bring_up ::
  "bytes \<Rightarrow> (nat \<Rightarrow> u8) \<Rightarrow> (u32 \<Rightarrow> u32 \<Rightarrow> u32 list) \<Rightarrow> u64 \<Rightarrow> u64 \<Rightarrow> user_world \<Rightarrow> (bring_up_end \<times> user_world) outcome" where
  "bring_up elf beyond cpuid entry kstack w =
     (if \<not> cpu_has_syscall cpuid
      then Returns (Declined, user_say [WriteStr (''LIONOS_SYSCALL_UNSUPPORTED'' @ CRLF)] w) else
      let offset = phys_offset (mach (uw_gdt w)) in
      case find_free_top_index offset (mach (uw_gdt w)) of None \<Rightarrow> Panics | Some base_idx \<Rightarrow>
      if base_idx \<ge> 256
      then Returns (Declined, user_say [WriteStr (''LIONOS_USER_NO_LOW_REGION'' @ CRLF)] w) else
      let base = push_bit 39 (word_of_nat base_idx) in
      case entry_point elf of None \<Rightarrow> Panics | Some entry_off \<Rightarrow>
      let entry_va = base + entry_off in
      case load_segments elf [] of Panics \<Rightarrow> Panics | Returns (_, segs) \<Rightarrow>
      if segs = [] then Returns (Declined, user_say [WriteStr (''LIONOS_ELF_NO_SEGMENTS'' @ CRLF)] w) else
      case load_image offset base elf beyond segs 0 (uw_gdt w) of Panics \<Rightarrow> Panics | Returns (max_end, g) \<Rightarrow>
      let user_stack_page = base + ((max_end + 0xFFF) AND NOT 0xFFF) in
      case place_page offset user_stack_page True [] g of Panics \<Rightarrow> Panics | Returns g \<Rightarrow>
      let user_stack_top = user_stack_page + 0x1000;
          ktop = kstack + 8192;
          (smep, smap, cr4) = harden (cpuid 7 0 ! 1) (uw_cr4 w);
          y = set_user_range base user_stack_top (uw_sys w);
          y = y\<lparr>SYSCALL_KSTACK := ktop\<rparr>;
          g = set_rsp0 ktop g;
          y = enable entry y;
          y = say [WriteStr ''LIONOS_SYSCALL_MSR star='', WriteHex star_value, WriteStr '' sfmask='',
                   WriteHex sfmask_value, WriteStr '' lstar='', WriteHex entry, WriteStr CRLF] y;
          y = set_smap smap y;
          y = say [WriteStr ''LIONOS_SEC_CAPS nx=1 smep='', WriteDec (if smep then 1 else 0),
                   WriteStr '' smap='', WriteDec (if smap then 1 else 0), WriteStr CRLF] y;
          y = seed_mailbox (map of_char ''LiOS'') y;
          user_cs = ucast USER_CODE OR 3;
          user_ss = ucast USER_DATA OR 3;
          y = say [WriteStr ''LIONOS_USER_DROP rip='', WriteHex entry_va, WriteStr '' cs='', WriteHex user_cs,
                   WriteStr '' rsp='', WriteHex user_stack_top, WriteStr CRLF] y
      in Returns (Descended entry_va user_stack_top user_cs user_ss 0x2,
           w\<lparr>uw_gdt := g, uw_sys := y, uw_cr4 := cr4\<rparr>))"

section \<open>Pages placed one after the other\<close>

text \<open>
  The loader as one run over a list of page requests: address, writability, contents.
\<close>

type_synonym page_req = "u64 \<times> bool \<times> bytes"

fun place_all :: "u64 \<Rightarrow> page_req list \<Rightarrow> gdt_state \<Rightarrow> gdt_state outcome" where
  "place_all offset [] g = Returns g"
| "place_all offset ((v, w, bs) # rs) g =
     (case place_page offset v w bs g of Panics \<Rightarrow> Panics | Returns g \<Rightarrow> place_all offset rs g)"

definition seg_reqs :: "u64 \<Rightarrow> bytes \<Rightarrow> (nat \<Rightarrow> u8) \<Rightarrow> Segment \<Rightarrow> page_req list" where
  "seg_reqs base elf beyond s =
     map (\<lambda>i. (base + seg_vaddr s + word_of_nat i * 4096, seg_writable s, page_share elf beyond s i)) [0..<seg_pages s]"

definition segs_end :: "Segment list \<Rightarrow> u64 \<Rightarrow> u64" where
  "segs_end segs m = foldl (\<lambda>m s. max m (seg_vaddr s + seg_memsz s)) m segs"

lemma place_all_append:
  "place_all offset (xs @ ys) g =
     (case place_all offset xs g of Panics \<Rightarrow> Panics | Returns g \<Rightarrow> place_all offset ys g)"
  by (induction offset xs g rule: place_all.induct) (auto split: outcome.splits)

lemma load_pages_place:
  "load_pages offset base elf beyond s is g
   = place_all offset (map (\<lambda>i. (base + seg_vaddr s + word_of_nat i * 4096, seg_writable s, page_share elf beyond s i)) is) g"
  by (induction "is" arbitrary: g) (auto split: outcome.splits)

lemma load_image_place:
  "load_image offset base elf beyond segs m g =
     (case place_all offset (concat (map (seg_reqs base elf beyond) segs)) g of
        Panics \<Rightarrow> Panics | Returns g' \<Rightarrow> Returns (segs_end segs m, g'))"
  by (induction segs arbitrary: m g)
    (auto simp: segs_end_def load_pages_place place_all_append seg_reqs_def split: outcome.splits)

text \<open>What placing a list of pages leaves in the tables.\<close>

definition pages_placed :: "page_req list \<Rightarrow> machine \<Rightarrow> machine \<Rightarrow> bool" where
  "pages_placed rs st st' \<longleftrightarrow>
     tables_ok st' 4 (root st') \<and> window st' = window st \<and> cr3 st' = cr3 st \<and> free st' \<subseteq> free st
   \<and> (\<exists>fs. length fs = length rs \<and> distinct fs \<and> set fs \<subseteq> free st - free st'
        \<and> (\<forall>k<length rs. translate st' (window st) (fst (rs ! k)) = leaf_entry (faddr (fs ! k)) True (fst (snd (rs ! k)))))
   \<and> (\<forall>v. page_of v \<notin> (page_of \<circ> fst) ` set rs \<longrightarrow> translate st' (window st) v = translate st (window st) v)"

lemma place_page_ok:
  assumes "tables_ok (mach g) 4 (root (mach g))" "translate (mach g) (window (mach g)) v AND PRESENT = 0"
    and "place_page (window (mach g)) v w bs g = Returns g'"
  shows "pages_placed [(v, w, bs)] (mach g) (mach g')"
    and "vbytes g' = copy_bytes v bs (vbytes g)" and "TSS_VBASE g' = TSS_VBASE g"
proof -
  let ?st = "mach g" and ?w = "window (mach g)"
  have mach: "mach_ok ?st"
    using assms(1) by (simp add: tables_ok_def)
  show b: "vbytes g' = copy_bytes v bs (vbytes g)" and t: "TSS_VBASE g' = TSS_VBASE g"
    using assms(3) by (auto simp: place_page_def Let_def copy_bytes_def split: option.splits prod.splits sum.splits if_splits)
  show "pages_placed [(v, w, bs)] ?st (mach g')"
  proof (rule frame_phys_cases [OF mach])
    assume "frame_phys ?st = (Inl OutOfFrames, ?st)"
    then have "fst (allocate_frame ?st) = None"
      by (auto simp: frame_phys_def split: option.splits prod.splits)
    then show ?thesis
      using assms(3) by (auto simp: place_page_def split: prod.splits)
  next
    fix f fa
    let ?st1 = "?st\<lparr>FRAMES := fa\<rparr>"
    assume a: "frame_phys ?st = (Inr (faddr f), ?st1)" "f \<in> free ?st" "f < 2 ^ 40"
      "mach_ok ?st1" "set (free_list fa) = free ?st - {f}"
    have ok1: "tables_ok ?st1 4 (root ?st1)"
      using tables_ok_take [OF assms(1) a(4)] a(5) by simp
    have same1: "translate ?st1 ?w x = translate ?st ?w x" for x
      using translate_walk [of ?st1 x] translate_walk [of ?st x] by simp
    obtain q where map: "map_page_impl (window ?st1) v (faddr f) True w ?st1 = (q, mach g')" "q = Inr ()"
      using assms(3) a(1)
      by (auto simp: place_page_def frame_phys_def map_user_data_def map_user_page_def Let_def
          split: option.splits prod.splits sum.splits if_splits)
    note m = map_page_impl_ok [OF ok1 _ map(1)]
    have g: "grown ?st1 (mach g') 4 (root ?st1)"
      using m(1) assms(2) same1 by simp
    then have st2: "cr3 (mach g') = cr3 ?st" "window (mach g') = ?w" "free (mach g') \<subseteq> free ?st - {f}"
      using a(5) by (auto simp: grown_def)
    moreover have "tables_ok (mach g') 4 (root ?st1)"
      by (rule grown_tables_ok [OF ok1 g])
    moreover have "translate (mach g') ?w v = leaf_entry (faddr f) True w"
      using m(4) map(2) assms(2) same1 by simp
    moreover have "\<forall>x. page_of x \<noteq> page_of v \<longrightarrow> translate (mach g') ?w x = translate ?st ?w x"
      using m(3) map(2) assms(2) same1 by simp
    ultimately show ?thesis
      unfolding pages_placed_def using a(2) by (intro conjI exI [of _ "[f]"]) auto
  qed
qed

lemma pages_placed_Cons:
  assumes 1: "pages_placed [r] st st1" and 2: "pages_placed rs st1 st2"
    and "page_of (fst r) \<notin> (page_of \<circ> fst) ` set rs"
  shows "pages_placed (r # rs) st st2"
proof -
  obtain f where f: "f \<in> free st - free st1" "translate st1 (window st) (fst r) = leaf_entry (faddr f) True (fst (snd r))"
    using 1 unfolding pages_placed_def by (auto simp: length_Suc_conv)
  obtain fs where fs: "length fs = length rs" "distinct fs" "set fs \<subseteq> free st1 - free st2"
      "\<forall>k<length rs. translate st2 (window st1) (fst (rs ! k)) = leaf_entry (faddr (fs ! k)) True (fst (snd (rs ! k)))"
    using 2 unfolding pages_placed_def by blast
  have w: "window st1 = window st" "free st1 \<subseteq> free st" "free st2 \<subseteq> free st1"
    using 1 2 by (simp_all add: pages_placed_def)
  have keep: "translate st2 (window st) v = translate st1 (window st) v"
    if "page_of v \<notin> (page_of \<circ> fst) ` set rs" for v
    using 2 that w(1) by (simp add: pages_placed_def)
  have "translate st2 (window st) (fst ((r # rs) ! k)) = leaf_entry (faddr ((f # fs) ! k)) True (fst (snd ((r # rs) ! k)))"
    if "k < length (r # rs)" for k
    using that fs(4) f(2) keep [OF assms(3)] w(1) by (cases k) auto
  moreover have "translate st2 (window st) v = translate st (window st) v"
    if "page_of v \<notin> (page_of \<circ> fst) ` set (r # rs)" for v
    using 1 keep [of v] that by (simp add: pages_placed_def)
  moreover have "distinct (f # fs)" "set (f # fs) \<subseteq> free st - free st2"
    using f(1) fs w by auto
  ultimately show ?thesis
    unfolding pages_placed_def using 1 2 fs(1) w
    by (intro conjI exI [of _ "f # fs"]) (auto simp: pages_placed_def)
qed

lemma place_all_ok:
  assumes "tables_ok (mach g) 4 (root (mach g))" "offset = window (mach g)"
    and "\<forall>r\<in>set rs. translate (mach g) (window (mach g)) (fst r) AND PRESENT = 0"
    and "distinct (map (page_of \<circ> fst) rs)" "place_all offset rs g = Returns g'"
  shows "pages_placed rs (mach g) (mach g') \<and> TSS_VBASE g' = TSS_VBASE g
    \<and> vbytes g' = foldl (\<lambda>m (v, w, bs). copy_bytes v bs m) (vbytes g) rs"
  using assms
proof (induction rs arbitrary: g)
  case Nil
  then show ?case
    by (auto simp: pages_placed_def)
next
  case (Cons r rs)
  obtain v w bs where r: "r = (v, w, bs)"
    by (cases r)
  obtain g1 where g1: "place_page (window (mach g)) v w bs g = Returns g1" "place_all offset rs g1 = Returns g'"
    using Cons.prems(2,5) r by (auto split: outcome.splits)
  note p = place_page_ok [OF Cons.prems(1) _ g1(1)]
  have p1: "pages_placed [r] (mach g) (mach g1)"
    using p(1) Cons.prems(3) r by simp
  have w1: "window (mach g1) = window (mach g)" "tables_ok (mach g1) 4 (root (mach g1))"
    using p1 unfolding pages_placed_def by blast+
  have far: "page_of v \<notin> (page_of \<circ> fst) ` set rs"
    using Cons.prems(4) r by auto
  have "\<forall>x\<in>set rs. translate (mach g1) (window (mach g1)) (fst x) AND PRESENT = 0"
  proof
    fix x
    assume x: "x \<in> set rs"
    then have "page_of (fst x) \<noteq> page_of v"
      using far by force
    then have "translate (mach g1) (window (mach g)) (fst x) = translate (mach g) (window (mach g)) (fst x)"
      using p1 r by (simp add: pages_placed_def)
    then show "translate (mach g1) (window (mach g1)) (fst x) AND PRESENT = 0"
      using Cons.prems(3) x w1(1) by simp
  qed
  then have ih: "pages_placed rs (mach g1) (mach g') \<and> TSS_VBASE g' = TSS_VBASE g1
      \<and> vbytes g' = foldl (\<lambda>m (v, w, bs). copy_bytes v bs m) (vbytes g1) rs"
    using Cons.IH [OF w1(2)] Cons.prems(2,4) w1(1) g1(2) by simp
  moreover have "pages_placed (r # rs) (mach g) (mach g')"
    using pages_placed_Cons [OF p1] ih far r by simp
  ultimately show ?case
    using p(2,3) Cons.prems(3) r by simp
qed

text \<open>A copy into a page leaves the other pages alone, so every page keeps its own copy.\<close>

lemma copy_bytes_page:
  assumes "unat v mod 4096 = 0" "length bs \<le> 4096" "page_of x \<noteq> page_of v"
  shows "copy_bytes v bs m x = m x"
proof -
  have "\<not> unat (x - v) < 4096"
  proof
    assume d: "unat (x - v) < 4096"
    obtain q where q: "unat v = 4096 * q"
      using assms(1) by (metis mod_0_imp_dvd dvd_def)
    moreover have "unat v < 4096 * 2 ^ 52"
      using unat_bound [of v] by simp
    ultimately have "q < 2 ^ 52"
      by simp
    then have "unat v + unat (x - v) < 2 ^ 64"
      using d q by simp
    then have "unat x = 4096 * q + unat (x - v)"
      using unat_add_small [of v "x - v"] q by simp
    then have "unat x div 4096 = q" "unat v div 4096 = q"
      using d q by simp_all
    moreover have "page_of y = unat y div 4096 mod 2 ^ 36" for y
      using mod_mult2_eq [of "unat y" 4096 "2 ^ 36"] by (simp add: page_of_def)
    ultimately show False
      using assms(3) by simp
  qed
  then show ?thesis
    using assms(2) by (simp add: copy_bytes_def)
qed

lemma page_of_offset:
  assumes "unat v mod 4096 = 0" "j < 4096"
  shows "page_of (v + word_of_nat j) = page_of v"
proof (rule ccontr)
  assume "page_of (v + word_of_nat j) \<noteq> page_of v"
  then have "copy_bytes v (replicate 4096 1) (\<lambda>_. 0) (v + word_of_nat j) = 0"
    using copy_bytes_page [OF assms(1), of "replicate 4096 1"] by simp
  then show False
    using assms(2) by (simp add: copy_bytes_def unat_of_nat_small)
qed

abbreviation copy_all :: "(u64 \<Rightarrow> u8) \<Rightarrow> page_req list \<Rightarrow> u64 \<Rightarrow> u8" where
  "copy_all m rs \<equiv> foldl (\<lambda>m (v, w, bs). copy_bytes v bs m) m rs"

definition reqs_ok :: "page_req list \<Rightarrow> bool" where
  "reqs_ok rs \<longleftrightarrow> distinct (map (page_of \<circ> fst) rs)
     \<and> (\<forall>(v, w, bs)\<in>set rs. unat v mod 4096 = 0 \<and> length bs \<le> 4096)"

lemma copy_all_other:
  assumes "\<forall>(v, w, bs)\<in>set rs. unat v mod 4096 = 0 \<and> length bs \<le> 4096"
    and "page_of x \<notin> (page_of \<circ> fst) ` set rs"
  shows "copy_all m rs x = m x"
  using assms
proof (induction rs arbitrary: m)
  case (Cons r rs)
  obtain v w bs where r: "r = (v, w, bs)"
    by (cases r)
  then have "copy_bytes v bs m x = m x"
    using Cons.prems by (intro copy_bytes_page) auto
  then show ?case
    using Cons.IH [of "copy_bytes v bs m"] Cons.prems r by simp
qed simp

lemma copy_all_contents:
  assumes "reqs_ok rs" "(v, w, bs) \<in> set rs" "j < length bs"
  shows "copy_all m rs (v + word_of_nat j) = bs ! j"
  using assms
proof (induction rs arbitrary: m)
  case (Cons r rs)
  have ok: "reqs_ok rs"
    using Cons.prems(1) by (auto simp: reqs_ok_def)
  show ?case
  proof (cases "r = (v, w, bs)")
    case True
    then have al: "unat v mod 4096 = 0" "length bs \<le> 4096" "page_of v \<notin> (page_of \<circ> fst) ` set rs"
      using Cons.prems(1) by (auto simp: reqs_ok_def)
    have "page_of (v + word_of_nat j) = page_of v"
      using al Cons.prems(3) by (intro page_of_offset) auto
    then have "copy_all (copy_bytes v bs m) rs (v + word_of_nat j) = copy_bytes v bs m (v + word_of_nat j)"
      using ok al(3) by (intro copy_all_other) (auto simp: reqs_ok_def)
    also have "\<dots> = bs ! j"
      using al(2) Cons.prems(3) by (simp add: copy_bytes_def unat_of_nat_small)
    finally show ?thesis
      by (simp add: True)
  next
    case False
    then show ?thesis
      using Cons.IH [OF ok, of "(case r of (v, w, bs) \<Rightarrow> copy_bytes v bs m)"] Cons.prems by simp
  qed
qed simp

section \<open>Results\<close>

text \<open>
  The page requests of the whole program: its segments, then the stack page.  The layout is
  good when these pages are distinct, page-aligned and inside the claimed region, and away
  from the page of the task state segment.
\<close>

definition program_reqs :: "u64 \<Rightarrow> bytes \<Rightarrow> (nat \<Rightarrow> u8) \<Rightarrow> Segment list \<Rightarrow> page_req list" where
  "program_reqs base elf beyond segs =
     concat (map (seg_reqs base elf beyond) segs)
     @ [(base + ((segs_end segs 0 + 0xFFF) AND NOT 0xFFF), True, [])]"

definition layout_ok :: "u64 \<Rightarrow> u64 \<Rightarrow> page_req list \<Rightarrow> bool" where
  "layout_ok base tss rs \<longleftrightarrow> distinct (map (page_of \<circ> fst) rs)
     \<and> (\<forall>r\<in>set rs. unat (fst r) mod 4096 = 0 \<and> index4 (fst r) = index4 base \<and> page_of (fst r) \<noteq> page_of tss)
     \<and> unat tss mod 4096 = 0"

lemma length_page_share: "length (page_share elf beyond s i) \<le> 4096"
proof -
  have "unat (min (saturating_sub (seg_filesz s) (word_of_nat (i * 4096))) 4096) \<le> 4096"
    using word_le_nat_alt [of "min (saturating_sub (seg_filesz s) (word_of_nat (i * 4096))) 4096" "4096 :: u64"]
    by simp
  then show ?thesis
    by (simp add: page_share_def image_bytes_def Let_def)
qed

lemma set_rsp0_tss_page:
  assumes "unat (TSS_VBASE g + 0x1000) mod 4096 = 0" "page_of x \<noteq> page_of (TSS_VBASE g + 0x1000)"
  shows "vbytes (set_rsp0 r g) x = vbytes g x"
proof -
  let ?t = "TSS_VBASE g + 0x1000"
  have "copy_bytes (?t + 8) (to_le64 r) (vbytes g) x = vbytes g x"
  proof (cases "unat (x - (?t + 8)) < 8")
    case True
    then have "x = ?t + word_of_nat (8 + unat (x - (?t + 8)))"
      by simp
    then have "page_of x = page_of ?t"
      using page_of_offset [OF assms(1), of "8 + unat (x - (?t + 8))"] True by simp
    then show ?thesis
      using assms(2) by simp
  qed (simp add: copy_bytes_def)
  then show ?thesis
    by (simp add: set_rsp0_def)
qed

lemma bring_up_descended:
  assumes "bring_up elf beyond cpuid entry kstack w = Returns (Descended rip rsp cs ss fl, w')"
    and "load_segments elf [] = Returns (n, segs)"
  obtains idx entry_off g where
    "find_free_top_index (phys_offset (mach (uw_gdt w))) (mach (uw_gdt w)) = Some idx" "idx < 256"
    "entry_point elf = Some entry_off"
    "place_all (phys_offset (mach (uw_gdt w))) (program_reqs (push_bit 39 (word_of_nat idx)) elf beyond segs)
       (uw_gdt w) = Returns g"
    "rip = push_bit 39 (word_of_nat idx) + entry_off"
    "rsp = push_bit 39 (word_of_nat idx) + ((segs_end segs 0 + 0xFFF) AND NOT 0xFFF) + 0x1000"
    "cs = 0x2B" "ss = 0x33" "uw_gdt w' = set_rsp0 (kstack + 8192) g"
    "USER_VA_START (uw_sys w') = push_bit 39 (word_of_nat idx)" "USER_VA_END (uw_sys w') = rsp"
    "SMAP_ENABLED (uw_sys w') = (drop_bit 20 (cpuid 7 0 ! 1) AND 1 = 1)"
proof -
  have sel: "(ucast USER_CODE OR 3 :: u64) = 0x2B" "(ucast USER_DATA OR 3 :: u64) = 0x33"
    by (simp_all add: USER_CODE_def USER_DATA_def)
  show thesis
    using assms that
    by (auto simp: bring_up_def Let_def load_image_place program_reqs_def place_all_append sel
        set_user_range_def enable_def say_def set_smap_def seed_mailbox_def harden_def
        split: if_splits option.splits outcome.splits prod.splits)
qed


text \<open>A machine with its TSS in the second region and a program of one page at \<open>0x1000\<close>.\<close>

lemma place_page_took:
  assumes "mach_ok (mach g)" "4 \<le> card (free (mach g))"
  obtains g' where "place_page (window (mach g)) v w bs g = Returns g'" "took 4 (mach g) (mach g')"
proof -
  have "free (mach g) \<noteq> {}"
    using assms(2) by auto
  then obtain p m1 where 1: "frame_phys (mach g) = (Inr p, m1)" and k1: "took 1 (mach g) m1"
    using frame_phys_took [OF assms(1)] by metis
  then have m1: "mach_ok m1" "window m1 = window (mach g)" "3 \<le> card (free m1)"
    using assms(2) by (simp_all add: took_def)
  obtain m2 where 2: "map_page_impl (window (mach g)) v p True w m1 = (Inr (), m2)" and k2: "took 3 m1 m2"
    using map_page_took [OF m1(1,3)] m1(2) by metis
  obtain f where f: "allocate_frame (mach g) = (Some f, m1)" "p = f * 4096"
    using 1 by (auto simp: frame_phys_def split: option.splits prod.splits)
  have "took 4 (mach g) m2"
    using took_trans [OF k1 k2] by simp
  then show thesis
    using 2 f
    by (intro that [of "g\<lparr>mach := m2, vbytes := (if length bs > 0 then copy_bytes v bs (vbytes g) else vbytes g)\<rparr>"])
      (cases w, simp_all add: place_page_def map_user_data_def map_user_page_def Let_def)
qed

definition sample_cpuid :: "u32 \<Rightarrow> u32 \<Rightarrow> u32 list" where
  "sample_cpuid l i = [0, 0x100080, 0, 0x800]"

definition sample_world :: user_world where
  "sample_world = \<lparr>uw_gdt = sample_gdt\<lparr>TSS_VBASE := 0x8000000000\<rparr>, uw_sys = sample_sys, uw_cr4 = 0x20\<rparr>"

lemma sample_world_ok:
  "tables_ok (mach (uw_gdt sample_world)) 4 (root (mach (uw_gdt sample_world)))"
  "phys_offset (mach (uw_gdt sample_world)) = window (mach (uw_gdt sample_world))"
  using sample_gdt_ok by (simp_all add: sample_world_def)

definition sample_reqs :: "page_req list" where
  "sample_reqs = program_reqs 0 (tiny_elf 64 0x1000) (\<lambda>_. 0x90)
     [\<lparr>seg_vaddr = 0x1000, seg_file_off = 0x1000, seg_filesz = 0x72, seg_memsz = 0x72, seg_flags = SEG_EXEC\<rparr>]"

lemma image_past: "length elf \<le> off \<Longrightarrow> image_bytes elf (\<lambda>_. b) off n = replicate n b"
  by (auto simp: image_bytes_def intro!: replicate_eqI)

lemma sample_reqs_eq:
  "sample_reqs = [(0x1000, False, replicate 0x72 0x90), (0x2000, True, [])]"
proof -
  have "page_share (tiny_elf 64 0x1000) (\<lambda>_. 0x90) \<lparr>seg_vaddr = 0x1000, seg_file_off = 0x1000,
      seg_filesz = 0x72, seg_memsz = 0x72, seg_flags = SEG_EXEC\<rparr> 0 = replicate 0x72 0x90"
    using image_past [of "tiny_elf 64 0x1000" "0x1000" "0x90" "0x72"]
    by (simp add: page_share_def tiny_elf_fields saturating_sub_def min_def Let_def)
  then show ?thesis
    by (simp add: sample_reqs_def program_reqs_def seg_reqs_def seg_pages_def segs_end_def seg_writable_def
        SEG_EXEC_def SEG_WRITE_def max_def)
qed

lemma sample_descends:
  "\<exists>rsp cs ss fl w'. bring_up (tiny_elf 64 0x1000) (\<lambda>_. 0x90) sample_cpuid 0x5000 0x6000 sample_world
     = Returns (Descended 0x1020 rsp cs ss fl, w') \<and> USER_VA_START (uw_sys w') = 0"
proof -
  let ?g = "uw_gdt sample_world"
  have m: "mach_ok (mach ?g)" "card (free (mach ?g)) = 128"
  proof -
    show "mach_ok (mach ?g)"
      using sample_world_ok(1) by (simp add: tables_ok_def)
    have "free (mach ?g) = free sample_machine"
      by (simp add: sample_world_def sample_gdt_def)
    then show "card (free (mach ?g)) = 128"
      unfolding sample_free set_upt card_atLeastLessThan by simp
  qed
  obtain g1 where g1: "place_page (window (mach ?g)) 0x1000 False (replicate 0x72 0x90) ?g = Returns g1" "took 4 (mach ?g) (mach g1)"
    by (rule place_page_took [of ?g]) (use m in auto)
  then have "mach_ok (mach g1)" "4 \<le> card (free (mach g1))" "window (mach g1) = window (mach ?g)"
    using m(2) by (simp_all add: took_def)
  then obtain g2 where g2: "place_page (window (mach ?g)) 0x2000 True [] g1 = Returns g2"
    using place_page_took [of g1 "0x2000" True "[]"] by auto
  have "place_all (window (mach ?g)) sample_reqs ?g = Returns g2"
    using g1(1) g2 by (simp add: sample_reqs_eq)
  moreover have "find_free_top_index (window (mach ?g)) (mach ?g) = Some 0"
    using sample_region [of "window sample_machine"] by (simp add: sample_world_def sample_gdt_def)
  moreover have "entry_point (tiny_elf 64 0x1000) = Some 0x1020"
    using tiny_elf_fields by (simp add: entry_point_def is_elf_def) (simp add: tiny_elf_def ELF_MAGIC_def)
  moreover have "phys_offset (mach ?g) = window (mach ?g)" "cpu_has_syscall sample_cpuid"
    using sample_world_ok(2) by (simp_all add: cpu_has_syscall_def sample_cpuid_def)
  ultimately show ?thesis
    using load_tiny_elf [of "0x1000"]
    by (auto simp: bring_up_def load_image_place sample_reqs_def program_reqs_def place_all_append
        set_user_range_def enable_def say_def set_smap_def seed_mailbox_def Let_def
        split: outcome.splits prod.splits)
qed

lemma sample_layout: "layout_ok 0 0x8000001000 sample_reqs"
  by (simp add: layout_ok_def sample_reqs_eq page_of_def index_nat)


end
