(* ===== verification/Boot.thy ===== *)
theory Boot
  imports Gdt Heap
begin

text \<open>
  Model of the memory bring-up: the first half of \<open>kernel_main\<close> in \<open>src/kernel/src/main.rs\<close>
  (memory map, frame allocator, page-table takeover and its self test), \<open>gdt::setup\<close> and
  \<open>heap::init_heap\<close>, in the order \<open>kernel_main\<close> runs them.  The boot loader's memory map, the
  offset of its window and the link address \<open>_end\<close> are arguments.  The theorem composes the
  validator, the allocator, the page tables, the descriptor tables and the heap: it says
  which memory the kernel owns when the heap comes up.
\<close>

section \<open>Model\<close>

datatype MemoryRegionKind = BootUsable | Bootloader | UnknownUefi u32 | UnknownBios u32 | UnlistedKind

fun to_kind :: "MemoryRegionKind \<Rightarrow> RegionKind" where
  "to_kind BootUsable = Usable"
| "to_kind Bootloader = Reserved"
| "to_kind (UnknownUefi _) = Reserved"
| "to_kind (UnknownBios _) = Reserved"
| "to_kind _ = Reserved"

type_synonym boot_region = "u64 \<times> u64 \<times> MemoryRegionKind"

text \<open>The copy loop indexes a 64-entry array without a check.\<close>

fun fill_raw :: "boot_region list \<Rightarrow> nat \<Rightarrow> raw_region list \<Rightarrow> (nat \<times> raw_region list) outcome" where
  "fill_raw [] n raw = Returns (n, raw)"
| "fill_raw ((s, e, k) # rest) n raw =
     (if n < length raw then fill_raw rest (Suc n) (raw[n := (s, e, to_kind k)]) else Panics)"

definition say_boot :: "serial_call list \<Rightarrow> gdt_state \<Rightarrow> gdt_state" where
  "say_boot cs s = s\<lparr>console := console s @ cs\<rparr>"

definition line_end :: serial_call where
  "line_end = WriteStr [CHR 0x0D, CHR 0x0A]"

definition is_usable :: "Region \<Rightarrow> bool" where
  "is_usable r \<longleftrightarrow> region_kind r = Usable"

definition map_report :: "Region list \<Rightarrow> serial_call list" where
  "map_report rs =
     [WriteStr ''LIONOS_MEM_MAP regions='', WriteDec (word_of_nat (length rs)), WriteStr '' usable='',
      WriteDec (word_of_nat (length (filter is_usable rs))), line_end]
     @ concat (map (\<lambda>r. [WriteStr ''  usable 0x'', WriteHex (region_start r), WriteStr '' len='',
         WriteDec (region_len r), line_end]) (take 4 (filter is_usable rs)))"

definition frame_floor :: "u64 \<Rightarrow> u64" where
  "frame_floor kernel_end = ((kernel_end + 4095) AND NOT 4095) + 0x40000"

definition usable_ranges :: "Region list \<Rightarrow> (u64 \<times> u64) list" where
  "usable_ranges rs = map (\<lambda>r. (region_start r, region_end r)) (filter is_usable rs)"

definition deallocate_frame :: "(FrameRun list \<Rightarrow> FrameRun list) \<Rightarrow> u64 \<Rightarrow> machine \<Rightarrow> machine" where
  "deallocate_frame srt f st = st\<lparr>FRAMES := deallocate srt f (FRAMES st)\<rparr>"

definition boot_frames ::
  "(FrameRun list \<Rightarrow> FrameRun list) \<Rightarrow> u64 \<Rightarrow> Region list \<Rightarrow> gdt_state \<Rightarrow> gdt_state" where
  "boot_frames srt kernel_end rs s =
     (case frames_init srt (usable_ranges rs) (frame_floor kernel_end) (FRAMES (mach s)) of (r, fa) \<Rightarrow>
      let s = s\<lparr>mach := (mach s)\<lparr>FRAMES := fa\<rparr>\<rparr>;
          s = (case r of Inl _ \<Rightarrow> say_boot [WriteStr (''LIONOS_FRAMES_INIT_ERROR'' @ [CHR 0x0D, CHR 0x0A])] s | Inr _ \<Rightarrow> s);
          s = say_boot [WriteStr ''LIONOS_FRAMES total='', WriteDec (total_frames (FRAMES (mach s))),
                 WriteStr '' free='', WriteDec (free_frames (FRAMES (mach s))),
                 WriteStr '' used='', WriteDec (allocated_frames (FRAMES (mach s))), line_end] s in
      case allocate_frame (mach s) of
        (None, m) \<Rightarrow> s\<lparr>mach := m\<rparr>
      | (Some f, m) \<Rightarrow>
          let s = say_boot [WriteStr ''LIONOS_FRAME_ALLOC phys='', WriteHex (f * 4096), line_end] (s\<lparr>mach := m\<rparr>)
          in s\<lparr>mach := deallocate_frame srt f (mach s)\<rparr>)"

text \<open>
  A 64-bit access at a mapped, 4 KiB aligned virtual address reaches the first cell of the
  frame its leaf entry names.
\<close>

definition store_page :: "u64 \<Rightarrow> u64 \<Rightarrow> machine \<Rightarrow> machine" where
  "store_page virt v st = st\<lparr>pmem := (pmem st)(translate st (window st) virt AND ADDR_MASK := v)\<rparr>"

definition load_page :: "u64 \<Rightarrow> machine \<Rightarrow> u64" where
  "load_page virt st = pmem st (translate st (window st) virt AND ADDR_MASK)"

definition PATTERN :: u64 where
  "PATTERN = 0xDEADBEEFCAFEF00D"

definition map_self_test :: "u64 \<Rightarrow> gdt_state \<Rightarrow> gdt_state" where
  "map_self_test offset s =
     (case find_free_top_index offset (mach s) of None \<Rightarrow> s | Some idx \<Rightarrow>
      let virt = top_region idx in
      case allocate_frame (mach s) of (None, m) \<Rightarrow> s\<lparr>mach := m\<rparr> | (Some dframe, m) \<Rightarrow>
      let dphys = dframe * 4096 in
      case map_page offset virt dphys m of
        (Inl _, m) \<Rightarrow> say_boot [WriteStr (''LIONOS_MAP_ERR'' @ [CHR 0x0D, CHR 0x0A])] (s\<lparr>mach := m\<rparr>)
      | (Inr _, m) \<Rightarrow>
          let m = store_page virt PATTERN m;
              back = load_page virt m;
              pte = translate m offset virt
          in say_boot [WriteStr ''LIONOS_MAP_RW back='', WriteHex back, WriteStr '' pte='', WriteHex pte,
               WriteStr '' phys_ok='', WriteDec (if pte AND ADDR_MASK = dphys then 1 else 0), line_end]
             (s\<lparr>mach := m\<rparr>))"

definition boot_takeover :: "u64 option \<Rightarrow> gdt_state \<Rightarrow> gdt_state" where
  "boot_takeover physical_memory_offset s =
     (case physical_memory_offset of
        None \<Rightarrow> say_boot [WriteStr (''LIONOS_NO_PHYS_MAPPING'' @ [CHR 0x0D, CHR 0x0A])] s
      | Some offset \<Rightarrow>
          case takeover offset (mach s) of
            (Inl _, m) \<Rightarrow> say_boot [WriteStr (''LIONOS_TAKEOVER_ERR'' @ [CHR 0x0D, CHR 0x0A])] (s\<lparr>mach := m\<rparr>)
          | (Inr new_cr3, m) \<Rightarrow>
              let cr3_now = current_cr3 m AND ADDR_MASK;
                  s = say_boot [WriteStr ''LIONOS_TAKEOVER cr3='', WriteHex new_cr3, line_end,
                        WriteStr ''LIONOS_CR3_NOW='', WriteHex cr3_now, WriteStr '' owned='',
                        WriteDec (if cr3_now = new_cr3 then 1 else 0), line_end] (s\<lparr>mach := m\<rparr>)
              in map_self_test offset s)"

definition boot_memory ::
  "(Region list \<Rightarrow> Region list) \<Rightarrow> (FrameRun list \<Rightarrow> FrameRun list) \<Rightarrow> boot_region list
     \<Rightarrow> u64 option \<Rightarrow> u64 \<Rightarrow> gdt_state \<Rightarrow> gdt_state outcome" where
  "boot_memory srt_regions srt_runs memory_regions physical_memory_offset kernel_end s =
     (case fill_raw memory_regions 0 (replicate MAX_REGIONS (0, 0, Usable)) of Panics \<Rightarrow> Panics
      | Returns (n, raw) \<Rightarrow>
      case validate_regions_bytes srt_regions (take n raw) (replicate MAX_REGIONS region_empty) of
        (Inl e, _) \<Rightarrow> Returns (say_boot [WriteStr ''LIONOS_MEM_MAP_ERROR code='', WriteDec (map_error_code e), line_end] s)
      | (Inr cnt, regions) \<Rightarrow>
          let s = say_boot (map_report (take cnt regions)) s;
              s = boot_frames srt_runs kernel_end (take cnt regions) s;
              s = say_boot [WriteStr (''LIONOS_HANDOFF_OK'' @ [CHR 0x0D, CHR 0x0A])] s
          in Returns (boot_takeover physical_memory_offset s))"

text \<open>The kernel heap: 64 KiB of freshly mapped pages at a free top-level region.\<close>

definition HEAP_SIZE :: nat where
  "HEAP_SIZE = 64 * 1024"

definition init_heap :: "gdt_state \<Rightarrow> heap_state \<Rightarrow> (gdt_state \<times> heap_state) outcome" where
  "init_heap s h =
     (let offset = phys_offset (mach s) in
      case find_free_top_index offset (mach s) of None \<Rightarrow> Panics | Some idx \<Rightarrow>
      let virt = top_region idx;
          frames_needed = word_of_nat (HEAP_SIZE div 4096) in
      case map_range offset virt frames_needed (mach s) of (Inl _, _) \<Rightarrow> Panics | (Inr _, m) \<Rightarrow>
      Returns (s\<lparr>mach := m\<rparr>, heap_init (unat virt) HEAP_SIZE h))"

text \<open>The memory path of \<open>kernel_main\<close>.\<close>

definition memory_up ::
  "(Region list \<Rightarrow> Region list) \<Rightarrow> (FrameRun list \<Rightarrow> FrameRun list) \<Rightarrow> boot_region list
     \<Rightarrow> u64 option \<Rightarrow> u64 \<Rightarrow> gdt_state \<Rightarrow> heap_state \<Rightarrow> (gdt_state \<times> heap_state) outcome" where
  "memory_up srt_regions srt_runs memory_regions physical_memory_offset kernel_end s h =
     (case boot_memory srt_regions srt_runs memory_regions physical_memory_offset kernel_end s of
        Panics \<Rightarrow> Panics
      | Returns s \<Rightarrow>
          case gdt_setup s of Panics \<Rightarrow> Panics | Returns s \<Rightarrow> init_heap s h)"

section \<open>The boot loader's map\<close>

lemma fill_raw_eq:
  "fill_raw rs n raw =
     (if n + length rs \<le> length raw \<or> rs = []
      then Returns (n + length rs, take n raw @ map (\<lambda>(s, e, k). (s, e, to_kind k)) rs @ drop (n + length rs) raw)
      else Panics)"
proof (induction rs arbitrary: n raw)
  case (Cons r rs)
  obtain s e k where r: "r = (s, e, k)"
    by (cases r)
  show ?case
    by (auto simp: r Cons take_Suc_conv_app_nth)
qed simp

text \<open>The frames of the loader's usable regions that lie at or above the floor.\<close>

definition usable_frames :: "u64 \<Rightarrow> boot_region list \<Rightarrow> nat set" where
  "usable_frames floor rs = {f. unat floor \<le> f * 4096
     \<and> (\<exists>(s, e, k)\<in>set rs. k = BootUsable \<and> unat s \<le> f * 4096 \<and> f * 4096 + 4096 \<le> unat e)}"

abbreviation raw_of :: "boot_region list \<Rightarrow> raw_region list" where
  "raw_of rs \<equiv> map (\<lambda>(s, e, k). (s, e, to_kind k)) rs"

lemma to_kind_Usable: "to_kind k = Usable \<longleftrightarrow> k = BootUsable"
  by (cases k) auto

lemma set_usable_ranges:
  assumes "set rs = raw_bytes ` set (raw_of ms)"
  shows "set (usable_ranges rs) = {(s, e). (s, e, BootUsable) \<in> set ms}"
  unfolding usable_ranges_def set_map set_filter assms
  by (force simp: is_usable_def region_end_def to_kind_Usable)

lemma usable_ranges_disjoint:
  assumes "valid_map rs"
  shows "sorted_wrt ranges_disjoint (usable_ranges rs)"
proof -
  have "ranges_disjoint (region_start a, region_end a) (region_start b, region_end b)"
    if "a \<in> set rs" "b \<in> set rs" "usable_disjoint a b" "is_usable a" "is_usable b" for a b
    using that assms
    by (auto simp: valid_map_def usable_disjoint_def is_usable_def ranges_disjoint_def region_bytes_def
        unat_region_end)
  then have "sorted_wrt (\<lambda>a b. ranges_disjoint (region_start a, region_end a) (region_start b, region_end b))
      (filter is_usable rs)"
    using assms unfolding valid_map_def by (induction rs) auto
  then show ?thesis
    by (simp add: usable_ranges_def sorted_wrt_map)
qed


text \<open>
  What the kernel relies on from the boot loader: its page tables form a tree that avoids the
  memory it reports as usable above the floor, usable memory lies in the 52-bit physical
  space, and the allocator is still in its initial state.
\<close>

definition loader_ok :: "boot_region list \<Rightarrow> u64 \<Rightarrow> machine \<Rightarrow> bool" where
  "loader_ok ms floor st \<longleftrightarrow> FRAMES st = frames_empty
     \<and> (\<forall>(s, e, k)\<in>set ms. k = BootUsable \<longrightarrow> unat e \<le> 2 ^ 52)
     \<and> tree (pmem st) 4 (root st) \<and> tabs (pmem st) 4 (root st) \<inter> faddr ` usable_frames floor ms = {}"

lemma alloc_dealloc:
  assumes srt: "unstable_sort run_start srt" and wf: "frames_wf fa" and a: "allocate fa = (Some f, fa1)"
  shows "frames_wf (deallocate srt f fa1)"
    and "set (free_list (deallocate srt f fa1)) \<subseteq> set (free_list fa)"
    and "card (set (free_list fa)) \<le> card (set (free_list (deallocate srt f fa1))) + 1"
proof -
  have 1: "frames_wf fa1" "free_list fa = unat f # free_list fa1" "unat (allocated fa1) = Suc (unat (allocated fa))"
    using allocate_wf [OF wf a] by auto
  have f: "unat f < 2 ^ 52" "unat f \<notin> set (free_list fa1)" "0 < allocated fa1"
    using frames_wf_free_bound [OF wf, of "unat f"] wf 1 by (auto simp: frames_wf_def word_less_nat_alt)
  show "frames_wf (deallocate srt f fa1)"
    using deallocate_wf [OF srt 1(1) f] .
  have "set (free_list (deallocate srt f fa1)) = set (free_list fa) \<or> deallocate srt f fa1 = fa1"
  proof (cases "run_count fa1 < MAX_RUNS")
    case True
    then have "mset (free_list (deallocate srt f fa1)) = mset (free_list fa)"
      using deallocate_frames(1) [OF srt 1(1) True f(1)] 1(2) by simp
    then show ?thesis
      by (metis set_mset_mset)
  qed (simp add: deallocate_full)
  then show "set (free_list (deallocate srt f fa1)) \<subseteq> set (free_list fa)"
    "card (set (free_list fa)) \<le> card (set (free_list (deallocate srt f fa1))) + 1"
    using 1(2) f(2) by auto
qed

lemma usable_frames_init:
  assumes "unstable_sort run_start srt" "loader_ok ms floor st"
    and "set rs = raw_bytes ` set (raw_of ms)" "valid_map rs" "length rs \<le> MAX_REGIONS"
  obtains fa where "frames_init srt (usable_ranges rs) floor (FRAMES st) = (Inr (), fa)" "frames_wf fa"
    "set (free_list fa) = usable_frames floor ms"
proof -
  have len: "length (usable_ranges rs) \<le> MAX_RUNS"
    using assms(5) le_trans [OF length_filter_le] by (fastforce simp: usable_ranges_def MAX_REGIONS_def MAX_RUNS_def)
  have ok: "\<forall>p\<in>set (usable_ranges rs). frame_range_ok p"
    using assms(2) unfolding set_usable_ranges [OF assms(3)] loader_ok_def frame_range_ok_def by fastforce
  have runs: "length (fa_runs (FRAMES st)) = MAX_RUNS"
    using assms(2) by (simp add: loader_ok_def frames_empty_def)
  show ?thesis
  proof (rule frames_init_ok [OF assms(1) runs len ok usable_ranges_disjoint [OF assms(4)], of floor])
    fix fa
    assume fa: "frames_init srt (usable_ranges rs) floor (FRAMES st) = (Inr (), fa)" "frames_wf fa"
      and m: "mset (free_list fa) = mset (concat (map (region_frames floor) (usable_ranges rs)))"
    have "set (free_list fa) = (\<Union>p\<in>set (usable_ranges rs). set (region_frames floor p))"
      using arg_cong [OF m, of set_mset] by simp
    also have "\<dots> = usable_frames floor ms"
      unfolding set_usable_ranges [OF assms(3)] usable_frames_def
      by (fastforce simp: region_frames_iff)
    finally show thesis
      using that fa by blast
  qed
qed

lemma usable_frames_bound: "loader_ok ms floor st \<Longrightarrow> f \<in> usable_frames floor ms \<Longrightarrow> f < 2 ^ 40"
  by (fastforce simp: loader_ok_def usable_frames_def)

lemma boot_frames_ok:
  assumes "unstable_sort run_start srt" "loader_ok ms (frame_floor ke) (mach s)"
    and "set rs = raw_bytes ` set (raw_of ms)" "valid_map rs" "length rs \<le> MAX_REGIONS"
  obtains fa where "mach (boot_frames srt ke rs s) = (mach s)\<lparr>FRAMES := fa\<rparr>"
    "tables_ok ((mach s)\<lparr>FRAMES := fa\<rparr>) 4 (root (mach s))"
    "set (free_list fa) \<subseteq> usable_frames (frame_floor ke) ms"
    "card (usable_frames (frame_floor ke) ms) \<le> card (set (free_list fa)) + 1"
proof (rule usable_frames_init [OF assms])
  fix fa0
  let ?U = "usable_frames (frame_floor ke) ms"
  assume i: "frames_init srt (usable_ranges rs) (frame_floor ke) (FRAMES (mach s)) = (Inr (), fa0)" "frames_wf fa0"
    "set (free_list fa0) = ?U"
  obtain r fa1 where a: "allocate fa0 = (r, fa1)"
    by (cases "allocate fa0")
  define fa where "fa = (case r of None \<Rightarrow> fa1 | Some f \<Rightarrow> deallocate srt f fa1)"
  have m: "mach (boot_frames srt ke rs s) = (mach s)\<lparr>FRAMES := fa\<rparr>"
    by (auto simp: boot_frames_def i(1) Let_def allocate_frame_def say_boot_def a deallocate_frame_def fa_def
        split: option.splits)
  have fa: "frames_wf fa \<and> set (free_list fa) \<subseteq> ?U \<and> card ?U \<le> card (set (free_list fa)) + 1"
  proof (cases r)
    case None
    then have "fa1 = fa0"
      using fr.take_None [OF i(2), of fa1] a by auto
    with None i show ?thesis
      by (simp add: fa_def)
  next
    case (Some f)
    then show ?thesis
      using alloc_dealloc [OF assms(1) i(2) a [unfolded Some]] i(3) by (simp add: fa_def)
  qed
  moreover have "mach_ok ((mach s)\<lparr>FRAMES := fa\<rparr>)"
    using fa usable_frames_bound [OF assms(2)] by (auto simp: mach_ok_def)
  then have "tables_ok ((mach s)\<lparr>FRAMES := fa\<rparr>) 4 (root (mach s))"
    using fa assms(2) by (auto simp: tables_ok_def loader_ok_def)
  ultimately show thesis
    using that m by blast
qed


section \<open>Taking the tables over\<close>

lemma tables_ok_store:
  fixes v :: u64
  assumes "tables_ok st 4 (root st)" "table_addr p" "p \<notin> tabs (pmem st) 4 (root st)"
  defines "st' \<equiv> st\<lparr>pmem := (pmem st)(p := v)\<rparr>"
  shows "tables_ok st' 4 (root st')" "translate st' (window st) x = translate st (window st) x"
proof -
  have ag: "\<forall>u\<in>tabs (pmem st) 4 (root st). agree (pmem st) (pmem st') u"
  proof
    fix u
    assume u: "u \<in> tabs (pmem st) 4 (root st)"
    then have "table_addr u" "u \<noteq> p"
      using assms(1,3) table_addr_tabs by (auto simp: tables_ok_def)
    then have "cell u i \<noteq> p" if "i < 512" for i
      using cell_inj [of u p i 0] assms(2) that by (simp add: cell_def)
    then show "agree (pmem st) (pmem st') u"
      by (simp add: agree_def st'_def)
  qed
  then have "tree (pmem st') 4 (root st) = tree (pmem st) 4 (root st)"
    "tabs (pmem st') 4 (root st) = tabs (pmem st) 4 (root st)"
    using tree_cong tabs_cong by blast+
  moreover have f: "root st' = root st" "FRAMES st' = FRAMES st" "window st' = window st"
    by (simp_all add: st'_def)
  ultimately show "tables_ok st' 4 (root st')"
    using assms(1) by (simp add: tables_ok_def mach_ok_def)
  have "walk (pmem st') 4 (root st) (idxs x) = walk (pmem st) 4 (root st) (idxs x)"
    using walk_cong [OF ag, of "idxs x"] by simp
  then show "translate st' (window st) x = translate st (window st) x"
    using translate_walk [of st' x] translate_walk [of st x] f by simp
qed

text \<open>
  One fresh frame mapped at the base of a free region: the frame is not a table, and the
  base translates to it.
\<close>

lemma fresh_page_leaf:
  assumes ok: "tables_ok m 4 (root m)" and idx: "find_free_top_index (window m) m = Some idx"
    and al: "allocate_frame m = (Some f, m0)" and mp: "map_page (window m) (top_region idx) (f * 4096) m0 = (Inr (), m1)"
  shows "translate m1 (window m) (top_region idx) = leaf_entry (f * 4096) False False
    \<and> unat f \<in> free m \<and> unat f < 2 ^ 40 \<and> f * 4096 = faddr (unat f)"
proof -
  let ?v = "top_region idx"
  have mo: "mach_ok m"
    using ok by (simp add: tables_ok_def)
  obtain ga where g: "allocate (FRAMES m) = (Some f, ga)" "m0 = m\<lparr>FRAMES := ga\<rparr>"
    using al by (auto simp: allocate_frame_def split: prod.splits)
  have wf: "frames_wf ga" "unat f \<in> free m" "set (free_list ga) = free m - {unat f}"
    using fr.take_Some [OF _ g(1)] mo by (auto simp: mach_ok_def)
  then have "mach_ok m0" "unat f < 2 ^ 40"
    using mo g(2) by (auto simp: mach_ok_def)
  then have "tables_ok m0 4 (root m0)"
    using tables_ok_take [OF ok, of ga] wf(3) g(2) by auto
  moreover have "translate m0 (window m0) ?v AND PRESENT = 0"
    using region_unmapped [OF idx, of 0] translate_walk [of m0 ?v] translate_walk [of m ?v] by (simp add: g(2))
  moreover have "map_page_impl (window m0) ?v (f * 4096) False False m0 = (Inr (), m1)"
    using mp by (simp add: g(2) map_page_def)
  ultimately show ?thesis
    using map_page_impl_ok(4) wf(2) \<open>unat f < 2 ^ 40\<close> by (fastforce simp: g(2) faddr_def)
qed

lemma fresh_page:
  assumes ok: "tables_ok m 4 (root m)" and idx: "find_free_top_index (window m) m = Some idx"
    and card: "4 \<le> card (free m)"
  obtains f m0 m1 where "allocate_frame m = (Some f, m0)"
    "map_page (window m) (top_region idx) (f * 4096) m0 = (Inr (), m1)"
    "f * 4096 = faddr (unat f)" "table_addr (f * 4096)" "unat f \<in> free m"
    "tables_ok m1 4 (root m1)" "f * 4096 \<notin> tabs (pmem m1) 4 (root m1)" "sticky m m1" "took 4 m m1"
    "translate m1 (window m) (top_region idx) = leaf_entry (f * 4096) False False"
    "\<forall>v. page_of v \<noteq> page_of (top_region idx) \<longrightarrow> translate m1 (window m) v = translate m (window m) v"
    "\<forall>j<512. j \<noteq> idx \<longrightarrow> pmem m1 (cell (root m) j) = pmem m (cell (root m) j)"
proof -
  let ?v = "top_region idx"
  have mo: "mach_ok m"
    using ok by (simp add: tables_ok_def)
  obtain m1 where run: "map_range_from (window m) ?v 1 0 m = (Inr (), m1)" and took: "took 4 m m1"
    using map_range_from_took [OF mo, of 1 ?v 0] card by auto
  have clear: "\<forall>k<1. translate m (window m) (?v + word_of_nat (0 + k) * 4096) AND PRESENT = 0"
    using region_unmapped [OF idx, of 0] by simp
  then obtain fs where fs: "range_mapped ?v 0 fs 1 m m1" "length fs = 1"
    using map_range_from_ok [OF ok _ _ run] by auto
  have entries: "\<forall>j<512. j \<noteq> idx \<longrightarrow> pmem m1 (cell (root m) j) = pmem m (cell (root m) j)"
    using map_range_root_entries [OF ok _ _ clear run] region_unmapped [OF idx, of 0] by simp
  obtain q where q: "fs = [q]"
    using fs(2) by (cases fs) auto
  have "q \<in> free m" "q < 2 ^ 40" "cr3 m1 = cr3 m"
    using fs(1) mo by (auto simp: range_mapped_def q mach_ok_def)
  then have qa: "table_addr (faddr q)" and c: "cr3 m1 = cr3 m"
    using table_addr_faddr by blast+
  obtain f m0 where al: "allocate_frame m = (Some f, m0)" and mp: "map_page (window m) ?v (f * 4096) m0 = (Inr (), m1)"
    using run by (auto simp: frame_phys_def split: prod.splits option.splits sum.splits)
  note leaf = fresh_page_leaf [OF ok idx al mp]
  then have fa: "table_addr (f * 4096)"
    using table_addr_faddr by metis
  have "leaf_entry (f * 4096) False False = leaf_entry (faddr q) False False"
    using fs(1) leaf by (simp add: range_mapped_def q)
  then have "f * 4096 = faddr q"
    using leaf_entry_decode(2) [of "f * 4096" False False] leaf_entry_decode(2) [of "faddr q" False False] qa fa
    by (simp add: table_addr_def)
  then show ?thesis
    using that [OF al mp _ fa _ _ _ map_range_from_sticky [OF mo run] took _ _ entries] leaf fs(1) c
    by (auto simp: range_mapped_def q)
qed

text \<open>The console line of a self test that found what it wrote at the address it mapped.\<close>

definition self_test_line :: "u64 \<Rightarrow> serial_call list" where
  "self_test_line pte =
     [WriteStr ''LIONOS_MAP_RW back='', WriteHex PATTERN, WriteStr '' pte='', WriteHex pte,
      WriteStr '' phys_ok='', WriteDec 1, line_end]"

lemma map_self_test_ok:
  fixes s :: gdt_state
  defines "m \<equiv> mach s"
  assumes ok: "tables_ok m 4 (root m)" and idx: "find_free_top_index (window m) m = Some idx"
    and card: "4 \<le> card (free m)"
  obtains m' pte where "map_self_test (window m) s = say_boot (self_test_line pte) (s\<lparr>mach := m'\<rparr>)"
    "tables_ok m' 4 (root m')" "sticky m m'" "took 4 m m'"
    "translate m' (window m) (top_region idx) = pte" "pte AND PRESENT \<noteq> 0"
    "\<forall>v. page_of v \<noteq> page_of (top_region idx) \<longrightarrow> translate m' (window m) v = translate m (window m) v"
    "card (absent_tops m) \<le> card (absent_tops m') + 1"
proof (rule fresh_page [OF ok idx card])
  fix f :: u64 and m0 m1
  let ?v = "top_region idx" and ?p = "f * 4096"
  let ?e = "leaf_entry ?p False False"
  assume run: "allocate_frame m = (Some f, m0)" "map_page (window m) ?v ?p m0 = (Inr (), m1)"
    and f: "?p = faddr (unat f)" "table_addr ?p" "unat f \<in> free m" and ok1: "tables_ok m1 4 (root m1)"
    and fresh: "?p \<notin> tabs (pmem m1) 4 (root m1)" and k: "sticky m m1" and took: "took 4 m m1"
    and tr: "translate m1 (window m) ?v = ?e"
    and same: "\<forall>v. page_of v \<noteq> page_of ?v \<longrightarrow> translate m1 (window m) v = translate m (window m) v"
    and entries: "\<forall>j<512. j \<noteq> idx \<longrightarrow> pmem m1 (cell (root m) j) = pmem m (cell (root m) j)"
  have w1: "window m1 = window m" "cr3 m1 = cr3 m"
    using k by (simp_all add: sticky_def)
  have e: "?e AND ADDR_MASK = ?p" "?e AND PRESENT \<noteq> 0"
    using leaf_entry_decode [of ?p False False] f(2) by (simp_all add: table_addr_def)
  define m2 where "m2 = store_page ?v PATTERN m1"
  have m2: "m2 = m1\<lparr>pmem := (pmem m1)(?p := PATTERN)\<rparr>"
    unfolding m2_def store_page_def w1 tr e ..
  note st = tables_ok_store [OF ok1 f(2) fresh, where v = PATTERN, folded m2]
  have tr2: "translate m2 (window m) ?v = ?e"
    using st(2) [of ?v] tr w1 by simp
  have readback: "load_page ?v m2 = PATTERN"
    unfolding load_page_def using tr2 w1 e by (simp add: m2)
  have "map_self_test (window m) s = say_boot (self_test_line ?e) (s\<lparr>mach := m2\<rparr>)"
    unfolding map_self_test_def m_def [symmetric] idx option.case Let_def run(1) prod.case run(2) self_test_line_def
    by (simp add: readback tr2 e flip: m2_def)
  moreover have "sticky m m2"
  proof -
    have "?p \<in> cell (faddr (unat f)) ` {..<512}"
      by (intro image_eqI [of _ _ 0]) (simp_all add: cell_def f(1) [symmetric])
    with k f(3) show ?thesis
      unfolding sticky_def by (auto simp: m2 mach_ok_def)
  qed
  moreover have "took 4 m m2"
    using took by (simp add: took_def m2 mach_ok_def)
  moreover have "\<forall>v. page_of v \<noteq> page_of ?v \<longrightarrow> translate m2 (window m) v = translate m (window m) v"
    using same st(2) w1 by simp
  moreover have "card (absent_tops m) \<le> card (absent_tops m2) + 1"
  proof (rule absent_tops_card)
    have "cell (root m1) j \<noteq> ?p" if "j < 512" for j
      using cell_inj [of "root m1" ?p j 0] f(2) fresh that tabs_self [of "root m1" "pmem m1" 3]
      by (auto simp: cell_def)
    then show "\<forall>j<512. j \<noteq> idx \<longrightarrow> pmem m2 (cell (root m) j) = pmem m (cell (root m) j)"
      using entries by (simp add: m2 w1)
  qed (simp add: m2 w1)
  ultimately show thesis
    using that st(1) tr2 e(2) by blast
qed


definition takeover_lines :: "u64 \<Rightarrow> serial_call list" where
  "takeover_lines c = [WriteStr ''LIONOS_TAKEOVER cr3='', WriteHex c, line_end,
     WriteStr ''LIONOS_CR3_NOW='', WriteHex c, WriteStr '' owned='', WriteDec 1, line_end]"

text \<open>
  After the takeover and its self test: a new root from the allocator, all old translations
  still there, and one top-level region used up.
\<close>

definition taken_over :: "gdt_state \<Rightarrow> gdt_state \<Rightarrow> bool" where
  "taken_over s s' \<longleftrightarrow> (\<exists>f m1 m' idx pte. f \<in> free (mach s)
     \<and> s' = s\<lparr>mach := m', console := console s @ takeover_lines (faddr f) @ self_test_line pte\<rparr>
     \<and> tables_ok m1 4 (root m1) \<and> find_free_top_index (window m1) m1 = Some idx \<and> sticky m1 m'
     \<and> tables_ok m' 4 (root m') \<and> cr3 m' = faddr f \<and> window m1 = window (mach s)
     \<and> PHYS_OFFSET m' = window (mach s) \<and> free m' \<subseteq> free (mach s)
     \<and> card (free (mach s)) \<le> card (free m') + 5 \<and> card (absent_tops (mach s)) \<le> card (absent_tops m') + 1
     \<and> translate m' (window m1) (top_region idx) = pte \<and> pte AND PRESENT \<noteq> 0
     \<and> (\<forall>v. translate (mach s) (window m1) v AND PRESENT \<noteq> 0 \<longrightarrow> translate m' (window m1) v = translate (mach s) (window m1) v))"

lemma boot_takeover_ok:
  assumes ok: "tables_ok (mach s) 4 (root (mach s))" and tops: "absent_tops (mach s) \<noteq> {}"
    and card: "5 \<le> card (free (mach s))"
  shows "taken_over s (boot_takeover (Some (window (mach s))) s)"
proof -
  let ?m = "mach s"
  have "free ?m \<noteq> {}" "mach_ok ?m"
    using card ok by (auto simp: tables_ok_def)
  then obtain c m1 where run: "takeover (window ?m) ?m = (Inr c, m1)"
    using takeover_total by blast
  show ?thesis
  proof (rule takeover_ok [OF ok run])
    fix f
    assume f: "f \<in> free ?m" "c = faddr f" and w: "cr3 m1 = c" "window m1 = window ?m" "PHYS_OFFSET m1 = window ?m"
      and fr: "free m1 = free ?m - {f}" and ok1: "tables_ok m1 4 (root m1)"
      and tr: "\<forall>v. translate m1 (window ?m) v = translate ?m (window ?m) v"
      and cells: "\<forall>i<512. pmem m1 (cell (root m1) i) = pmem ?m (cell (root ?m) i)"
    have tops1: "absent_tops m1 = absent_tops ?m"
      using cells by (auto simp: absent_tops_def)
    obtain idx where idx: "find_free_top_index (window m1) m1 = Some idx" "idx \<in> absent_tops m1"
      using find_free_exists [of m1] tops tops1 by metis
    have c1: "card (free m1) + 1 = card (free ?m)"
      using f(1) fr card by (simp add: card_Diff_singleton)
    let ?s1 = "s\<lparr>mach := m1, console := console s @ takeover_lines c\<rparr>"
    have a: "c AND ADDR_MASK = c"
      using f ok table_addr_faddr [of f] by (auto simp: tables_ok_def mach_ok_def table_addr_def)
    have boot: "boot_takeover (Some (window ?m)) s = map_self_test (window m1) ?s1"
      using a w by (simp add: boot_takeover_def run Let_def current_cr3_def say_boot_def takeover_lines_def)
    have pre: "tables_ok (mach ?s1) 4 (root (mach ?s1))" "find_free_top_index (window (mach ?s1)) (mach ?s1) = Some idx"
      "4 \<le> card (free (mach ?s1))"
      using ok1 idx(1) c1 card by simp_all
    show ?thesis
    proof (rule map_self_test_ok [OF pre])
      fix m' pte
      assume t: "map_self_test (window (mach ?s1)) ?s1 = say_boot (self_test_line pte) (?s1\<lparr>mach := m'\<rparr>)"
        and ok': "tables_ok m' 4 (root m')" and k: "sticky (mach ?s1) m'" and took: "took 4 (mach ?s1) m'"
        and pte: "translate m' (window (mach ?s1)) (top_region idx) = pte" "pte AND PRESENT \<noteq> 0"
        and same: "\<forall>v. page_of v \<noteq> page_of (top_region idx) \<longrightarrow>
          translate m' (window (mach ?s1)) v = translate (mach ?s1) (window (mach ?s1)) v"
        and tops2: "card (absent_tops (mach ?s1)) \<le> card (absent_tops m') + 1"
      have s': "boot_takeover (Some (window ?m)) s
          = s\<lparr>mach := m', console := console s @ takeover_lines (faddr f) @ self_test_line pte\<rparr>"
        using t by (simp add: boot say_boot_def f(2))
      have fs: "cr3 m' = faddr f" "PHYS_OFFSET m' = window ?m" "free m' \<subseteq> free ?m"
        using k w f(2) fr by (auto simp: sticky_def)
      have cards: "card (free ?m) \<le> card (free m') + 5"
        using took c1 by (simp add: took_def)
      have tops': "card (absent_tops ?m) \<le> card (absent_tops m') + 1"
        using tops1 tops2 by simp
      have keep: "translate m' (window m1) v = translate ?m (window m1) v"
        if "translate ?m (window m1) v AND PRESENT \<noteq> 0" for v
      proof -
        have "translate m1 (window m1) (top_region idx) = 0"
          using region_unmapped [OF idx(1), of 0] by simp
        then have "page_of v \<noteq> page_of (top_region idx)"
          using that tr w(2) by (auto simp: translate_walk simp flip: idxs_eq_iff)
        then show ?thesis
          using same tr w(2) by simp
      qed
      show ?thesis
        unfolding taken_over_def s'
        by (intro exI [of _ f] exI [of _ m1] exI [of _ m'] exI [of _ idx] exI [of _ pte] conjI)
          (use f(1) ok1 idx(1) k ok' fs cards tops' pte keep w(2) in simp_all)
    qed
  qed
qed


section \<open>The whole path\<close>

lemma boot_memory_ok:
  assumes srt: "unstable_sort region_start srt_r" "unstable_sort run_start srt_f"
    and map: "length ms \<le> MAX_REGIONS" "\<forall>(s, e, k)\<in>set ms. s < e"
      "sorted_wrt usable_disjoint (map raw_bytes (raw_of ms))"
    and loader: "loader_ok ms (frame_floor ke) (mach s)"
    and frames: "6 \<le> card (usable_frames (frame_floor ke) ms)" and tops: "absent_tops (mach s) \<noteq> {}"
  obtains s0 fa s' where "boot_memory srt_r srt_f ms (Some (window (mach s))) ke s = Returns s'"
    "taken_over s0 s'" "mach s0 = (mach s)\<lparr>FRAMES := fa\<rparr>" "tables_ok (mach s0) 4 (root (mach s0))"
    "free (mach s0) \<subseteq> usable_frames (frame_floor ke) ms"
    "card (usable_frames (frame_floor ke) ms) \<le> card (free (mach s0)) + 1"
proof -
  let ?raw = "raw_of ms" and ?buf = "replicate MAX_REGIONS region_empty"
  have fill: "fill_raw ms 0 (replicate MAX_REGIONS (0, 0, Usable))
      = Returns (length ms, ?raw @ drop (length ms) (replicate MAX_REGIONS (0, 0, Usable)))"
    using map(1) by (simp add: fill_raw_eq)
  have "\<forall>(s, e, k)\<in>set ?raw. s < e"
    using map(2) by auto
  then have "fst (validate_regions_bytes srt_r ?raw ?buf) = Inr (length ms)"
    unfolding validate_bytes_answer [OF srt(1)] using map(1,3) by simp
  then obtain out where v: "validate_regions_bytes srt_r ?raw ?buf = (Inr (length ms), out)"
    by (cases "validate_regions_bytes srt_r ?raw ?buf") auto
  let ?rs = "take (length ms) out"
  note acc = validate_bytes_accepts [OF srt(1) v]
  have "set ?rs = set (map raw_bytes ?raw)"
    using acc by (intro mset_eq_setD) blast
  then have pre1: "set ?rs = raw_bytes ` set ?raw"
    by (simp only: set_map)
  have pre: "valid_map ?rs" "length ?rs \<le> MAX_REGIONS"
    using acc map(1) by simp_all
  define sr where "sr = say_boot (map_report ?rs) s"
  have sr: "mach sr = mach s"
    by (simp add: sr_def say_boot_def)
  then have lsr: "loader_ok ms (frame_floor ke) (mach sr)"
    using loader by simp
  show ?thesis
  proof (rule boot_frames_ok [OF srt(2) lsr pre1 pre])
    fix fa
    assume b: "mach (boot_frames srt_f ke ?rs sr) = (mach sr)\<lparr>FRAMES := fa\<rparr>"
      "tables_ok ((mach sr)\<lparr>FRAMES := fa\<rparr>) 4 (root (mach sr))"
      "set (free_list fa) \<subseteq> usable_frames (frame_floor ke) ms"
      "card (usable_frames (frame_floor ke) ms) \<le> card (set (free_list fa)) + 1"
    define s0 where "s0 = say_boot [WriteStr (''LIONOS_HANDOFF_OK'' @ [CHR 0x0D, CHR 0x0A])] (boot_frames srt_f ke ?rs sr)"
    have m0: "mach s0 = (mach s)\<lparr>FRAMES := fa\<rparr>"
      using b(1) sr by (simp add: s0_def say_boot_def)
    have "boot_memory srt_r srt_f ms (Some (window (mach s))) ke s
        = Returns (boot_takeover (Some (window (mach s))) s0)"
      using map(1) by (simp add: boot_memory_def fill v sr_def s0_def)
    moreover have "taken_over s0 (boot_takeover (Some (window (mach s0))) s0)"
    proof (rule boot_takeover_ok)
      show "tables_ok (mach s0) 4 (root (mach s0))" "absent_tops (mach s0) \<noteq> {}" "5 \<le> card (free (mach s0))"
        using b m0 sr tops frames by (simp_all add: absent_tops_def)
    qed
    ultimately show thesis
      using that m0 b sr by simp
  qed
qed


text \<open>A present, writable supervisor page backed by the given frame.\<close>

definition kernel_page :: "machine \<Rightarrow> u64 \<Rightarrow> nat \<Rightarrow> bool" where
  "kernel_page m v f \<longleftrightarrow> (let e = translate m (window m) v in
     e AND PRESENT \<noteq> 0 \<and> e AND WRITABLE \<noteq> 0 \<and> e AND USER = 0 \<and> e AND ADDR_MASK = faddr f)"

lemma region_ready_pages:
  assumes "region_ready base n st st'"
  obtains fs where "length fs = n" "distinct fs" "set fs \<subseteq> free st - free st'"
    "\<forall>k<n. kernel_page st' (base + word_of_nat k * 4096) (fs ! k)"
  using assms unfolding region_ready_def kernel_page_def Let_def by auto

lemma kernel_page_keeps:
  assumes "region_ready base n st st'" "\<forall>k<n. translate st (window st) (base + word_of_nat k * 4096) = 0"
    and "kernel_page st v f"
  shows "kernel_page st' v f"
proof -
  have "window st' = window st" "translate st (window st) v AND PRESENT \<noteq> 0"
    using assms(1,3) by (auto simp: region_ready_def kernel_page_def Let_def)
  then show ?thesis
    using region_ready_keeps [OF assms(1,2)] assms(3) by (simp add: kernel_page_def)
qed

text \<open>The descriptor tables and the heap take two regions, one after the other.\<close>

definition two_regions :: "machine \<Rightarrow> machine \<Rightarrow> u64 \<Rightarrow> u64 \<Rightarrow> bool" where
  "two_regions m m' b1 b2 \<longleftrightarrow> tables_ok m' 4 (root m') \<and> window m' = window m \<and> cr3 m' = cr3 m
     \<and> (\<exists>fs. length fs = 19 \<and> distinct fs \<and> set fs \<subseteq> free m - free m'
          \<and> (\<forall>k<3. kernel_page m' (b1 + word_of_nat k * 4096) (fs ! k))
          \<and> (\<forall>k<16. kernel_page m' (b2 + word_of_nat k * 4096) (fs ! (3 + k))))
     \<and> (\<forall>v. translate m (window m) v AND PRESENT \<noteq> 0 \<longrightarrow> translate m' (window m) v = translate m (window m) v)"

lemma two_regionsI:
  assumes r1: "region_ready b1 3 m m1" "\<forall>k<3. translate m (window m) (b1 + word_of_nat k * 4096) = 0" and sub: "free m1 \<subseteq> free m"
    and r2: "region_ready b2 16 m1 m2" "\<forall>k<16. translate m1 (window m1) (b2 + word_of_nat k * 4096) = 0" "free m2 \<subseteq> free m1"
  shows "two_regions m m2 b1 b2"
proof -
  obtain fs where fs: "length fs = 3" "distinct fs" "set fs \<subseteq> free m - free m1"
      "\<forall>k<3. kernel_page m1 (b1 + word_of_nat k * 4096) (fs ! k)"
    using region_ready_pages [OF r1(1)] by blast
  obtain gs where gs: "length gs = 16" "distinct gs" "set gs \<subseteq> free m1 - free m2"
      "\<forall>k<16. kernel_page m2 (b2 + word_of_nat k * 4096) (gs ! k)"
    using region_ready_pages [OF r2(1)] by blast
  have w: "window m1 = window m" "window m2 = window m" "cr3 m2 = cr3 m" "tables_ok m2 4 (root m2)"
    using r1(1) r2(1) unfolding region_ready_def by metis+
  have "\<forall>k<3. kernel_page m2 (b1 + word_of_nat k * 4096) (fs ! k)"
    using kernel_page_keeps [OF r2(1,2)] fs(4) by blast
  then have "length (fs @ gs) = 19 \<and> distinct (fs @ gs) \<and> set (fs @ gs) \<subseteq> free m - free m2
      \<and> (\<forall>k<3. kernel_page m2 (b1 + word_of_nat k * 4096) ((fs @ gs) ! k))
      \<and> (\<forall>k<16. kernel_page m2 (b2 + word_of_nat k * 4096) ((fs @ gs) ! (3 + k)))"
    using fs gs sub r2(3) by (auto simp: nth_append)
  moreover have "translate m2 (window m) v = translate m (window m) v"
    if "translate m (window m) v AND PRESENT \<noteq> 0" for v
    using region_ready_keeps [OF r1 that] region_ready_keeps [OF r2(1,2), of v] that w by simp
  ultimately show ?thesis
    unfolding two_regions_def using w by blast
qed

lemma descriptors_and_heap:
  fixes s :: gdt_state
  defines "m \<equiv> mach s"
  assumes ok: "tables_ok m 4 (root m)" and off: "PHYS_OFFSET m = window m"
    and tops: "2 \<le> card (absent_tops m)" and card: "76 \<le> card (free m)"
    and low: "\<And>m2 j. sticky m m2 \<Longrightarrow> find_free_top_index (window m) m2 = Some j \<Longrightarrow> 0 < j"
  obtains s1 s2 h2 where "gdt_setup s = Returns s1" "init_heap s1 h = Returns (s2, h2)"
    "two_regions m (mach s2) (TSS_VBASE s2) (word_of_nat (heap_base h2))"
    "heap_inv h2 [(heap_base h2, HEAP_SIZE)] []" "0 < heap_base h2" "heap_size h2 = HEAP_SIZE"
    "\<exists>cs. console s2 = console s @ cs"
proof -
  have three: "unat (3 :: u64) = 3" "unat (16 :: u64) = 16"
    by simp_all
  have "absent_tops m \<noteq> {}"
    using tops by auto
  then show ?thesis
  proof (rule claim_region [OF ok, where cnt = 3])
    fix idx m1
    assume 1: "find_free_top_index (window m) m = Some idx" "map_range (window m) (top_region idx) 3 m = (Inr (), m1)"
      "region_ready (top_region idx) (unat (3 :: u64)) m m1" "sticky m m1" "took (4 * unat (3 :: u64)) m m1"
      "card (absent_tops m) \<le> card (absent_tops m1) + 1"
    have w1: "window m1 = window m" "PHYS_OFFSET m1 = window m" "tables_ok m1 4 (root m1)" "free m1 \<subseteq> free m"
      using 1(3,4) off by (auto simp: sticky_def region_ready_def)
    have "absent_tops m1 \<noteq> {}" "4 * unat (16 :: u64) \<le> card (free m1)"
      using 1(5,6) tops card by (auto simp: took_def)
    then show thesis
    proof (rule claim_region [OF w1(3), where cnt = 16])
      fix j m2
      assume 2: "find_free_top_index (window m1) m1 = Some j" "j < 512" "map_range (window m1) (top_region j) 16 m1 = (Inr (), m2)"
        "region_ready (top_region j) (unat (16 :: u64)) m1 m2" "sticky m1 m2"
      have "\<exists>s1. gdt_setup s = Returns s1 \<and> mach s1 = m1 \<and> TSS_VBASE s1 = top_region idx \<and> (\<exists>cs. console s1 = console s @ cs)"
        using 1(1,2) off by (simp add: gdt_setup_def phys_offset_def Let_def m_def)
      then obtain s1 where s1: "gdt_setup s = Returns s1" "mach s1 = m1" "TSS_VBASE s1 = top_region idx"
          "\<exists>cs. console s1 = console s @ cs"
        by blast
      have b: "0 < j" "unat (top_region j) = j * 2 ^ 39 + (if j \<ge> 256 then 0xFFFF000000000000 else 0)"
        using low [OF 1(4)] 2(1,2) w1(1) by (auto simp: unat_top_region)
      let ?h = "heap_init (unat (top_region j)) HEAP_SIZE h"
      have "(word_of_nat (HEAP_SIZE div 4096) :: u64) = 16"
        by (simp add: HEAP_SIZE_def)
      then have heap: "init_heap s1 h = Returns (s1\<lparr>mach := m2\<rparr>, ?h)"
        using 2(1,3) s1(2) w1 by (simp add: init_heap_def phys_offset_def Let_def)
      have base: "heap_base ?h = unat (top_region j)" "heap_size ?h = HEAP_SIZE"
        by (simp_all add: heap_init_def write_node_def)
      have "0 < unat (top_region j)" "8 dvd unat (top_region j)"
        using b by simp_all
      then have inv: "heap_inv ?h [(heap_base ?h, HEAP_SIZE)] []"
        unfolding base by (intro heap_init_inv) (simp_all add: HEAP_SIZE_def NODE_SIZE_def)
      have "two_regions m m2 (top_region idx) (top_region j)"
      proof (rule two_regionsI)
        show "region_ready (top_region idx) 3 m m1" "region_ready (top_region j) 16 m1 m2"
          using 1(3) 2(4) unfolding three .
        show "\<forall>k<3. translate m (window m) (top_region idx + word_of_nat k * 4096) = 0"
          "\<forall>k<16. translate m1 (window m1) (top_region j + word_of_nat k * 4096) = 0"
          using region_unmapped [OF 1(1)] region_unmapped [OF 2(1)] by simp_all
        show "free m1 \<subseteq> free m" "free m2 \<subseteq> free m1"
          using w1(4) 2(5) by (simp_all add: sticky_def)
      qed
      then show thesis
        using that [OF s1(1) heap] inv base s1(3,4) \<open>0 < unat (top_region j)\<close> by simp
    qed simp
  qed (use card in simp_all)
qed

lemma translate_top: "translate st (window st) v \<noteq> 0 \<Longrightarrow> table_read st (root st) (window st) (index4 v) AND PRESENT \<noteq> 0"
  by (auto simp: translate_def current_cr3_def Let_def)

lemma taken_overE:
  assumes "taken_over s0 s1"
  obtains f pte where "f \<in> free (mach s0)" "cr3 (mach s1) = faddr f"
    "console s1 = console s0 @ takeover_lines (faddr f) @ self_test_line pte"
    "tables_ok (mach s1) 4 (root (mach s1))" "PHYS_OFFSET (mach s1) = window (mach s0)"
    "window (mach s1) = window (mach s0)" "free (mach s1) \<subseteq> free (mach s0)"
    "card (free (mach s0)) \<le> card (free (mach s1)) + 5"
    "card (absent_tops (mach s0)) \<le> card (absent_tops (mach s1)) + 1"
    "\<forall>v. translate (mach s0) (window (mach s0)) v AND PRESENT \<noteq> 0 \<longrightarrow>
      translate (mach s1) (window (mach s0)) v = translate (mach s0) (window (mach s0)) v"
    "\<And>m2 j. sticky (mach s1) m2 \<Longrightarrow> find_free_top_index (window (mach s1)) m2 = Some j \<Longrightarrow> 0 < j"
proof -
  obtain f m1 m' idx pte where t: "f \<in> free (mach s0)"
      "s1 = s0\<lparr>mach := m', console := console s0 @ takeover_lines (faddr f) @ self_test_line pte\<rparr>"
    and m1: "tables_ok m1 4 (root m1)" "find_free_top_index (window m1) m1 = Some idx" "sticky m1 m'"
    and m': "tables_ok m' 4 (root m')" "cr3 m' = faddr f" "window m1 = window (mach s0)"
      "PHYS_OFFSET m' = window (mach s0)" "free m' \<subseteq> free (mach s0)"
    and cards: "card (free (mach s0)) \<le> card (free m') + 5" "card (absent_tops (mach s0)) \<le> card (absent_tops m') + 1"
    and pte: "translate m' (window m1) (top_region idx) = pte" "pte AND PRESENT \<noteq> 0"
    and keep: "\<forall>v. translate (mach s0) (window m1) v AND PRESENT \<noteq> 0 \<longrightarrow> translate m' (window m1) v = translate (mach s0) (window m1) v"
    using assms unfolding taken_over_def by blast
  have w: "window m' = window m1"
    using m1(3) by (simp add: sticky_def)
  have low: "0 < j" if j: "sticky m' m2" "find_free_top_index (window m') m2 = Some j" for m2 j
  proof -
    have idx: "idx < 512" "index4 (top_region idx) = idx"
      using region_unmapped [OF m1(2), of 0] top_region_page(2) [of idx 0] by simp_all
    have w2: "window m2 = window m'" "cr3 m2 = cr3 m'"
      using j(1) by (simp_all add: sticky_def)
    have "translate m' (window m') (top_region idx) \<noteq> 0"
      using pte w by auto
    then have "table_read m' (root m') (window m') idx AND PRESENT \<noteq> 0"
      using translate_top idx(2) by metis
    then have "table_read m2 (root m2) (window m2) idx AND PRESENT \<noteq> 0"
      using sticky_root [OF m'(1) j(1) idx(1)] by simp
    moreover have "table_read m2 (root m2) (window m2) 0 AND PRESENT \<noteq> 0" if "0 < idx"
      using sticky_root [OF m1(1) sticky_trans [OF m1(3) j(1)], of 0] that
        first_absent_before [OF m1(2) [unfolded find_free_top_index_def current_cr3_def], of 0] by simp
    moreover have "table_read m2 (root m2) (window m2) j AND PRESENT = 0"
      using first_absent_Some [OF j(2) [unfolded find_free_top_index_def]] w2 by (simp add: current_cr3_def)
    ultimately show ?thesis
      by (cases "j = 0"; cases "idx = 0") auto
  qed
  show ?thesis
    by (rule that [of f pte]) (use t m' w cards keep low in simp_all)
qed

text \<open>A boot with one usable megabyte, for the example.\<close>

definition sample_map :: "boot_region list" where
  "sample_map = [(0, 0x100000, Bootloader), (0x100000, 0x200000, BootUsable)]"

definition sample_boot :: gdt_state where
  "sample_boot = sample_gdt\<lparr>mach := sample_machine\<lparr>FRAMES := frames_empty\<rparr>\<rparr>"

lemma sample_usable: "usable_frames (frame_floor 0) sample_map = {256..<512}"
proof -
  have "frame_floor 0 = 0x40000"
    by (simp add: frame_floor_def)
  then show ?thesis
    by (auto simp: usable_frames_def sample_map_def)
qed

lemma sample_boot_tables:
  "absent_tops (mach sample_boot) = {..<512}" "tree (pmem (mach sample_boot)) 4 (root (mach sample_boot))"
  "tabs (pmem (mach sample_boot)) 4 (root (mach sample_boot)) = {0x1000}"
proof -
  have z: "pmem (mach sample_boot) = (\<lambda>_. 0)" and r: "root (mach sample_boot) = 0x1000"
    by (simp_all add: sample_boot_def sample_machine_def ADDR_MASK_def)
  show "absent_tops (mach sample_boot) = {..<512}"
    by (auto simp: absent_tops_def z)
  show "tree (pmem (mach sample_boot)) 4 (root (mach sample_boot))"
    "tabs (pmem (mach sample_boot)) 4 (root (mach sample_boot)) = {0x1000}"
    using zero_table_walk(2,3) [of "pmem (mach sample_boot)" "0x1000" 3] unfolding r by (simp_all add: z)
qed

lemma sample_loader: "loader_ok sample_map (frame_floor 0) (mach sample_boot)"
proof -
  have "faddr f \<noteq> 0x1000" if "f \<in> {256..<512}" for f
  proof
    assume "faddr f = 0x1000"
    moreover have "unat (faddr f) = f * 4096"
      using that by (intro unat_faddr) simp
    ultimately show False
      using that by simp
  qed
  then show ?thesis
    unfolding loader_ok_def sample_usable sample_boot_tables(3)
    using sample_boot_tables(2) by (auto simp: sample_boot_def sample_map_def)
qed

end
