(* ===== verification/Font.thy ===== *)
theory Font
  imports Lion_Prelude
begin

text \<open>
  Model of \<open>src/kernel/src/drivers/font5x7.rs\<close>: the 5x7 bitmap font and its lookup.  A Rust
  \<open>char\<close> is its code point, a \<open>&str\<close> the list of its code points.
\<close>

type_synonym codepoints = "u32 list"

definition GLYPH_W :: nat where
  "GLYPH_W = 5"

definition GLYPH_H :: nat where
  "GLYPH_H = 7"

definition FIRST :: u8 where
  "FIRST = 0x20"

definition GLYPH_COUNT :: nat where
  "GLYPH_COUNT = 0x7F - 0x20"

definition FONT5X7 :: "bytes list" where
  "FONT5X7 = [
     [0x00, 0x00, 0x00, 0x00, 0x00, 0x00, 0x00],
     [0x02, 0x02, 0x02, 0x00, 0x02, 0x00, 0x00],
     [0x05, 0x05, 0x00, 0x00, 0x00, 0x00, 0x00],
     [0x05, 0x15, 0x0E, 0x15, 0x0E, 0x15, 0x05],
     [0x02, 0x07, 0x04, 0x06, 0x01, 0x0E, 0x02],
     [0x04, 0x05, 0x04, 0x02, 0x05, 0x05, 0x04],
     [0x04, 0x0A, 0x04, 0x0A, 0x09, 0x06, 0x02],
     [0x02, 0x02, 0x00, 0x00, 0x00, 0x00, 0x00],
     [0x04, 0x02, 0x02, 0x02, 0x02, 0x02, 0x04],
     [0x01, 0x02, 0x02, 0x02, 0x02, 0x02, 0x01],
     [0x00, 0x02, 0x05, 0x02, 0x05, 0x00, 0x00],
     [0x00, 0x02, 0x02, 0x0E, 0x02, 0x02, 0x00],
     [0x00, 0x00, 0x00, 0x00, 0x00, 0x02, 0x01],
     [0x00, 0x00, 0x00, 0x0E, 0x00, 0x00, 0x00],
     [0x00, 0x00, 0x00, 0x00, 0x00, 0x02, 0x00],
     [0x04, 0x04, 0x02, 0x02, 0x01, 0x01, 0x00],
     [0x06, 0x09, 0x09, 0x09, 0x09, 0x09, 0x06],
     [0x02, 0x06, 0x02, 0x02, 0x02, 0x02, 0x07],
     [0x06, 0x09, 0x08, 0x04, 0x02, 0x01, 0x1F],
     [0x07, 0x08, 0x04, 0x06, 0x01, 0x09, 0x06],
     [0x04, 0x06, 0x05, 0x05, 0x1F, 0x04, 0x04],
     [0x1F, 0x01, 0x07, 0x08, 0x08, 0x09, 0x06],
     [0x04, 0x02, 0x01, 0x07, 0x09, 0x09, 0x06],
     [0x1F, 0x08, 0x04, 0x02, 0x02, 0x02, 0x02],
     [0x06, 0x09, 0x09, 0x06, 0x09, 0x09, 0x06],
     [0x06, 0x09, 0x09, 0x0E, 0x08, 0x04, 0x02],
     [0x00, 0x02, 0x00, 0x00, 0x00, 0x02, 0x00],
     [0x00, 0x02, 0x00, 0x00, 0x00, 0x02, 0x01],
     [0x08, 0x04, 0x02, 0x01, 0x02, 0x04, 0x08],
     [0x00, 0x00, 0x1F, 0x00, 0x1F, 0x00, 0x00],
     [0x01, 0x02, 0x04, 0x08, 0x04, 0x02, 0x01],
     [0x03, 0x04, 0x04, 0x02, 0x02, 0x00, 0x02],
     [0x06, 0x09, 0x1F, 0x0B, 0x0B, 0x01, 0x06],
     [0x06, 0x09, 0x09, 0x1F, 0x09, 0x09, 0x09],
     [0x07, 0x09, 0x09, 0x07, 0x09, 0x09, 0x07],
     [0x06, 0x09, 0x01, 0x01, 0x01, 0x09, 0x06],
     [0x03, 0x05, 0x09, 0x09, 0x09, 0x05, 0x03],
     [0x1F, 0x01, 0x01, 0x07, 0x01, 0x01, 0x1F],
     [0x1F, 0x01, 0x01, 0x07, 0x01, 0x01, 0x01],
     [0x06, 0x09, 0x01, 0x0D, 0x09, 0x09, 0x06],
     [0x09, 0x09, 0x09, 0x1F, 0x09, 0x09, 0x09],
     [0x07, 0x02, 0x02, 0x02, 0x02, 0x02, 0x07],
     [0x0C, 0x04, 0x04, 0x04, 0x05, 0x05, 0x02],
     [0x09, 0x05, 0x03, 0x07, 0x05, 0x05, 0x09],
     [0x01, 0x01, 0x01, 0x01, 0x01, 0x01, 0x1F],
     [0x11, 0x1B, 0x15, 0x11, 0x11, 0x11, 0x11],
     [0x11, 0x13, 0x15, 0x19, 0x11, 0x11, 0x11],
     [0x06, 0x09, 0x09, 0x09, 0x09, 0x09, 0x06],
     [0x07, 0x09, 0x09, 0x07, 0x01, 0x01, 0x01],
     [0x06, 0x09, 0x09, 0x09, 0x09, 0x06, 0x0A],
     [0x07, 0x09, 0x09, 0x07, 0x05, 0x09, 0x09],
     [0x06, 0x09, 0x01, 0x06, 0x08, 0x09, 0x06],
     [0x1F, 0x02, 0x02, 0x02, 0x02, 0x02, 0x02],
     [0x09, 0x09, 0x09, 0x09, 0x09, 0x09, 0x06],
     [0x09, 0x09, 0x09, 0x09, 0x09, 0x05, 0x02],
     [0x11, 0x11, 0x11, 0x11, 0x15, 0x1B, 0x0A],
     [0x09, 0x09, 0x05, 0x02, 0x05, 0x09, 0x09],
     [0x09, 0x09, 0x05, 0x02, 0x02, 0x02, 0x02],
     [0x1F, 0x08, 0x04, 0x02, 0x01, 0x01, 0x1F],
     [0x07, 0x01, 0x01, 0x01, 0x01, 0x01, 0x07],
     [0x01, 0x01, 0x02, 0x02, 0x04, 0x04, 0x00],
     [0x07, 0x04, 0x04, 0x04, 0x04, 0x04, 0x07],
     [0x02, 0x05, 0x00, 0x00, 0x00, 0x00, 0x00],
     [0x00, 0x00, 0x00, 0x00, 0x00, 0x00, 0x1F],
     [0x01, 0x02, 0x00, 0x00, 0x00, 0x00, 0x00],
     [0x00, 0x00, 0x06, 0x08, 0x0E, 0x09, 0x06],
     [0x01, 0x01, 0x07, 0x09, 0x09, 0x09, 0x07],
     [0x00, 0x00, 0x06, 0x01, 0x01, 0x01, 0x06],
     [0x08, 0x08, 0x0E, 0x09, 0x09, 0x09, 0x0E],
     [0x00, 0x00, 0x06, 0x1F, 0x01, 0x01, 0x06],
     [0x04, 0x02, 0x07, 0x02, 0x02, 0x02, 0x02],
     [0x00, 0x0E, 0x09, 0x09, 0x0E, 0x08, 0x06],
     [0x01, 0x01, 0x07, 0x09, 0x09, 0x09, 0x09],
     [0x02, 0x00, 0x02, 0x02, 0x02, 0x02, 0x02],
     [0x04, 0x00, 0x04, 0x04, 0x04, 0x05, 0x02],
     [0x01, 0x05, 0x03, 0x07, 0x05, 0x05, 0x09],
     [0x02, 0x02, 0x02, 0x02, 0x02, 0x02, 0x07],
     [0x00, 0x00, 0x1B, 0x15, 0x15, 0x11, 0x11],
     [0x00, 0x00, 0x07, 0x09, 0x09, 0x09, 0x09],
     [0x00, 0x00, 0x06, 0x09, 0x09, 0x09, 0x06],
     [0x00, 0x07, 0x09, 0x09, 0x07, 0x01, 0x01],
     [0x00, 0x0E, 0x09, 0x09, 0x0E, 0x08, 0x08],
     [0x00, 0x05, 0x03, 0x01, 0x01, 0x01, 0x01],
     [0x00, 0x06, 0x01, 0x06, 0x08, 0x09, 0x06],
     [0x02, 0x02, 0x07, 0x02, 0x02, 0x02, 0x04],
     [0x00, 0x00, 0x09, 0x09, 0x09, 0x09, 0x06],
     [0x00, 0x00, 0x09, 0x09, 0x09, 0x05, 0x02],
     [0x00, 0x00, 0x11, 0x11, 0x15, 0x15, 0x0A],
     [0x00, 0x00, 0x09, 0x05, 0x02, 0x05, 0x09],
     [0x00, 0x09, 0x09, 0x0E, 0x08, 0x08, 0x06],
     [0x00, 0x00, 0x1F, 0x04, 0x02, 0x01, 0x1F],
     [0x06, 0x01, 0x01, 0x02, 0x01, 0x01, 0x06],
     [0x02, 0x02, 0x02, 0x02, 0x02, 0x02, 0x02],
     [0x03, 0x04, 0x04, 0x02, 0x04, 0x04, 0x03],
     [0x00, 0x00, 0x04, 0x0E, 0x04, 0x00, 0x00]]"

definition glyph :: "u32 \<Rightarrow> bytes" where
  "glyph c =
     (let code = ucast c :: u8 in
      if code < FIRST \<or> code \<ge> FIRST + word_of_nat GLYPH_COUNT then FONT5X7 ! (63 - unat FIRST)
      else FONT5X7 ! (unat code - unat FIRST))"

definition glyph_height_valid :: bool where
  "glyph_height_valid \<longleftrightarrow> list_all (list_all (\<lambda>col. unat col < 2 ^ GLYPH_H)) FONT5X7"

lemma font_shape: "length FONT5X7 = GLYPH_COUNT" "list_all (\<lambda>g. length g = GLYPH_H) FONT5X7" glyph_height_valid
  by (simp_all add: FONT5X7_def GLYPH_COUNT_def GLYPH_H_def glyph_height_valid_def)

text \<open>Every lookup stays inside the table, so a glyph always has its seven rows.\<close>

lemma length_glyph [simp]: "length (glyph c) = GLYPH_H"
proof -
  have "glyph c \<in> set FONT5X7"
  proof (cases "ucast c < FIRST \<or> ucast c \<ge> FIRST + word_of_nat GLYPH_COUNT")
    case True
    then show ?thesis
      by (simp add: glyph_def FIRST_def font_shape(1) GLYPH_COUNT_def)
  next
    case False
    then have "unat (ucast c :: u8) - unat FIRST < length FONT5X7"
      unfolding font_shape(1) by (auto simp: FIRST_def GLYPH_COUNT_def word_le_nat_alt word_less_nat_alt)
    with False show ?thesis
      by (simp add: glyph_def)
  qed
  then show ?thesis
    using font_shape(2) by (simp add: list_all_iff)
qed

end
