(* ===== verification/Framebuffer.thy ===== *)
theory Framebuffer
  imports Font Gdt
begin

text \<open>
  Model of \<open>src/kernel/src/framebuffer.rs\<close>, of the C drawing routines \<open>src/kernel/c/fb.c\<close> that
  \<open>ffi.rs\<close> binds, and of the text driver \<open>src/kernel/src/drivers/fbtext.rs\<close>.  Memory is the virtual
  memory of the theory Gdt.  The theorem says what a validated descriptor is good for: no
  drawing call, with any arguments, writes outside the bytes the descriptor covers.
\<close>

section \<open>Descriptors\<close>

record FramebufferInfo =
  fb_address :: u64
  fb_width :: u32
  fb_height :: u32
  fb_bpp :: u8
  fb_pitch :: u32

datatype FbError = UnalignedAddress | ZeroDimension | UnsupportedBpp | PitchTooSmall | SizeOverflow

fun fb_error_code :: "FbError \<Rightarrow> u64" where
  "fb_error_code UnalignedAddress = 1"
| "fb_error_code ZeroDimension = 2"
| "fb_error_code UnsupportedBpp = 3"
| "fb_error_code PitchTooSmall = 4"
| "fb_error_code SizeOverflow = 5"

definition is_supported_bpp :: "u8 \<Rightarrow> bool" where
  "is_supported_bpp bpp \<longleftrightarrow> bpp \<in> {1, 4, 8, 15, 16, 24, 32}"

definition validate :: "FramebufferInfo \<Rightarrow> FbError + FramebufferInfo" where
  "validate fb =
     (if fb_address fb mod 4096 \<noteq> 0 then Inl UnalignedAddress
      else if fb_width fb = 0 \<or> fb_height fb = 0 then Inl ZeroDimension
      else if \<not> is_supported_bpp (fb_bpp fb) then Inl UnsupportedBpp
      else let bytes_per_pixel = (ucast (fb_bpp fb) + 7) div 8 :: u32 in
      case checked_mul (fb_width fb) bytes_per_pixel of None \<Rightarrow> Inl SizeOverflow | Some min_pitch \<Rightarrow>
      if fb_pitch fb < min_pitch then Inl PitchTooSmall
      else case checked_mul (ucast (fb_pitch fb)) (ucast (fb_height fb) :: u64) of None \<Rightarrow> Inl SizeOverflow | Some total_bytes \<Rightarrow>
      if checked_add (fb_address fb) total_bytes = None then Inl SizeOverflow
      else Inr fb)"

section \<open>The C drawing routines\<close>

definition put_pixel :: "u64 \<Rightarrow> u32 \<Rightarrow> u32 \<Rightarrow> u32 \<Rightarrow> u32 \<Rightarrow> u32 \<Rightarrow> (u64 \<Rightarrow> u8) \<Rightarrow> u64 \<Rightarrow> u8" where
  "put_pixel base pitch bpp x y rgb m =
     (let bpp_bytes = bpp div 8;
          p = base + ucast y * ucast pitch + ucast x * ucast bpp_bytes;
          b = ucast (rgb AND 0xff); g = ucast (drop_bit 8 rgb AND 0xff); r = ucast (drop_bit 16 rgb AND 0xff) in
      if bpp_bytes = 4 then copy_bytes p [b, g, r, 0xff] m
      else if bpp_bytes = 3 then copy_bytes p [b, g, r] m
      else copy_bytes p [b] m)"

definition pixel_format_ok :: "u32 \<Rightarrow> bool" where
  "pixel_format_ok bpp \<longleftrightarrow> bpp div 8 \<in> {1, 3, 4}"

text \<open>
  The inner loops run a coordinate \<open>x + cx\<close> through 32-bit wrap-around and stop at the first
  one outside.
\<close>

definition fb_row :: "u64 \<Rightarrow> u32 \<Rightarrow> u32 \<Rightarrow> u32 \<Rightarrow> u32 \<Rightarrow> u32 \<Rightarrow> u32 \<Rightarrow> u32 \<Rightarrow> (u64 \<Rightarrow> u8) \<Rightarrow> u64 \<Rightarrow> u8" where
  "fb_row base width pitch bpp x yy rw rgb m =
     foldl (\<lambda>m xx. put_pixel base pitch bpp xx yy rgb m) m
       (takeWhile (\<lambda>xx. xx < width) (map (\<lambda>cx. x + word_of_nat cx) [0..<unat rw]))"

definition lion_fb_fill_rect ::
  "u64 \<Rightarrow> u32 \<Rightarrow> u32 \<Rightarrow> u32 \<Rightarrow> u32 \<Rightarrow> u32 \<Rightarrow> u32 \<Rightarrow> u32 \<Rightarrow> u32 \<Rightarrow> u32 \<Rightarrow> (u64 \<Rightarrow> u8) \<Rightarrow> u64 \<Rightarrow> u8" where
  "lion_fb_fill_rect base width height pitch bpp x y rw rh rgb m =
     (if \<not> pixel_format_ok bpp then m
      else foldl (\<lambda>m yy. fb_row base width pitch bpp x yy rw rgb m) m
        (takeWhile (\<lambda>yy. yy < height) (map (\<lambda>cy. y + word_of_nat cy) [0..<unat rh])))"

definition lion_fb_clear :: "u64 \<Rightarrow> u32 \<Rightarrow> u32 \<Rightarrow> u32 \<Rightarrow> u32 \<Rightarrow> u32 \<Rightarrow> (u64 \<Rightarrow> u8) \<Rightarrow> u64 \<Rightarrow> u8" where
  "lion_fb_clear base width height pitch bpp rgb m =
     lion_fb_fill_rect base width height pitch bpp 0 0 width height rgb m"

definition lion_fb_hline ::
  "u64 \<Rightarrow> u32 \<Rightarrow> u32 \<Rightarrow> u32 \<Rightarrow> u32 \<Rightarrow> u32 \<Rightarrow> u32 \<Rightarrow> u32 \<Rightarrow> u32 \<Rightarrow> (u64 \<Rightarrow> u8) \<Rightarrow> u64 \<Rightarrow> u8" where
  "lion_fb_hline base width height pitch bpp y x0 x1 rgb m =
     (if \<not> pixel_format_ok bpp \<or> y \<ge> height then m
      else let (x0, x1) = (if x0 > x1 then (x1, x0) else (x0, x1))
        in foldl (\<lambda>m x. put_pixel base pitch bpp x y rgb m) m
          (takeWhile (\<lambda>x. x < width) (map word_of_nat [unat x0..<Suc (unat x1)])))"

definition lion_fb_pixel ::
  "u64 \<Rightarrow> u32 \<Rightarrow> u32 \<Rightarrow> u32 \<Rightarrow> u32 \<Rightarrow> u32 \<Rightarrow> u32 \<Rightarrow> u32 \<Rightarrow> (u64 \<Rightarrow> u8) \<Rightarrow> u64 \<Rightarrow> u8" where
  "lion_fb_pixel base width height pitch bpp x y rgb m =
     (if \<not> pixel_format_ok bpp \<or> x \<ge> width \<or> y \<ge> height then m else put_pixel base pitch bpp x y rgb m)"

text \<open>The Rust bindings pass their arguments through.\<close>

definition fb_clear :: "u64 \<Rightarrow> u32 \<Rightarrow> u32 \<Rightarrow> u32 \<Rightarrow> u32 \<Rightarrow> u32 \<Rightarrow> (u64 \<Rightarrow> u8) \<Rightarrow> u64 \<Rightarrow> u8" where
  "fb_clear = lion_fb_clear"

definition fb_fill_rect ::
  "u64 \<Rightarrow> u32 \<Rightarrow> u32 \<Rightarrow> u32 \<Rightarrow> u32 \<Rightarrow> u32 \<Rightarrow> u32 \<Rightarrow> u32 \<Rightarrow> u32 \<Rightarrow> u32 \<Rightarrow> (u64 \<Rightarrow> u8) \<Rightarrow> u64 \<Rightarrow> u8" where
  "fb_fill_rect = lion_fb_fill_rect"

definition fb_hline ::
  "u64 \<Rightarrow> u32 \<Rightarrow> u32 \<Rightarrow> u32 \<Rightarrow> u32 \<Rightarrow> u32 \<Rightarrow> u32 \<Rightarrow> u32 \<Rightarrow> u32 \<Rightarrow> (u64 \<Rightarrow> u8) \<Rightarrow> u64 \<Rightarrow> u8" where
  "fb_hline = lion_fb_hline"

definition fb_pixel ::
  "u64 \<Rightarrow> u32 \<Rightarrow> u32 \<Rightarrow> u32 \<Rightarrow> u32 \<Rightarrow> u32 \<Rightarrow> u32 \<Rightarrow> u32 \<Rightarrow> (u64 \<Rightarrow> u8) \<Rightarrow> u64 \<Rightarrow> u8" where
  "fb_pixel = lion_fb_pixel"

section \<open>Bitmap text\<close>

definition GLYPH_ADVANCE :: u32 where
  "GLYPH_ADVANCE = word_of_nat GLYPH_W + 1"

definition LINE_ADVANCE :: u32 where
  "LINE_ADVANCE = word_of_nat GLYPH_H + 1"

definition put_char :: "FramebufferInfo \<Rightarrow> u32 \<Rightarrow> u32 \<Rightarrow> u32 \<Rightarrow> u32 \<Rightarrow> (u64 \<Rightarrow> u8) \<Rightarrow> u64 \<Rightarrow> u8" where
  "put_char fb x y c fg m =
     foldl (\<lambda>m (row, col). if (glyph c ! row) AND push_bit col 1 \<noteq> 0
         then fb_pixel (fb_address fb) (fb_width fb) (fb_height fb) (fb_pitch fb) (ucast (fb_bpp fb))
           (x + word_of_nat col) (y + word_of_nat row) fg m else m)
       m (List.product [0..<GLYPH_H] [0..<GLYPH_W])"

fun draw_str :: "FramebufferInfo \<Rightarrow> u32 \<Rightarrow> u32 \<Rightarrow> codepoints \<Rightarrow> u32 \<Rightarrow> (u64 \<Rightarrow> u8) \<Rightarrow> u64 \<Rightarrow> u8" where
  "draw_str fb cx y [] fg m = m"
| "draw_str fb cx y (c # cs) fg m =
     (if cx + word_of_nat GLYPH_W > fb_width fb then m
      else draw_str fb (cx + GLYPH_ADVANCE) y cs fg (put_char fb cx y c fg m))"

definition clear_region :: "FramebufferInfo \<Rightarrow> u32 \<Rightarrow> u32 \<Rightarrow> u32 \<Rightarrow> u32 \<Rightarrow> u32 \<Rightarrow> (u64 \<Rightarrow> u8) \<Rightarrow> u64 \<Rightarrow> u8" where
  "clear_region fb x y width height bg m =
     fb_fill_rect (fb_address fb) (fb_width fb) (fb_height fb) (fb_pitch fb) (ucast (fb_bpp fb)) x y width height bg m"

text \<open>The calls a client of a descriptor can make, and a run of them.\<close>

datatype fb_call =
    Clear u32 | FillRect u32 u32 u32 u32 u32 | HLine u32 u32 u32 u32 | Pixel u32 u32 u32
  | DrawStr u32 u32 codepoints u32 | ClearRegion u32 u32 u32 u32 u32

fun fb_call_run :: "FramebufferInfo \<Rightarrow> fb_call \<Rightarrow> (u64 \<Rightarrow> u8) \<Rightarrow> u64 \<Rightarrow> u8" where
  "fb_call_run v (Clear c) m = fb_clear (fb_address v) (fb_width v) (fb_height v) (fb_pitch v) (ucast (fb_bpp v)) c m"
| "fb_call_run v (FillRect x y w h c) m =
     fb_fill_rect (fb_address v) (fb_width v) (fb_height v) (fb_pitch v) (ucast (fb_bpp v)) x y w h c m"
| "fb_call_run v (HLine y x0 x1 c) m =
     fb_hline (fb_address v) (fb_width v) (fb_height v) (fb_pitch v) (ucast (fb_bpp v)) y x0 x1 c m"
| "fb_call_run v (Pixel x y c) m =
     fb_pixel (fb_address v) (fb_width v) (fb_height v) (fb_pitch v) (ucast (fb_bpp v)) x y c m"
| "fb_call_run v (DrawStr x y s c) m = draw_str v x y s c m"
| "fb_call_run v (ClearRegion x y w h c) m = clear_region v x y w h c m"

text \<open>What \<open>kernel_main\<close> draws on a validated framebuffer.\<close>

definition boot_pattern :: "FramebufferInfo \<Rightarrow> fb_call list" where
  "boot_pattern v = [Clear 0x000000, FillRect 10 10 60 40 0x0000ff, HLine 120 0 (fb_width v div 2) 0x00ff00,
     Pixel 5 5 0xffffff, DrawStr 80 120 (map of_char ''LIONOS v0.2.0'') 0x00ff00]"

section \<open>Writes stay inside\<close>

text \<open>The memory behind a descriptor, as offsets from its address.\<close>

definition only_inside :: "FramebufferInfo \<Rightarrow> (u64 \<Rightarrow> u8) \<Rightarrow> (u64 \<Rightarrow> u8) \<Rightarrow> bool" where
  "only_inside v m m' \<longleftrightarrow> (\<forall>a. unat (a - fb_address v) \<ge> unat (fb_pitch v) * unat (fb_height v) \<longrightarrow> m' a = m a)"

lemma only_inside_refl [simp]: "only_inside v m m"
  by (simp add: only_inside_def)

lemma only_inside_trans: "only_inside v m m1 \<Longrightarrow> only_inside v m1 m2 \<Longrightarrow> only_inside v m m2"
  by (simp add: only_inside_def)

lemma only_inside_foldl:
  assumes "\<And>x m. x \<in> set xs \<Longrightarrow> only_inside v m (f m x)"
  shows "only_inside v m (foldl f m xs)"
  using assms
proof (induction xs arbitrary: m)
  case (Cons x xs)
  then show ?case
    using only_inside_trans [of v m "f m x"] by simp
qed simp

lemma validate_geometry:
  assumes "validate fb = Inr v"
  shows "v = fb" "unat (fb_width v) * ((unat (fb_bpp v) + 7) div 8) \<le> unat (fb_pitch v)"
    "unat (fb_address v) + unat (fb_pitch v) * unat (fb_height v) < 2 ^ 64"
proof -
  have b: "unat (fb_bpp fb) < 256"
    using unat_bound [of "fb_bpp fb"] by simp
  have u: "unat ((ucast (fb_bpp fb) + 7) div 8 :: u32) = (unat (fb_bpp fb) + 7) div 8"
    using b by (simp add: unat_div unat_add_small unat_ucast_up)
  show "v = fb" "unat (fb_width v) * ((unat (fb_bpp v) + 7) div 8) \<le> unat (fb_pitch v)"
    "unat (fb_address v) + unat (fb_pitch v) * unat (fb_height v) < 2 ^ 64"
    using assms unfolding validate_def Let_def
    by (auto simp: checked_mul_Some word_less_nat_alt u unat_ucast_up checked_add_None split: if_splits option.splits)
qed

lemma copy_bytes_inside:
  assumes "unat (p - base) + length bs \<le> n" "n < 2 ^ 64" "n \<le> unat (a - base)"
  shows "copy_bytes p bs m a = m a"
proof -
  have "a - p = (a - base) - (p - base)"
    by simp
  then have "unat (a - p) = unat (a - base) - unat (p - base)"
    using assms by (metis add_leD1 le_trans unat_sub word_le_nat_alt)
  then have "\<not> unat (a - p) < length bs"
    using assms by linarith
  then show ?thesis
    unfolding copy_bytes_def by simp
qed

lemma put_pixel_inside:
  assumes v: "validate fb = Inr v" and f: "pixel_format_ok (ucast (fb_bpp v))"
    and xy: "x < fb_width v" "y < fb_height v"
  shows "only_inside v m (put_pixel (fb_address v) (fb_pitch v) (ucast (fb_bpp v)) x y rgb m)"
proof -
  let ?b = "ucast (fb_bpp v) div 8 :: u32"
  let ?n = "unat (fb_pitch v) * unat (fb_height v)"
  let ?off = "ucast y * ucast (fb_pitch v) + ucast x * ucast ?b :: u64"
  note g = validate_geometry(2,3) [OF v]
  have b: "unat ?b = unat (fb_bpp v) div 8"
    by (simp add: unat_div unat_ucast_up)
  have "unat x < unat (fb_width v)" "unat y < unat (fb_height v)"
    using xy by (simp_all add: word_less_nat_alt)
  have "unat ?b * Suc (unat x) \<le> unat (fb_bpp v) div 8 * unat (fb_width v)"
    using \<open>unat x < unat (fb_width v)\<close> unfolding b by (intro mult_le_mono2) simp
  also have "\<dots> \<le> unat (fb_width v) * ((unat (fb_bpp v) + 7) div 8)"
    by (simp add: mult.commute div_le_mono)
  finally have row: "unat x * unat ?b + unat ?b \<le> unat (fb_pitch v)"
    using g(1) by (simp add: algebra_simps)
  have "Suc (unat y) * unat (fb_pitch v) \<le> unat (fb_height v) * unat (fb_pitch v)"
    using \<open>unat y < unat (fb_height v)\<close> by (intro mult_le_mono1) simp
  then have all: "unat y * unat (fb_pitch v) + (unat x * unat ?b + unat ?b) \<le> ?n"
    using row by (simp add: algebra_simps)
  have n: "?n < 2 ^ 64"
    using g(2) by simp
  have "unat (ucast y * ucast (fb_pitch v) :: u64) = unat y * unat (fb_pitch v)"
    "unat (ucast x * ucast ?b :: u64) = unat x * unat ?b"
    using all n by (simp_all add: unat_mult_small unat_ucast_up)
  then have off: "unat ?off = unat y * unat (fb_pitch v) + unat x * unat ?b"
    using all n by (simp add: unat_add_small)
  have inside: "copy_bytes (fb_address v + ?off) bs m a = m a"
    if "length bs = unat ?b" "?n \<le> unat (a - fb_address v)" for bs a
  proof (rule copy_bytes_inside [where base = "fb_address v" and n = ?n])
    show "unat (fb_address v + ?off - fb_address v) + length bs \<le> ?n"
      using off all that(1) by simp
  qed (use n that in simp_all)
  have "unat ?b = 1 \<or> unat ?b = 3 \<or> unat ?b = 4"
    using f by (auto simp: pixel_format_ok_def)
  then show ?thesis
    using inside f unfolding only_inside_def put_pixel_def Let_def pixel_format_ok_def
    by (auto simp: add.assoc)
qed

lemma set_takeWhile_P: "x \<in> set (takeWhile P xs) \<Longrightarrow> P x"
  by (rule set_takeWhileD [THEN conjunct2])

lemma fb_fill_rect_inside:
  assumes "validate fb = Inr v"
  shows "only_inside v m (fb_fill_rect (fb_address v) (fb_width v) (fb_height v) (fb_pitch v) (ucast (fb_bpp v)) x y w h c m)"
  unfolding fb_fill_rect_def lion_fb_fill_rect_def fb_row_def
  by (auto intro!: only_inside_foldl put_pixel_inside [OF assms] dest!: set_takeWhile_P)

lemma fb_pixel_inside:
  assumes "validate fb = Inr v"
  shows "only_inside v m (fb_pixel (fb_address v) (fb_width v) (fb_height v) (fb_pitch v) (ucast (fb_bpp v)) x y c m)"
  using put_pixel_inside [OF assms] by (simp add: fb_pixel_def lion_fb_pixel_def not_le)

lemma fb_hline_inside:
  assumes "validate fb = Inr v"
  shows "only_inside v m (fb_hline (fb_address v) (fb_width v) (fb_height v) (fb_pitch v) (ucast (fb_bpp v)) y x0 x1 c m)"
  unfolding fb_hline_def lion_fb_hline_def Let_def
  by (auto simp: not_le intro!: only_inside_foldl put_pixel_inside [OF assms] dest!: set_takeWhile_P)

lemma put_char_inside:
  assumes "validate fb = Inr v"
  shows "only_inside v m (put_char v x y c fg m)"
  unfolding put_char_def using fb_pixel_inside [OF assms] by (intro only_inside_foldl) (auto split: prod.splits)

lemma draw_str_inside:
  assumes "validate fb = Inr v"
  shows "only_inside v m (draw_str v x y s fg m)"
proof (induction s arbitrary: x m)
  case (Cons c s)
  have "only_inside v m (draw_str v (x + GLYPH_ADVANCE) y s fg (put_char v x y c fg m))"
    using put_char_inside [OF assms] Cons.IH by (rule only_inside_trans)
  then show ?case
    by simp
qed simp

lemmas draws_inside = fb_fill_rect_inside fb_pixel_inside fb_hline_inside draw_str_inside

lemma fb_call_inside: "validate fb = Inr v \<Longrightarrow> only_inside v m (fb_call_run v c m)"
  by (cases c) (simp_all add: draws_inside clear_region_def fb_clear_def lion_fb_clear_def flip: fb_fill_rect_def)

section \<open>Properties\<close>

text \<open>
  Whatever sequence of drawing calls runs on a validated descriptor, with whatever
  coordinates, sizes and text, a byte that changes lies in the \<open>pitch * height\<close> bytes from the
  framebuffer's address, and those bytes do not wrap around the address space.
\<close>

lemma validated_framebuffer_safe:
  assumes "validate fb = Inr v" "foldl (\<lambda>m c. fb_call_run v c m) m cs a \<noteq> m a"
  shows "unat (fb_address fb) \<le> unat a \<and> unat a < unat (fb_address fb) + unat (fb_pitch fb) * unat (fb_height fb)
    \<and> unat (fb_address fb) + unat (fb_pitch fb) * unat (fb_height fb) < 2 ^ 64"
proof -
  note g = validate_geometry [OF assms(1)]
  have "only_inside v m (foldl (\<lambda>m c. fb_call_run v c m) m cs)"
    using fb_call_inside [OF assms(1)] by (intro only_inside_foldl)
  then have lt: "unat (a - fb_address fb) < unat (fb_pitch fb) * unat (fb_height fb)"
    using assms(2) g(1) unfolding only_inside_def by (meson not_le)
  have "unat a = unat (fb_address fb) + unat (a - fb_address fb)"
    using unat_add_small [of "fb_address fb" "a - fb_address fb"] lt g by simp
  then show ?thesis
    using lt g by simp
qed

definition sample_fb :: FramebufferInfo where
  "sample_fb = \<lparr>fb_address = 0xFD000000, fb_width = 1024, fb_height = 768, fb_bpp = 32, fb_pitch = 4096\<rparr>"

lemma validated_framebuffer_safe_witness:
  "fb_call_run sample_fb (Pixel 5 5 0xffffff) (\<lambda>_. 0) 0xFD005014 = 0xff
   \<and> unat (0xFD000000 :: u64) \<le> unat (0xFD005014 :: u64)"
proof -
  have v: "validate sample_fb = Inr sample_fb"
    by (simp add: validate_def sample_fb_def is_supported_bpp_def checked_mul_def checked_add_def)
  have p: "fb_call_run sample_fb (Pixel 5 5 0xffffff) (\<lambda>_. 0) 0xFD005014 = 0xff"
    by (simp add: sample_fb_def fb_pixel_def lion_fb_pixel_def pixel_format_ok_def put_pixel_def copy_bytes_def)
  then show ?thesis
    using validated_framebuffer_safe [OF v, of "\<lambda>_. 0" "[Pixel 5 5 0xffffff]" "0xFD005014"]
    by (simp add: sample_fb_def del: fb_call_run.simps)
qed

end
