(* ===== verification/Gfx.thy ===== *)
theory Gfx
  imports Font
begin

text \<open>
  Model of \<open>src/kernel/src/gfx.rs\<close>: the bounds-checked canvas, its drawing operations, the back
  buffer and the compositor.  \<open>usize\<close> is a 64-bit word, sums and products wrap as in a release
  build, slices that do not fit panic.  A canvas is abstracted to its pixels: an operation is
  described by the pixels it sets.  The floating-point easing curves are not modelled.
\<close>

section \<open>Model\<close>

abbreviation upto_word :: "u64 \<Rightarrow> u64 \<Rightarrow> u64 list" where
  "upto_word a b \<equiv> map word_of_nat [unat a..<unat b]"

record Canvas =
  cv_buf :: bytes
  cv_width :: u64
  cv_height :: u64
  cv_pitch :: u64
  cv_bpp :: u64

definition canvas_new :: "bytes \<Rightarrow> u64 \<Rightarrow> u64 \<Rightarrow> u64 \<Rightarrow> u64 \<Rightarrow> Canvas option" where
  "canvas_new buf width height pitch bpp =
     (if bpp = 0 \<or> width = 0 \<or> height = 0 then None
      else if (case checked_mul width bpp of None \<Rightarrow> True | Some need \<Rightarrow> need > pitch) then None
      else if (case checked_mul height pitch of None \<Rightarrow> True | Some need \<Rightarrow> unat need > length buf) then None
      else Some \<lparr>cv_buf = buf, cv_width = width, cv_height = height, cv_pitch = pitch, cv_bpp = bpp\<rparr>)"

definition pixel_offset :: "Canvas \<Rightarrow> u64 \<Rightarrow> u64 \<Rightarrow> u64 option" where
  "pixel_offset c x y =
     (if x < cv_width c \<and> y < cv_height c then Some (y * cv_pitch c + x * cv_bpp c) else None)"

definition slice_ok :: "u64 \<Rightarrow> u64 \<Rightarrow> bytes \<Rightarrow> bool" where
  "slice_ok a b buf \<longleftrightarrow> a \<le> b \<and> unat b \<le> length buf"

definition set_pixel :: "u64 \<Rightarrow> u64 \<Rightarrow> u32 \<Rightarrow> Canvas \<Rightarrow> (bool \<times> Canvas) outcome" where
  "set_pixel x y rgb c =
     (case pixel_offset c x y of None \<Rightarrow> Returns (False, c)
      | Some off \<Rightarrow>
          if slice_ok off (off + cv_bpp c) (cv_buf c) \<and> unat (cv_bpp c) \<le> 4
          then Returns (True, c\<lparr>cv_buf := take (unat off) (cv_buf c) @ take (unat (cv_bpp c)) (to_le32 rgb)
                 @ drop (unat (off + cv_bpp c)) (cv_buf c)\<rparr>)
          else Panics)"

definition read_pixel :: "u64 \<Rightarrow> u64 \<Rightarrow> Canvas \<Rightarrow> u32 option outcome" where
  "read_pixel x y c =
     (case pixel_offset c x y of None \<Rightarrow> Returns None
      | Some off \<Rightarrow>
          if slice_ok off (off + cv_bpp c) (cv_buf c) \<and> unat (cv_bpp c) \<le> 4
          then Returns (Some (le32 (take (unat (cv_bpp c)) (drop (unat off) (cv_buf c))
                 @ replicate (4 - unat (cv_bpp c)) 0) 0))
          else Panics)"

definition drop_flag :: "(bool \<times> 's) outcome \<Rightarrow> 's outcome" where
  "drop_flag r = (case r of Panics \<Rightarrow> Panics | Returns (_, s) \<Rightarrow> Returns s)"

definition fill_rect :: "u64 \<Rightarrow> u64 \<Rightarrow> u64 \<Rightarrow> u64 \<Rightarrow> u32 \<Rightarrow> Canvas \<Rightarrow> Canvas outcome" where
  "fill_rect x y w h rgb c =
     (let x0 = min x (cv_width c);
          y0 = min y (cv_height c);
          x1 = min (saturating_add x w) (cv_width c);
          y1 = min (saturating_add y h) (cv_height c)
      in for_each (\<lambda>yy. for_each (\<lambda>xx c. drop_flag (set_pixel xx yy rgb c)) (upto_word x0 x1)) (upto_word y0 y1) c)"

definition clear :: "u32 \<Rightarrow> Canvas \<Rightarrow> Canvas outcome" where
  "clear rgb c = fill_rect 0 0 (cv_width c) (cv_height c) rgb c"

definition blit_row :: "Canvas \<Rightarrow> u64 \<Rightarrow> u64 \<Rightarrow> u64 \<Rightarrow> u64 \<Rightarrow> u64 \<times> Canvas \<Rightarrow> (u64 \<times> Canvas) outcome" where
  "blit_row src w dx dy row = (\<lambda>(copied, c).
     let src_off = row * cv_pitch src;
         dst_off = (dy + row) * cv_pitch c + dx * cv_bpp c;
         n = w * min (cv_bpp c) (cv_bpp src);
         n = min (min n (word_of_nat (length (cv_buf src)) - src_off)) (word_of_nat (length (cv_buf c)) - dst_off) in
     if n = 0 then Returns (copied, c)
     else if slice_ok dst_off (dst_off + n) (cv_buf c) \<and> slice_ok src_off (src_off + n) (cv_buf src)
     then Returns (copied + n, c\<lparr>cv_buf := take (unat dst_off) (cv_buf c)
            @ take (unat n) (drop (unat src_off) (cv_buf src)) @ drop (unat (dst_off + n)) (cv_buf c)\<rparr>)
     else Panics)"

definition blit_from :: "Canvas \<Rightarrow> u64 \<Rightarrow> u64 \<Rightarrow> u64 \<Rightarrow> u64 \<Rightarrow> Canvas \<Rightarrow> (u64 \<times> Canvas) outcome" where
  "blit_from src sw sh dx dy c =
     (let w = min (min sw (cv_width src)) (saturating_sub (cv_width c) dx);
          h = min (min sh (cv_height src)) (saturating_sub (cv_height c) dy)
      in for_each (blit_row src w dx dy) (upto_word 0 h) (0, c))"

definition draw_glyph :: "u64 \<Rightarrow> u64 \<Rightarrow> u32 \<Rightarrow> u32 \<Rightarrow> Canvas \<Rightarrow> Canvas outcome" where
  "draw_glyph x y ch fg =
     for_each (\<lambda>row. for_each (\<lambda>col c.
         if (glyph ch ! row) AND push_bit col 1 \<noteq> 0
         then drop_flag (set_pixel (x + word_of_nat col) (saturating_add y (word_of_nat row)) fg c)
         else Returns c) [0..<GLYPH_W]) [0..<GLYPH_H]"

fun draw_text :: "u64 \<Rightarrow> u64 \<Rightarrow> codepoints \<Rightarrow> u32 \<Rightarrow> Canvas \<Rightarrow> Canvas outcome" where
  "draw_text x y [] fg c = Returns c"
| "draw_text x y (ch # s) fg c =
     (if saturating_add x (word_of_nat GLYPH_W) > cv_width c then Returns c
      else case draw_glyph x y ch fg c of Panics \<Rightarrow> Panics
        | Returns c \<Rightarrow> draw_text (x + (word_of_nat GLYPH_W + 1)) y s fg c)"

definition mix :: "u32 \<Rightarrow> u32 \<Rightarrow> u32 \<Rightarrow> nat \<Rightarrow> u32" where
  "mix fg bg alpha k =
     ((drop_bit k fg AND 0xff) * alpha + (drop_bit k bg AND 0xff) * (255 - alpha)) div 255"

definition blend_pixel :: "u64 \<Rightarrow> u64 \<Rightarrow> u32 \<Rightarrow> u32 \<Rightarrow> Canvas \<Rightarrow> (bool \<times> Canvas) outcome" where
  "blend_pixel x y fg alpha c =
     (if alpha = 0 then Returns (True, c)
      else case read_pixel x y c of Panics \<Rightarrow> Panics | Returns None \<Rightarrow> Returns (False, c)
      | Returns (Some bg) \<Rightarrow>
          let colour = (if alpha \<ge> 255 then fg
                else push_bit 16 (mix fg bg alpha 16) OR push_bit 8 (mix fg bg alpha 8) OR mix fg bg alpha 0)
          in case set_pixel x y colour c of Panics \<Rightarrow> Panics | Returns (_, c) \<Rightarrow> Returns (True, c))"

text \<open>
  The supersample count of one output pixel: of the nine sample points, those whose glyph bit
  is on.
\<close>

definition samples_on :: "bytes \<Rightarrow> u64 \<Rightarrow> u64 \<Rightarrow> u64 \<Rightarrow> u32" where
  "samples_on g scale ox oy =
     (let ss = 3; fine = ss * scale in
      word_of_nat (length (filter (\<lambda>(sy, sx).
        let grow = (oy * ss + word_of_nat sy) div fine; gcol = (ox * ss + word_of_nat sx) div fine in
        unat grow < GLYPH_H \<and> unat gcol < GLYPH_W \<and> (g ! unat grow) AND push_bit (unat gcol) 1 \<noteq> 0)
        (List.product [0..<3] [0..<3]))))"

definition draw_glyph_aa :: "u64 \<Rightarrow> u64 \<Rightarrow> u32 \<Rightarrow> u32 \<Rightarrow> u64 \<Rightarrow> Canvas \<Rightarrow> Canvas outcome" where
  "draw_glyph_aa x y ch fg scale =
     (let ow = scale * word_of_nat GLYPH_W; oh = scale * word_of_nat GLYPH_H in
      for_each (\<lambda>oy. for_each (\<lambda>ox c.
          let alpha = samples_on (glyph ch) scale ox oy * 255 div 9
          in drop_flag (blend_pixel (x + ox) (y + oy) fg alpha c)) (upto_word 0 ow)) (upto_word 0 oh))"

fun draw_text_aa :: "u64 \<Rightarrow> u64 \<Rightarrow> codepoints \<Rightarrow> u32 \<Rightarrow> u64 \<Rightarrow> Canvas \<Rightarrow> Canvas outcome" where
  "draw_text_aa x y [] fg scale c = Returns c"
| "draw_text_aa x y (ch # s) fg scale c =
     (if scale = 0 \<or> saturating_add x (scale * word_of_nat GLYPH_W) > cv_width c then Returns c
      else case draw_glyph_aa x y ch fg scale c of Panics \<Rightarrow> Panics
        | Returns c \<Rightarrow> draw_text_aa (x + scale * (word_of_nat GLYPH_W + 1)) y s fg scale c)"

definition back_buffer_new :: "u64 \<Rightarrow> u64 \<Rightarrow> u64 \<Rightarrow> Canvas option" where
  "back_buffer_new width height bpp =
     (case checked_mul width bpp of None \<Rightarrow> None | Some pitch \<Rightarrow>
      case checked_mul pitch height of None \<Rightarrow> None | Some total_bytes \<Rightarrow>
      canvas_new (replicate (unat total_bytes) 0) width height pitch bpp)"

record Window =
  wx :: u64
  wy :: u64
  ww :: u64
  wh :: u64
  wcolor :: u32

definition covers :: "Window \<Rightarrow> u64 \<Rightarrow> u64 \<Rightarrow> bool" where
  "covers w px py \<longleftrightarrow> px \<ge> wx w \<and> px < wx w + ww w \<and> py \<ge> wy w \<and> py < wy w + wh w"

definition paint_scene :: "Window list \<Rightarrow> Canvas \<Rightarrow> Canvas outcome" where
  "paint_scene windows = for_each (\<lambda>w. fill_rect (wx w) (wy w) (ww w) (wh w) (wcolor w)) windows"

definition focus :: "Window list \<Rightarrow> u64 \<Rightarrow> u64 \<Rightarrow> nat option" where
  "focus windows mx my = find (\<lambda>i. covers (windows ! i) mx my) (rev [0..<length windows])"

definition TITLE_BAR_H :: u64 where
  "TITLE_BAR_H = 18"

definition decorate_window :: "Window \<Rightarrow> codepoints \<Rightarrow> u32 \<Rightarrow> u32 \<Rightarrow> Canvas \<Rightarrow> Canvas outcome" where
  "decorate_window w title title_fg title_bg c =
     (let strip_h = min TITLE_BAR_H (wh w);
          ty = wy w + saturating_sub strip_h (2 * word_of_nat GLYPH_H) div 2 in
      for_each (\<lambda>f. f)
        [fill_rect (wx w) (wy w) (ww w) strip_h title_bg,
         draw_text_aa (wx w + 4) ty title title_fg 2,
         fill_rect (wx w) (wy w) (ww w) 1 (wcolor w),
         fill_rect (wx w) (saturating_sub (saturating_add (wy w) (wh w)) 1) (ww w) 1 (wcolor w),
         fill_rect (wx w) (wy w) 1 (wh w) (wcolor w),
         fill_rect (saturating_sub (saturating_add (wx w) (ww w)) 1) (wy w) 1 (wh w) (wcolor w)] c)"

definition wave :: "u32 \<Rightarrow> u32" where
  "wave phase =
     (let r = 0x10 + (phase AND 0x3F); g = 0x20 + (drop_bit 1 phase AND 0x3F); b = 0x30 + (drop_bit 2 phase AND 0x3F)
      in push_bit 16 r OR push_bit 8 g OR b)"

definition gradient_fill :: "u32 \<Rightarrow> Canvas \<Rightarrow> Canvas outcome" where
  "gradient_fill tick c =
     for_each (\<lambda>y. for_each (\<lambda>x c. drop_flag (set_pixel x y (wave ((ucast y + tick) AND 0xFF)) c))
       (upto_word 0 (cv_width c))) (upto_word 0 (cv_height c)) c"

definition wallpaper_drift :: "u32 \<Rightarrow> Canvas \<Rightarrow> Canvas outcome" where
  "wallpaper_drift tick c =
     for_each (\<lambda>y. for_each (\<lambda>x c. drop_flag (set_pixel x y (wave ((ucast y + ucast x + tick) AND 0xFF)) c))
       (upto_word 0 (cv_width c))) (upto_word 0 (cv_height c)) c"

section \<open>Pixels\<close>

definition canvas_ok :: "Canvas \<Rightarrow> bool" where
  "canvas_ok c \<longleftrightarrow> 0 < unat (cv_bpp c) \<and> unat (cv_bpp c) \<le> 4
     \<and> unat (cv_width c) * unat (cv_bpp c) \<le> unat (cv_pitch c)
     \<and> unat (cv_height c) * unat (cv_pitch c) \<le> length (cv_buf c) \<and> length (cv_buf c) < 2 ^ 63"

definition pixel_at :: "Canvas \<Rightarrow> nat \<Rightarrow> nat \<Rightarrow> nat" where
  "pixel_at c i j = j * unat (cv_pitch c) + i * unat (cv_bpp c)"

definition pix :: "Canvas \<Rightarrow> nat \<Rightarrow> nat \<Rightarrow> bytes" where
  "pix c i j = take (unat (cv_bpp c)) (drop (pixel_at c i j) (cv_buf c))"

definition same_shape :: "Canvas \<Rightarrow> Canvas \<Rightarrow> bool" where
  "same_shape c c' \<longleftrightarrow> length (cv_buf c') = length (cv_buf c) \<and> cv_width c' = cv_width c \<and> cv_height c' = cv_height c
     \<and> cv_pitch c' = cv_pitch c \<and> cv_bpp c' = cv_bpp c"

text \<open>A byte outside every pixel: the padding of a row and what follows the last row.\<close>

definition in_pixel :: "Canvas \<Rightarrow> nat \<Rightarrow> bool" where
  "in_pixel c k \<longleftrightarrow> (\<exists>i<unat (cv_width c). \<exists>j<unat (cv_height c).
     pixel_at c i j \<le> k \<and> k < pixel_at c i j + unat (cv_bpp c))"

text \<open>\<open>painted f c c'\<close>: from \<open>c\<close> to \<open>c'\<close> exactly the pixels in the domain of \<open>f\<close> were set, to \<open>f\<close>.\<close>

definition painted :: "(nat \<Rightarrow> nat \<Rightarrow> bytes option) \<Rightarrow> Canvas \<Rightarrow> Canvas \<Rightarrow> bool" where
  "painted f c c' \<longleftrightarrow> same_shape c c'
     \<and> (\<forall>i<unat (cv_width c). \<forall>j<unat (cv_height c).
          pix c' i j = (case f i j of None \<Rightarrow> pix c i j | Some bs \<Rightarrow> bs))
     \<and> (\<forall>k<length (cv_buf c). \<not> in_pixel c k \<longrightarrow> cv_buf c' ! k = cv_buf c ! k)"

definition colour :: "Canvas \<Rightarrow> u32 \<Rightarrow> bytes" where
  "colour c rgb = take (unat (cv_bpp c)) (to_le32 rgb)"


lemma pixel_bounds:
  assumes "canvas_ok c" "i < unat (cv_width c)" "j < unat (cv_height c)"
  shows "i * unat (cv_bpp c) + unat (cv_bpp c) \<le> unat (cv_pitch c)"
    and "pixel_at c i j + unat (cv_bpp c) \<le> length (cv_buf c)"
proof -
  have "Suc i * unat (cv_bpp c) \<le> unat (cv_width c) * unat (cv_bpp c)"
    using assms(2) by (intro mult_le_mono1) simp
  then show row: "i * unat (cv_bpp c) + unat (cv_bpp c) \<le> unat (cv_pitch c)"
    using assms(1) by (simp add: canvas_ok_def)
  have "Suc j * unat (cv_pitch c) \<le> unat (cv_height c) * unat (cv_pitch c)"
    using assms(3) by (intro mult_le_mono1) simp
  then show "pixel_at c i j + unat (cv_bpp c) \<le> length (cv_buf c)"
    using assms(1) row by (simp add: canvas_ok_def pixel_at_def)
qed

lemma pixel_before:
  assumes "canvas_ok c" "i < unat (cv_width c)" "j < unat (cv_height c)" "j < j' \<or> j = j' \<and> i < i'"
  shows "pixel_at c i j + unat (cv_bpp c) \<le> pixel_at c i' j'"
  using assms(4)
proof
  assume "j < j'"
  then have "Suc j * unat (cv_pitch c) \<le> j' * unat (cv_pitch c)"
    by (intro mult_le_mono1) simp
  then show ?thesis
    using pixel_bounds(1) [OF assms(1-3)] by (simp add: pixel_at_def)
next
  assume "j = j' \<and> i < i'"
  moreover from this have "Suc i * unat (cv_bpp c) \<le> i' * unat (cv_bpp c)"
    by (intro mult_le_mono1) simp
  ultimately show ?thesis
    by (simp add: pixel_at_def)
qed

lemma pixels_apart:
  assumes "canvas_ok c" "i < unat (cv_width c)" "j < unat (cv_height c)"
    and "i' < unat (cv_width c)" "j' < unat (cv_height c)" "(i, j) \<noteq> (i', j')"
  shows "pixel_at c i j + unat (cv_bpp c) \<le> pixel_at c i' j' \<or> pixel_at c i' j' + unat (cv_bpp c) \<le> pixel_at c i j"
  using pixel_before [OF assms(1-3), of j' i'] pixel_before [OF assms(1,4,5), of j i] assms(6)
  by (metis linorder_neqE_nat)

text \<open>Overwriting a stretch of the buffer.\<close>

definition overwrite :: "nat \<Rightarrow> bytes \<Rightarrow> bytes \<Rightarrow> bytes" where
  "overwrite a bs buf = take a buf @ bs @ drop (a + length bs) buf"

lemma overwrite_props:
  assumes "a + length bs \<le> length buf"
  shows "length (overwrite a bs buf) = length buf"
    and "k < length buf \<Longrightarrow> overwrite a bs buf ! k = (if a \<le> k \<and> k < a + length bs then bs ! (k - a) else buf ! k)"
  using assms by (auto simp: overwrite_def nth_append)

lemma overwrite_read:
  assumes "a + length bs \<le> length buf"
  shows "take (length bs) (drop a (overwrite a bs buf)) = bs"
    and "b + n \<le> a \<or> a + length bs \<le> b \<Longrightarrow> take n (drop b (overwrite a bs buf)) = take n (drop b buf)"
proof -
  show "take (length bs) (drop a (overwrite a bs buf)) = bs"
    using assms by (simp add: overwrite_def)
  show "take n (drop b (overwrite a bs buf)) = take n (drop b buf)" if "b + n \<le> a \<or> a + length bs \<le> b"
    using assms that overwrite_props [OF assms] by (auto intro!: nth_equalityI)
qed

lemma set_pixel_painted:
  assumes ok: "canvas_ok c"
  obtains c' where "set_pixel x y rgb c = Returns (x < cv_width c \<and> y < cv_height c, c')"
    "painted (\<lambda>i j. if i = unat x \<and> j = unat y then Some (colour c rgb) else None) c c'"
proof (cases "x < cv_width c \<and> y < cv_height c")
  case False
  then have "painted (\<lambda>i j. if i = unat x \<and> j = unat y then Some (colour c rgb) else None) c c"
    by (auto simp: painted_def same_shape_def word_less_nat_alt)
  with False that show ?thesis
    by (auto simp: set_pixel_def pixel_offset_def)
next
  case True
  let ?o = "pixel_at c (unat x) (unat y)" and ?b = "unat (cv_bpp c)"
  let ?off = "y * cv_pitch c + x * cv_bpp c"
  have xy: "unat x < unat (cv_width c)" "unat y < unat (cv_height c)"
    using True by (simp_all add: word_less_nat_alt)
  note bd = pixel_bounds [OF ok xy]
  have small: "?o + ?b < 2 ^ 63" and b4: "?b \<le> 4"
    using bd(2) ok by (auto simp: canvas_ok_def)
  then have off: "unat ?off = ?o" "unat (?off + cv_bpp c) = ?o + ?b"
    by (simp_all add: pixel_at_def unat_mult_small unat_add_small)
  then have sl: "slice_ok ?off (?off + cv_bpp c) (cv_buf c)"
    using bd(2) by (simp add: slice_ok_def word_le_nat_alt)
  let ?c = "c\<lparr>cv_buf := overwrite ?o (colour c rgb) (cv_buf c)\<rparr>"
  have len: "length (colour c rgb) = ?b"
    using b4 by (simp add: colour_def)
  have run: "set_pixel x y rgb c = Returns (True, ?c)"
    using True sl b4 off len by (simp add: set_pixel_def pixel_offset_def overwrite_def colour_def)
  have fit: "?o + length (colour c rgb) \<le> length (cv_buf c)"
    using bd(2) len by simp
  have "pix ?c i j = (if i = unat x \<and> j = unat y then colour c rgb else pix c i j)"
    if "i < unat (cv_width c)" "j < unat (cv_height c)" for i j
    using overwrite_read(1) [OF fit] overwrite_read(2) [OF fit, of "pixel_at c i j" ?b] pixels_apart [OF ok that xy] len
    by (auto simp: pix_def pixel_at_def)
  moreover have "cv_buf ?c ! k = cv_buf c ! k" if "k < length (cv_buf c)" "\<not> in_pixel c k" for k
  proof -
    have "\<not> (?o \<le> k \<and> k < ?o + length (colour c rgb))"
      using that(2) xy len by (auto simp: in_pixel_def)
    then have "overwrite ?o (colour c rgb) (cv_buf c) ! k = cv_buf c ! k"
      by (rule trans [OF overwrite_props(2) [OF fit that(1)] if_not_P])
    then show ?thesis
      by simp
  qed
  ultimately have "painted (\<lambda>i j. if i = unat x \<and> j = unat y then Some (colour c rgb) else None) c ?c"
    using overwrite_props(1) [OF fit] by (auto simp: painted_def same_shape_def)
  with run True show ?thesis
    by (intro that [of ?c]) simp_all
qed

lemma same_shape_ok: "same_shape c c' \<Longrightarrow> canvas_ok c \<Longrightarrow> canvas_ok c'"
  by (simp add: same_shape_def canvas_ok_def)

lemma same_shape_trans: "same_shape a b \<Longrightarrow> same_shape b c \<Longrightarrow> same_shape a c"
  by (simp add: same_shape_def)

lemma painted_refl: "painted (\<lambda>_ _. None) c c"
  by (simp add: painted_def same_shape_def)

lemma painted_shape: "painted f c c' \<Longrightarrow> same_shape c c'"
  by (simp add: painted_def)

lemma painted_trans:
  assumes "painted f c c1" "painted g c1 c2"
  shows "painted (\<lambda>i j. case g i j of None \<Rightarrow> f i j | Some bs \<Rightarrow> Some bs) c c2"
proof -
  have s: "same_shape c c1" "same_shape c1 c2"
    using assms by (simp_all add: painted_def)
  then have "in_pixel c1 = in_pixel c"
    by (simp add: in_pixel_def pixel_at_def same_shape_def fun_eq_iff)
  with assms s show ?thesis
    by (auto simp: painted_def same_shape_def split: option.splits)
qed

lemma painted_cong:
  assumes "painted f c c'" "\<And>i j. i < unat (cv_width c) \<Longrightarrow> j < unat (cv_height c) \<Longrightarrow> f i j = g i j"
  shows "painted g c c'"
  using assms by (auto simp: painted_def split: option.splits)

text \<open>A loop whose rounds paint, paints; the later round wins.\<close>

definition last_of :: "('a \<Rightarrow> nat \<Rightarrow> nat \<Rightarrow> bytes option) \<Rightarrow> 'a list \<Rightarrow> nat \<Rightarrow> nat \<Rightarrow> bytes option" where
  "last_of F xs i j = foldl (\<lambda>r x. case F x i j of None \<Rightarrow> r | Some bs \<Rightarrow> Some bs) None xs"

lemma last_of_simps:
  "last_of F [] i j = None"
  "last_of F (xs @ [x]) i j = (case F x i j of None \<Rightarrow> last_of F xs i j | Some bs \<Rightarrow> Some bs)"
  unfolding last_of_def by simp_all

lemma for_each_painted:
  assumes "\<And>x d. x \<in> set xs \<Longrightarrow> same_shape c d \<Longrightarrow> \<exists>d'. f x d = Returns d' \<and> painted (F x) d d'"
  shows "\<exists>c'. for_each f xs c = Returns c' \<and> painted (last_of F xs) c c'"
  using assms
proof (induction xs rule: rev_induct)
  case Nil
  have "last_of F [] = (\<lambda>_ _. None)"
    by (simp add: last_of_def fun_eq_iff)
  then show ?case
    using painted_refl by simp
next
  case (snoc x xs)
  obtain c1 where c1: "for_each f xs c = Returns c1" "painted (last_of F xs) c c1"
    using snoc by auto
  obtain c2 where c2: "f x c1 = Returns c2" "painted (F x) c1 c2"
    using snoc.prems [of x c1] painted_shape [OF c1(2)] by auto
  have "(\<lambda>i j. case F x i j of None \<Rightarrow> last_of F xs i j | Some bs \<Rightarrow> Some bs) = last_of F (xs @ [x])"
    by (intro ext) (rule last_of_simps(2) [symmetric])
  then show ?case
    using painted_trans [OF c1(2) c2(2)] c1(1) c2(1) by (simp add: for_each_append)
qed

lemma last_of_const:
  assumes "\<And>x. x \<in> set xs \<Longrightarrow> F x i j = None \<or> F x i j = Some v"
  shows "last_of F xs i j = (if \<exists>x\<in>set xs. F x i j = Some v then Some v else None)"
  using assms by (induction xs rule: rev_induct) (fastforce simp: last_of_simps split: option.splits)+

lemma colour_shape: "same_shape c d \<Longrightarrow> colour d rgb = colour c rgb"
  by (simp add: colour_def same_shape_def)

lemma plot_painted:
  assumes "canvas_ok c" "same_shape c d"
  shows "\<exists>d'. drop_flag (set_pixel x y rgb d) = Returns d'
    \<and> painted (\<lambda>i j. if i = unat x \<and> j = unat y then Some (colour c rgb) else None) d d'"
proof (rule set_pixel_painted [OF same_shape_ok [OF assms(2,1)], of x y rgb])
  fix d'
  assume "set_pixel x y rgb d = Returns (x < cv_width d \<and> y < cv_height d, d')"
    "painted (\<lambda>i j. if i = unat x \<and> j = unat y then Some (colour d rgb) else None) d d'"
  then show ?thesis
    unfolding colour_shape [OF assms(2)] by (auto simp: drop_flag_def)
qed

lemma unat_upto: "n \<in> set [unat a..<unat (b :: u64)] \<Longrightarrow> unat (word_of_nat n :: u64) = n"
  using unat_bound [of b] by (intro unat_of_nat_small) simp

text \<open>The nested loops over a rectangle of pixels, each with its own colour.\<close>

definition rect :: "u64 \<Rightarrow> u64 \<Rightarrow> u64 \<Rightarrow> u64 \<Rightarrow> (nat \<Rightarrow> nat \<Rightarrow> bytes) \<Rightarrow> nat \<Rightarrow> nat \<Rightarrow> bytes option" where
  "rect x0 x1 y0 y1 K i j =
     (if unat x0 \<le> i \<and> i < unat x1 \<and> unat y0 \<le> j \<and> j < unat y1 then Some (K i j) else None)"

lemma grid_painted:
  assumes ok: "canvas_ok c"
  shows "\<exists>c'. for_each (\<lambda>yy. for_each (\<lambda>xx d. drop_flag (set_pixel xx yy (K xx yy) d)) (upto_word x0 x1)) (upto_word y0 y1) c
      = Returns c' \<and> painted (rect x0 x1 y0 y1 (\<lambda>i j. colour c (K (word_of_nat i) (word_of_nat j)))) c c'"
proof -
  let ?v = "\<lambda>i j. colour c (K (word_of_nat i) (word_of_nat j))"
  let ?row = "\<lambda>yy. for_each (\<lambda>xx d. drop_flag (set_pixel xx yy (K xx yy) d)) (upto_word x0 x1)"
  let ?F = "\<lambda>yy i j. if unat x0 \<le> i \<and> i < unat x1 \<and> j = unat yy then Some (?v i j) else None"
  have row: "\<exists>d'. ?row yy d = Returns d' \<and> painted (?F yy) d d'" if sh: "same_shape c d" for yy d
  proof -
    let ?G = "\<lambda>xx i j. if i = unat xx \<and> j = unat yy then Some (colour c (K xx yy)) else None"
    obtain d' where d': "?row yy d = Returns d'" "painted (last_of ?G (upto_word x0 x1)) d d'"
      using for_each_painted [of "upto_word x0 x1" d "\<lambda>xx d. drop_flag (set_pixel xx yy (K xx yy) d)" ?G]
        plot_painted [OF ok] same_shape_trans [OF sh] by blast
    moreover have "last_of ?G (upto_word x0 x1) = ?F yy"
    proof (intro ext)
      fix i j
      have "last_of ?G (upto_word x0 x1) i j = (if \<exists>xx\<in>set (upto_word x0 x1). ?G xx i j = Some (?v i j) then Some (?v i j) else None)"
        by (rule last_of_const) auto
      moreover have "(\<exists>xx\<in>set (upto_word x0 x1). ?G xx i j = Some (?v i j)) \<longleftrightarrow> unat x0 \<le> i \<and> i < unat x1 \<and> j = unat yy"
      proof
        assume "unat x0 \<le> i \<and> i < unat x1 \<and> j = unat yy"
        then show "\<exists>xx\<in>set (upto_word x0 x1). ?G xx i j = Some (?v i j)"
          using unat_upto [of i x0 x1] by (intro bexI [of _ "word_of_nat i"]) auto
      qed (use unat_upto [of _ x0 x1] in \<open>auto split: if_splits\<close>)
      ultimately show "last_of ?G (upto_word x0 x1) i j = ?F yy i j"
        by simp
    qed
    ultimately show ?thesis
      by auto
  qed
  obtain c' where c': "for_each ?row (upto_word y0 y1) c = Returns c'" "painted (last_of ?F (upto_word y0 y1)) c c'"
    using for_each_painted [of "upto_word y0 y1" c ?row ?F] row by blast
  moreover have "last_of ?F (upto_word y0 y1) = rect x0 x1 y0 y1 ?v"
  proof (intro ext)
    fix i j
    have "last_of ?F (upto_word y0 y1) i j = (if \<exists>yy\<in>set (upto_word y0 y1). ?F yy i j = Some (?v i j) then Some (?v i j) else None)"
      by (rule last_of_const) auto
    moreover have "(\<exists>yy\<in>set (upto_word y0 y1). ?F yy i j = Some (?v i j))
        \<longleftrightarrow> unat x0 \<le> i \<and> i < unat x1 \<and> unat y0 \<le> j \<and> j < unat y1"
    proof
      assume "unat x0 \<le> i \<and> i < unat x1 \<and> unat y0 \<le> j \<and> j < unat y1"
      then show "\<exists>yy\<in>set (upto_word y0 y1). ?F yy i j = Some (?v i j)"
        using unat_upto [of j y0 y1] by (intro bexI [of _ "word_of_nat j"]) auto
    qed (use unat_upto [of _ y0 y1] in \<open>auto split: if_splits\<close>)
    ultimately show "last_of ?F (upto_word y0 y1) i j = rect x0 x1 y0 y1 ?v i j"
      by (simp add: rect_def)
  qed
  ultimately show ?thesis
    by auto
qed

definition box :: "Canvas \<Rightarrow> u64 \<Rightarrow> u64 \<Rightarrow> u64 \<Rightarrow> u64 \<Rightarrow> u32 \<Rightarrow> nat \<Rightarrow> nat \<Rightarrow> bytes option" where
  "box c x y w h rgb i j =
     (if unat x \<le> i \<and> i < unat x + unat w \<and> unat y \<le> j \<and> j < unat y + unat h then Some (colour c rgb) else None)"

lemma unat_min: "unat (min a b) = min (unat a) (unat b)"
  by (simp add: min_def word_le_nat_alt)

lemma fill_rect_painted:
  assumes "canvas_ok c"
  shows "\<exists>c'. fill_rect x y w h rgb c = Returns c' \<and> painted (box c x y w h rgb) c c'"
proof -
  let ?x1 = "min (saturating_add x w) (cv_width c)" and ?y1 = "min (saturating_add y h) (cv_height c)"
  obtain c' where c': "fill_rect x y w h rgb c = Returns c'"
      "painted (rect (min x (cv_width c)) ?x1 (min y (cv_height c)) ?y1 (\<lambda>i j. colour c rgb)) c c'"
    using grid_painted [OF assms, where K = "\<lambda>_ _. rgb"] unfolding fill_rect_def Let_def by metis
  have "unat (cv_width c) \<le> 2 ^ 64 - 1" "unat (cv_height c) \<le> 2 ^ 64 - 1"
    using unat_bound [of "cv_width c"] unat_bound [of "cv_height c"] by simp_all
  then have "rect (min x (cv_width c)) ?x1 (min y (cv_height c)) ?y1 (\<lambda>i j. colour c rgb) i j = box c x y w h rgb i j"
    if "i < unat (cv_width c)" "j < unat (cv_height c)" for i j
    using that by (auto simp: rect_def box_def unat_min unat_saturating_add)
  then show ?thesis
    using painted_cong [OF c'(2)] c'(1) by blast
qed


section \<open>Compositing and focus\<close>

lemma read_pixel_ok:
  assumes ok: "canvas_ok c"
  shows "read_pixel x y c = Returns (if x < cv_width c \<and> y < cv_height c
    then Some (le32 (pix c (unat x) (unat y) @ replicate (4 - unat (cv_bpp c)) 0) 0) else None)"
proof (cases "x < cv_width c \<and> y < cv_height c")
  case True
  let ?o = "pixel_at c (unat x) (unat y)" and ?b = "unat (cv_bpp c)"
  let ?off = "y * cv_pitch c + x * cv_bpp c"
  have xy: "unat x < unat (cv_width c)" "unat y < unat (cv_height c)"
    using True by (simp_all add: word_less_nat_alt)
  note bd = pixel_bounds [OF ok xy]
  have small: "?o + ?b < 2 ^ 63" and b4: "?b \<le> 4"
    using bd(2) ok by (auto simp: canvas_ok_def)
  then have off: "unat ?off = ?o" "unat (?off + cv_bpp c) = ?o + ?b"
    by (simp_all add: pixel_at_def unat_mult_small unat_add_small)
  then have "slice_ok ?off (?off + cv_bpp c) (cv_buf c)"
    using bd(2) by (simp add: slice_ok_def word_le_nat_alt)
  with True b4 off show ?thesis
    by (simp add: read_pixel_def pixel_offset_def pix_def)
qed (auto simp: read_pixel_def pixel_offset_def)

lemma le32_colour:
  assumes "unat (cv_bpp c) \<le> 4"
  shows "le32 (colour c rgb @ replicate (4 - unat (cv_bpp c)) 0) 0 = rgb AND mask (8 * unat (cv_bpp c))"
proof (rule unsigned_word_eqI [where ?'a = nat])
  let ?b = "unat (cv_bpp c)"
  have "le_nat (colour c rgb @ replicate (4 - ?b) 0) = unat rgb mod 256 ^ ?b"
    using assms by (simp add: le_nat_append colour_def to_le32_def take_le_digits le_nat_le_digits min_def)
  moreover have "(256 :: nat) ^ ?b = 2 ^ (8 * ?b)"
    by (simp add: power_mult)
  moreover have "unat rgb mod 2 ^ (8 * ?b) < 2 ^ 32"
    using unat_bound [of rgb] le_less_trans [OF mod_less_eq_dividend] by fastforce
  ultimately show "unat (le32 (colour c rgb @ replicate (4 - ?b) 0) 0) = unat (rgb AND mask (8 * ?b))"
    using assms by (simp add: le32_def le_bytes_def colour_def unat_of_nat_small unat_and_mask)
qed

lemma focus_snoc:
  "focus (ws @ [w]) x y = (if covers w x y then Some (length ws) else focus ws x y)"
proof -
  have "find (\<lambda>i. covers ((ws @ [w]) ! i) x y) (rev [0..<length ws]) = find (\<lambda>i. covers (ws ! i) x y) (rev [0..<length ws])"
    by (rule find_cong) (auto simp: nth_append)
  then show ?thesis
    by (simp add: focus_def)
qed

text \<open>The last box over a pixel belongs to the focused window.\<close>

definition window_fits :: "Window \<Rightarrow> bool" where
  "window_fits w \<longleftrightarrow> unat (wx w) + unat (ww w) < 2 ^ 64 \<and> unat (wy w) + unat (wh w) < 2 ^ 64"

abbreviation window_box :: "Canvas \<Rightarrow> Window \<Rightarrow> nat \<Rightarrow> nat \<Rightarrow> bytes option" where
  "window_box c w \<equiv> box c (wx w) (wy w) (ww w) (wh w) (wcolor w)"

lemma covers_box:
  assumes "window_fits w"
  shows "window_box c w (unat x) (unat y) = (if covers w x y then Some (colour c (wcolor w)) else None)"
  using assms by (auto simp: box_def covers_def window_fits_def word_less_nat_alt word_le_nat_alt unat_add_small)

lemma focus_last:
  assumes "\<forall>w\<in>set ws. window_fits w"
  shows "last_of (window_box c) ws (unat x) (unat y)
    = (case focus ws x y of None \<Rightarrow> None | Some k \<Rightarrow> Some (colour c (wcolor (ws ! k))))
    \<and> (\<forall>k. focus ws x y = Some k \<longrightarrow> k < length ws)"
  using assms
proof (induction ws rule: rev_induct)
  case (snoc w ws)
  then show ?case
    by (auto simp: last_of_simps focus_snoc covers_box nth_append split: option.splits)
qed (simp add: last_of_simps focus_def)

lemma paint_scene_painted:
  assumes "canvas_ok c"
  shows "\<exists>c'. paint_scene ws c = Returns c' \<and> painted (last_of (window_box c) ws) c c'"
  unfolding paint_scene_def
proof (rule for_each_painted)
  fix w d
  assume sh: "same_shape c d"
  have "window_box d w = window_box c w"
    using colour_shape [OF sh] by (simp add: box_def fun_eq_iff)
  then show "\<exists>d'. fill_rect (wx w) (wy w) (ww w) (wh w) (wcolor w) d = Returns d' \<and> painted (window_box c w) d d'"
    using fill_rect_painted [OF same_shape_ok [OF sh assms]] by metis
qed

section \<open>Any drawing stays inside\<close>

definition touched :: "Canvas \<Rightarrow> Canvas \<Rightarrow> bool" where
  "touched c c' \<longleftrightarrow> same_shape c c' \<and> (\<forall>k<length (cv_buf c). \<not> in_pixel c k \<longrightarrow> cv_buf c' ! k = cv_buf c ! k)"

lemma touched_refl: "touched c c"
  by (simp add: touched_def same_shape_def)

lemma touched_trans: "touched c c1 \<Longrightarrow> touched c1 c2 \<Longrightarrow> touched c c2"
  by (auto simp: touched_def same_shape_def in_pixel_def pixel_at_def)

lemma painted_touched: "painted f c c' \<Longrightarrow> touched c c'"
  by (simp add: painted_def touched_def)

text \<open>An operation is safe when on a well-formed canvas it returns and touches only pixels.\<close>

definition safe_op :: "(Canvas \<Rightarrow> Canvas outcome) \<Rightarrow> bool" where
  "safe_op f \<longleftrightarrow> (\<forall>c. canvas_ok c \<longrightarrow> (\<exists>c'. f c = Returns c' \<and> touched c c'))"

lemma touched_ok: "touched c c' \<Longrightarrow> canvas_ok c \<Longrightarrow> canvas_ok c'"
  using same_shape_ok by (auto simp: touched_def)

lemma safe_opD: "safe_op f \<Longrightarrow> canvas_ok c \<Longrightarrow> \<exists>c'. f c = Returns c' \<and> touched c c' \<and> canvas_ok c'"
  using touched_ok unfolding safe_op_def by blast

lemma safe_opI: "(\<And>c. canvas_ok c \<Longrightarrow> \<exists>c'. f c = Returns c' \<and> touched c c') \<Longrightarrow> safe_op f"
  by (simp add: safe_op_def)

lemma safe_skip: "safe_op Returns"
  by (simp add: safe_op_def touched_refl)

lemma safe_seq:
  assumes "safe_op f" "safe_op g"
  shows "safe_op (\<lambda>c. case f c of Panics \<Rightarrow> Panics | Returns c \<Rightarrow> g c)"
proof (rule safe_opI)
  fix c
  assume "canvas_ok c"
  then obtain c1 where 1: "f c = Returns c1" "touched c c1" "canvas_ok c1"
    using safe_opD [OF assms(1)] by blast
  obtain c2 where 2: "g c1 = Returns c2" "touched c1 c2"
    using safe_opD [OF assms(2) 1(3)] by blast
  show "\<exists>c'. (case f c of Panics \<Rightarrow> Panics | Returns c \<Rightarrow> g c) = Returns c' \<and> touched c c'"
    using 1(1) 2(1) touched_trans [OF 1(2) 2(2)] by (intro exI [of _ c2]) simp
qed

lemma safe_if: "safe_op f \<Longrightarrow> safe_op g \<Longrightarrow> safe_op (\<lambda>c. if P c then f c else g c)"
  by (simp add: safe_op_def)

lemma safe_for_each:
  assumes "\<And>x. x \<in> set xs \<Longrightarrow> safe_op (f x)"
  shows "safe_op (for_each f xs)"
  using assms
proof (induction xs)
  case Nil
  have "for_each f [] = Returns"
    by (simp add: fun_eq_iff)
  then show ?case
    using safe_skip by simp
next
  case (Cons x xs)
  have "for_each f (x # xs) = (\<lambda>c. case f x c of Panics \<Rightarrow> Panics | Returns c \<Rightarrow> for_each f xs c)"
    by (simp add: fun_eq_iff)
  then show ?case
    using safe_seq [of "f x" "for_each f xs"] Cons by simp
qed

lemma safe_plot: "safe_op (\<lambda>c. drop_flag (set_pixel x y rgb c))"
proof (rule safe_opI)
  fix c
  assume "canvas_ok c"
  moreover have "same_shape c c"
    by (simp add: same_shape_def)
  ultimately show "\<exists>c'. drop_flag (set_pixel x y rgb c) = Returns c' \<and> touched c c'"
    using plot_painted [of c c x y rgb] painted_touched by blast
qed

lemma safe_blend: "safe_op (\<lambda>c. drop_flag (blend_pixel x y fg alpha c))"
proof (rule safe_opI)
  fix c
  assume ok: "canvas_ok c"
  show "\<exists>c'. drop_flag (blend_pixel x y fg alpha c) = Returns c' \<and> touched c c'"
  proof (cases "alpha = 0 \<or> \<not> (x < cv_width c \<and> y < cv_height c)")
    case True
    then have "drop_flag (blend_pixel x y fg alpha c) = Returns c"
      unfolding blend_pixel_def read_pixel_ok [OF ok] drop_flag_def by auto
    then show ?thesis
      using touched_refl by blast
  next
    case False
    define bg where "bg = le32 (pix c (unat x) (unat y) @ replicate (4 - unat (cv_bpp c)) 0) 0"
    define col where "col = (if alpha \<ge> 255 then fg
       else push_bit 16 (mix fg bg alpha 16) OR push_bit 8 (mix fg bg alpha 8) OR mix fg bg alpha 0)"
    have "drop_flag (blend_pixel x y fg alpha c) = drop_flag (set_pixel x y col c)"
      using False unfolding blend_pixel_def read_pixel_ok [OF ok] drop_flag_def Let_def
      by (auto simp: bg_def [symmetric] col_def split: outcome.splits)
    then show ?thesis
      using safe_opD [OF safe_plot ok, of x y col] by auto
  qed
qed

lemma safe_fill_rect: "safe_op (fill_rect x y w h rgb)"
proof (rule safe_opI)
  fix c
  assume "canvas_ok c"
  then show "\<exists>c'. fill_rect x y w h rgb c = Returns c' \<and> touched c c'"
    using fill_rect_painted [of c x y w h rgb] painted_touched by blast
qed

lemma safe_draw_glyph: "safe_op (draw_glyph x y ch fg)"
  unfolding draw_glyph_def by (intro safe_for_each safe_if safe_plot safe_skip)

lemma safe_draw_text: "safe_op (draw_text x y s fg)"
proof (induction s arbitrary: x)
  case Nil
  have "draw_text x y [] fg = Returns"
    by (simp add: fun_eq_iff)
  then show ?case
    using safe_skip by simp
next
  case (Cons ch s)
  have "draw_text x y (ch # s) fg = (\<lambda>c. if saturating_add x (word_of_nat GLYPH_W) > cv_width c then Returns c
      else case draw_glyph x y ch fg c of Panics \<Rightarrow> Panics | Returns c \<Rightarrow> draw_text (x + (word_of_nat GLYPH_W + 1)) y s fg c)"
    by (rule ext) simp
  then show ?case
    by (simp only:) (intro safe_if safe_skip safe_seq safe_draw_glyph Cons.IH)
qed

lemma safe_draw_glyph_aa: "safe_op (draw_glyph_aa x y ch fg scale)"
  unfolding draw_glyph_aa_def Let_def by (intro safe_for_each safe_blend)

lemma safe_draw_text_aa: "safe_op (draw_text_aa x y s fg scale)"
proof (induction s arbitrary: x)
  case Nil
  have "draw_text_aa x y [] fg scale = Returns"
    by (simp add: fun_eq_iff)
  then show ?case
    using safe_skip by simp
next
  case (Cons ch s)
  have "draw_text_aa x y (ch # s) fg scale = (\<lambda>c. if scale = 0 \<or> saturating_add x (scale * word_of_nat GLYPH_W) > cv_width c
      then Returns c else case draw_glyph_aa x y ch fg scale c of Panics \<Rightarrow> Panics
        | Returns c \<Rightarrow> draw_text_aa (x + scale * (word_of_nat GLYPH_W + 1)) y s fg scale c)"
    by (rule ext) simp
  then show ?case
    by (simp only:) (intro safe_if safe_skip safe_seq safe_draw_glyph_aa Cons.IH)
qed

lemma safe_paint_scene: "safe_op (paint_scene ws)"
  unfolding paint_scene_def by (intro safe_for_each safe_fill_rect)

lemma safe_decorate: "safe_op (decorate_window w title fg bg)"
proof -
  have "safe_op (for_each (\<lambda>f. f) fs)" if "\<forall>f\<in>set fs. safe_op f" for fs
    using that by (intro safe_for_each) simp
  then show ?thesis
    unfolding decorate_window_def Let_def using safe_fill_rect safe_draw_text_aa by simp
qed

lemma safe_grid:
  "safe_op (\<lambda>c. for_each (\<lambda>y. for_each (\<lambda>x c. drop_flag (set_pixel x y (K x y) c)) (upto_word 0 (cv_width c))) (upto_word 0 (cv_height c)) c)"
proof (rule safe_opI)
  fix c
  assume "canvas_ok c"
  then show "\<exists>c'. for_each (\<lambda>y. for_each (\<lambda>x c. drop_flag (set_pixel x y (K x y) c)) (upto_word 0 (cv_width c)))
      (upto_word 0 (cv_height c)) c = Returns c' \<and> touched c c'"
    using grid_painted [of c K 0 "cv_width c" 0 "cv_height c"] painted_touched by blast
qed

lemma safe_fills: "safe_op (clear rgb)" "safe_op (gradient_fill tick)" "safe_op (wallpaper_drift tick)"
proof -
  show "safe_op (clear rgb)"
    using safe_fill_rect by (simp add: safe_op_def clear_def)
  have "gradient_fill tick = (\<lambda>c. for_each (\<lambda>y. for_each (\<lambda>x c. drop_flag (set_pixel x y (wave ((ucast y + tick) AND 0xFF)) c))
       (upto_word 0 (cv_width c))) (upto_word 0 (cv_height c)) c)"
    by (rule ext) (simp add: gradient_fill_def)
  then show "safe_op (gradient_fill tick)"
    by (simp only:) (rule safe_grid)
  have "wallpaper_drift tick = (\<lambda>c. for_each (\<lambda>y. for_each (\<lambda>x c. drop_flag (set_pixel x y (wave ((ucast y + ucast x + tick) AND 0xFF)) c))
       (upto_word 0 (cv_width c))) (upto_word 0 (cv_height c)) c)"
    by (rule ext) (simp add: wallpaper_drift_def)
  then show "safe_op (wallpaper_drift tick)"
    by (simp only:) (rule safe_grid)
qed


text \<open>A copied row lies in the pixels of its destination row.\<close>

lemma row_bytes_in_pixels:
  assumes ok: "canvas_ok c" and j: "j < unat (cv_height c)" and w: "i0 + w \<le> unat (cv_width c)"
    and k: "pixel_at c i0 j \<le> k" "k < pixel_at c i0 j + w * unat (cv_bpp c)"
  shows "in_pixel c k"
proof -
  let ?b = "unat (cv_bpp c)"
  let ?d = "k - pixel_at c i0 j"
  have b: "0 < ?b"
    using ok by (simp add: canvas_ok_def)
  have "?d < w * ?b"
    using k by simp
  then have "?d div ?b < w"
    using b by (simp add: div_less_iff_less_mult)
  then have i: "i0 + ?d div ?b < unat (cv_width c)"
    using w by simp
  have "?d div ?b * ?b + ?d mod ?b = ?d" "?d mod ?b < ?b"
    using b by simp_all
  moreover have "pixel_at c (i0 + ?d div ?b) j = pixel_at c i0 j + ?d div ?b * ?b"
    by (simp add: pixel_at_def add_mult_distrib)
  ultimately have "pixel_at c (i0 + ?d div ?b) j \<le> k \<and> k < pixel_at c (i0 + ?d div ?b) j + ?b"
    using k(1) by linarith
  then show ?thesis
    unfolding in_pixel_def using i j by blast
qed

lemma blit_row_ok:
  assumes ok: "canvas_ok c" "canvas_ok src" and row: "unat row < unat (cv_height src)" "unat dy + unat row < unat (cv_height c)"
    and w: "unat w \<le> unat (cv_width src)" "w \<noteq> 0 \<longrightarrow> unat dx + unat w \<le> unat (cv_width c)"
  shows "\<exists>n c'. blit_row src w dx dy row (k, c) = Returns (n, c') \<and> touched c c'"
proof (cases "w = 0")
  case True
  then have "blit_row src w dx dy row (k, c) = Returns (k, c)"
    by (simp add: blit_row_def Let_def min_def)
  then show ?thesis
    using touched_refl by blast
next
  case False
  let ?b = "unat (cv_bpp c)" and ?sb = "unat (cv_bpp src)" and ?j = "unat dy + unat row"
  let ?soff = "row * cv_pitch src" and ?doff = "(dy + row) * cv_pitch c + dx * cv_bpp c"
  define n where "n = min (min (w * min (cv_bpp c) (cv_bpp src)) (word_of_nat (length (cv_buf src)) - ?soff))
      (word_of_nat (length (cv_buf c)) - ?doff)"
  have b4: "?b \<le> 4" "?sb \<le> 4" and len: "length (cv_buf c) < 2 ^ 63" "length (cv_buf src) < 2 ^ 63"
    using ok by (simp_all add: canvas_ok_def)
  have dxw: "unat dx + unat w \<le> unat (cv_width c)" "0 < unat w"
    using False w(2) by (simp_all add: unat_gt_0)
  note bd = pixel_bounds [OF ok(1) _ row(2), of "unat dx"]
  have d: "pixel_at c (unat dx) ?j + ?b \<le> length (cv_buf c)"
    using bd(2) dxw by simp
  have s: "unat row * unat (cv_pitch src) \<le> length (cv_buf src)"
  proof -
    have "unat row * unat (cv_pitch src) \<le> unat (cv_height src) * unat (cv_pitch src)"
      using row(1) by (intro mult_le_mono1) simp
    also have "\<dots> \<le> length (cv_buf src)"
      using ok(2) by (simp add: canvas_ok_def)
    finally show ?thesis .
  qed
  have soff: "unat ?soff = unat row * unat (cv_pitch src)"
    using s len by (simp add: unat_mult_small)
  have "unat (dy + row) = ?j"
    using row(2) unat_bound [of "cv_height c"] by (intro unat_add_small) simp
  then have doff: "unat ?doff = pixel_at c (unat dx) ?j"
    using d len by (simp add: pixel_at_def unat_mult_small unat_add_small)
  have "unat w * min ?b ?sb \<le> unat (cv_width c) * ?b"
    using dxw by (intro mult_le_mono) simp_all
  also have "\<dots> \<le> unat (cv_pitch c)"
    using ok(1) by (simp add: canvas_ok_def)
  finally have "unat (w * min (cv_bpp c) (cv_bpp src)) = unat w * min ?b ?sb"
    using unat_bound [of "cv_pitch c"] by (simp add: unat_mult_small unat_min)
  moreover have "unat (word_of_nat (length (cv_buf src)) - ?soff) = length (cv_buf src) - unat ?soff"
    "unat (word_of_nat (length (cv_buf c)) - ?doff) = length (cv_buf c) - unat ?doff"
    using s d soff doff len by (simp_all add: unat_sub word_le_nat_alt unat_of_nat_small)
  ultimately have n: "unat n = min (min (unat w * min ?b ?sb) (length (cv_buf src) - unat ?soff)) (length (cv_buf c) - unat ?doff)"
    by (simp add: n_def unat_min)
  show ?thesis
  proof (cases "n = 0")
    case True
    then have "blit_row src w dx dy row (k, c) = Returns (k, c)"
      by (simp add: blit_row_def Let_def n_def [symmetric])
    then show ?thesis
      using touched_refl by blast
  next
    case False
    have le: "unat ?doff + unat n \<le> length (cv_buf c)" "unat ?soff + unat n \<le> length (cv_buf src)"
      using n s d soff doff by linarith+
    then have ends: "unat (?doff + n) = unat ?doff + unat n" "unat (?soff + n) = unat ?soff + unat n"
      using len by (simp_all add: unat_add_small)
    define bs where "bs = take (unat n) (drop (unat ?soff) (cv_buf src))"
    have bs: "length bs = unat n"
      using le(2) by (simp add: bs_def)
    let ?c = "c\<lparr>cv_buf := overwrite (unat ?doff) bs (cv_buf c)\<rparr>"
    have "slice_ok ?doff (?doff + n) (cv_buf c)" "slice_ok ?soff (?soff + n) (cv_buf src)"
      using le ends by (simp_all add: slice_ok_def word_le_nat_alt)
    then have run: "blit_row src w dx dy row (k, c) = Returns (k + n, ?c)"
      using False bs ends by (simp add: blit_row_def Let_def n_def [symmetric] overwrite_def bs_def [symmetric])
    have fit: "unat ?doff + length bs \<le> length (cv_buf c)"
      using le(1) bs by simp
    have "cv_buf ?c ! q = cv_buf c ! q" if q: "q < length (cv_buf c)" "\<not> in_pixel c q" for q
    proof -
      have "unat w * min ?b ?sb \<le> unat w * ?b"
        by simp
      then have "unat n \<le> unat w * ?b"
        using n by linarith
      then have "\<not> (unat ?doff \<le> q \<and> q < unat ?doff + length bs)"
        using row_bytes_in_pixels [OF ok(1) row(2) dxw(1), of q] q(2) bs unfolding doff by linarith
      then have "overwrite (unat ?doff) bs (cv_buf c) ! q = cv_buf c ! q"
        by (rule trans [OF overwrite_props(2) [OF fit q(1)] if_not_P])
      then show ?thesis
        by simp
    qed
    then have "touched c ?c"
      using overwrite_props(1) [OF fit] by (simp add: touched_def same_shape_def)
    then show ?thesis
      using run by blast
  qed
qed

lemma blit_loop_ok:
  assumes "canvas_ok c" "canvas_ok src" "unat w \<le> unat (cv_width src)"
    and "w \<noteq> 0 \<longrightarrow> unat dx + unat w \<le> unat (cv_width c)"
    and "\<forall>row\<in>set rows. unat row < unat (cv_height src) \<and> unat dy + unat row < unat (cv_height c)"
  shows "\<exists>n c'. for_each (blit_row src w dx dy) rows (k, c) = Returns (n, c') \<and> touched c c'"
  using assms
proof (induction rows arbitrary: k c)
  case Nil
  then show ?case
    by (auto intro: touched_refl)
next
  case (Cons row rows)
  then obtain n c1 where 1: "blit_row src w dx dy row (k, c) = Returns (n, c1)" "touched c c1"
    using blit_row_ok [of c src row dy w dx k] by auto
  then have "cv_width c1 = cv_width c" "cv_height c1 = cv_height c" "canvas_ok c1"
    using touched_ok Cons.prems(1) by (auto simp: touched_def same_shape_def)
  then obtain n2 c2 where "for_each (blit_row src w dx dy) rows (n, c1) = Returns (n2, c2)" "touched c1 c2"
    using Cons.IH [of c1 n] Cons.prems by auto
  then show ?case
    using 1 touched_trans by auto
qed

lemma safe_blit:
  assumes "canvas_ok src"
  shows "safe_op (\<lambda>c. case blit_from src sw sh dx dy c of Panics \<Rightarrow> Panics | Returns (_, c) \<Rightarrow> Returns c)"
proof (rule safe_opI)
  fix c
  assume ok: "canvas_ok c"
  let ?w = "min (min sw (cv_width src)) (saturating_sub (cv_width c) dx)"
  let ?h = "min (min sh (cv_height src)) (saturating_sub (cv_height c) dy)"
  have "\<exists>n c'. for_each (blit_row src ?w dx dy) (upto_word 0 ?h) (0, c) = Returns (n, c') \<and> touched c c'"
  proof (rule blit_loop_ok [OF ok assms])
    show "unat ?w \<le> unat (cv_width src)"
      by (simp add: unat_min)
    show "?w \<noteq> 0 \<longrightarrow> unat dx + unat ?w \<le> unat (cv_width c)"
      using unat_gt_0 [of ?w] by (simp add: unat_min unat_saturating_sub) linarith
    show "\<forall>row\<in>set (upto_word 0 ?h). unat row < unat (cv_height src) \<and> unat dy + unat row < unat (cv_height c)"
      using unat_upto [of _ 0 ?h] by (auto simp: unat_min unat_saturating_sub)
  qed
  then show "\<exists>c'. (case blit_from src sw sh dx dy c of Panics \<Rightarrow> Panics | Returns (_, c) \<Rightarrow> Returns c) = Returns c' \<and> touched c c'"
    unfolding blit_from_def Let_def by auto
qed


text \<open>The operations a client of a canvas can run.\<close>

datatype draw_call =
    SetPixel u64 u64 u32 | FillBox u64 u64 u64 u64 u32 | ClearAll u32 | Text u64 u64 codepoints u32
  | Blend u64 u64 u32 u32 | TextAA u64 u64 codepoints u32 u64 | Blit Canvas u64 u64 u64 u64
  | Scene "Window list" | Decorate Window codepoints u32 u32 | Gradient u32 | Wallpaper u32

fun draw_call_run :: "draw_call \<Rightarrow> Canvas \<Rightarrow> Canvas outcome" where
  "draw_call_run (SetPixel x y rgb) c = drop_flag (set_pixel x y rgb c)"
| "draw_call_run (FillBox x y w h rgb) c = fill_rect x y w h rgb c"
| "draw_call_run (ClearAll rgb) c = clear rgb c"
| "draw_call_run (Text x y s fg) c = draw_text x y s fg c"
| "draw_call_run (Blend x y fg alpha) c = drop_flag (blend_pixel x y fg alpha c)"
| "draw_call_run (TextAA x y s fg scale) c = draw_text_aa x y s fg scale c"
| "draw_call_run (Blit src sw sh dx dy) c =
     (case blit_from src sw sh dx dy c of Panics \<Rightarrow> Panics | Returns (_, c) \<Rightarrow> Returns c)"
| "draw_call_run (Scene ws) c = paint_scene ws c"
| "draw_call_run (Decorate w title fg bg) c = decorate_window w title fg bg c"
| "draw_call_run (Gradient tick) c = gradient_fill tick c"
| "draw_call_run (Wallpaper tick) c = wallpaper_drift tick c"

fun call_ok :: "draw_call \<Rightarrow> bool" where
  "call_ok (Blit src sw sh dx dy) = canvas_ok src"
| "call_ok _ = True"

lemmas safe_ops = safe_plot safe_fill_rect safe_fills safe_draw_text safe_blend safe_draw_text_aa safe_blit
  safe_paint_scene safe_decorate

lemma safe_draw_call:
  assumes "call_ok d"
  shows "safe_op (draw_call_run d)"
proof -
  have "(\<And>c. canvas_ok c \<Longrightarrow> \<exists>c'. draw_call_run d c = Returns c' \<and> touched c c')"
    using assms safe_ops [unfolded safe_op_def] by (cases d) (simp_all add: safe_op_def)
  then show ?thesis
    by (rule safe_opI)
qed

lemma canvas_new_ok:
  assumes "canvas_new buf width height pitch bpp = Some c" "unat bpp \<le> 4" "length buf < 2 ^ 63"
  shows "canvas_ok c \<and> cv_buf c = buf"
  using assms unfolding canvas_new_def
  by (auto simp: canvas_ok_def checked_mul_Some word_less_nat_alt unat_gt_0 not_less split: if_splits option.splits)

section \<open>Properties\<close>

text \<open>
  C23: a canvas over at most four bytes per pixel can be drawn on without a panic: any
  sequence of operations, with any coordinates, sizes, strings and scales, returns, keeps the
  geometry, and leaves every byte outside the pixels of the plane (row padding and the rest of
  the buffer) as it was.
\<close>

theorem drawing_stays_inside:
  assumes "canvas_new buf width height pitch bpp = Some c" "unat bpp \<le> 4" "length buf < 2 ^ 63"
    and "\<forall>d\<in>set ds. call_ok d"
  shows "\<exists>c'. for_each draw_call_run ds c = Returns c' \<and> length (cv_buf c') = length buf
    \<and> cv_width c' = width \<and> cv_height c' = height
    \<and> (\<forall>k<length buf. (\<forall>i<unat width. \<forall>j<unat height. \<not> (j * unat pitch + i * unat bpp \<le> k
           \<and> k < j * unat pitch + i * unat bpp + unat bpp)) \<longrightarrow> cv_buf c' ! k = buf ! k)"
proof -
  have ok: "canvas_ok c" "cv_buf c = buf"
    using canvas_new_ok [OF assms(1-3)] by simp_all
  have g: "cv_width c = width" "cv_height c = height" "cv_pitch c = pitch" "cv_bpp c = bpp"
    using assms(1) by (auto simp: canvas_new_def split: if_splits)
  have "safe_op (for_each draw_call_run ds)"
    using assms(4) safe_draw_call by (intro safe_for_each) blast
  then obtain c' where c': "for_each draw_call_run ds c = Returns c'" "touched c c'"
    using safe_opD ok(1) by blast
  have "cv_buf c' ! k = buf ! k" if "k < length buf"
      "\<forall>i<unat width. \<forall>j<unat height. \<not> (j * unat pitch + i * unat bpp \<le> k \<and> k < j * unat pitch + i * unat bpp + unat bpp)" for k
  proof -
    have "\<not> in_pixel c k"
      using that(2) by (simp add: in_pixel_def pixel_at_def g)
    then show ?thesis
      using c'(2) that(1) ok(2) by (simp add: touched_def)
  qed
  then show ?thesis
    using c' ok(2) g by (auto simp: touched_def same_shape_def)
qed

theorem drawing_stays_inside_witness:
  "\<exists>c c'. canvas_new (replicate 32 0) 2 2 16 3 = Some c
     \<and> for_each draw_call_run [FillBox 1 0 9 9 0xFF0000, Text 0 0 [65] 0xFF, Wallpaper 7] c = Returns c' \<and> cv_buf c' ! 7 = 0"
proof -
  obtain c where c: "canvas_new (replicate 32 0) 2 2 16 3 = Some c"
    by (simp add: canvas_new_def checked_mul_def)
  have pad: "\<forall>i<unat (2 :: u64). \<forall>j<unat (2 :: u64). \<not> (j * unat (16 :: u64) + i * unat (3 :: u64) \<le> 7
      \<and> 7 < j * unat (16 :: u64) + i * unat (3 :: u64) + unat (3 :: u64))"
  proof (intro allI impI)
    fix i j
    assume "i < unat (2 :: u64)" "j < unat (2 :: u64)"
    then have "i = 0 \<or> i = 1" "j = 0 \<or> j = 1"
      by (simp_all, arith+)
    then show "\<not> (j * unat (16 :: u64) + i * unat (3 :: u64) \<le> 7
      \<and> 7 < j * unat (16 :: u64) + i * unat (3 :: u64) + unat (3 :: u64))"
      by auto
  qed
  show ?thesis
    using drawing_stays_inside [OF c, of "[FillBox 1 0 9 9 0xFF0000, Text 0 0 [65] 0xFF, Wallpaper 7]"] pad c by fastforce
qed

text \<open>
  What the compositor shows is what input routing picks: after painting a scene, a pixel of the
  canvas reads as the colour of the window that \<open>focus\<close> returns for its coordinates, cut to the
  bytes a pixel has, and as before where \<open>focus\<close> finds none.
\<close>

lemma paint_scene_shows_focus:
  assumes "canvas_ok c" "\<forall>w\<in>set ws. window_fits w" "x < cv_width c" "y < cv_height c"
  shows "\<exists>c'. paint_scene ws c = Returns c' \<and> read_pixel x y c' =
    (case focus ws x y of None \<Rightarrow> read_pixel x y c
     | Some k \<Rightarrow> Returns (Some (wcolor (ws ! k) AND mask (8 * unat (cv_bpp c)))))"
proof -
  obtain c' where c': "paint_scene ws c = Returns c'" "painted (last_of (window_box c) ws) c c'"
    using paint_scene_painted [OF assms(1)] by blast
  have sh: "same_shape c c'"
    using painted_shape [OF c'(2)] .
  have "unat x < unat (cv_width c)" "unat y < unat (cv_height c)"
    using assms(3,4) by (simp_all add: word_less_nat_alt)
  then have p: "pix c' (unat x) (unat y)
      = (case focus ws x y of None \<Rightarrow> pix c (unat x) (unat y) | Some k \<Rightarrow> colour c (wcolor (ws ! k)))"
    using c'(2) focus_last [OF assms(2), of c x y] by (auto simp: painted_def split: option.splits)
  have "cv_width c' = cv_width c" "cv_height c' = cv_height c" "cv_bpp c' = cv_bpp c"
    using sh by (simp_all add: same_shape_def)
  then have "read_pixel x y c' = (case focus ws x y of None \<Rightarrow> read_pixel x y c
     | Some k \<Rightarrow> Returns (Some (wcolor (ws ! k) AND mask (8 * unat (cv_bpp c)))))"
    using p assms(1,3,4) le32_colour [of c]
    by (auto simp: read_pixel_ok [OF assms(1)] read_pixel_ok [OF same_shape_ok [OF sh assms(1)]] canvas_ok_def split: option.splits)
  then show ?thesis
    using c'(1) by blast
qed

definition sample_windows :: "Window list" where
  "sample_windows = [\<lparr>wx = 0, wy = 0, ww = 8, wh = 8, wcolor = 0xFF0000\<rparr>, \<lparr>wx = 2, wy = 2, ww = 4, wh = 4, wcolor = 0x0000FF\<rparr>]"

definition sample_canvas :: Canvas where
  "sample_canvas = \<lparr>cv_buf = replicate 300 0, cv_width = 10, cv_height = 10, cv_pitch = 30, cv_bpp = 3\<rparr>"

lemma paint_scene_shows_focus_sample:
  "\<exists>c'. paint_scene sample_windows sample_canvas = Returns c' \<and> read_pixel 3 3 c' = Returns (Some 0x0000FF)"
proof -
  have f: "focus sample_windows 3 3 = Some 1"
    by (simp add: focus_def sample_windows_def covers_def)
  have "canvas_ok sample_canvas" "\<forall>w\<in>set sample_windows. window_fits w" "3 < cv_width sample_canvas" "3 < cv_height sample_canvas"
    by (simp_all add: canvas_ok_def sample_canvas_def sample_windows_def window_fits_def)
  from paint_scene_shows_focus [OF this]
  have "\<exists>c'. paint_scene sample_windows sample_canvas = Returns c' \<and> read_pixel 3 3 c'
      = Returns (Some (wcolor (sample_windows ! 1) AND mask (8 * unat (cv_bpp sample_canvas))))"
    unfolding f by simp
  moreover have "wcolor (sample_windows ! 1) AND mask (8 * unat (cv_bpp sample_canvas)) = 0x0000FF"
    by (simp add: sample_windows_def sample_canvas_def mask_eq_exp_minus_1)
  ultimately show ?thesis
    by simp
qed

end
