(* ===== verification/Devices.thy ===== *)
theory Devices
  imports Serial Font
begin

text \<open>
  Models of the small device drivers under \<open>src/kernel/src/drivers\<close>: PCI enumeration
  (\<open>pci.rs\<close>), PS/2 keyboard and mouse (\<open>keyboard.rs\<close>, \<open>mouse.rs\<close>), the VGA text console
  (\<open>vga.rs\<close>), the CMOS clock (\<open>rtc.rs\<close>), the speaker (\<open>speaker.rs\<close>) and the identity gate
  (\<open>face_id.rs\<close>).  What a device answers on its ports is an argument; port writes are traces.
\<close>

section \<open>PCI\<close>

record PciDevice =
  pci_bus :: u8
  pci_slot :: u8
  pci_func :: u8
  pci_vendor :: u16
  pci_device :: u16
  pci_class :: u8
  pci_subclass :: u8

definition is_present :: "u32 \<Rightarrow> bool" where
  "is_present vd = (let vendor = ucast (vd AND 0xFFFF) :: u16 in vendor \<noteq> 0xFFFF \<and> vendor \<noteq> 0x0000)"

text \<open>The data port answers the address last written to the address port.\<close>

definition config_read :: "(u32 \<Rightarrow> u32) \<Rightarrow> u8 \<Rightarrow> u8 \<Rightarrow> u8 \<Rightarrow> u8 \<Rightarrow> u32" where
  "config_read port bus slot func offset =
     port (0x80000000 OR push_bit 16 (ucast bus) OR push_bit 11 (ucast slot) OR push_bit 8 (ucast func)
       OR (ucast offset AND 0xFC))"

definition bar_addr :: "(u32 \<Rightarrow> u32) \<Rightarrow> PciDevice \<Rightarrow> u8 \<Rightarrow> u64" where
  "bar_addr port d bar =
     (let off = 0x10 + 4 * bar;
          raw = config_read port (pci_bus d) (pci_slot d) (pci_func d) off
      in if raw AND 1 = 1 then ucast (raw AND 0xFFFFFFFC) else ucast raw AND 0xFFFFFFF0)"

definition pci_entry :: "(u32 \<Rightarrow> u32) \<Rightarrow> u8 \<Rightarrow> u8 \<Rightarrow> u32 \<Rightarrow> PciDevice" where
  "pci_entry port slot func vd =
     (let reg = config_read port 0 slot func 0x08
      in \<lparr>pci_bus = 0, pci_slot = slot, pci_func = func, pci_vendor = ucast (vd AND 0xFFFF),
          pci_device = ucast (drop_bit 16 vd), pci_class = ucast (drop_bit 24 reg), pci_subclass = ucast (drop_bit 16 reg)\<rparr>)"

definition probe_slot :: "(u32 \<Rightarrow> u32) \<Rightarrow> u8 \<Rightarrow> PciDevice list" where
  "probe_slot port slot =
     (let vd = config_read port 0 slot 0 0x00 in
      if \<not> is_present vd then []
      else let multi = drop_bit 16 (config_read port 0 slot 0 0x0C) AND 0x80 \<noteq> 0;
               funcs = (if multi then map (\<lambda>f. pci_entry port slot f (config_read port 0 slot f 0x00))
                   (filter (\<lambda>f. is_present (config_read port 0 slot f 0x00)) (map word_of_nat [1..<8])) else [])
           in if funcs = [] then [pci_entry port slot 0 vd] else funcs)"

definition probe_bus0 :: "(u32 \<Rightarrow> u32) \<Rightarrow> PciDevice list" where
  "probe_bus0 port = concat (map (\<lambda>n. probe_slot port (word_of_nat n)) [0..<32])"

section \<open>Keyboard\<close>

text \<open>Scancode, shifted and plain character of the rows of \<open>decode\<close>.\<close>

definition KEYMAP :: "(u8 \<times> u32 \<times> u32) list" where
  "KEYMAP = [
     (0x02, 0x21, 0x31),
     (0x03, 0x40, 0x32),
     (0x04, 0x23, 0x33),
     (0x05, 0x24, 0x34),
     (0x06, 0x25, 0x35),
     (0x07, 0x5E, 0x36),
     (0x08, 0x26, 0x37),
     (0x09, 0x2A, 0x38),
     (0x0A, 0x28, 0x39),
     (0x0B, 0x29, 0x30),
     (0x0C, 0x5F, 0x2D),
     (0x0D, 0x2B, 0x3D),
     (0x10, 0x51, 0x71),
     (0x11, 0x57, 0x77),
     (0x12, 0x45, 0x65),
     (0x13, 0x52, 0x72),
     (0x14, 0x54, 0x74),
     (0x15, 0x59, 0x79),
     (0x16, 0x55, 0x75),
     (0x17, 0x49, 0x69),
     (0x18, 0x4F, 0x6F),
     (0x19, 0x50, 0x70),
     (0x1A, 0x7B, 0x5B),
     (0x1B, 0x7D, 0x5D),
     (0x1E, 0x41, 0x61),
     (0x1F, 0x53, 0x73),
     (0x20, 0x44, 0x64),
     (0x21, 0x46, 0x66),
     (0x22, 0x47, 0x67),
     (0x23, 0x48, 0x68),
     (0x24, 0x4A, 0x6A),
     (0x25, 0x4B, 0x6B),
     (0x26, 0x4C, 0x6C),
     (0x27, 0x3A, 0x3B),
     (0x28, 0x22, 0x27),
     (0x29, 0x7E, 0x60),
     (0x2B, 0x7C, 0x5C),
     (0x2C, 0x5A, 0x7A),
     (0x2D, 0x58, 0x78),
     (0x2E, 0x43, 0x63),
     (0x2F, 0x56, 0x76),
     (0x30, 0x42, 0x62),
     (0x31, 0x4E, 0x6E),
     (0x32, 0x4D, 0x6D),
     (0x33, 0x3C, 0x2C),
     (0x34, 0x3E, 0x2E),
     (0x35, 0x3F, 0x2F)]"

definition key_decode :: "u8 \<Rightarrow> bool \<Rightarrow> u32 option" where
  "key_decode scancode shifted =
     (case map_of KEYMAP scancode of
        Some (upper, plain) \<Rightarrow> Some (if shifted then upper else plain)
      | None \<Rightarrow> if scancode = 0x39 then Some 0x20 else None)"

section \<open>Mouse\<close>

record mouse_state =
  MOUSE_DX :: u16
  MOUSE_DY :: u16
  MOUSE_BTNS :: u8
  PACKET_BUF :: bytes
  PACKET_IDX :: u8

definition mouse_initial :: mouse_state where
  "mouse_initial = \<lparr>MOUSE_DX = 0, MOUSE_DY = 0, MOUSE_BTNS = 0, PACKET_BUF = [0, 0, 0], PACKET_IDX = 0\<rparr>"

definition mouse_dx :: "mouse_state \<Rightarrow> u16 \<times> mouse_state" where
  "mouse_dx m = (MOUSE_DX m, m\<lparr>MOUSE_DX := 0\<rparr>)"

definition mouse_dy :: "mouse_state \<Rightarrow> u16 \<times> mouse_state" where
  "mouse_dy m = (MOUSE_DY m, m\<lparr>MOUSE_DY := 0\<rparr>)"

definition mouse_buttons :: "mouse_state \<Rightarrow> u8" where
  "mouse_buttons m = MOUSE_BTNS m"

definition decode_packet :: "u8 \<Rightarrow> u8 \<Rightarrow> u8 \<Rightarrow> u16 \<times> u16 \<times> u8" where
  "decode_packet b0 b1 b2 =
     (let x_sign = drop_bit 4 b0 AND 1 \<noteq> 0;
          y_sign = drop_bit 5 b0 AND 1 \<noteq> 0;
          dx = ucast b1;
          dy = ucast b2;
          dx = (if x_sign then dx - 256 else dx);
          dy = (if y_sign then dy - 256 else dy)
      in (dx, - dy, b0 AND 0x07))"

definition handle_byte :: "u8 \<Rightarrow> mouse_state \<Rightarrow> mouse_state outcome" where
  "handle_byte raw m =
     (let idx = unat (PACKET_IDX m) in
      if idx \<ge> length (PACKET_BUF m) then Panics
      else let m = m\<lparr>PACKET_BUF := (PACKET_BUF m)[idx := raw]\<rparr>;
               nxt = (idx + 1) mod 3;
               m = m\<lparr>PACKET_IDX := word_of_nat nxt\<rparr> in
           if nxt = 0 then
             let (dx, dy, btns) = decode_packet (PACKET_BUF m ! 0) (PACKET_BUF m ! 1) (PACKET_BUF m ! 2)
             in Returns (m\<lparr>MOUSE_DX := MOUSE_DX m + dx, MOUSE_DY := MOUSE_DY m + dy, MOUSE_BTNS := btns\<rparr>)
           else Returns m)"

text \<open>The 8042 script of \<open>init\<close>; \<open>cfg\<close> is the configuration byte the controller answers.\<close>

datatype ps2_step = WaitReady | PortOut u16 u8 | PortIn u16

definition mouse_init :: "u8 \<Rightarrow> ps2_step list" where
  "mouse_init cfg =
     [WaitReady, PortOut 0x64 0xA8, WaitReady, PortOut 0x64 0x20, WaitReady, PortIn 0x60,
      WaitReady, PortOut 0x64 0x60, WaitReady, PortOut 0x60 ((cfg OR 0x02) AND NOT 0x40),
      WaitReady, PortOut 0x64 0xD4, WaitReady, PortOut 0x60 0xF4]"

section \<open>VGA text\<close>

definition VGA_PHYS :: u64 where
  "VGA_PHYS = 0xB8000"

definition COLS :: nat where
  "COLS = 80"

definition ROWS :: nat where
  "ROWS = 25"

text \<open>The text buffer is a function from cell numbers; cells past the 2000 of the screen are other memory.\<close>

record vga_state =
  vga_cells :: "nat \<Rightarrow> u16"
  CURSOR_COL :: nat
  CURSOR_ROW :: nat

definition put_cell :: "nat \<Rightarrow> nat \<Rightarrow> u32 \<Rightarrow> u8 \<Rightarrow> vga_state \<Rightarrow> vga_state" where
  "put_cell row col c attr v =
     (if row \<ge> ROWS \<or> col \<ge> COLS then v
      else v\<lparr>vga_cells := (vga_cells v)(row * COLS + col := ucast (ucast c :: u8) OR push_bit 8 (ucast attr))\<rparr>)"

definition vga_clear :: "u8 \<Rightarrow> vga_state \<Rightarrow> vga_state" where
  "vga_clear attr v =
     (foldl (\<lambda>v (row, col). put_cell row col 0x20 attr v) v (List.product [0..<ROWS] [0..<COLS]))
       \<lparr>CURSOR_COL := 0, CURSOR_ROW := 0\<rparr>"

fun write_str_at :: "nat \<Rightarrow> nat \<Rightarrow> codepoints \<Rightarrow> u8 \<Rightarrow> vga_state \<Rightarrow> vga_state" where
  "write_str_at row c [] attr v = v"
| "write_str_at row c (ch # s) attr v =
     (if c \<ge> COLS then v else write_str_at row (c + 1) s attr (put_cell row c ch attr v))"

definition scroll :: "vga_state \<Rightarrow> vga_state" where
  "scroll v =
     (let v = v\<lparr>vga_cells := (\<lambda>k. if k < (ROWS - 1) * COLS then vga_cells v (k + COLS) else vga_cells v k)\<rparr>
      in foldl (\<lambda>v col. put_cell (ROWS - 1) col 0x20 0x07 v) v [0..<COLS])"

definition vga_char :: "u8 \<Rightarrow> u32 \<Rightarrow> vga_state \<Rightarrow> vga_state" where
  "vga_char attr ch v =
     (if ch = 0x0A then v\<lparr>CURSOR_ROW := CURSOR_ROW v + 1, CURSOR_COL := 0\<rparr>
      else let v = put_cell (CURSOR_ROW v) (CURSOR_COL v) ch attr v;
               v = v\<lparr>CURSOR_COL := CURSOR_COL v + 1\<rparr>;
               v = (if CURSOR_COL v \<ge> COLS then v\<lparr>CURSOR_COL := 0, CURSOR_ROW := CURSOR_ROW v + 1\<rparr> else v)
           in if CURSOR_ROW v \<ge> ROWS then (scroll v)\<lparr>CURSOR_ROW := ROWS - 1\<rparr> else v)"

definition vga_write :: "codepoints \<Rightarrow> u8 \<Rightarrow> vga_state \<Rightarrow> vga_state" where
  "vga_write s attr v = foldl (\<lambda>v ch. vga_char attr ch v) v s"

section \<open>Clock\<close>

definition bcd_to_bin :: "u8 \<Rightarrow> u8" where
  "bcd_to_bin bcd = (bcd AND 0x0F) + drop_bit 4 bcd * 10"

text \<open>\<open>cmos n a\<close> is what the \<open>n\<close>-th read finds on the data port after the address byte \<open>a\<close>.\<close>

definition read_cmos :: "(nat \<Rightarrow> u8 \<Rightarrow> u8) \<Rightarrow> u8 \<Rightarrow> nat \<Rightarrow> u8 \<times> nat" where
  "read_cmos cmos reg n = (cmos n (reg OR 0x80), Suc n)"

fun wait_update :: "(nat \<Rightarrow> u8 \<Rightarrow> u8) \<Rightarrow> nat \<Rightarrow> nat \<Rightarrow> nat" where
  "wait_update cmos 0 n = n"
| "wait_update cmos (Suc k) n =
     (case read_cmos cmos 0x0A n of (a, n) \<Rightarrow> if a AND 0x80 = 0 then n else wait_update cmos k n)"

definition read_datetime :: "(nat \<Rightarrow> u8 \<Rightarrow> u8) \<Rightarrow> u8 \<times> u8 \<times> u8 \<times> u8 \<times> u8 \<times> u8" where
  "read_datetime cmos =
     (let n = wait_update cmos 4 0;
          (sec, n) = read_cmos cmos 0x00 n; (mins, n) = read_cmos cmos 0x02 n; (hour, n) = read_cmos cmos 0x04 n;
          (day, n) = read_cmos cmos 0x07 n; (mon, n) = read_cmos cmos 0x08 n; (year, n) = read_cmos cmos 0x09 n;
          (b, n) = read_cmos cmos 0x0B n
      in if b AND 0x04 = 0
         then (bcd_to_bin year, bcd_to_bin mon, bcd_to_bin day, bcd_to_bin hour, bcd_to_bin mins, bcd_to_bin sec)
         else (year, mon, day, hour, mins, sec))"

section \<open>Speaker\<close>

definition pit2_divisor :: "u32 \<Rightarrow> u16" where
  "pit2_divisor hz = (if hz = 0 then 0xFFFF else ucast (min (max (1193182 div hz) 1) 0xFFFF))"

definition tone_on :: "u32 \<Rightarrow> u8 \<Rightarrow> (u16 \<times> u8) list" where
  "tone_on hz gate =
     (let d = pit2_divisor hz
      in [(0x43, 0xB6), (0x42, ucast (d AND 0xFF)), (0x42, ucast (drop_bit 8 d)), (0x61, gate OR 0x03)])"

definition tone_off :: "u8 \<Rightarrow> (u16 \<times> u8) list" where
  "tone_off gate = [(0x61, gate AND NOT 0x03)]"

text \<open>The two reads of port 0x61 are arguments; the delay between the two changes no port.\<close>

definition beep :: "u32 \<Rightarrow> u8 \<Rightarrow> u8 \<Rightarrow> (u16 \<times> u8) list" where
  "beep hz gate_before gate_after = tone_on hz gate_before @ tone_off gate_after"

section \<open>Identity gate\<close>

record face_state =
  STORED :: u64
  ENROLLED :: bool

definition register_identity :: "u64 \<Rightarrow> face_state \<Rightarrow> face_state" where
  "register_identity desc s = s\<lparr>STORED := desc, ENROLLED := True\<rparr>"

definition enrolled :: "face_state \<Rightarrow> u64 option" where
  "enrolled s = (if ENROLLED s then Some (STORED s) else None)"

definition verify :: "u64 \<Rightarrow> face_state \<Rightarrow> bool" where
  "verify probe s = (case enrolled s of Some stored \<Rightarrow> probe = stored | None \<Rightarrow> False)"

definition gate :: "u64 \<Rightarrow> ('w \<Rightarrow> 'w) \<Rightarrow> face_state \<Rightarrow> 'w \<Rightarrow> bool \<times> 'w" where
  "gate probe allowed s w = (if verify probe s then (True, allowed w) else (False, w))"

section \<open>PCI: function 0 of a device with more functions\<close>

text \<open>
  A slot whose function 0 is present and says it has more functions lists the others and not
  itself.
\<close>

lemma probe_slot_drops_function_0:
  assumes "is_present (config_read port 0 slot 0 0x00)" "drop_bit 16 (config_read port 0 slot 0 0x0C) AND 0x80 \<noteq> 0"
    and "f \<in> {1..7}" "is_present (config_read port 0 slot f 0x00)"
  shows "pci_entry port slot f (config_read port 0 slot f 0x00) \<in> set (probe_slot port slot)
    \<and> (\<forall>d\<in>set (probe_slot port slot). pci_func d \<noteq> 0)"
proof -
  let ?fs = "filter (\<lambda>f. is_present (config_read port 0 slot f 0x00)) (map word_of_nat [1..<8])"
  have "f = word_of_nat (unat f)" "unat f \<in> {1..<8}"
    using assms(3) by (auto simp: word_le_nat_alt)
  then have "f \<in> set (map word_of_nat [1..<8])"
    by (metis image_eqI set_map set_upt)
  then have f: "f \<in> set ?fs"
    using assms(4) by simp
  then have "?fs \<noteq> []"
    by (metis empty_iff list.set(1))
  then have "probe_slot port slot = map (\<lambda>f. pci_entry port slot f (config_read port 0 slot f 0x00)) ?fs"
    using assms(1,2) unfolding probe_slot_def Let_def by simp
  moreover have "g \<noteq> 0" if "g \<in> set ?fs" for g
  proof -
    have "word_of_nat n \<noteq> (0 :: u8)" if "n \<in> {1..<8}" for n
    proof
      assume "word_of_nat n = (0 :: u8)"
      then have "unat (word_of_nat n :: u8) = 0"
        by simp
      then show False
        using that by (simp add: unat_of_nat_small)
    qed
    then show ?thesis
      using that by auto
  qed
  ultimately show ?thesis
    using f by (auto simp: pci_entry_def Let_def)
qed

section \<open>Mouse packets\<close>

definition mouse_packet :: "int \<Rightarrow> int \<Rightarrow> u8 \<Rightarrow> bytes" where
  "mouse_packet dx dy btns =
     [btns OR 0x08 OR (if dx < 0 then 0x10 else 0) OR (if dy > 0 then 0x20 else 0), word_of_int dx, word_of_int (- dy)]"

lemma sign_extend:
  assumes "-256 \<le> d" "d < 256"
  shows "(if d < 0 then ucast (word_of_int d :: u8) - 256 else ucast (word_of_int d :: u8)) = (word_of_int d :: u16)"
proof -
  have "ucast (word_of_int d :: u8) = (word_of_int (d mod 256) :: u16)"
    by (simp add: unsigned_of_int take_bit_eq_mod)
  moreover have "d mod 256 = (if d < 0 then d + 256 else d)"
  proof (cases "d < 0")
    case True
    have "(d + 256) mod 256 = d + 256"
      using True assms by (intro mod_pos_pos_trivial) simp_all
    then show ?thesis
      using True by simp
  qed (use assms in simp)
  ultimately show ?thesis
    by auto
qed

lemma small_byte_cases:
  assumes "(b :: u8) < 8"
  shows "b \<in> {0, 1, 2, 3, 4, 5, 6, 7}"
proof -
  have "unat b < 8"
    using assms by (simp add: word_less_nat_alt)
  then have "unat b \<in> {0, 1, 2, 3, 4, 5, 6, 7}"
    by auto
  then show ?thesis
    by (auto simp: word_eq_iff_unsigned [where ?'a = nat])
qed

lemma decode_mouse_packet:
  assumes "-256 \<le> dx" "dx < 256" "-256 < dy" "dy \<le> 256" "btns < 8"
  shows "decode_packet (mouse_packet dx dy btns ! 0) (mouse_packet dx dy btns ! 1) (mouse_packet dx dy btns ! 2)
    = (word_of_int dx, word_of_int dy, btns)"
proof -
  let ?b = "btns OR 0x08 OR (if dx < 0 then 0x10 else 0) OR (if dy > 0 then 0x20 else 0)"
  have bits: "(drop_bit 4 ?b AND 1 \<noteq> 0) = (dx < 0)" "(drop_bit 5 ?b AND 1 \<noteq> 0) = (- dy < 0)" "?b AND 7 = btns"
    using small_byte_cases [OF assms(5)] by (elim insertE emptyE; simp)+
  have "-256 \<le> - dy" "- dy < 256"
    using assms by simp_all
  note y = sign_extend [OF this]
  have "decode_packet ?b (word_of_int dx) (word_of_int (- dy)) =
      ((if dx < 0 then ucast (word_of_int dx :: u8) - 256 else ucast (word_of_int dx :: u8)),
       - (if - dy < 0 then ucast (word_of_int (- dy) :: u8) - 256 else ucast (word_of_int (- dy) :: u8)), btns)"
    unfolding decode_packet_def Let_def bits ..
  then show ?thesis
    unfolding sign_extend [OF assms(1,2)] y mouse_packet_def by simp
qed

text \<open>
  The accumulated counters after the packets of a list of movements; a packet is three bytes and
  the decoder is between packets when the index is 0.
\<close>

definition synced :: "mouse_state \<Rightarrow> bool" where
  "synced m \<longleftrightarrow> PACKET_IDX m = 0 \<and> length (PACKET_BUF m) = 3"

lemma handle_packet:
  assumes "synced m"
  shows "for_each handle_byte [b0, b1, b2] m = (let (dx, dy, btns) = decode_packet b0 b1 b2 in
    Returns (m\<lparr>PACKET_BUF := [b0, b1, b2], PACKET_IDX := 0, MOUSE_DX := MOUSE_DX m + dx,
      MOUSE_DY := MOUSE_DY m + dy, MOUSE_BTNS := btns\<rparr>))"
proof -
  obtain a b c where "PACKET_BUF m = [a, b, c]"
    using assms by (auto simp: synced_def numeral_3_eq_3 length_Suc_conv)
  then show ?thesis
    using assms by (cases "decode_packet b0 b1 b2") (simp add: handle_byte_def synced_def Let_def)
qed

text \<open>
  A mouse that streams the packets of a list of movements and buttons, each movement in the
  range of nine signed bits, drives the byte handler without a panic to the state in which the two
  counters have grown by the sums of the movements (up positive), the buttons are those of the last
  packet, and the handler is again between packets.
\<close>

lemma mouse_stream_decodes:
  assumes "synced m" "list_all (\<lambda>(dx, dy, b). -256 \<le> dx \<and> dx < 256 \<and> -256 < dy \<and> dy \<le> 256 \<and> b < 8) ps"
  shows "\<exists>m'. for_each handle_byte (concat (map (\<lambda>(dx, dy, b). mouse_packet dx dy b) ps)) m = Returns m' \<and> synced m'
    \<and> MOUSE_DX m' = MOUSE_DX m + word_of_int (\<Sum>(dx, dy, b)\<leftarrow>ps. dx)
    \<and> MOUSE_DY m' = MOUSE_DY m + word_of_int (\<Sum>(dx, dy, b)\<leftarrow>ps. dy)
    \<and> mouse_buttons m' = (if ps = [] then mouse_buttons m else snd (snd (last ps)))"
  using assms
proof (induction ps arbitrary: m)
  case (Cons p ps)
  obtain dx dy b where p: "p = (dx, dy, b)"
    by (cases p)
  then have r: "-256 \<le> dx" "dx < 256" "-256 < dy" "dy \<le> 256" "b < 8"
    using Cons.prems(2) by simp_all
  let ?q = "mouse_packet dx dy b"
  have q: "?q = [?q ! 0, ?q ! 1, ?q ! 2]"
    by (simp add: mouse_packet_def)
  define m1 where "m1 = m\<lparr>PACKET_BUF := ?q, PACKET_IDX := 0, MOUSE_DX := MOUSE_DX m + word_of_int dx,
      MOUSE_DY := MOUSE_DY m + word_of_int dy, MOUSE_BTNS := b\<rparr>"
  have step: "for_each handle_byte ?q m = Returns m1"
    using handle_packet [OF Cons.prems(1), of "?q ! 0" "?q ! 1" "?q ! 2"]
    unfolding decode_mouse_packet [OF r] Let_def q [symmetric] m1_def by simp
  have "synced m1"
    by (simp add: m1_def synced_def mouse_packet_def)
  moreover have "list_all (\<lambda>(dx, dy, b). -256 \<le> dx \<and> dx < 256 \<and> -256 < dy \<and> dy \<le> 256 \<and> b < 8) ps"
    using Cons.prems(2) by simp
  ultimately show ?case
    using Cons.IH [of m1] by (auto simp: p for_each_append step m1_def mouse_buttons_def add.assoc)
qed (simp add: mouse_buttons_def)

lemma mouse_stream_decodes_witness:
  "\<exists>m'. for_each handle_byte [0x28, 2, -3, 0x19, -1, 0] mouse_initial = Returns m'
    \<and> MOUSE_DX m' = 1 \<and> MOUSE_DY m' = 3 \<and> mouse_buttons m' = 1"
  using mouse_stream_decodes [of mouse_initial "[(2, 3, 0), (-1, 0, 1)]"]
  by (auto simp: mouse_packet_def synced_def mouse_initial_def)

section \<open>VGA text\<close>

definition vga_cell :: "u32 \<Rightarrow> u8 \<Rightarrow> u16" where
  "vga_cell c attr = ucast (ucast c :: u8) OR push_bit 8 (ucast attr)"

lemma put_row:
  assumes "r < ROWS" "n \<le> COLS"
  shows "foldl (\<lambda>v col. put_cell r col c attr v) v [0..<n]
    = v\<lparr>vga_cells := (\<lambda>k. if r * COLS \<le> k \<and> k < r * COLS + n then vga_cell c attr else vga_cells v k)\<rparr>"
  using assms(2)
proof (induction n)
  case (Suc n)
  then show ?case
    using assms(1) by (auto simp: put_cell_def vga_cell_def fun_eq_iff intro!: vga_state.equality)
qed (auto simp: fun_eq_iff intro!: vga_state.equality)

lemma scroll_cells:
  "scroll v = v\<lparr>vga_cells := (\<lambda>k. if k < 1920 then vga_cells v (k + 80) else if k < 2000 then 0x0720 else vga_cells v k)\<rparr>"
  unfolding scroll_def Let_def
  by (subst put_row) (auto simp: ROWS_def COLS_def vga_cell_def fun_eq_iff intro!: vga_state.equality)

lemma vga_clear_cells:
  "vga_clear attr v = v\<lparr>vga_cells := (\<lambda>k. if k < 2000 then vga_cell 0x20 attr else vga_cells v k), CURSOR_COL := 0, CURSOR_ROW := 0\<rparr>"
proof -
  have "foldl (\<lambda>v (row, col). put_cell row col 0x20 attr v) v (List.product [0..<n] [0..<COLS])
      = v\<lparr>vga_cells := (\<lambda>k. if k < n * COLS then vga_cell 0x20 attr else vga_cells v k)\<rparr>" if "n \<le> ROWS" for n
    using that
  proof (induction n)
    case (Suc n)
    have "foldl (\<lambda>v (row, col). put_cell row col 0x20 attr v) w (List.product [n] [0..<COLS])
        = foldl (\<lambda>v col. put_cell n col 0x20 attr v) w [0..<COLS]" for w
      by (simp add: foldl_map)
    then show ?case
      using Suc put_row [of n COLS] by (auto simp: product_concat_map fun_eq_iff intro!: vga_state.equality)
  qed simp
  from this [of ROWS] show ?thesis
    by (simp add: vga_clear_def ROWS_def COLS_def)
qed

lemma vga_char_inside:
  assumes "CURSOR_COL v < COLS"
  shows "CURSOR_COL (vga_char attr ch v) < COLS \<and> (\<forall>k\<ge>2000. vga_cells (vga_char attr ch v) k = vga_cells v k)
    \<and> (ch \<noteq> 0x0A \<longrightarrow> CURSOR_ROW (vga_char attr ch v) < ROWS)"
  using assms by (auto simp: vga_char_def put_cell_def scroll_cells Let_def ROWS_def COLS_def)

lemma vga_write_inside:
  assumes "CURSOR_COL v < COLS"
  shows "CURSOR_COL (vga_write s attr v) < COLS \<and> (\<forall>k\<ge>2000. vga_cells (vga_write s attr v) k = vga_cells v k)"
  using assms
proof (induction s arbitrary: v)
  case (Cons ch s)
  then show ?case
    using vga_char_inside [OF Cons.prems, of attr ch] Cons.IH [of "vga_char attr ch v"] by (simp add: vga_write_def)
qed (simp add: vga_write_def)

text \<open>
  A line feed on the bottom row of the VGA console leaves the cursor below the screen, where the
  next character is written nowhere: the screen scrolls after it, and the new bottom row is blank
  with the cursor in its second column.
\<close>

lemma vga_newline_loses_char:
  assumes "CURSOR_ROW v = ROWS - 1" "ch \<noteq> 0x0A"
  shows "vga_write [0x0A, ch] attr v = (scroll v)\<lparr>CURSOR_ROW := ROWS - 1, CURSOR_COL := 1\<rparr>
    \<and> (\<forall>col<COLS. vga_cells (vga_write [0x0A, ch] attr v) ((ROWS - 1) * COLS + col) = vga_cell 0x20 0x07)"
  using assms by (auto simp: vga_write_def vga_char_def put_cell_def scroll_cells vga_cell_def Let_def ROWS_def COLS_def
      intro!: vga_state.equality)

lemma vga_newline_loses_char_witness:
  "vga_cells (vga_write [0x0A, 0x41] 0x0A \<lparr>vga_cells = (\<lambda>k. 0), CURSOR_COL = 3, CURSOR_ROW = 24\<rparr>) 1920 = 0x0720"
  using vga_newline_loses_char [where v = "\<lparr>vga_cells = (\<lambda>k. 0), CURSOR_COL = 3, CURSOR_ROW = 24\<rparr>" and ch = "0x41" and attr = "0x0A",
      THEN conjunct2, rule_format, of 0]
  by (simp add: vga_cell_def ROWS_def COLS_def)

section \<open>Clock and speaker\<close>

text \<open>A two-digit decimal number survives the clock's encoding.\<close>

lemma bcd_to_bin_digits:
  assumes "n < 100"
  shows "bcd_to_bin (push_bit 4 (word_of_nat (n div 10)) OR word_of_nat (n mod 10)) = word_of_nat n"
proof -
  have "n div 10 \<in> set [0..<10]" "n mod 10 \<in> set [0..<10]" "n = n div 10 * 10 + n mod 10"
    using assms by auto
  moreover have "\<forall>a\<in>set [0..<10]. \<forall>b\<in>set [0..<10]. bcd_to_bin (push_bit 4 (word_of_nat a) OR word_of_nat b) = word_of_nat (a * 10 + b)"
    unfolding upt_conv_Cons_Cons by (simp add: upt_rec bcd_to_bin_def)
  ultimately show ?thesis
    by metis
qed

lemma pit2_divisor_pos: "pit2_divisor hz \<noteq> 0"
proof (cases "hz = 0")
  case False
  define d :: u32 where "d = min (max (1193182 div hz) 1) 0xFFFF"
  have "1 \<le> d" "d \<le> 0xFFFF"
    by (auto simp: d_def)
  then have "0 < unat d" "unat d < 65536"
    by (auto simp: word_le_nat_alt)
  then have "unat (ucast d :: u16) \<noteq> 0"
    by (simp add: unat_ucast_mod)
  then show ?thesis
    using False by (auto simp: pit2_divisor_def d_def)
qed (simp add: pit2_divisor_def)

text \<open>The speaker is silent after a beep whatever the gate held: the last write clears both gate bits.\<close>

lemma beep_ends_silent: "last (beep hz g g') = (0x61, v) \<Longrightarrow> v AND 0x03 = 0"
  by (auto simp: beep_def tone_off_def and.assoc)

end
