(* ===== verification/Strings.thy ===== *)
theory Strings
  imports Text
begin

text \<open>
  The operations of Rust's \<open>str\<close> that the launcher, the build script and the applications call,
  on UTF-8 byte sequences: literals, \<open>trim\<close>, \<open>lines\<close>, \<open>split_whitespace\<close> and \<open>join\<close>.
\<close>

section \<open>Literals, lines and white space\<close>

definition lit :: "string \<Rightarrow> bytes" where
  "lit s = map of_char s"

lemma unat_of_char: "unat (of_char c :: u8) = of_char c"
proof -
  have "(of_char c :: u8) = word_of_nat (of_char c)"
    by (simp only: of_nat_of_char)
  then show ?thesis
    by (simp only: unsigned_of_nat) (simp add: take_bit_eq_mod)
qed

lemma lit_inject [simp]: "lit s = lit t \<longleftrightarrow> s = t"
proof -
  have "inj (of_char :: char \<Rightarrow> u8)"
    by (rule injI) (metis of_char_eq_iff unat_of_char)
  then show ?thesis
    by (simp add: lit_def inj_map_eq_map)
qed

lemma lit_simps: "lit [] = []" "lit (c # s) = of_char c # lit s"
  by (simp_all add: lit_def)

text \<open>The UTF-8 sequences of the characters with the property \<open>White_Space\<close>, which \<open>trim\<close> removes.\<close>

definition WHITE :: "bytes list" where
  "WHITE = [[9], [10], [11], [12], [13], [32], [0xC2, 0x85], [0xC2, 0xA0], [0xE1, 0x9A, 0x80]]
     @ map (\<lambda>k. [0xE2, 0x80, word_of_nat k]) [0x80..<0x8B]
     @ [[0xE2, 0x80, 0xA8], [0xE2, 0x80, 0xA9], [0xE2, 0x80, 0xAF], [0xE2, 0x81, 0x9F], [0xE3, 0x80, 0x80]]"

text \<open>The number of bytes of the white character a string starts with, 0 when it starts with none.\<close>

definition white_width :: "bytes list \<Rightarrow> bytes \<Rightarrow> nat" where
  "white_width ws s = (case find (\<lambda>w. take (length w) s = w) ws of None \<Rightarrow> 0 | Some w \<Rightarrow> length w)"

function strip_front :: "bytes list \<Rightarrow> bytes \<Rightarrow> bytes" where
  "strip_front ws s = (if white_width ws s = 0 \<or> s = [] then s else strip_front ws (drop (white_width ws s) s))"
  by auto
termination
  by (relation "measure (\<lambda>(ws, s). length s)") auto

declare strip_front.simps [simp del]

definition trim :: "bytes \<Rightarrow> bytes" where
  "trim s = rev (strip_front (map rev WHITE) (rev (strip_front WHITE s)))"

function split_whitespace :: "bytes \<Rightarrow> bytes list" where
  "split_whitespace s =
     (let s = strip_front WHITE s;
          n = length (takeWhile (\<lambda>k. white_width WHITE (drop k s) = 0) [0..<length s])
      in if n = 0 then [] else take n s # split_whitespace (drop n s))"
  by auto

lemma strip_front_length: "length (strip_front ws s) \<le> length s"
  by (induction ws s rule: strip_front.induct) (subst strip_front.simps, auto)

termination split_whitespace
proof (relation "measure length", goal_cases)
  case (2 s r n)
  have "n \<le> length r"
    unfolding 2(2) by (metis diff_zero length_takeWhile_le length_upt)
  then have "length r - n < length r"
    using 2(3) by simp
  also have "length r \<le> length s"
    unfolding 2(1) by (rule strip_front_length)
  finally show ?case
    by simp
qed simp

declare split_whitespace.simps [simp del]

text \<open>\<open>str::lines\<close>: a final line feed ends the last line, and a carriage return before it belongs to it.\<close>

definition strip_cr :: "bytes \<Rightarrow> bytes" where
  "strip_cr s = (if s \<noteq> [] \<and> last s = 13 then butlast s else s)"

definition lines :: "bytes \<Rightarrow> bytes list" where
  "lines s =
     (let ps = split_on 10 s in map strip_cr (butlast ps) @ (if last ps = [] then [] else [last ps]))"

fun join :: "bytes \<Rightarrow> bytes list \<Rightarrow> bytes" where
  "join sep [] = []"
| "join sep [a] = a"
| "join sep (a # b # bs) = a @ sep @ join sep (b # bs)"

definition starts_with :: "bytes \<Rightarrow> bytes \<Rightarrow> bool" where
  "starts_with s p \<longleftrightarrow> take (length p) s = p"

lemma split_on_append [simp]: "sep \<notin> set a \<Longrightarrow> split_on sep (a @ sep # b) = a # split_on sep b"
  by (induction a) auto

lemma split_on_none [simp]: "sep \<notin> set a \<Longrightarrow> split_on sep a = [a]"
  by (induction a) auto

lemma split_on_join:
  assumes "\<forall>a\<in>set as. sep \<notin> set a" "as \<noteq> []"
  shows "split_on sep (join [sep] as) = as"
  using assms by (induction "[sep]" as rule: join.induct) auto

lemma strip_front_id: "white_width ws s = 0 \<Longrightarrow> strip_front ws s = s"
  by (simp add: strip_front.simps)

lemma white_width_Cons:
  assumes "\<forall>w\<in>set ws. w \<noteq> [] \<and> P (hd w)" "\<not> P b"
  shows "white_width ws (b # s) = 0"
proof -
  have "take (length w) (b # s) \<noteq> w" if "w \<in> set ws" for w
    using bspec [OF assms(1) that] assms(2) by (cases w) auto
  then have "find (\<lambda>w. take (length w) (b # s) = w) ws = None"
    by (intro find_None_iff [THEN iffD2]) blast
  then show ?thesis
    by (simp add: white_width_def)
qed

text \<open>Text between two printable ASCII characters is not trimmed.\<close>

lemma trim_id:
  assumes "s \<noteq> []" "33 \<le> hd s" "hd s < 127" "33 \<le> last s" "last s < 127"
  shows "trim s = s"
proof -
  let ?P = "\<lambda>b :: u8. b < 33 \<or> 127 \<le> b"
  have lo: "\<forall>w\<in>set WHITE. w \<noteq> [] \<and> ?P (hd w)" and hi: "\<forall>w\<in>set (map rev WHITE). w \<noteq> [] \<and> ?P (hd w)"
    by (simp_all add: WHITE_def word_le_nat_alt word_less_nat_alt upt_rec)
  have "white_width WHITE s = 0"
    using white_width_Cons [OF lo, of "hd s" "tl s"] assms by (simp add: not_less not_le)
  moreover have "rev s = last s # tl (rev s)"
    using assms(1) by (metis Nil_is_rev_conv hd_rev list.collapse)
  moreover have "white_width (map rev WHITE) (last s # tl (rev s)) = 0"
    using white_width_Cons [OF hi, of "last s" "tl (rev s)"] assms(4,5) by (simp add: not_less not_le)
  ultimately show ?thesis
    unfolding trim_def by (metis rev_rev_ident strip_front_id)
qed

end
