(* ===== verification/Selections.thy ===== *)
theory Selections
  imports Strings
begin

text \<open>
  The component selection of the launcher (\<open>src/launcher/src/selection.rs\<close>) and the manifest
  the kernel's build script makes of it (\<open>src/kernel/build.rs\<close>).  Strings are UTF-8 bytes.
\<close>

section \<open>Components and selections\<close>

record Component =
  key :: bytes
  label :: bytes
  required :: bool
  recommended :: bool

definition component :: "string \<Rightarrow> string \<Rightarrow> bool \<Rightarrow> bool \<Rightarrow> Component" where
  "component k l req rec = \<lparr>key = lit k, label = lit l, required = req, recommended = rec\<rparr>"

definition COMPONENTS :: "Component list" where
  "COMPONENTS =
     [component ''core'' ''kernel core'' True True,
      component ''sched'' ''scheduler'' True True,
      component ''syscall'' ''syscall / ring-3'' True True,
      component ''ipc'' ''IPC'' True True,
      component ''serial'' ''serial debug'' True True,
      component ''seditor'' ''text editor'' False True,
      component ''explorer'' ''file explorer'' False True,
      component ''ai'' ''AI stub'' False True,
      component ''theme'' ''theming'' False True,
      component ''dock'' ''dock app bar'' False True,
      component ''virtio_blk'' ''virtio-blk driver'' False True,
      component ''ide'' ''ATA/IDE driver'' False True,
      component ''pci'' ''PCI enumeration'' False True,
      component ''gfx'' ''graphics / compositor'' False True]"

record Selection =
  enabled :: "bytes list"

definition is_required :: "Selection \<Rightarrow> bytes \<Rightarrow> bool" where
  "is_required sel k \<longleftrightarrow> list_ex (\<lambda>c. key c = k \<and> required c) COMPONENTS"

definition is_enabled :: "Selection \<Rightarrow> bytes \<Rightarrow> bool" where
  "is_enabled sel k \<longleftrightarrow> k \<in> set (enabled sel)"

text \<open>The position of the first element with a property.\<close>

fun position :: "('a \<Rightarrow> bool) \<Rightarrow> 'a list \<Rightarrow> nat option" where
  "position P [] = None"
| "position P (x # xs) = (if P x then Some 0 else map_option Suc (position P xs))"

definition toggle :: "bytes \<Rightarrow> Selection \<Rightarrow> Selection" where
  "toggle k sel =
     (if is_required sel k then sel
      else case position (\<lambda>e. e = k) (enabled sel) of
        Some pos \<Rightarrow> sel\<lparr>enabled := take pos (enabled sel) @ drop (Suc pos) (enabled sel)\<rparr>
      | None \<Rightarrow> sel\<lparr>enabled := enabled sel @ [k]\<rparr>)"

definition csv :: "Selection \<Rightarrow> bytes" where
  "csv sel = join (lit '','') (enabled sel)"

fun toml_entries :: "nat \<Rightarrow> bytes list \<Rightarrow> bytes" where
  "toml_entries i [] = []"
| "toml_entries i (k # ks) =
     (if i > 0 then lit '', '' else []) @ [34] @ k @ [34] @ toml_entries (Suc i) ks"

definition to_toml :: "Selection \<Rightarrow> bytes" where
  "to_toml sel = lit ''[components]'' @ [10] @ lit ''enabled = ['' @ toml_entries 0 (enabled sel) @ lit '']'' @ [10]"

definition token_skipped :: "bytes \<Rightarrow> bool" where
  "token_skipped tok \<longleftrightarrow> tok = [] \<or> (\<exists>b\<in>set tok. b \<in> set (lit ''[],= ''))"

text \<open>A token becomes the roster's key when the roster has it and is kept as it is otherwise.\<close>

definition token_key :: "bytes \<Rightarrow> bytes" where
  "token_key tok = (case find (\<lambda>c. key c = tok) COMPONENTS of Some c \<Rightarrow> key c | None \<Rightarrow> tok)"

fun toml_lines :: "bool \<Rightarrow> bytes list \<Rightarrow> bytes list" where
  "toml_lines capture [] = []"
| "toml_lines capture (l # ls) =
     (let line = trim l in
      if starts_with line (lit ''['') then toml_lines (starts_with line (lit ''[components]'')) ls
      else (if capture \<and> starts_with line (lit ''enabled'')
            then map token_key (filter (\<lambda>tok. \<not> token_skipped tok) (split_on 34 line)) else [])
           @ toml_lines capture ls)"

definition merge_required :: "bytes list \<Rightarrow> bytes list" where
  "merge_required ks =
     foldl (\<lambda>ks c. if required c \<and> key c \<notin> set ks then ks @ [key c] else ks) ks COMPONENTS"

definition from_toml :: "bytes \<Rightarrow> Selection" where
  "from_toml txt = \<lparr>enabled = merge_required (toml_lines False (lines txt))\<rparr>"

definition roster_position :: "bytes \<Rightarrow> nat" where
  "roster_position k = (case position (\<lambda>c. key c = k) COMPONENTS of Some i \<Rightarrow> i | None \<Rightarrow> 2 ^ 64 - 1)"

definition default_selection :: Selection where
  "default_selection =
     \<lparr>enabled = sort_key roster_position (map key (filter (\<lambda>c. required c \<or> recommended c) COMPONENTS))\<rparr>"

section \<open>The build script's manifest\<close>

definition REQUIRED_COMPONENTS :: "bytes list" where
  "REQUIRED_COMPONENTS = [lit ''core'', lit ''sched'', lit ''syscall'', lit ''ipc'', lit ''serial'']"

record component_manifest =
  REQUIRED :: "bytes list"
  ENABLED :: "bytes list"
  CSV :: bytes

definition manifest_keys :: "bytes \<Rightarrow> bytes list" where
  "manifest_keys raw =
     (let user = filter (\<lambda>s. s \<noteq> []) (split_on 44 raw)
      in foldl (\<lambda>ks k. if k \<notin> set ks then ks @ [k] else ks) [] (REQUIRED_COMPONENTS @ user))"

text \<open>\<open>LIONOS_COMPONENTS\<close> may be unset.\<close>

definition generate_manifest :: "bytes option \<Rightarrow> component_manifest" where
  "generate_manifest env =
     (let keys = manifest_keys (case env of Some raw \<Rightarrow> raw | None \<Rightarrow> [])
      in \<lparr>REQUIRED = REQUIRED_COMPONENTS, ENABLED = keys, CSV = join (lit '','') keys\<rparr>)"

lemmas roster_defs = COMPONENTS_def component_def REQUIRED_COMPONENTS_def

text \<open>The compulsory keys of the roster are those the build script adds by itself.\<close>

lemma required_agree: "map key (filter required COMPONENTS) = REQUIRED_COMPONENTS"
  by (simp add: roster_defs)

lemma is_required_iff: "is_required sel k \<longleftrightarrow> k \<in> set REQUIRED_COMPONENTS"
  unfolding required_agree [symmetric] by (auto simp: is_required_def list_ex_iff)

lemma distinct_roster: "distinct (map key COMPONENTS)"
  by (simp add: roster_defs)

lemma distinct_required: "distinct REQUIRED_COMPONENTS"
  by (simp add: roster_defs)

lemma required_in_roster: "set REQUIRED_COMPONENTS \<subseteq> set (map key COMPONENTS)"
  unfolding required_agree [symmetric] by auto

lemma position_nth:
  assumes "distinct (map f xs)" "i < length xs"
  shows "position (\<lambda>x. f x = f (xs ! i)) xs = Some i"
  using assms
proof (induction xs arbitrary: i)
  case (Cons x xs)
  then show ?case
    by (cases i) (auto dest: image_eqI [OF _ nth_mem, of _ f])
qed simp

lemma position_None: "position P xs = None \<longleftrightarrow> (\<forall>x\<in>set xs. \<not> P x)"
  by (induction xs) auto

lemma position_Some:
  "position P xs = Some i \<Longrightarrow> i < length xs \<and> P (xs ! i) \<and> (\<forall>j<i. \<not> P (xs ! j))"
proof (induction xs arbitrary: i)
  case (Cons x xs)
  then show ?case
    by (auto split: if_splits simp: less_Suc_eq_0_disj)
qed simp

lemma default_all: "enabled default_selection = map key COMPONENTS"
proof -
  have "map roster_position (map key COMPONENTS) = [0..<length COMPONENTS]"
    using position_nth [OF distinct_roster]
    by (intro nth_equalityI) (auto simp: roster_position_def)
  then have "sorted (map roster_position (map key COMPONENTS))"
    by simp
  then have "sort_key roster_position (map key COMPONENTS) = map key COMPONENTS"
    by (rule sort_key_id_if_sorted)
  moreover have "filter (\<lambda>c. required c \<or> recommended c) COMPONENTS = COMPONENTS"
    by (simp add: roster_defs)
  ultimately show ?thesis
    by (simp add: default_selection_def)
qed

text \<open>What every selection of the picker satisfies.\<close>

definition selection_ok :: "Selection \<Rightarrow> bool" where
  "selection_ok sel \<longleftrightarrow> distinct (enabled sel) \<and> set (enabled sel) \<subseteq> set (map key COMPONENTS)
     \<and> set REQUIRED_COMPONENTS \<subseteq> set (enabled sel)"

lemma default_ok: "selection_ok default_selection"
  unfolding selection_ok_def default_all using distinct_roster required_in_roster by blast

lemma toggle_set:
  assumes "distinct (enabled sel)" "k \<notin> set REQUIRED_COMPONENTS"
  shows "distinct (enabled (toggle k sel))
    \<and> set (enabled (toggle k sel)) = (if k \<in> set (enabled sel) then set (enabled sel) - {k} else insert k (set (enabled sel)))"
proof (cases "position (\<lambda>e. e = k) (enabled sel)")
  case None
  then have "k \<notin> set (enabled sel)"
    by (auto simp: position_None)
  then show ?thesis
    using assms None by (auto simp: toggle_def is_required_iff)
next
  case (Some pos)
  let ?xs = "enabled sel"
  have "pos < length ?xs" "?xs ! pos = k"
    using position_Some [OF Some] by simp_all
  then have xs: "?xs = take pos ?xs @ k # drop (Suc pos) ?xs"
    by (metis id_take_nth_drop)
  then have "distinct (take pos ?xs @ k # drop (Suc pos) ?xs)" "set ?xs = insert k (set (take pos ?xs @ drop (Suc pos) ?xs))"
    using assms(1) by (metis, metis Un_insert_right list.simps(15) set_append)
  then show ?thesis
    using Some assms(2) by (auto simp: toggle_def is_required_iff)
qed

lemma toggle_ok: "selection_ok sel \<Longrightarrow> k \<in> set (map key COMPONENTS) \<Longrightarrow> selection_ok (toggle k sel)"
  by (cases "k \<in> set REQUIRED_COMPONENTS")
    (use toggle_set [of sel k] in \<open>auto simp: selection_ok_def toggle_def is_required_iff split: if_splits\<close>)

section \<open>The saved selection reads back\<close>

lemma token_key_id [simp]: "token_key tok = tok"
  by (auto simp: token_key_def find_Some_iff split: option.splits)

text \<open>A key that can stand between the quotes of the file.\<close>

definition clean_key :: "bytes \<Rightarrow> bool" where
  "clean_key k \<longleftrightarrow> \<not> token_skipped k \<and> 34 \<notin> set k \<and> 10 \<notin> set k"

lemma toml_tokens:
  assumes "list_all clean_key ks" "34 \<notin> set pre" "0 < i \<or> 91 \<in> set pre"
  shows "filter (\<lambda>tok. \<not> token_skipped tok) (split_on 34 (pre @ toml_entries i ks @ lit '']'')) = ks"
  using assms
proof (induction ks arbitrary: pre i)
  case Nil
  then show ?case
    by (simp add: token_skipped_def lit_simps)
next
  case (Cons k ks)
  let ?sep = "if 0 < i then lit '', '' else []"
  have sep: "34 \<notin> set (pre @ ?sep)" and skip: "token_skipped (pre @ ?sep)"
    using Cons.prems by (auto simp: token_skipped_def lit_simps)
  have k: "34 \<notin> set k"
    using Cons.prems(1) by (simp add: clean_key_def)
  have "pre @ toml_entries i (k # ks) @ lit '']'' = (pre @ ?sep) @ 34 # k @ 34 # toml_entries (Suc i) ks @ lit '']''"
    by simp
  then have "split_on 34 (pre @ toml_entries i (k # ks) @ lit '']'')
      = (pre @ ?sep) # k # split_on 34 ([] @ toml_entries (Suc i) ks @ lit '']'')"
    by (simp only: split_on_append [OF sep] split_on_append [OF k] append_Nil)
  then show ?case
    using Cons.IH [of "[]" "Suc i"] Cons.prems(1) skip by (simp add: clean_key_def)
qed

lemma toml_entries_no_newline: "list_all clean_key ks \<Longrightarrow> 10 \<notin> set (toml_entries i ks)"
  by (induction ks arbitrary: i) (auto simp: clean_key_def lit_simps)

lemma lines_to_toml:
  assumes "list_all clean_key (enabled sel)"
  shows "lines (to_toml sel) = [lit ''[components]'', lit ''enabled = ['' @ toml_entries 0 (enabled sel) @ lit '']'']"
proof -
  let ?a = "lit ''[components]''" and ?b = "lit ''enabled = ['' @ toml_entries 0 (enabled sel) @ lit '']''"
  have a: "10 \<notin> set ?a" and b: "10 \<notin> set ?b"
    using toml_entries_no_newline [OF assms] by (auto simp: lit_simps)
  have "to_toml sel = ?a @ 10 # ?b @ 10 # []"
    by (simp add: to_toml_def)
  then have "split_on 10 (to_toml sel) = [?a, ?b, []]"
    unfolding split_on_append [OF a] split_on_append [OF b] by (simp only: split_on_append [OF a] split_on_append [OF b] split_on.simps)
  then show ?thesis
    by (simp add: lines_def strip_cr_def) (simp add: lit_simps)
qed

lemma toml_lines_to_toml:
  assumes "list_all clean_key (enabled sel)"
  shows "toml_lines False (lines (to_toml sel)) = enabled sel"
proof -
  let ?a = "lit ''[components]''" and ?b = "lit ''enabled = ['' @ toml_entries 0 (enabled sel) @ lit '']''"
  have "trim ?a = ?a" "trim ?b = ?b"
    by (rule trim_id; simp add: lit_simps)+
  moreover have "starts_with ?a (lit ''['')" "starts_with ?a ?a" "\<not> starts_with ?b (lit ''['')" "starts_with ?b (lit ''enabled'')"
    by (simp_all add: starts_with_def lit_simps)
  moreover have "filter (\<lambda>tok. \<not> token_skipped tok) (split_on 34 ?b) = enabled sel"
    by (rule toml_tokens [OF assms]) (simp_all add: lit_simps)
  ultimately show ?thesis
    unfolding lines_to_toml [OF assms] by (simp add: Let_def map_idI)
qed

lemma merge_foldl:
  assumes "distinct (map key (filter required cs))"
  shows "foldl (\<lambda>ks c. if required c \<and> key c \<notin> set ks then ks @ [key c] else ks) ks cs
    = ks @ filter (\<lambda>k. k \<notin> set ks) (map key (filter required cs))"
  using assms
proof (induction cs arbitrary: ks)
  case (Cons c cs)
  have "filter (\<lambda>k. k \<noteq> key c \<and> k \<notin> set ks) (map key (filter required cs)) = filter (\<lambda>k. k \<notin> set ks) (map key (filter required cs))"
    if "required c"
    using Cons.prems that by (intro filter_cong) (auto dest: sym [THEN image_eqI])
  then show ?case
    using Cons by (cases "required c"; cases "key c \<in> set ks") (auto simp: conj_commute)
qed simp

lemma merge_required_eq: "merge_required ks = ks @ filter (\<lambda>k. k \<notin> set ks) REQUIRED_COMPONENTS"
  unfolding merge_required_def
  by (subst merge_foldl) (simp_all add: required_agree distinct_required)

lemma from_toml_to_toml:
  assumes "list_all clean_key (enabled sel)"
  shows "enabled (from_toml (to_toml sel)) = enabled sel @ filter (\<lambda>k. k \<notin> set (enabled sel)) REQUIRED_COMPONENTS"
  by (simp add: from_toml_def toml_lines_to_toml [OF assms] merge_required_eq)

lemma roster_clean: "list_all (\<lambda>k. clean_key k \<and> 44 \<notin> set k \<and> k \<noteq> []) (map key COMPONENTS)"
  by (simp add: roster_defs clean_key_def token_skipped_def lit_simps)

lemma selection_ok_keys: "selection_ok sel \<Longrightarrow> list_all (\<lambda>k. clean_key k \<and> 44 \<notin> set k \<and> k \<noteq> []) (enabled sel)"
  using roster_clean unfolding selection_ok_def list_all_iff by blast

section \<open>The manifest\<close>

lemma dedup_foldl:
  "distinct xs \<Longrightarrow> foldl (\<lambda>ks k. if k \<notin> set ks then ks @ [k] else ks) acc xs = acc @ filter (\<lambda>k. k \<notin> set acc) xs"
proof (induction xs arbitrary: acc)
  case (Cons x xs)
  have "filter (\<lambda>k. k \<noteq> x \<and> k \<notin> set acc) xs = filter (\<lambda>k. k \<notin> set acc) xs"
    using Cons.prems by (intro filter_cong) auto
  then show ?case
    using Cons by (auto simp: conj_commute)
qed simp

lemma manifest_keys_csv:
  assumes "selection_ok sel"
  shows "manifest_keys (csv sel) = REQUIRED_COMPONENTS @ filter (\<lambda>k. k \<notin> set REQUIRED_COMPONENTS) (enabled sel)"
proof -
  have d: "distinct (enabled sel)" and ne: "enabled sel \<noteq> []" and "set REQUIRED_COMPONENTS \<subseteq> set (enabled sel)"
    using assms by (auto simp: selection_ok_def roster_defs)
  have ks: "\<forall>k\<in>set (enabled sel). 44 \<notin> set k" "\<forall>k\<in>set (enabled sel). k \<noteq> []"
    using selection_ok_keys [OF assms] by (auto simp: list_all_iff)
  have "csv sel = join [44] (enabled sel)"
    by (simp add: csv_def lit_simps)
  then have "split_on 44 (csv sel) = enabled sel"
    using split_on_join [OF ks(1) ne] by simp
  then have "filter (\<lambda>s. s \<noteq> []) (split_on 44 (csv sel)) = enabled sel"
    using ks(2) by (simp add: filter_id_conv)
  then show ?thesis
    using dedup_foldl [OF distinct_required, of "[]"] dedup_foldl [OF d, of REQUIRED_COMPONENTS]
    by (simp add: manifest_keys_def Let_def)
qed

end
