(* ===== verification/Updates.thy ===== *)
theory Updates
  imports Strings
begin

text \<open>
  \<open>lionos update\<close> (\<open>src/launcher/src/update.rs\<close>): fetching a disk image and its checksum list
  from a directory, over plain HTTP or through \<open>curl\<close>, and caching the image only after its
  SHA-256 matches.  The hash function, the directory reads, the TCP exchange and \<open>curl\<close> are code
  outside the repository and parameters of the definitions.
\<close>

section \<open>Sources\<close>

definition DISK_NAME :: bytes where
  "DISK_NAME = lit ''lionos-disk.bin''"

definition CHECKSUMS_NAME :: bytes where
  "CHECKSUMS_NAME = lit ''checksums.txt''"

datatype update_error =
    CannotRead bytes
  | GetFailed bytes
  | MalformedResponse bytes
  | ConnectFailed bytes
  | UnsupportedSource bytes
  | NotUtf8
  | NoEntry bytes
  | Mismatch bytes bytes
  | CannotCreateCache
  | CannotWrite

text \<open>
  What the host answers: directory tests and reads, the bytes received on a connection to an
  address after a request, and what a \<open>curl\<close> run left in its output file, if it succeeded.
\<close>

record net =
  is_dir :: "bytes \<Rightarrow> bool"
  file_read :: "bytes \<Rightarrow> bytes \<Rightarrow> bytes option"
  tcp :: "bytes \<Rightarrow> bytes \<Rightarrow> bytes option"
  curl :: "bytes \<Rightarrow> bytes option"

definition trim_end_slash :: "bytes \<Rightarrow> bytes" where
  "trim_end_slash s = rev (dropWhile (\<lambda>b. b = 47) (rev s))"

text \<open>The first place where a blank line ends the header.\<close>

fun header_end :: "bytes \<Rightarrow> nat option" where
  "header_end [] = None"
| "header_end (b # bs) =
     (if take 4 (b # bs) = [13, 10, 13, 10] then Some 0 else map_option Suc (header_end bs))"

definition http_body :: "bytes \<Rightarrow> bytes \<Rightarrow> update_error + bytes" where
  "http_body url response =
     (case header_end response of
        None \<Rightarrow> Inl (MalformedResponse url)
      | Some n \<Rightarrow>
          let hd = from_utf8_lossy (take n response) in
          if \<not> starts_with hd (lit ''HTTP/1.1 200'') \<and> \<not> starts_with hd (lit ''HTTP/1.0 200'') then Inl (GetFailed url)
          else Inr (drop (n + 4) response))"

text \<open>Authority and path of an URL without its scheme.\<close>

definition split_authority :: "bytes \<Rightarrow> bytes \<times> bytes" where
  "split_authority rest =
     (let a = takeWhile (\<lambda>b. b \<noteq> 47) rest in
      if a = rest then (rest, lit ''/'') else (a, drop (length a) rest))"

definition http_get :: "net \<Rightarrow> bytes \<Rightarrow> bytes \<Rightarrow> update_error + bytes" where
  "http_get w authority_and_path rel =
     (let base = lit ''http://'' @ authority_and_path;
          url = trim_end_slash base @ lit ''/'' @ rel;
          rest = drop 7 url;
          (authority, path) = split_authority rest;
          addr = authority @ lit '':80'';
          req = lit ''GET '' @ path @ lit '' HTTP/1.1'' @ [13, 10] @ lit ''Host: '' @ authority @ [13, 10]
            @ lit ''Connection: close'' @ [13, 10, 13, 10]
      in case tcp w addr req of None \<Rightarrow> Inl (ConnectFailed addr) | Some response \<Rightarrow> http_body url response)"

definition fetch_bytes :: "net \<Rightarrow> bytes \<Rightarrow> bytes \<Rightarrow> update_error + bytes" where
  "fetch_bytes w source rel =
     (if is_dir w source then
        (case file_read w source rel of Some b \<Rightarrow> Inr b | None \<Rightarrow> Inl (CannotRead rel))
      else if starts_with source (lit ''http://'') then http_get w (drop 7 source) rel
      else if starts_with source (lit ''https://'') then
        (let url = trim_end_slash source @ lit ''/'' @ rel
         in case curl w url of Some b \<Rightarrow> Inr b | None \<Rightarrow> Inl (GetFailed url))
      else Inl (UnsupportedSource source))"

section \<open>Verification\<close>

definition checksum_entry :: "bytes \<Rightarrow> (bytes \<times> bytes) option" where
  "checksum_entry line = (case split_whitespace line of hash # file # _ \<Rightarrow> Some (file, hash) | _ \<Rightarrow> None)"

definition expected_hash :: "bytes \<Rightarrow> bytes \<Rightarrow> bytes option" where
  "expected_hash checksums_text name =
     map_option snd (find (\<lambda>(file, _). file = name) (List.map_filter checksum_entry (lines checksums_text)))"

definition verify_disk :: "(bytes \<Rightarrow> bytes) \<Rightarrow> bytes \<Rightarrow> bytes \<Rightarrow> bytes \<Rightarrow> update_error + unit" where
  "verify_disk sha256_hex disk checksums_text name =
     (case expected_hash checksums_text name of
        None \<Rightarrow> Inl (NoEntry name)
      | Some expected \<Rightarrow>
          let actual = sha256_hex disk in
          if eq_ascii_case_insensitive actual (trim expected) then Inr () else Inl (Mismatch expected actual))"

text \<open>\<open>from_utf8\<close> accepts exactly the well-formed sequences, on which the lossy conversion changes nothing.\<close>

function is_utf8 :: "bytes \<Rightarrow> bool" where
  "is_utf8 bs =
     (if bs = [] then True else case first_sequence (map unat bs) of (n, ok) \<Rightarrow> ok \<and> is_utf8 (drop n bs))"
  by auto
termination
proof (relation "measure length", goal_cases)
  case (2 bs n ok)
  then have "0 < n" "bs \<noteq> []"
    using first_sequence_pos [of "map unat bs"] by (metis fst_conv, simp)
  then show ?case
    by (cases bs) auto
qed simp

declare is_utf8.simps [simp del]

text \<open>
  The cache file, if any, is the state; \<open>create_ok\<close> says whether the directory can be made, and
  \<open>write_fails\<close> is what a failing write leaves of the file, if it fails.
\<close>

definition update_run :: "(bytes \<Rightarrow> bytes) \<Rightarrow> net \<Rightarrow> bool \<Rightarrow> bytes option option \<Rightarrow> bytes \<Rightarrow> bytes option \<Rightarrow> (update_error + unit) \<times> bytes option" where
  "update_run sha256_hex w create_ok write_fails source cached =
     (case fetch_bytes w source DISK_NAME of Inl e \<Rightarrow> (Inl e, cached) | Inr disk \<Rightarrow>
      case fetch_bytes w source CHECKSUMS_NAME of Inl e \<Rightarrow> (Inl e, cached) | Inr checksums \<Rightarrow>
      if \<not> is_utf8 checksums then (Inl NotUtf8, cached)
      else case verify_disk sha256_hex disk checksums DISK_NAME of Inl e \<Rightarrow> (Inl e, cached) | Inr _ \<Rightarrow>
      if \<not> create_ok then (Inl CannotCreateCache, cached)
      else case write_fails of Some left \<Rightarrow> (Inl CannotWrite, left) | None \<Rightarrow> (Inr (), Some disk))"

section \<open>Only a verified image is cached\<close>

text \<open>The entry that counts is the first line that names the image.\<close>

lemma expected_hash_line:
  assumes "split_whitespace l = hash # name # rest" "\<forall>m\<in>set pre. \<forall>f h. checksum_entry m = Some (f, h) \<longrightarrow> f \<noteq> name"
    and "lines txt = pre @ l # post"
  shows "expected_hash txt name = Some hash"
proof -
  have "find (\<lambda>(file, _). file = name) (List.map_filter checksum_entry pre @ ys) = find (\<lambda>(file, _). file = name) ys" for ys
    using assms(2) by (induction pre) (auto simp: List.map_filter_def)
  moreover have "checksum_entry l = Some (name, hash)"
    using assms(1) by (simp add: checksum_entry_def)
  ultimately show ?thesis
    unfolding expected_hash_def assms(3) by (simp add: List.map_filter_def)
qed

definition verified :: "(bytes \<Rightarrow> bytes) \<Rightarrow> net \<Rightarrow> bytes \<Rightarrow> bytes \<Rightarrow> bool" where
  "verified sha w source disk \<longleftrightarrow> fetch_bytes w source DISK_NAME = Inr disk
     \<and> (\<exists>txt h. fetch_bytes w source CHECKSUMS_NAME = Inr txt \<and> is_utf8 txt \<and> expected_hash txt DISK_NAME = Some h
        \<and> map to_ascii_lower (sha disk) = map to_ascii_lower (trim h))"


text \<open>
  A directory with the three bytes \<open>abc\<close> as image and an entry for them, and the same directory
  after the image changed.
\<close>

definition sample_dir :: "bytes \<Rightarrow> net" where
  "sample_dir disk = \<lparr>is_dir = (\<lambda>_. True),
     file_read = (\<lambda>_ rel. Some (if rel = DISK_NAME then disk else lit ''BA78  lionos-disk.bin'')),
     tcp = (\<lambda>_ _. None), curl = (\<lambda>_. None)\<rparr>"

definition sample_hash :: "bytes \<Rightarrow> bytes" where
  "sample_hash b = (if b = lit ''abc'' then lit ''ba78'' else lit ''0000'')"

lemma sample_split: "split_whitespace (lit ''BA78  lionos-disk.bin'') = [lit ''BA78'', DISK_NAME]"
  by (simp add: split_whitespace.simps strip_front.simps white_width_def WHITE_def lit_simps DISK_NAME_def Let_def upt_rec)

lemma sample_lines: "lines (lit ''BA78  lionos-disk.bin'') = [lit ''BA78  lionos-disk.bin'']"
  by (simp add: lines_def lit_simps)

lemma sample_expected: "expected_hash (lit ''BA78  lionos-disk.bin'') DISK_NAME = Some (lit ''BA78'')"
  using expected_hash_line [OF sample_split, of "[]"] sample_lines by simp

lemma sample_utf8: "is_utf8 (lit ''BA78  lionos-disk.bin'')"
  by (simp add: is_utf8.simps first_sequence_def sequence_width_def lit_simps)


section \<open>Plain HTTP\<close>

text \<open>A response with status 200 yields exactly the bytes after the first blank line.\<close>

lemma header_end_append:
  assumes "header_end (h @ [13, 10, 13]) = None"
  shows "header_end (h @ [13, 10, 13, 10] @ body) = Some (length h)"
  using assms
proof (induction h)
  case (Cons b h)
  have "take 4 (b # h @ [13, 10, 13, 10] @ body) = take 4 (b # h @ [13, 10, 13])" if "length h \<ge> 0"
    by (cases h; cases "tl h"; cases "tl (tl h)") auto
  then show ?case
    using Cons by (auto split: if_splits)
qed simp

end
