(* ===== verification/Installer.thy ===== *)
theory Installer
  imports Selections Updates
begin

text \<open>
  \<open>lionos install\<close> and the provisioning half of \<open>lionos setup\<close> (\<open>src/launcher/src/install.rs\<close>,
  with the QEMU lookup and command line of \<open>qemu.rs\<close> and \<open>doctor.rs\<close>).  The host is a record of the
  search path, the files the launcher keeps and the environment variables it reads.  Processes it
  spawns, \<open>curl\<close>, the compiler runs and the hash function are code outside the repository: they are
  the fields of \<open>outside\<close>, a parameter of every definition that uses them.  The platform, chosen
  at compile time in the source, is an argument.
\<close>

section \<open>The host\<close>

datatype platform = Linux | Macos | Windows

record host =
  PATH :: "bytes list option"
  is_file :: "bytes \<Rightarrow> bytes \<Rightarrow> bool"
  no_provision :: bool
  staged :: "bytes \<rightharpoonup> bytes"
  config_toml :: "bytes option"
  cache :: "bytes option"
  bios_img :: bool

text \<open>
  A spawned command says whether it succeeded and what it made of the host; \<open>io_ok\<close> says whether a
  named file operation of the launcher succeeds.  A write that fails leaves a content behind, and
  \<open>curl\<close> an output file whatever its status.
\<close>

record outside =
  spawn :: "bytes list \<Rightarrow> host \<Rightarrow> bool \<times> host"
  cargo_build :: "bytes \<Rightarrow> bytes \<Rightarrow> host \<Rightarrow> bool \<times> host"
  direct_curl :: "bytes \<Rightarrow> bool \<times> bytes option"
  sha256_hex :: "bytes \<Rightarrow> bytes"
  web :: net
  repo_root :: bool
  io_ok :: "string \<Rightarrow> bool"
  write_cache_fails :: "bytes option option"
  write_config_fails :: "bytes option option"

datatype install_error =
    QemuNotOnPath
  | QemuNoPackageManager
  | SpawnFailed bytes
  | MissingTools "bytes list"
  | RustupFailed
  | NoDirectArtifact bytes
  | CannotCreate
  | DownloadFailed bytes
  | CannotReadDownload bytes
  | BadChecksum bytes bytes
  | CannotStage bytes
  | NotProvisioned bytes
  | NoRepoRoot
  | BuildFailed bytes
  | NoImage
  | CannotWriteConfig
  | UpdateError update_error

type_synonym 'a step = "host \<Rightarrow> (install_error + 'a) \<times> host"

text \<open>The early return of the source's \<open>?\<close>.\<close>

definition seq :: "'a step \<Rightarrow> ('a \<Rightarrow> 'b step) \<Rightarrow> 'b step" where
  "seq a f h = (case a h of (Inl e, h') \<Rightarrow> (Inl e, h') | (Inr x, h') \<Rightarrow> f x h')"

section \<open>Finding programs\<close>

text \<open>\<open>with_extension\<close> replaces what follows the last dot of a name that does not start with it.\<close>

definition with_exe :: "bytes \<Rightarrow> bytes" where
  "with_exe bin =
     (let ext = takeWhile (\<lambda>b. b \<noteq> 46) (rev bin)
      in if length ext + 1 < length bin then take (length bin - length ext) bin @ lit ''exe'' else bin @ lit ''.exe'')"

definition which :: "platform \<Rightarrow> host \<Rightarrow> bytes \<Rightarrow> bool" where
  "which pl h bin =
     (case PATH h of None \<Rightarrow> False
      | Some dirs \<Rightarrow> list_ex (\<lambda>d. is_file h d bin \<or> (pl = Windows \<and> is_file h d (with_exe bin))) dirs)"

definition QEMU_NAMES :: "platform \<Rightarrow> bytes list" where
  "QEMU_NAMES pl =
     (if pl = Windows then [lit ''qemu-system-x86_64.exe'', lit ''qemu-system-x86.exe'']
      else [lit ''qemu-system-x86_64'', lit ''qemu-system-x86''])"

definition find_qemu :: "platform \<Rightarrow> host \<Rightarrow> (bytes \<times> bytes) option" where
  "find_qemu pl h =
     (case PATH h of None \<Rightarrow> None
      | Some dirs \<Rightarrow> find (\<lambda>(d, name). is_file h d name) (List.product dirs (QEMU_NAMES pl)))"

definition build_argv :: "bytes \<Rightarrow> bool \<Rightarrow> bytes list" where
  "build_argv img headless =
     [lit ''-machine'', lit ''accel=tcg'', lit ''-no-reboot'']
     @ (if headless then [lit ''-nographic''] else [lit ''-serial'', lit ''stdio''])
     @ [lit ''-drive'', lit ''format=raw,file='' @ img]"

definition install_tip :: "platform \<Rightarrow> bytes" where
  "install_tip pl = (case pl of Macos \<Rightarrow> lit ''brew install qemu'' | Windows \<Rightarrow> lit ''winget install QEMU''
     | Linux \<Rightarrow> lit ''sudo apt install qemu-system-x86'')"

definition doctor_run :: "platform \<Rightarrow> host \<Rightarrow> bool" where
  "doctor_run pl h \<longleftrightarrow> find_qemu pl h \<noteq> None"

definition pkg_install_argv :: "platform \<Rightarrow> host \<Rightarrow> bytes \<Rightarrow> bytes list option" where
  "pkg_install_argv pl h package =
     (case pl of
        Windows \<Rightarrow>
          (case (if package = lit ''qemu'' then Some (lit ''QEMU.QEMU'')
                 else if package = lit ''nasm'' then Some (lit ''Nasm.Nasm'')
                 else if package = lit ''zig'' then Some (lit ''KreyaDev.Zigstd'')
                 else None) of
             None \<Rightarrow> None
           | Some i \<Rightarrow> Some [lit ''winget'', lit ''install'', lit ''--id='' @ i, lit ''--accept-package-agreements'',
               lit ''--accept-source-agreements'', lit ''--silent'', lit ''--disable-interactivity''])
      | Macos \<Rightarrow> Some [lit ''brew'', lit ''install'', package]
      | Linux \<Rightarrow>
          if which pl h (lit ''apt-get'') then Some [lit ''sudo'', lit ''apt-get'', lit ''install'', lit ''-y'', package]
          else if which pl h (lit ''dnf'') then Some [lit ''sudo'', lit ''dnf'', lit ''install'', lit ''-y'', package]
          else if which pl h (lit ''yum'') then Some [lit ''sudo'', lit ''yum'', lit ''install'', lit ''-y'', package]
          else if which pl h (lit ''pacman'') then Some [lit ''sudo'', lit ''pacman'', lit ''-S'', lit ''--noconfirm'', package]
          else None)"

definition stream :: "outside \<Rightarrow> bytes list \<Rightarrow> unit step" where
  "stream w argv h = (case spawn w argv h of (ok, h') \<Rightarrow> (if ok then Inr () else Inl (SpawnFailed (hd argv)), h'))"

section \<open>Dependencies of a source install\<close>

definition ensure_qemu :: "platform \<Rightarrow> outside \<Rightarrow> unit step" where
  "ensure_qemu pl w h =
     (if find_qemu pl h \<noteq> None then (Inr (), h)
      else case pkg_install_argv pl h (lit ''qemu'') of
        None \<Rightarrow> (Inl QemuNoPackageManager, h)
      | Some argv \<Rightarrow> seq (stream w argv) (\<lambda>_ h. (if find_qemu pl h \<noteq> None then Inr () else Inl QemuNotOnPath, h)) h)"

text \<open>One row of the tool loop: whether the tool is missing afterwards.\<close>

definition ensure_tool :: "platform \<Rightarrow> outside \<Rightarrow> bytes \<Rightarrow> host \<Rightarrow> bool \<times> host" where
  "ensure_tool pl w tool h =
     (if which pl h tool then (False, h)
      else case pkg_install_argv pl h tool of
        None \<Rightarrow> (True, h)
      | Some argv \<Rightarrow> (case stream w argv h of (Inl _, h') \<Rightarrow> (True, h') | (Inr _, h') \<Rightarrow> (False, h')))"

fun ensure_tools :: "platform \<Rightarrow> outside \<Rightarrow> bytes list \<Rightarrow> host \<Rightarrow> bytes list \<times> host" where
  "ensure_tools pl w [] h = ([], h)"
| "ensure_tools pl w (t # ts) h =
     (case ensure_tool pl w t h of (miss, h') \<Rightarrow>
      case ensure_tools pl w ts h' of (ms, h'') \<Rightarrow> ((if miss then t # ms else ms), h''))"

definition ensure_compiler :: "platform \<Rightarrow> outside \<Rightarrow> host \<Rightarrow> bool \<times> host" where
  "ensure_compiler pl w h =
     (if which pl h (lit ''g++'') \<or> which pl h (lit ''clang++'') then (False, h)
      else case pkg_install_argv pl h (lit ''g++'') of
        None \<Rightarrow> (True, h)
      | Some argv \<Rightarrow> (case stream w argv h of (Inl _, h') \<Rightarrow> (True, h') | (Inr _, h') \<Rightarrow> (\<not> which pl h' (lit ''g++''), h')))"

definition ensure_build_tools :: "platform \<Rightarrow> outside \<Rightarrow> unit step" where
  "ensure_build_tools pl w h =
     (case ensure_tools pl w [lit ''nasm'', lit ''zig'', lit ''mtools''] h of (ms, h1) \<Rightarrow>
      case ensure_compiler pl w h1 of (miss, h2) \<Rightarrow>
      let missing = ms @ (if miss then [lit ''g++''] else []) in
      (if missing = [] then Inr () else Inl (MissingTools missing), h2))"

definition RUSTUP_SCRIPT :: "bytes list" where
  "RUSTUP_SCRIPT = [lit ''sh'', lit ''-c'', lit ''curl --proto '' @ [39] @ lit ''=https'' @ [39]
     @ lit '' --tlsv1.2 -sSf https://sh.rustup.rs | sh -s -- -y'']"

definition ensure_rust :: "platform \<Rightarrow> outside \<Rightarrow> unit step" where
  "ensure_rust pl w h =
     seq (\<lambda>h. if which pl h (lit ''rustup'') then (Inr (), h)
              else case stream w RUSTUP_SCRIPT h of (Inl _, h') \<Rightarrow> (Inl RustupFailed, h') | (Inr _, h') \<Rightarrow> (Inr (), h'))
       (\<lambda>_. seq (stream w [lit ''rustup'', lit ''toolchain'', lit ''install'', lit ''nightly-2026-08-02''])
       (\<lambda>_. seq (stream w [lit ''rustup'', lit ''+nightly-2026-08-02'', lit ''component'', lit ''add'', lit ''rust-src'', lit ''llvm-tools-preview''])
       (\<lambda>_. stream w [lit ''rustup'', lit ''+nightly-2026-08-02'', lit ''target'', lit ''add'', lit ''x86_64-unknown-none'']))) h"

section \<open>The provisioning ladder\<close>

record Tool =
  tool_name :: bytes
  lang :: bytes
  tool_required :: bool

definition tool :: "string \<Rightarrow> string \<Rightarrow> Tool" where
  "tool n l = \<lparr>tool_name = lit n, lang = lit l, tool_required = True\<rparr>"

definition HOST_TOOLS :: "Tool list" where
  "HOST_TOOLS =
     [tool ''qemu'' ''virtual-machine target'', tool ''rust'' ''Rust'', tool ''nasm'' ''NASM assembly'',
      tool ''g++'' ''C/C++ (17)'', tool ''zig'' ''Zig'', tool ''mtools'' ''FAT tooling'']"

datatype Rung = PkgMgr | Direct

definition tool_present :: "platform \<Rightarrow> host \<Rightarrow> bytes \<Rightarrow> bool" where
  "tool_present pl h name =
     (if name = lit ''qemu'' then find_qemu pl h \<noteq> None
      else if name = lit ''rust'' then which pl h (lit ''rustup'') \<or> which pl h (lit ''cargo'')
      else which pl h name)"

definition rung_ladder :: "platform \<Rightarrow> host \<Rightarrow> bytes \<Rightarrow> Rung list" where
  "rung_ladder pl h name =
     (if pkg_install_argv pl h name \<noteq> None \<and> \<not> no_provision h then [PkgMgr] else []) @ [Direct]"

definition RELEASE_BASE_URL :: bytes where
  "RELEASE_BASE_URL = lit ''https://github.com/ram1234598766-dotcom/Lion-OS/releases/latest/download''"

definition direct_spec :: "bytes \<Rightarrow> (bytes \<times> bytes) option" where
  "direct_spec name =
     (if name = lit ''qemu'' then
        Some (lit ''https://github.com/ram1234598766-dotcom/Lion-OS/releases/latest/download/qemu-slim-x86_64.tar.gz'',
              replicate 64 48)
      else None)"

text \<open>The download is kept under another name until its hash has been checked; then it is renamed.\<close>

definition stage_direct_tool :: "outside \<Rightarrow> bytes \<Rightarrow> unit step" where
  "stage_direct_tool w name h =
     (case direct_spec name of
        None \<Rightarrow> (Inl (NoDirectArtifact name), h)
      | Some (url, expected) \<Rightarrow>
          if \<not> io_ok w ''create staged dir'' then (Inl CannotCreate, h)
          else case direct_curl w url of (ok, left) \<Rightarrow>
            let h = h\<lparr>staged := (staged h)(name @ lit ''.bin'' := left)\<rparr> in
            if \<not> ok then (Inl (DownloadFailed name), h)
            else case left of
              None \<Rightarrow> (Inl (CannotReadDownload name), h)
            | Some content \<Rightarrow>
                let actual = sha256_hex w content in
                if actual \<noteq> expected then (Inl (BadChecksum name actual), h)
                else if \<not> io_ok w ''rename'' then (Inl (CannotStage name), h)
                else (Inr (), h\<lparr>staged := (staged h)(name @ lit ''.bin'' := None, name \<mapsto> content)\<rparr>))"

fun walk_rungs :: "platform \<Rightarrow> outside \<Rightarrow> bytes \<Rightarrow> Rung list \<Rightarrow> unit step" where
  "walk_rungs pl w name [] h = (Inl (NotProvisioned name), h)"
| "walk_rungs pl w name (PkgMgr # rs) h =
     (case pkg_install_argv pl h name of
        None \<Rightarrow> walk_rungs pl w name rs h
      | Some argv \<Rightarrow>
          case stream w argv h of (r, h') \<Rightarrow>
          if r = Inr () \<and> tool_present pl h' name then (Inr (), h') else walk_rungs pl w name rs h')"
| "walk_rungs pl w name (Direct # rs) h = stage_direct_tool w name h"

definition provision_one :: "platform \<Rightarrow> outside \<Rightarrow> bytes \<Rightarrow> unit step" where
  "provision_one pl w name h =
     (if tool_present pl h name then (Inr (), h) else walk_rungs pl w name (rung_ladder pl h name) h)"

section \<open>Building, installing, setting up\<close>

definition build_disk :: "outside \<Rightarrow> bytes \<Rightarrow> unit step" where
  "build_disk w component_csv h =
     (case cargo_build w (lit ''kernel'') component_csv h of (ok, h1) \<Rightarrow>
      if \<not> ok then (Inl (BuildFailed (lit ''kernel'')), h1)
      else case cargo_build w (lit ''os'') component_csv h1 of (ok, h2) \<Rightarrow>
      if \<not> ok then (Inl (BuildFailed (lit ''os'')), h2)
      else (if bios_img h2 then Inr () else Inl NoImage, h2))"

definition update_step :: "outside \<Rightarrow> bytes \<Rightarrow> unit step" where
  "update_step w source h =
     (case update_run (sha256_hex w) (web w) (io_ok w ''create cache'') (write_cache_fails w) source (cache h) of
        (r, c) \<Rightarrow> (case r of Inl e \<Rightarrow> Inl (UpdateError e) | Inr _ \<Rightarrow> Inr (), h\<lparr>cache := c\<rparr>))"

definition run_inner :: "platform \<Rightarrow> outside \<Rightarrow> bool \<Rightarrow> bool \<Rightarrow> unit step" where
  "run_inner pl w skip_build from_release =
     (if from_release then
        seq (provision_one pl w (lit ''qemu'')) (\<lambda>_ h. if skip_build then (Inr (), h) else update_step w RELEASE_BASE_URL h)
      else
        seq (ensure_qemu pl w) (\<lambda>_. seq (ensure_build_tools pl w) (\<lambda>_. seq (ensure_rust pl w) (\<lambda>_ h.
          if skip_build then (Inr (), h)
          else if \<not> repo_root w then (Inl NoRepoRoot, h)
          else build_disk w (csv default_selection) h))))"

text \<open>The reports of \<open>on_step\<close>, in order, beside the result.\<close>

fun setup_tools :: "platform \<Rightarrow> outside \<Rightarrow> bytes list \<Rightarrow> host \<Rightarrow> (bytes \<times> bool) list \<times> (install_error + unit) \<times> host" where
  "setup_tools pl w [] h = ([], Inr (), h)"
| "setup_tools pl w (t # ts) h =
     (case provision_one pl w t h of
        (Inl e, h') \<Rightarrow> ([(t, False)], Inl e, h')
      | (Inr _, h') \<Rightarrow> (case setup_tools pl w ts h' of (steps, r, h'') \<Rightarrow> ((t, True) # steps, r, h'')))"

definition run_setup_with_progress ::
    "platform \<Rightarrow> outside \<Rightarrow> Selection \<Rightarrow> bool \<Rightarrow> host \<Rightarrow> (bytes \<times> bool) list \<times> (install_error + unit) \<times> host" where
  "run_setup_with_progress pl w sel from_release h =
     (if \<not> io_ok w ''create data dir'' then ([], Inl CannotCreate, h)
      else case write_config_fails w of Some left \<Rightarrow> ([], Inl CannotWriteConfig, h\<lparr>config_toml := left\<rparr>) | None \<Rightarrow>
      let h = h\<lparr>config_toml := Some (to_toml sel)\<rparr> in
      if from_release then
        (case provision_one pl w (lit ''qemu'') h of
           (Inl e, h') \<Rightarrow> ([(lit ''qemu'', False)], Inl e, h')
         | (Inr _, h') \<Rightarrow>
             (case update_step w RELEASE_BASE_URL h' of
                (r, h'') \<Rightarrow> ([(lit ''qemu'', True), (lit ''prebuilt disk'', r = Inr ())], r, h'')))
      else
        (case setup_tools pl w (map tool_name HOST_TOOLS) h of
           (steps, Inl e, h') \<Rightarrow> (steps, Inl e, h')
         | (steps, Inr _, h') \<Rightarrow>
             if \<not> repo_root w then (steps, Inl NoRepoRoot, h')
             else (case build_disk w (csv sel) h' of (r, h'') \<Rightarrow> (steps @ [(lit ''build'', r = Inr ())], r, h''))))"

section \<open>What a provisioned tool is\<close>

lemma stage_direct_sound:
  assumes "stage_direct_tool w name h = (Inr (), h')"
  shows "\<exists>url expected content. direct_spec name = Some (url, expected) \<and> direct_curl w url = (True, Some content)
    \<and> sha256_hex w content = expected \<and> staged h' name = Some content"
  using assms by (auto simp: stage_direct_tool_def Let_def split: option.splits if_splits prod.splits)

lemma walk_rungs_sound:
  assumes "walk_rungs pl w name rs h = (Inr (), h')"
  shows "tool_present pl h' name \<or> (\<exists>url expected content. direct_spec name = Some (url, expected)
    \<and> direct_curl w url = (True, Some content) \<and> sha256_hex w content = expected \<and> staged h' name = Some content)"
  using assms
proof (induction pl w name rs h rule: walk_rungs.induct)
  case (2 pl w name rs h)
  then show ?case
    by (auto split: option.splits prod.splits if_splits)
qed (auto dest: stage_direct_sound)

text \<open>
  When provisioning a tool reports success, the tool is found on the search path of the
  resulting host, or it is QEMU and the staged file of its name holds a download whose SHA-256 is
  the pinned one; when the ladder has no package manager and no pinned download is known, it is
  refused and the host is untouched.
\<close>

lemma provision_one_sound:
  "(provision_one pl w name h = (Inr (), h') \<longrightarrow> tool_present pl h' name
      \<or> (name = lit ''qemu'' \<and> (\<exists>content. staged h' name = Some content \<and> sha256_hex w content = replicate 64 48)))
    \<and> (\<not> tool_present pl h name \<and> pkg_install_argv pl h name = None \<and> name \<noteq> lit ''qemu''
      \<longrightarrow> provision_one pl w name h = (Inl (NoDirectArtifact name), h))"
proof (intro conjI impI)
  assume "provision_one pl w name h = (Inr (), h')"
  then have "tool_present pl h' name \<or> (\<exists>url expected content. direct_spec name = Some (url, expected)
      \<and> direct_curl w url = (True, Some content) \<and> sha256_hex w content = expected \<and> staged h' name = Some content)"
    by (auto simp: provision_one_def split: if_splits dest: walk_rungs_sound)
  then show "tool_present pl h' name
      \<or> (name = lit ''qemu'' \<and> (\<exists>content. staged h' name = Some content \<and> sha256_hex w content = replicate 64 48))"
    by (auto simp: direct_spec_def split: if_splits)
next
  assume "\<not> tool_present pl h name \<and> pkg_install_argv pl h name = None \<and> name \<noteq> lit ''qemu''"
  then show "provision_one pl w name h = (Inl (NoDirectArtifact name), h)"
    by (simp add: provision_one_def rung_ladder_def stage_direct_tool_def direct_spec_def)
qed

text \<open>A host without any directory on its path, and a network that delivers nothing.\<close>

definition bare_host :: host where
  "bare_host = \<lparr>PATH = Some [], is_file = (\<lambda>_ _. False), no_provision = False, staged = Map.empty,
     config_toml = None, cache = None, bios_img = False\<rparr>"

definition bare_outside :: outside where
  "bare_outside = \<lparr>spawn = (\<lambda>_ h. (False, h)), cargo_build = (\<lambda>_ _ h. (False, h)), direct_curl = (\<lambda>_. (False, None)),
     sha256_hex = (\<lambda>_. replicate 64 48), web = \<lparr>is_dir = (\<lambda>_. False), file_read = (\<lambda>_ _. None), tcp = (\<lambda>_ _. None), curl = (\<lambda>_. None)\<rparr>,
     repo_root = True, io_ok = (\<lambda>_. True), write_cache_fails = None, write_config_fails = None\<rparr>"

lemma provision_one_sound_witness:
  "provision_one Linux bare_outside (lit ''zig'') bare_host = (Inl (NoDirectArtifact (lit ''zig'')), bare_host)"
  using provision_one_sound [of Linux bare_outside "lit ''zig''" bare_host]
  by (simp add: tool_present_def pkg_install_argv_def which_def bare_host_def)

end
