(* ===== verification/Setup.thy ===== *)
theory Setup
  imports Installer "HOL-Library.Sublist"
begin

text \<open>
  \<open>lionos setup\<close> (\<open>src/launcher/src/setup.rs\<close>): key decoding, the component picker, the pages it
  renders and the progress it shows while \<open>run_setup_with_progress\<close> works.  The terminal is its
  remaining input; what is printed is returned as the list of the printed pieces.
\<close>

section \<open>Keys\<close>

datatype Key = Up | Down | Toggle | Enter | Quit | Number u8 | Unknown

text \<open>
  A terminal in raw mode delivers bytes; anything else delivers lines, of which a read may fail.
  At the end of the input a byte read finds nothing and a line read an empty line.
\<close>

datatype terminal = Tty bytes | Piped "bytes option list"

fun read_byte :: "bytes \<Rightarrow> u8 option \<times> bytes" where
  "read_byte [] = (None, [])"
| "read_byte (b # bs) = (Some b, bs)"

definition raw_key :: "bytes \<Rightarrow> Key \<times> bytes" where
  "raw_key inp =
     (case read_byte inp of (b, inp) \<Rightarrow>
      let b = (case b of Some b \<Rightarrow> b | None \<Rightarrow> 10) in
      if b = 0x1B then
        (case read_byte inp of (_, inp) \<Rightarrow>
         case read_byte inp of (e, inp) \<Rightarrow>
         (case e of Some e \<Rightarrow> (if e = 65 then Up else if e = 66 then Down else Quit) | None \<Rightarrow> Quit, inp))
      else if b = 32 then (Toggle, inp)
      else if b = 13 \<or> b = 10 then (Enter, inp)
      else if b = 113 \<or> b = 81 \<or> b = 3 then (Quit, inp)
      else if 48 \<le> b \<and> b \<le> 57 then (Number (b - 48), inp)
      else (Unknown, inp))"

definition line_key :: "bytes \<Rightarrow> Key" where
  "line_key line =
     (let t = trim line in
      if t = [] then Enter
      else if t = lit ''q'' \<or> t = lit ''Q'' then Quit
      else if length t = 1 \<and> 48 \<le> hd t \<and> hd t \<le> 57 then Number (hd t - 48)
      else Unknown)"

fun read_key :: "terminal \<Rightarrow> Key \<times> terminal" where
  "read_key (Tty inp) = (case raw_key inp of (k, inp) \<Rightarrow> (k, Tty inp))"
| "read_key (Piped []) = (Enter, Piped [])"
| "read_key (Piped (None # ls)) = (Quit, Piped ls)"
| "read_key (Piped (Some l # ls)) = (line_key l, Piped ls)"

fun term_size :: "terminal \<Rightarrow> nat" where
  "term_size (Tty inp) = length inp"
| "term_size (Piped ls) = length ls"

lemma read_key_consumes: "read_key t = (k, t') \<Longrightarrow> k = Enter \<or> term_size t' < term_size t"
proof (induction t rule: read_key.induct)
  case (1 inp)
  have "length (snd (read_byte i)) \<le> length i" for i
    by (cases i) auto
  then show ?case
    using 1 by (cases inp) (auto simp: raw_key_def Let_def split: prod.splits if_splits option.splits,
        (metis le_trans le_imp_less_Suc snd_conv)+)
qed auto

partial_function (option) wait_for :: "Key list \<Rightarrow> terminal \<Rightarrow> terminal option" where
  "wait_for keys t = (case read_key t of (k, t') \<Rightarrow> if k \<in> set keys then Some t' else wait_for keys t')"

section \<open>Pages before the work\<close>

definition ansi :: "string \<Rightarrow> bytes \<Rightarrow> bytes" where
  "ansi code s = [27] @ lit ''['' @ lit code @ lit ''m'' @ s @ [27] @ lit ''[0m''"

definition clear_screen :: bytes where
  "clear_screen = [27] @ lit ''[2J'' @ [27] @ lit ''[H''"

abbreviation (input) "dim \<equiv> ansi ''2''"
abbreviation (input) "bold \<equiv> ansi ''1''"
abbreviation (input) "green \<equiv> ansi ''32''"
abbreviation (input) "yellow \<equiv> ansi ''33''"
abbreviation (input) "red \<equiv> ansi ''31''"

text \<open>The characters outside ASCII that the pages use: lock, middle dot, pointer, tick, cross and dash.\<close>

definition LOCK :: bytes where "LOCK = [0xF0, 0x9F, 0x94, 0x92]"
definition DOT :: bytes where "DOT = [0xC2, 0xB7]"
definition POINTER :: bytes where "POINTER = [0xE2, 0x96, 0xB6]"
definition TICK :: bytes where "TICK = [0xE2, 0x9C, 0x93]"
definition CROSS :: bytes where "CROSS = [0xE2, 0x9C, 0x97]"
definition DASH :: bytes where "DASH = [0xE2, 0x80, 0x94]"

text \<open>
  The banner is drawn with block and box characters; its rows are written here with one ASCII
  letter for each of them.
\<close>

definition glyph :: "char \<Rightarrow> bytes" where
  "glyph c =
     (if c = CHR ''#'' then [0xE2, 0x96, 0x88]
      else if c = CHR ''7'' then [0xE2, 0x95, 0x97]
      else if c = CHR ''|'' then [0xE2, 0x95, 0x91]
      else if c = CHR ''r'' then [0xE2, 0x95, 0x94]
      else if c = CHR ''='' then [0xE2, 0x95, 0x90]
      else if c = CHR ''J'' then [0xE2, 0x95, 0x9D]
      else if c = CHR ''L'' then [0xE2, 0x95, 0x9A]
      else lit [c])"

definition banner :: "string \<Rightarrow> bytes" where
  "banner s = concat (map glyph s)"

definition LANGUAGES :: "bytes list" where
  "LANGUAGES = [lit ''Rust'', lit ''C'', lit ''C++ (17)'', lit ''Zig'', lit ''NASM'']"

definition render_welcome :: bytes where
  "render_welcome =
     clear_screen
     @ bold (banner ''  ##7     ##7 ######7 ###7   ##7  ######7 #######7'' @ [10])
     @ bold (banner ''  ##|     ##|##r===##7####7  ##|##r===##7##r====J'' @ [10])
     @ bold (banner ''  ##|  #  ##|##|   ##|##r##7 ##|##|   ##|#######7'' @ [10])
     @ bold (banner ''  ##|##7##rJ##|   ##|##|L##7##|##|   ##|L====##|'' @ [10])
     @ bold (banner ''  ##J######|L######rJ##| L####|L######rJ#######|'' @ [10])
     @ bold (banner ''  #######rJ L=====J L=J  L===J L=====J L======J'' @ [10, 10])
     @ yellow (lit ''  LionOS setup '' @ DASH @ lit '' the standalone installation manager'' @ [10])
     @ dim ([10] @ lit ''  This installs the LionOS host toolchain, auto-configures'' @ [10])
     @ dim (lit ''  the build, then builds a bootable disk image in QEMU.'' @ [10, 10])
     @ bold (lit ''  Built from: '') @ green (join (lit '' '' @ DOT @ lit '' '') LANGUAGES)
     @ dim ([10, 10] @ lit ''  [Enter] begin   [Q] quit'' @ [10])"

definition println :: "bytes \<Rightarrow> bytes" where
  "println s = s @ [10]"

definition render_page1 :: bytes where
  "render_page1 =
     clear_screen @ bold (lit ''  Page 1 '' @ DASH @ lit '' Required host toolchain'' @ [10])
     @ dim (lit ''  All compulsory. The multilingual build needs every one.'' @ [10, 10])
     @ concat (map (\<lambda>t. lit ''   '' @ LOCK @ lit '' '' @ yellow (tool_name t) @ lit ''  '' @ dim (lit ''('' @ lang t @ lit '')'') @ [10]) HOST_TOOLS)
     @ dim ([10] @ lit ''  Every tool is required and auto-provisioned (package'' @ [10])
     @ dim (lit ''  manager first, then a verified staged download).'' @ [10])
     @ dim ([10] @ lit ''  [Enter] provision these, then choose components'' @ [10])"

definition page2_row :: "Selection \<Rightarrow> nat \<Rightarrow> nat \<times> Component \<Rightarrow> bytes" where
  "page2_row sel cursor = (\<lambda>(i, c).
     let marker = (if i = cursor then POINTER else lit '' '');
         row = lit '' '' @ marker
           @ (if required c then lit '' '' @ LOCK @ lit '' '' @ yellow (key c) @ lit ''  '' @ dim (lit ''(required)'')
              else if is_enabled sel (key c) then lit '' [x] '' @ key c @ lit ''  ''
              else lit '' [ ] '' @ key c @ lit ''  '')
     in (if i = cursor then bold row else row) @ [10])"

fun decimal :: "nat \<Rightarrow> bytes" where
  "decimal n = (if n < 10 then [] else decimal (n div 10)) @ [48 + word_of_nat (n mod 10)]"

declare decimal.simps [simp del]

definition render_page2 :: "Selection \<Rightarrow> nat \<Rightarrow> bytes" where
  "render_page2 sel cursor =
     clear_screen @ bold (lit ''  Page 2 '' @ DASH @ lit '' LionOS components'' @ [10])
     @ dim (lit ''  '' @ LOCK @ lit '' = compulsory   '' @ DOT @ lit ''   [x]/[ ] = recommended   '' @ DOT @ lit ''   Space toggles'' @ [10, 10])
     @ concat (map (page2_row sel cursor) (enumerate 0 COMPONENTS))
     @ dim ([10] @ lit ''  '' @ decimal (length (enabled sel)) @ lit '' of '' @ decimal (length COMPONENTS) @ lit '' enabled'' @ [10])
     @ dim ([10] @ lit ''  [Enter] build with this selection   [Q] quit'' @ [10])"

section \<open>The picker\<close>

text \<open>One turn of the loop before the key that ends it.\<close>

definition picker_key :: "Key \<Rightarrow> Selection \<Rightarrow> nat \<Rightarrow> Selection \<times> nat" where
  "picker_key k sel cursor =
     (case k of
        Up \<Rightarrow> (sel, cursor - 1)
      | Down \<Rightarrow> (sel, min (cursor + 1) (length COMPONENTS - 1))
      | Number n \<Rightarrow>
          let i = unat (saturating_sub n 1)
          in if i < length COMPONENTS then (toggle (key (COMPONENTS ! i)) sel, cursor) else (sel, cursor)
      | Toggle \<Rightarrow> if cursor < length COMPONENTS then (toggle (key (COMPONENTS ! cursor)) sel, cursor) else (sel, cursor)
      | _ \<Rightarrow> (sel, cursor))"

text \<open>The selection to build with, or nothing when the user quits; and page 2 as it was shown before each key.\<close>

function picker :: "Selection \<Rightarrow> nat \<Rightarrow> terminal \<Rightarrow> Selection option \<times> bytes list \<times> terminal" where
  "picker sel cursor t =
     (let page = render_page2 sel cursor in
      case read_key t of (k, t') \<Rightarrow>
      if k = Enter then (Some sel, [page], t')
      else if k = Quit then (None, [page], t')
      else case picker_key k sel cursor of (sel', cursor') \<Rightarrow>
        (case picker sel' cursor' t' of (r, pages, t'') \<Rightarrow> (r, page # pages, t'')))"
  by auto
termination
  by (relation "measure (\<lambda>(sel, cursor, t). term_size t)") (auto dest: read_key_consumes [OF sym])

declare picker.simps [simp del]

section \<open>Progress and the last page\<close>

definition step_mark :: "bool option list \<Rightarrow> nat \<Rightarrow> bytes" where
  "step_mark status i =
     (if i < length status
      then case status ! i of Some True \<Rightarrow> green TICK | Some False \<Rightarrow> red CROSS | None \<Rightarrow> dim DOT
      else dim DOT)"

definition render_page3 :: "bytes \<Rightarrow> bytes list \<Rightarrow> bool option list \<Rightarrow> bytes" where
  "render_page3 log_path steps status =
     clear_screen @ bold (lit ''  Page 3 '' @ DASH @ lit '' Provisioning & build'' @ [10])
     @ dim (lit ''  Installing the host toolchain, then building the disk image.'' @ [10, 10])
     @ concat (map (\<lambda>(i, name). lit ''   '' @ step_mark status i @ lit ''  '' @ name @ [10]) (enumerate 0 steps))
     @ dim ([10] @ lit ''  This can take a few minutes. The install log records'' @ [10])
     @ dim (lit ''  every step: '' @ log_path)"

definition render_finish :: "bytes \<Rightarrow> Selection \<Rightarrow> bool \<Rightarrow> bytes option \<Rightarrow> bytes" where
  "render_finish log_path sel ok err =
     clear_screen
     @ (if ok then green (bold (lit ''  '' @ TICK @ lit '' LionOS setup complete''))
                   @ dim ([10, 10] @ lit ''  The bootable disk image is ready.'' @ [10])
        else red (bold (lit ''  '' @ CROSS @ lit '' LionOS setup failed''))
                   @ (case err of Some e \<Rightarrow> red ([10, 10] @ lit ''  '' @ e) | None \<Rightarrow> [])
                   @ dim ([10, 10] @ lit ''  Fix the step above and re-run `lionos setup`.''))
     @ dim ([10] @ lit ''  Components enabled: '' @ csv sel) @ dim ([10] @ lit ''  Install log: '' @ log_path)
     @ green ([10, 10] @ lit ''  lionos run'')"

section \<open>Running\<close>

definition report :: "bytes list \<Rightarrow> bool option list \<Rightarrow> bytes \<times> bool \<Rightarrow> bool option list" where
  "report steps status = (\<lambda>(name, ok). case position (\<lambda>s. s = name) steps of Some i \<Rightarrow> status[i := Some ok] | None \<Rightarrow> status)"

text \<open>The status after each report, from the empty one on.\<close>

fun statuses :: "bytes list \<Rightarrow> bool option list \<Rightarrow> (bytes \<times> bool) list \<Rightarrow> bool option list list" where
  "statuses steps status [] = [status]"
| "statuses steps status (x # xs) = status # statuses steps (report steps status x) xs"

text \<open>\<open>err_text\<close> is the message of an error; the screens are page 3 after every report and the last page.\<close>

definition run_with_progress ::
    "platform \<Rightarrow> outside \<Rightarrow> (install_error \<Rightarrow> bytes) \<Rightarrow> bytes \<Rightarrow> Selection \<Rightarrow> bool \<Rightarrow> bytes list \<Rightarrow> host
     \<Rightarrow> (install_error + unit) \<times> bytes list \<times> host" where
  "run_with_progress pl w err_text log_path sel from_release steps h =
     (case run_setup_with_progress pl w sel from_release h of (reports, r, h') \<Rightarrow>
      (r, map (render_page3 log_path steps) (statuses steps (replicate (length steps) None) reports)
          @ [println (render_finish log_path sel (r = Inr ()) (case r of Inl e \<Rightarrow> Some (err_text e) | Inr _ \<Rightarrow> None))], h'))"

definition SOURCE_STEPS :: "bytes list" where
  "SOURCE_STEPS = map tool_name HOST_TOOLS @ [lit ''build'']"

definition RELEASE_STEPS :: "bytes list" where
  "RELEASE_STEPS = [lit ''qemu'', lit ''prebuilt disk'']"

text \<open>What was printed before a run comes first.\<close>

definition after_pages :: "bytes list \<Rightarrow> 'r \<times> bytes list \<times> 'h \<Rightarrow> 'r \<times> bytes list \<times> 'h" where
  "after_pages out = (\<lambda>(r, out', h). (r, out @ out', h))"

definition run_smoke ::
    "platform \<Rightarrow> outside \<Rightarrow> (install_error \<Rightarrow> bytes) \<Rightarrow> bytes \<Rightarrow> bool \<Rightarrow> host \<Rightarrow> (install_error + unit) \<times> bytes list \<times> host" where
  "run_smoke pl w err_text log_path from_release h =
     (let sel = default_selection;
          steps = (if from_release then RELEASE_STEPS else SOURCE_STEPS)
      in after_pages
           [println render_welcome, println render_page1, println (render_page2 sel 0), println [],
            println (lit ''LIONOS_SETUP_PAGES_OK components='' @ csv sel)]
           (run_with_progress pl w err_text log_path sel from_release steps h))"

text \<open>
  \<open>None\<close> is a wait that never ends.  Quitting the picker is a success without any step.
\<close>

definition run_wizard ::
    "platform \<Rightarrow> outside \<Rightarrow> (install_error \<Rightarrow> bytes) \<Rightarrow> bytes \<Rightarrow> bool \<Rightarrow> terminal \<Rightarrow> host
     \<Rightarrow> ((install_error + unit) \<times> bytes list \<times> host) option" where
  "run_wizard pl w err_text log_path from_release t h =
     (let pages = [println render_welcome, println render_page1] in
      case wait_for [Enter] t of None \<Rightarrow> None | Some t1 \<Rightarrow>
      case wait_for [Enter] t1 of None \<Rightarrow> None | Some t2 \<Rightarrow>
      if from_release
      then Some (after_pages pages (run_with_progress pl w err_text log_path default_selection True RELEASE_STEPS h))
      else (case picker default_selection 0 t2 of
              (None, shown, _) \<Rightarrow> Some (Inr (), pages @ shown, h)
            | (Some sel, shown, _) \<Rightarrow>
                Some (after_pages (pages @ shown) (run_with_progress pl w err_text log_path sel False SOURCE_STEPS h))))"

section \<open>The wizard always ends\<close>

lemma wait_for_enter: "\<exists>t'. wait_for [Enter] t = Some t'"
proof (induction "term_size t" arbitrary: t rule: less_induct)
  case less
  obtain k t' where r: "read_key t = (k, t')"
    by (cases "read_key t")
  show ?case
  proof (cases "k = Enter")
    case True
    then show ?thesis
      by (subst wait_for.simps) (simp add: r)
  next
    case False
    then have "term_size t' < term_size t"
      using read_key_consumes [OF r] by simp
    then show ?thesis
      using less [of t'] False by (subst wait_for.simps) (simp add: r)
  qed
qed

text \<open>The welcome page offers \<open>[Q] quit\<close>, but the wait behind it skips that key.\<close>

lemma welcome_ignores_quit: "wait_for [Enter] (Tty (113 # inp)) = wait_for [Enter] (Tty inp)"
  by (subst wait_for.simps) (simp add: raw_key_def)

text \<open>
  The setup wizard returns on every terminal, raw or piped, whatever its input: the waits for
  the Enter key and the picker's loop end, because at the end of the input every read is an Enter.
\<close>

lemma run_wizard_ends: "run_wizard pl w err_text log_path from_release t h \<noteq> None"
proof -
  obtain t1 t2 where "wait_for [Enter] t = Some t1" "wait_for [Enter] t1 = Some t2"
    using wait_for_enter by meson
  then show ?thesis
    unfolding run_wizard_def by (cases "picker default_selection 0 t2") (simp add: Let_def split: option.split del: not_None_eq)
qed

section \<open>What the picker yields\<close>

lemma picker_key_ok:
  assumes "selection_ok sel" "picker_key k sel cursor = (sel', cursor')"
  shows "selection_ok sel'"
proof -
  have "i < length COMPONENTS \<Longrightarrow> selection_ok (toggle (key (COMPONENTS ! i)) sel)" for i
    using toggle_ok [OF assms(1)] by simp
  then show ?thesis
    using assms by (auto simp: picker_key_def Let_def split: Key.splits if_splits)
qed

lemma picker_ok: "selection_ok sel \<Longrightarrow> picker sel cursor t = (Some sel', out, t') \<Longrightarrow> selection_ok sel'"
proof (induction sel cursor t arbitrary: out rule: picker.induct)
  case (1 sel cursor t)
  obtain k u where r: "read_key t = (k, u)"
    by (cases "read_key t")
  obtain s c where p: "picker_key k sel cursor = (s, c)"
    by (cases "picker_key k sel cursor")
  show ?case
    using 1(1) [OF refl r [symmetric] _ _ p [symmetric]] 1(2,3) picker_key_ok [OF 1(2) p]
    by (auto simp: picker.simps [of sel cursor t] r p Let_def split: if_splits prod.splits)
qed

text \<open>The cursor never leaves the roster, so the row that Space toggles is always the highlighted one.\<close>

lemma picker_key_cursor:
  "cursor < length COMPONENTS \<Longrightarrow> picker_key k sel cursor = (sel', cursor') \<Longrightarrow> cursor' < length COMPONENTS"
  by (auto simp: picker_key_def Let_def split: Key.splits if_splits)

text \<open>
  C25: Whatever keys are pressed, the selection that leaves the picker contains every compulsory
  component and only components of the roster, once each; the configuration file written for it
  reads back as the same selection; and the manifest the kernel's build script makes of the
  exported list enables the compulsory components first and then exactly the chosen others in
  their order.
\<close>

theorem picker_choice_reaches_kernel:
  assumes "picker default_selection 0 t = (Some sel, pages, t')"
  shows "selection_ok sel \<and> from_toml (to_toml sel) = sel
    \<and> ENABLED (generate_manifest (Some (csv sel))) = REQUIRED_COMPONENTS @ filter (\<lambda>k. k \<notin> set REQUIRED_COMPONENTS) (enabled sel)
    \<and> set (ENABLED (generate_manifest (Some (csv sel)))) = set (enabled sel) \<and> distinct (ENABLED (generate_manifest (Some (csv sel))))"
proof -
  have ok: "selection_ok sel"
    using picker_ok [OF default_ok assms] .
  then have req: "set REQUIRED_COMPONENTS \<subseteq> set (enabled sel)" and d: "distinct (enabled sel)"
    by (auto simp: selection_ok_def)
  have "list_all clean_key (enabled sel)"
    using selection_ok_keys [OF ok] by (auto simp: list_all_iff)
  then have "enabled (from_toml (to_toml sel)) = enabled sel"
    using from_toml_to_toml req by (simp add: filter_empty_conv subset_iff)
  then have "from_toml (to_toml sel) = sel"
    by simp
  moreover have "ENABLED (generate_manifest (Some (csv sel))) = REQUIRED_COMPONENTS @ filter (\<lambda>k. k \<notin> set REQUIRED_COMPONENTS) (enabled sel)"
    by (simp add: generate_manifest_def Let_def manifest_keys_csv [OF ok])
  ultimately show ?thesis
    using ok req d distinct_required by auto
qed

text \<open>Down five times, space, Enter: the text editor is deselected.\<close>

definition sample_keys :: bytes where
  "sample_keys = [0x1B, 0x5B, 0x42, 0x1B, 0x5B, 0x42, 0x1B, 0x5B, 0x42, 0x1B, 0x5B, 0x42, 0x1B, 0x5B, 0x42, 32, 13]"

lemma sample_picker:
  "\<exists>pages. picker default_selection 0 (Tty sample_keys) = (Some (toggle (lit ''seditor'') default_selection), pages, Tty [])"
  by (simp add: sample_keys_def picker.simps raw_key_def picker_key_def Let_def roster_defs)

theorem picker_choice_reaches_kernel_witness:
  "from_toml (to_toml (toggle (lit ''seditor'') default_selection)) = toggle (lit ''seditor'') default_selection"
  using sample_picker picker_choice_reaches_kernel by blast

section \<open>What page 3 shows\<close>

text \<open>The reports of a run are those of its first steps, all successful but perhaps the last one.\<close>

definition progress_of :: "bytes list \<Rightarrow> (bytes \<times> bool) list \<Rightarrow> bool \<Rightarrow> bool" where
  "progress_of steps reports ok \<longleftrightarrow> prefix (map fst reports) steps \<and> list_all snd (butlast reports)
     \<and> (ok \<longleftrightarrow> reports = map (\<lambda>s. (s, True)) steps)"

lemma setup_tools_reports:
  "setup_tools pl w ts h = (reports, r, h') \<Longrightarrow> prefix (map fst reports) ts \<and> list_all snd (butlast reports)
    \<and> (r = Inr () \<longleftrightarrow> reports = map (\<lambda>s. (s, True)) ts)"
proof (induction pl w ts h arbitrary: reports r h' rule: setup_tools.induct)
  case (2 pl w t ts h)
  then show ?case
    by (auto split: prod.splits sum.splits)
qed auto

lemma run_setup_reports:
  assumes "run_setup_with_progress pl w sel from_release h = (reports, r, h')"
  shows "progress_of (if from_release then RELEASE_STEPS else SOURCE_STEPS) reports (r = Inr ())"
proof (cases "io_ok w ''create data dir'' \<and> write_config_fails w = None \<and> \<not> from_release")
  case False
  then show ?thesis
    using assms by (auto simp: run_setup_with_progress_def progress_of_def RELEASE_STEPS_def SOURCE_STEPS_def Let_def
        split: if_splits option.splits prod.splits sum.splits)
next
  case True
  define g where "g = h\<lparr>config_toml := Some (to_toml sel)\<rparr>"
  obtain steps q h1 where t: "setup_tools pl w (map tool_name HOST_TOOLS) g = (steps, q, h1)"
    by (cases "setup_tools pl w (map tool_name HOST_TOOLS) g")
  note rep = setup_tools_reports [OF t]
  show ?thesis
  proof (cases q)
    case (Inl e)
    then have "reports = steps" "r = Inl e"
      using assms True t by (simp_all add: run_setup_with_progress_def g_def)
    moreover have "length steps \<le> length (map tool_name HOST_TOOLS)"
      using rep prefix_length_le by fastforce
    ultimately show ?thesis
      using rep True by (auto simp: progress_of_def SOURCE_STEPS_def dest!: arg_cong [where f = length])
  next
    case (Inr u)
    then have steps: "steps = map (\<lambda>s. (s, True)) (map tool_name HOST_TOOLS)"
      using rep by simp
    then have all: "list_all snd steps" "list_all snd (butlast steps)"
      by (auto simp: list_all_iff dest: in_set_butlastD)
    show ?thesis
    proof (cases "repo_root w")
      case False
      then have "reports = steps" "r = Inl NoRepoRoot"
        using assms True t Inr by (simp_all add: run_setup_with_progress_def g_def)
      then show ?thesis
        using steps all True by (auto simp: progress_of_def SOURCE_STEPS_def comp_def dest: arg_cong [where f = length])
    next
      case root: True
      then obtain x where "reports = steps @ [(lit ''build'', x)]" "x = (r = Inr ())"
        using assms True t Inr by (auto simp: run_setup_with_progress_def g_def split: prod.splits)
      then show ?thesis
        using steps all True by (simp add: progress_of_def SOURCE_STEPS_def comp_def)
    qed
  qed
qed

text \<open>After a run whose reports are a prefix, the status list says what was reported and is empty beyond.\<close>

definition status_of :: "bytes list \<Rightarrow> (bytes \<times> bool) list \<Rightarrow> bool option list" where
  "status_of steps reports = map (Some \<circ> snd) reports @ replicate (length steps - length reports) None"

lemma statuses_last:
  assumes "distinct steps" "map fst (old @ reports) = take (length (old @ reports)) steps" "length (old @ reports) \<le> length steps"
  shows "last (statuses steps (status_of steps old) reports) = status_of steps (old @ reports)"
  using assms(2,3)
proof (induction reports arbitrary: old)
  case (Cons x xs)
  obtain n b where x: "x = (n, b)"
    by (cases x)
  let ?i = "length old"
  have i: "?i < length steps"
    using Cons.prems(2) by simp
  have "map fst (old @ x # xs) ! ?i = take (length (old @ x # xs)) steps ! ?i"
    using Cons.prems(1) by simp
  then have "n = steps ! ?i"
    by (simp add: x nth_append)
  then have "position (\<lambda>s. s = n) steps = Some ?i"
    using position_nth [of "\<lambda>s. s" steps ?i] assms(1) i by simp
  then have "report steps (status_of steps old) x = status_of steps (old @ [x])"
    using i by (simp add: x report_def status_of_def list_update_append Suc_diff_Suc [symmetric])
  moreover have "statuses steps (status_of steps (old @ [x])) xs \<noteq> []"
    by (cases xs) simp_all
  ultimately show ?case
    using Cons.IH [of "old @ [x]"] Cons.prems by simp
qed (simp add: status_of_def)

lemma distinct_steps: "distinct SOURCE_STEPS" "distinct RELEASE_STEPS"
  by (simp_all add: SOURCE_STEPS_def RELEASE_STEPS_def HOST_TOOLS_def tool_def)

text \<open>
  C27: The steps that a setup run reports are the first of the announced steps in their order, all
  successful but perhaps the last, and the run succeeds exactly when every announced step was
  reported successful; the last progress page marks each reported step with its outcome and leaves
  the others pending.
\<close>

theorem setup_progress_correct:
  assumes "run_setup_with_progress pl w sel from_release h = (reports, r, h')"
    and "steps = (if from_release then RELEASE_STEPS else SOURCE_STEPS)"
  shows "prefix (map fst reports) steps \<and> list_all snd (butlast reports) \<and> (r = Inr () \<longleftrightarrow> reports = map (\<lambda>s. (s, True)) steps)
    \<and> last (statuses steps (replicate (length steps) None) reports)
      = map (\<lambda>(s, ok). Some ok) reports @ replicate (length steps - length reports) None"
proof -
  have p: "progress_of steps reports (r = Inr ())"
    using run_setup_reports [OF assms(1)] assms(2) by simp
  then have "prefix (map fst reports) steps"
    by (simp add: progress_of_def)
  then have "map fst ([] @ reports) = take (length ([] @ reports)) steps" "length ([] @ reports) \<le> length steps"
    by (auto simp: prefix_def)
  then have "last (statuses steps (status_of steps []) reports) = status_of steps reports"
    using statuses_last [of steps "[]" reports] distinct_steps assms(2) by (simp split: if_splits)
  moreover have "map (Some \<circ> snd) reports = map (\<lambda>(s, ok). Some ok) reports"
    by auto
  ultimately show ?thesis
    using p by (simp add: progress_of_def status_of_def)
qed

theorem setup_progress_correct_witness:
  "last (statuses RELEASE_STEPS [None, None] [(lit ''qemu'', False)]) = [Some False, None]"
proof -
  have "run_setup_with_progress Linux bare_outside default_selection True bare_host
      = ([(lit ''qemu'', False)], Inl (DownloadFailed (lit ''qemu'')), bare_host\<lparr>config_toml := Some (to_toml default_selection)\<rparr>)"
    by (simp add: run_setup_with_progress_def bare_outside_def bare_host_def provision_one_def tool_present_def find_qemu_def
        rung_ladder_def pkg_install_argv_def which_def stage_direct_tool_def direct_spec_def Let_def lit_simps)
  from setup_progress_correct [OF this refl] show ?thesis
    by (simp add: RELEASE_STEPS_def numeral_2_eq_2)
qed

end
