(* ===== verification/Desktop.thy ===== *)
theory Desktop
  imports Gfx Serial Strings
begin

text \<open>
  The applications under \<open>src/kernel/src\<close> (the text buffer of \<open>editor.rs\<close>, \<open>explorer.rs\<close>, \<open>dock.rs\<close>,
  \<open>theme.rs\<close> and the keyword classifier of \<open>ai.rs\<close>) and the desktop that \<open>kernel_main\<close> draws with the
  canvas and the compositor.
\<close>

section \<open>Editor\<close>

definition EDIT_CAP :: nat where
  "EDIT_CAP = 256"

record TextBuffer =
  tb_buf :: bytes

definition text_new :: TextBuffer where
  "text_new = \<lparr>tb_buf = []\<rparr>"

definition text_insert :: "nat \<Rightarrow> u8 \<Rightarrow> TextBuffer \<Rightarrow> bool \<times> TextBuffer" where
  "text_insert at c b =
     (if at \<le> length (tb_buf b) \<and> length (tb_buf b) < EDIT_CAP
      then (True, b\<lparr>tb_buf := take at (tb_buf b) @ c # drop at (tb_buf b)\<rparr>) else (False, b))"

definition text_backspace :: "nat \<Rightarrow> TextBuffer \<Rightarrow> u8 option \<times> TextBuffer" where
  "text_backspace at b =
     (if at > 0 \<and> at \<le> length (tb_buf b)
      then (Some (tb_buf b ! (at - 1)), b\<lparr>tb_buf := take (at - 1) (tb_buf b) @ drop at (tb_buf b)\<rparr>) else (None, b))"

fun text_put :: "bytes \<Rightarrow> TextBuffer \<Rightarrow> nat \<times> TextBuffer" where
  "text_put [] b = (0, b)"
| "text_put (c # s) b =
     (case text_insert (length (tb_buf b)) c b of
        (True, b') \<Rightarrow> (case text_put s b' of (n, b'') \<Rightarrow> (Suc n, b''))
      | (False, b') \<Rightarrow> (0, b'))"

section \<open>Explorer\<close>

definition dir_lines :: "bytes list \<Rightarrow> nat \<Rightarrow> bytes list" where
  "dir_lines names n = map (\<lambda>nm. lit ''  '' @ nm) (take n names)"

definition visible_count :: "nat \<Rightarrow> nat \<Rightarrow> nat" where
  "visible_count files height = min files height"

section \<open>Dock\<close>

definition APPS :: "bytes list" where
  "APPS = [lit ''explorer'', lit ''editor'', lit ''themex'', lit ''ai'']"

definition app_count :: nat where
  "app_count = length APPS"

definition app_name :: "nat \<Rightarrow> bytes option" where
  "app_name i = (if i < length APPS then Some (APPS ! i) else None)"

definition draw_dock :: "u64 \<Rightarrow> u32 \<Rightarrow> u32 \<Rightarrow> Canvas \<Rightarrow> Canvas outcome" where
  "draw_dock height bg accent c =
     (let w = cv_width c;
          y0 = saturating_sub (cv_height c) height
      in case fill_rect 0 y0 w height bg c of Panics \<Rightarrow> Panics | Returns c \<Rightarrow>
         let n = max (word_of_nat app_count) 1;
             step = w div n
         in for_each (\<lambda>i. fill_rect (word_of_nat i * step) (y0 + 2) (saturating_sub step 2) (saturating_sub height 4) accent)
              [0..<app_count] c)"

section \<open>Themes\<close>

record Theme =
  th_name :: bytes
  th_bg :: u32
  th_fg :: u32
  th_accent :: u32
  th_border :: u32

definition theme_light :: Theme where
  "theme_light = \<lparr>th_name = lit ''light'', th_bg = 0xF0F0F0, th_fg = 0x101010, th_accent = 0x0044FF, th_border = 0x888888\<rparr>"

definition theme_dark :: Theme where
  "theme_dark = \<lparr>th_name = lit ''dark'', th_bg = 0x101014, th_fg = 0xE0E0E0, th_accent = 0xFFAA00, th_border = 0x444444\<rparr>"

definition recolor :: "Theme \<Rightarrow> Window list \<Rightarrow> nat \<Rightarrow> Window list" where
  "recolor t windows focused =
     map (\<lambda>(i, w). w\<lparr>wcolor := (if i = focused then th_accent t else th_fg t)\<rparr>) (enumerate 0 windows)"

section \<open>Assistant\<close>

text \<open>The comparison of one position, byte by byte.\<close>

fun matches_here :: "bytes \<Rightarrow> bytes \<Rightarrow> bool" where
  "matches_here hb [] = True"
| "matches_here [] (n # nb) = False"
| "matches_here (h # hb) (n # nb) = (to_ascii_lower h = to_ascii_lower n \<and> matches_here hb nb)"

definition ci_contains :: "bytes \<Rightarrow> bytes \<Rightarrow> bool" where
  "ci_contains hay needle =
     (if needle = [] then True
      else if length needle > length hay then False
      else list_ex (\<lambda>i. matches_here (drop i hay) needle) [0..<length hay - length needle + 1])"

definition answer :: "bytes \<Rightarrow> bytes" where
  "answer prompt =
     (if trim prompt = [] then lit ''LionOS AI: no input''
      else if ci_contains prompt (lit ''hello'') \<or> ci_contains prompt (lit ''hi'') then lit ''LionOS AI ready''
      else if ci_contains prompt (lit ''help'') then lit ''LionOS AI: explorer/editor/themes are on the dock''
      else if ci_contains prompt (lit ''time'') then lit ''LionOS AI: ask the CMOS RTC via the drivers''
      else if ci_contains prompt (lit ''weather'') then lit ''LionOS AI: (simulated) no network here''
      else lit ''LionOS AI: (simulated) canned replies only'')"

section \<open>The desktop\<close>

text \<open>The digits are written from the end of a buffer of twelve bytes.\<close>

function dec_ascii_loop :: "u32 \<Rightarrow> nat \<Rightarrow> bytes \<Rightarrow> nat \<times> bytes" where
  "dec_ascii_loop n i buf =
     (if n > 0 \<and> i > 0 then dec_ascii_loop (n div 10) (i - 1) (buf[i - 1 := 48 + ucast (n mod 10)]) else (i, buf))"
  by auto
termination
  by (relation "measure (\<lambda>(n, i, buf). i)") auto

declare dec_ascii_loop.simps [simp del]

definition dec_ascii :: "u32 \<Rightarrow> bytes" where
  "dec_ascii n =
     (let buf = replicate 12 0;
          (i, buf) = (if n = 0 then (11, buf[11 := 48]) else dec_ascii_loop n 12 buf)
      in drop i buf)"

definition cps :: "bytes \<Rightarrow> codepoints" where
  "cps s = map ucast s"

definition desktop_windows :: "Window list" where
  "desktop_windows =
     [\<lparr>wx = 80, wy = 60, ww = 360, wh = 260, wcolor = 0x00ff80\<rparr>,
      \<lparr>wx = 300, wy = 140, ww = 320, wh = 220, wcolor = 0x0044ff\<rparr>]"

definition dock_button :: "u64 \<Rightarrow> nat \<times> u32 \<times> string \<Rightarrow> draw_call list" where
  "dock_button bar_y = (\<lambda>(i, color, name).
     let x = 16 + word_of_nat i * 64;
         lx = x + (48 - 2 * word_of_nat GLYPH_W) div 2;
         ly = bar_y + 8 + (32 - 2 * word_of_nat GLYPH_H) div 2
     in [FillBox x (bar_y + 8) 48 32 color, TextAA lx ly (cps (lit name)) 0x101418 2])"

text \<open>The drawing calls of the desktop in their order, up to the preview panel; \<open>fw\<close> and \<open>fh\<close> are the size.\<close>

definition desktop_calls :: "u32 \<Rightarrow> u64 \<Rightarrow> u64 \<Rightarrow> draw_call list" where
  "desktop_calls ticks fw fh =
     (let bar_h = 48;
          bar_y = fh - bar_h;
          tick_s = dec_ascii ticks;
          clock_w = (2 + word_of_nat (length tick_s)) * 2 * (word_of_nat GLYPH_W + 1);
          clock_x = saturating_sub fw (clock_w + 16);
          clock_y = bar_y + (bar_h - 2 * word_of_nat GLYPH_H) div 2
      in [FillBox 40 40 32 32 0x0000ff, Wallpaper ticks, FillBox 0 bar_y fw bar_h 0x101418, FillBox 0 bar_y fw 1 0x2a3238]
         @ concat (map (dock_button bar_y) (enumerate 0 [(0x00ff80, ''T''), (0x0044ff, ''F''), (0xffaa00, ''C''), (0xcc3366, ''N'')]))
         @ [TextAA clock_x clock_y (cps (lit ''T+'')) 0xffffff 2,
            TextAA (clock_x + 2 * 2 * (word_of_nat GLYPH_W + 1)) clock_y (cps tick_s) 0xffffff 2,
            Scene desktop_windows,
            Decorate (desktop_windows ! 0) (cps (lit ''Terminal'')) 0xffffff 0x0d2f1f,
            Decorate (desktop_windows ! 1) (cps (lit ''Files'')) 0xffffff 0x0e2b4d])"

text \<open>
  The whole drawing on the boot loader's framebuffer: the window under the point (400, 200), the
  bytes copied by the preview panel, and the canvas.
\<close>

definition draw_desktop :: "u32 \<Rightarrow> u64 \<Rightarrow> u64 \<Rightarrow> Canvas \<Rightarrow> (nat option \<times> u64 option \<times> Canvas) outcome" where
  "draw_desktop ticks fw fh front =
     (case for_each draw_call_run (desktop_calls ticks fw fh) front of Panics \<Rightarrow> Panics | Returns front \<Rightarrow>
      let focused = focus desktop_windows 400 200 in
      case back_buffer_new 96 64 3 of
        None \<Rightarrow> Returns (focused, None, front)
      | Some back \<Rightarrow>
          (case wallpaper_drift ticks back of Panics \<Rightarrow> Panics | Returns back \<Rightarrow>
           case blit_from back 96 64 (fw - 112) (fh - 48 - 80) front of Panics \<Rightarrow> Panics
           | Returns (copied, front) \<Rightarrow> Returns (focused, Some copied, front)))"

text \<open>The canvas over the framebuffer bytes: pitch and length as \<open>kernel_main\<close> computes them.\<close>

definition desktop :: "u32 \<Rightarrow> u64 \<Rightarrow> u64 \<Rightarrow> u64 \<Rightarrow> u64 \<Rightarrow> bytes \<Rightarrow> (nat option \<times> u64 option \<times> Canvas) option outcome" where
  "desktop ticks fw fh stride fbpp fb_slice =
     (case canvas_new fb_slice fw fh (saturating_mul stride fbpp) fbpp of
        None \<Rightarrow> Returns None
      | Some front \<Rightarrow> (case draw_desktop ticks fw fh front of Panics \<Rightarrow> Panics | Returns r \<Rightarrow> Returns (Some r)))"

section \<open>The editor's buffer\<close>

lemma text_put_eq:
  assumes "length (tb_buf b) \<le> EDIT_CAP"
  shows "text_put s b = (min (length s) (EDIT_CAP - length (tb_buf b)), b\<lparr>tb_buf := tb_buf b @ take (EDIT_CAP - length (tb_buf b)) s\<rparr>)"
  using assms
proof (induction s arbitrary: b)
  case (Cons c s)
  show ?case
  proof (cases "length (tb_buf b) < EDIT_CAP")
    case True
    then have "EDIT_CAP - length (tb_buf b) = Suc (EDIT_CAP - length (tb_buf b @ [c]))"
      by simp
    then show ?thesis
      using True Cons.IH [of "b\<lparr>tb_buf := tb_buf b @ [c]\<rparr>"] by (simp add: text_insert_def)
  next
    case False
    then show ?thesis
      using Cons.prems by (simp add: text_insert_def)
  qed
qed simp

lemma insert_backspace:
  assumes "text_insert at c b = (True, b')"
  shows "text_backspace (Suc at) b' = (Some c, b)"
  using assms by (auto simp: text_insert_def text_backspace_def nth_append split: if_splits)

text \<open>The edits a client makes.\<close>

datatype edit = Insert nat u8 | Backspace nat | Put bytes

fun edit_run :: "edit \<Rightarrow> TextBuffer \<Rightarrow> TextBuffer" where
  "edit_run (Insert at c) b = snd (text_insert at c b)"
| "edit_run (Backspace at) b = snd (text_backspace at b)"
| "edit_run (Put s) b = snd (text_put s b)"

lemma edit_run_bound: "length (tb_buf b) \<le> EDIT_CAP \<Longrightarrow> length (tb_buf (edit_run e b)) \<le> EDIT_CAP"
  by (cases e) (auto simp: text_insert_def text_backspace_def text_put_eq)

text \<open>
  C29: However it is edited, the text buffer never exceeds its capacity; an append stores exactly
  the part of its argument that fits and says how much that was; and a byte that was inserted is
  what the backspace behind it removes, restoring the buffer.
\<close>

theorem editor_buffer_bounded:
  assumes "b = foldl (\<lambda>b e. edit_run e b) text_new es"
  shows "length (tb_buf b) \<le> EDIT_CAP
    \<and> text_put s b = (min (length s) (EDIT_CAP - length (tb_buf b)), b\<lparr>tb_buf := tb_buf b @ take (EDIT_CAP - length (tb_buf b)) s\<rparr>)
    \<and> (\<forall>at c b'. text_insert at c b = (True, b') \<longrightarrow> text_backspace (Suc at) b' = (Some c, b))"
proof -
  have "length (tb_buf b0) \<le> EDIT_CAP \<Longrightarrow> length (tb_buf (foldl (\<lambda>b e. edit_run e b) b0 es)) \<le> EDIT_CAP" for b0
    by (induction es arbitrary: b0) (simp_all add: edit_run_bound)
  then have "length (tb_buf b) \<le> EDIT_CAP"
    unfolding assms by (simp add: text_new_def)
  then show ?thesis
    using text_put_eq insert_backspace by blast
qed

theorem editor_buffer_bounded_witness:
  "text_put [1, 2] (edit_run (Backspace 2) (edit_run (Put [7, 8]) text_new)) = (2, \<lparr>tb_buf = [7, 1, 2]\<rparr>)"
  using editor_buffer_bounded [of _ "[Put [7, 8], Backspace 2]", OF refl, of "[1, 2]"]
  by (simp add: text_new_def text_backspace_def text_insert_def EDIT_CAP_def)

section \<open>Matching\<close>

lemma matches_here_iff:
  "matches_here hb nb \<longleftrightarrow> length nb \<le> length hb \<and> map to_ascii_lower (take (length nb) hb) = map to_ascii_lower nb"
  by (induction hb nb rule: matches_here.induct) auto

text \<open>
  The assistant's search finds a keyword exactly when some stretch of the prompt is the keyword
  up to the case of ASCII letters.
\<close>

lemma ci_contains_correct:
  "ci_contains hay needle \<longleftrightarrow> (\<exists>pre mid post. hay = pre @ mid @ post \<and> map to_ascii_lower mid = map to_ascii_lower needle)"
proof (cases "needle = [] \<or> length hay < length needle")
  case True
  then show ?thesis
    by (auto simp: ci_contains_def dest!: map_eq_imp_length_eq)
next
  case False
  then have "ci_contains hay needle \<longleftrightarrow> (\<exists>i. i \<le> length hay - length needle \<and> matches_here (drop i hay) needle)"
    by (simp add: ci_contains_def list_ex_iff Bex_def less_Suc_eq_le del: upt_Suc)
  also have "\<dots> \<longleftrightarrow> (\<exists>pre mid post. hay = pre @ mid @ post \<and> map to_ascii_lower mid = map to_ascii_lower needle)"
  proof
    assume "\<exists>i. i \<le> length hay - length needle \<and> matches_here (drop i hay) needle"
    then obtain i where "matches_here (drop i hay) needle"
      by blast
    then have "hay = take i hay @ take (length needle) (drop i hay) @ drop (length needle) (drop i hay)"
      "map to_ascii_lower (take (length needle) (drop i hay)) = map to_ascii_lower needle"
      by (simp_all add: matches_here_iff del: drop_drop)
    then show "\<exists>pre mid post. hay = pre @ mid @ post \<and> map to_ascii_lower mid = map to_ascii_lower needle"
      by blast
  next
    assume "\<exists>pre mid post. hay = pre @ mid @ post \<and> map to_ascii_lower mid = map to_ascii_lower needle"
    then obtain pre mid post where h: "hay = pre @ mid @ post" "map to_ascii_lower mid = map to_ascii_lower needle"
      by blast
    then have "length mid = length needle"
      using map_eq_imp_length_eq by blast
    then have "length pre \<le> length hay - length needle" "matches_here (drop (length pre) hay) needle"
      using h by (simp_all add: matches_here_iff)
    then show "\<exists>i. i \<le> length hay - length needle \<and> matches_here (drop i hay) needle"
      by blast
  qed
  finally show ?thesis .
qed

section \<open>Drawing\<close>

lemma safe_draw_dock: "safe_op (draw_dock height bg accent)"
proof (rule safe_opI)
  fix c
  assume ok: "canvas_ok c"
  let ?y = "saturating_sub (cv_height c) height" and ?s = "cv_width c div max (word_of_nat app_count) 1"
  have "safe_op (\<lambda>d. case fill_rect 0 ?y (cv_width c) height bg d of Panics \<Rightarrow> Panics | Returns d \<Rightarrow>
      for_each (\<lambda>i. fill_rect (word_of_nat i * ?s) (?y + 2) (saturating_sub ?s 2) (saturating_sub height 4) accent) [0..<app_count] d)"
    by (intro safe_seq safe_for_each safe_fill_rect)
  then show "\<exists>c'. draw_dock height bg accent c = Returns c' \<and> touched c c'"
    using ok unfolding safe_op_def draw_dock_def Let_def by simp
qed

lemma desktop_focus: "focus desktop_windows 400 200 = Some 1"
  by (simp add: focus_def desktop_windows_def covers_def)

lemma desktop_calls_ok: "d \<in> set (desktop_calls ticks fw fh) \<Longrightarrow> call_ok d"
  by (auto simp: desktop_calls_def Let_def dock_button_def)

lemma back_buffer_96: "\<exists>bb. back_buffer_new 96 64 3 = Some bb \<and> canvas_ok bb"
proof -
  have "back_buffer_new 96 64 3 = canvas_new (replicate 18432 0) 96 64 288 3"
    by (simp add: back_buffer_new_def checked_mul_def)
  moreover obtain bb where "canvas_new (replicate 18432 0) 96 64 288 3 = Some bb"
    by (simp add: canvas_new_def checked_mul_def)
  ultimately show ?thesis
    using canvas_new_ok [of "replicate 18432 0" 96 64 288 3 bb] by auto
qed

lemma draw_desktop_ok:
  assumes "canvas_ok c"
  shows "\<exists>n c'. draw_desktop ticks fw fh c = Returns (Some 1, Some n, c') \<and> touched c c'"
proof -
  have "safe_op (for_each draw_call_run (desktop_calls ticks fw fh))"
    by (intro safe_for_each safe_draw_call desktop_calls_ok)
  then obtain c1 where c1: "for_each draw_call_run (desktop_calls ticks fw fh) c = Returns c1" "touched c c1" "canvas_ok c1"
    using safe_opD assms by blast
  obtain bb where bb: "back_buffer_new 96 64 3 = Some bb" "canvas_ok bb"
    using back_buffer_96 by blast
  then obtain b1 where b1: "wallpaper_drift ticks bb = Returns b1" "canvas_ok b1"
    using safe_opD [OF safe_fills(3)] by blast
  obtain c2 where c2: "(case blit_from b1 96 64 (fw - 112) (fh - 48 - 80) c1 of Panics \<Rightarrow> Panics | Returns (_, c) \<Rightarrow> Returns c) = Returns c2" "touched c1 c2"
    using safe_opD [OF safe_blit [OF b1(2)] c1(3)] by blast
  then obtain n where n: "blit_from b1 96 64 (fw - 112) (fh - 48 - 80) c1 = Returns (n, c2)"
    by (auto split: outcome.splits prod.splits)
  then have "draw_desktop ticks fw fh c = Returns (Some 1, Some n, c2)"
    by (simp add: draw_desktop_def c1(1) bb(1) b1(1) desktop_focus)
  then show ?thesis
    using touched_trans [OF c1(2) c2(2)] by blast
qed

text \<open>
  On every framebuffer the canvas accepts with at most four bytes per pixel, of any size, even
  one too small for the taskbar and the windows, the whole desktop is drawn without a panic: input
  at (400, 200) is routed to the upper window, the preview panel is presented, the geometry is kept
  and no byte outside the visible pixels changes.
\<close>

lemma desktop_safe:
  assumes "canvas_new fb fw fh (saturating_mul stride fbpp) fbpp = Some front" "unat fbpp \<le> 4" "length fb < 2 ^ 63"
  shows "\<exists>n c'. desktop ticks fw fh stride fbpp fb = Returns (Some (Some 1, Some n, c'))
    \<and> length (cv_buf c') = length fb \<and> cv_width c' = fw \<and> cv_height c' = fh
    \<and> (\<forall>k<length fb. \<not> in_pixel front k \<longrightarrow> cv_buf c' ! k = fb ! k)"
proof -
  have ok: "canvas_ok front" "cv_buf front = fb"
    using canvas_new_ok [OF assms] by simp_all
  have g: "cv_width front = fw" "cv_height front = fh"
    using assms(1) by (auto simp: canvas_new_def split: if_splits)
  obtain n c' where "draw_desktop ticks fw fh front = Returns (Some 1, Some n, c')" "touched front c'"
    using draw_desktop_ok [OF ok(1)] by blast
  then show ?thesis
    using ok g by (auto simp: desktop_def assms(1) touched_def same_shape_def)
qed

lemma desktop_safe_witness:
  "\<exists>n c'. desktop 7 2 2 4 4 (replicate 32 0) = Returns (Some (Some 1, Some n, c')) \<and> cv_buf c' ! 9 = 0"
proof -
  obtain front where f: "canvas_new (replicate 32 0) 2 2 (saturating_mul 4 4) 4 = Some front"
    by (simp add: canvas_new_def checked_mul_def saturating_mul_def)
  then have g: "cv_width front = 2" "cv_height front = 2" "cv_pitch front = 16" "cv_bpp front = 4"
    by (auto simp: canvas_new_def checked_mul_def saturating_mul_def)
  have "\<not> in_pixel front 9"
  proof
    assume "in_pixel front 9"
    then obtain i j where "i < 2" "j < (2 :: nat)" "j * 16 + i * 4 \<le> 9" "9 < j * 16 + i * 4 + 4"
      by (auto simp: in_pixel_def pixel_at_def g)
    then show False
      by arith
  qed
  then show ?thesis
    using desktop_safe [OF f, of 7] by fastforce
qed

lemma recolor_focus: "focus (recolor t ws k) x y = focus ws x y"
proof -
  have "covers (recolor t ws k ! i) x y = covers (ws ! i) x y" if "i < length ws" for i
    using that by (simp add: recolor_def covers_def nth_enumerate_eq)
  then have "find (\<lambda>i. covers (recolor t ws k ! i) x y) (rev [0..<length ws]) = find (\<lambda>i. covers (ws ! i) x y) (rev [0..<length ws])"
    by (intro find_cong) auto
  then show ?thesis
    by (simp add: focus_def recolor_def)
qed



section \<open>The clock's digits\<close>

lemma dec_ascii_loop_digits:
  assumes "unat n < 10 ^ i" "i \<le> length buf"
  shows "\<exists>k buf'. dec_ascii_loop n i buf = (k, buf') \<and> k \<le> i \<and> length buf' = length buf
    \<and> take (i - k) (drop k buf') = dec_digits (unat n) \<and> drop i buf' = drop i buf"
  using assms
proof (induction n i buf rule: dec_ascii_loop.induct)
  case (1 n i buf)
  show ?case
  proof (cases "n = 0")
    case True
    then show ?thesis
      by (simp add: dec_ascii_loop.simps)
  next
    case False
    then have i: "0 < i"
      using "1.prems" by (cases i) (auto simp: unat_eq_0)
    let ?d = "48 + ucast (n mod 10) :: u8" and ?b = "buf[i - 1 := 48 + ucast (n mod 10)]"
    have lt: "unat (n div 10) < 10 ^ (i - 1)"
      using "1.prems"(1) i by (cases i) (simp_all add: unat_div less_mult_imp_div_less mult.commute)
    obtain k b where kb: "dec_ascii_loop (n div 10) (i - 1) ?b = (k, b)" "k \<le> i - 1" "length b = length buf"
        "take (i - 1 - k) (drop k b) = dec_digits (unat (n div 10))" "drop (i - 1) b = drop (i - 1) ?b"
      using "1.IH" [OF _ lt] False i "1.prems"(2) by (fastforce simp: word_gt_0)
    have "unat (n mod 10) < 10"
      by (simp add: unat_mod)
    then have d: "?d = word_of_nat (48 + unat n mod 10)"
      by (simp add: word_eq_iff_unsigned [where ?'a = nat] unat_add_small unat_ucast_mod unat_of_nat_small unat_mod)
    have "drop (i - 1) b = ?d # drop i buf"
      using kb(5) i "1.prems"(2) by (simp add: drop_update_swap Cons_nth_drop_Suc [symmetric])
    then have tl: "drop i b = drop i buf" and at: "b ! (i - 1) = ?d"
      using i kb(3) "1.prems"(2) by (metis Suc_diff_1 drop_Suc list.sel(3) tl_drop, metis hd_drop_conv_nth diff_less less_le_trans list.sel(1) zero_less_one)
    have "take (i - k) (drop k b) = take (i - 1 - k) (drop k b) @ [b ! (i - 1)]"
      using kb(2,3) i "1.prems"(2) take_Suc_conv_app_nth [of "i - 1 - k" "drop k b"] by (simp add: Suc_diff_Suc)
    then show ?thesis
      using kb False i tl at d dec_digits.simps [of "unat n"]
      by (subst dec_ascii_loop.simps) (auto simp: word_gt_0 unat_div unat_eq_0)
  qed
qed

lemma dec_ascii_value: "digits_value 10 (\<lambda>d. unat d - 48) (dec_ascii n) = unat n"
proof (cases "n = 0")
  case True
  then show ?thesis
    by (simp add: dec_ascii_def digits_value_def drop_update_swap)
next
  case False
  have "unat n < 10 ^ 12"
    using unat_bound [of n] by simp
  then obtain k b where kb: "dec_ascii_loop n 12 (replicate 12 0) = (k, b)" "length b = 12" "take (12 - k) (drop k b) = dec_digits (unat n)"
    using dec_ascii_loop_digits [of n 12 "replicate 12 0"] by auto
  then have "dec_ascii n = dec_digits (unat n)"
    using False by (simp add: dec_ascii_def)
  then show ?thesis
    by (simp add: dec_digits_value)
qed

end
