(* ===== verification/Byte_Memory.thy ===== *)
theory Byte_Memory
  imports Lion_Prelude
begin

text \<open>
  Byte-addressed memory: loads and stores of byte strings and of little-endian values at 64-bit
  addresses, and what a load finds after a store.  The virtio driver, the routines in C and the
  assembly use it.
\<close>

section \<open>Loads and stores\<close>

definition put_bytes :: "u64 \<Rightarrow> bytes \<Rightarrow> (u64 \<Rightarrow> u8) \<Rightarrow> u64 \<Rightarrow> u8" where
  "put_bytes p bs m = (\<lambda>a. if unat (a - p) < length bs then bs ! unat (a - p) else m a)"

definition get_bytes :: "u64 \<Rightarrow> nat \<Rightarrow> (u64 \<Rightarrow> u8) \<Rightarrow> bytes" where
  "get_bytes p n m = map (\<lambda>k. m (p + word_of_nat k)) [0..<n]"

definition get16 :: "u64 \<Rightarrow> (u64 \<Rightarrow> u8) \<Rightarrow> u16" where
  "get16 p m = le16 (get_bytes p 2 m) 0"

definition get32 :: "u64 \<Rightarrow> (u64 \<Rightarrow> u8) \<Rightarrow> u32" where
  "get32 p m = le32 (get_bytes p 4 m) 0"

definition get64 :: "u64 \<Rightarrow> (u64 \<Rightarrow> u8) \<Rightarrow> u64" where
  "get64 p m = le64 (get_bytes p 8 m) 0"

section \<open>A load after a store\<close>

lemma unat_offset:
  "unat (p :: u64) + k < 2 ^ 64 \<Longrightarrow> unat (p + word_of_nat k) = unat p + k"
  by (simp add: unat_add_small unat_of_nat_small)

lemma put_bytes_at:
  assumes "unat p + length bs \<le> 2 ^ 64" "unat q + k < 2 ^ 64"
  shows "put_bytes p bs m (q + word_of_nat k) =
    (if unat p \<le> unat q + k \<and> unat q + k < unat p + length bs then bs ! (unat q + k - unat p) else m (q + word_of_nat k))"
proof (cases "p \<le> q + word_of_nat k")
  case True
  then have "unat (q + word_of_nat k - p) = unat q + k - unat p" "unat p \<le> unat q + k"
    using assms(2) by (simp_all add: unat_sub_le unat_offset word_le_nat_alt)
  then show ?thesis
    by (auto simp: put_bytes_def)
next
  case False
  then have lt: "unat q + k < unat p"
    using assms(2) by (simp add: word_le_nat_alt unat_offset)
  then have "\<not> unat (q + word_of_nat k - p) < length bs"
  proof -
    have "unat (q + word_of_nat k - p) = 2 ^ 64 + (unat q + k) - unat p"
      using lt assms(2) unat_bound [of p] by (simp add: unat_sub_if' unat_offset)
    then show ?thesis
      using assms(1) by simp
  qed
  then show ?thesis
    using lt by (simp add: put_bytes_def)
qed

lemma get_put_same [simp]:
  assumes "unat p + length bs \<le> 2 ^ 64"
  shows "get_bytes p (length bs) (put_bytes p bs m) = bs"
  using assms by (intro nth_equalityI) (simp_all add: get_bytes_def put_bytes_at)

lemma get_put_other:
  assumes "unat p + length bs \<le> 2 ^ 64" "unat q + n \<le> 2 ^ 64" "unat p + length bs \<le> unat q \<or> unat q + n \<le> unat p"
  shows "get_bytes q n (put_bytes p bs m) = get_bytes q n m"
  using assms by (auto simp: get_bytes_def put_bytes_at)

lemma get_put_n:
  assumes "unat p + length bs \<le> 2 ^ 64" "n = length bs"
  shows "get_bytes p n (put_bytes p bs m) = bs"
  using assms get_put_same by simp

section \<open>Byte strings one byte at a time\<close>

lemma get_bytes_Suc: "get_bytes s (Suc n) m = m s # get_bytes (s + 1) n m"
  by (intro nth_equalityI) (auto simp: get_bytes_def nth_Cons algebra_simps split: nat.split simp del: upt_Suc)

lemma get_bytes_snoc: "get_bytes s (Suc n) m = get_bytes s n m @ [m (s + word_of_nat n)]"
  by (simp add: get_bytes_def)

lemma length_get_bytes [simp]: "length (get_bytes s n m) = n"
  by (simp add: get_bytes_def)

lemma get_bytes_upd:
  "(\<And>k. k < n \<Longrightarrow> s + word_of_nat k \<noteq> d) \<Longrightarrow> get_bytes s n (m(d := b)) = get_bytes s n m"
  by (auto simp: get_bytes_def)

lemma put_bytes_Nil [simp]: "put_bytes p [] m = m"
  by (simp add: put_bytes_def)

lemma unat_word_pred: "(x :: u64) \<noteq> 0 \<Longrightarrow> unat x = Suc (unat (x - 1))"
  by (simp add: unat_minus_one unat_gt_0)

lemma put_bytes_Cons:
  assumes "length bs < 2 ^ 64"
  shows "put_bytes p (b # bs) m = put_bytes (p + 1) bs (m(p := b))"
proof
  fix a
  have *: "a - (p + 1) = a - p - 1"
    by simp
  have "unat (- 1 :: u64) = 2 ^ 64 - 1"
    by (simp add: unsigned_minus_1_eq_mask mask_eq_exp_minus_1)
  then show "put_bytes p (b # bs) m a = put_bytes (p + 1) bs (m(p := b)) a"
    using assms unat_word_pred [of "a - p"] unfolding put_bytes_def *
    by (cases "a = p") simp_all
qed

lemma put_bytes_snoc:
  assumes "length bs < 2 ^ 64"
  shows "put_bytes p (bs @ [b]) m = put_bytes p bs (m(p + word_of_nat (length bs) := b))"
proof
  fix a
  have at: "unat (a - p) = length bs \<longleftrightarrow> a = p + word_of_nat (length bs)"
  proof
    assume "unat (a - p) = length bs"
    then have "a - p = word_of_nat (length bs)"
      by (metis of_nat_unat ucast_id)
    then show "a = p + word_of_nat (length bs)"
      by (simp add: algebra_simps)
  qed (use assms in \<open>simp add: unat_of_nat_small\<close>)
  show "put_bytes p (bs @ [b]) m a = put_bytes p bs (m(p + word_of_nat (length bs) := b)) a"
  proof (cases "a = p + word_of_nat (length bs)")
    case True
    then have "unat (a - p) = length bs"
      using at by simp
    then show ?thesis
      using True by (simp add: put_bytes_def)
  next
    case False
    then have "unat (a - p) \<noteq> length bs"
      using at by simp
    then show ?thesis
      using False by (auto simp: put_bytes_def nth_append)
  qed
qed

end
