(* ===== verification/Virtio.thy ===== *)
theory Virtio
  imports Devices Frames Fat_Fs Byte_Memory
begin

text \<open>
  The virtio block driver (\<open>src/kernel/src/drivers/virtio_blk.rs\<close>) with the memory-mapped access
  functions of \<open>mmio.rs\<close>.  The machine is physical memory, reached through the window, and a device:
  what its registers answer, what a register write does to the machine and what the device does
  to it between two looks of the driver are parameters, because the device is not code of the
  repository.
\<close>

section \<open>Memory and registers\<close>

record 'd vworld =
  vmem :: "u64 \<Rightarrow> u8"
  vdev :: 'd
  vframes :: FrameAllocator
  window_live :: bool
  vlog :: "serial_call list"

record 'd vdevice =
  mm_rd8 :: "u64 \<Rightarrow> 'd \<Rightarrow> u8"
  mm_rd16 :: "u64 \<Rightarrow> 'd \<Rightarrow> u16"
  mm_rd32 :: "u64 \<Rightarrow> 'd \<Rightarrow> u32"
  mm_wr8 :: "u64 \<Rightarrow> u8 \<Rightarrow> 'd vworld \<Rightarrow> 'd vworld"
  mm_wr16 :: "u64 \<Rightarrow> u16 \<Rightarrow> 'd vworld \<Rightarrow> 'd vworld"
  mm_wr32 :: "u64 \<Rightarrow> u32 \<Rightarrow> 'd vworld \<Rightarrow> 'd vworld"
  dev_step :: "'d vworld \<Rightarrow> 'd vworld"

definition mmio_read8 :: "'d vdevice \<Rightarrow> u64 \<Rightarrow> 'd vworld \<Rightarrow> u8" where
  "mmio_read8 p phys w = (if \<not> window_live w then 0 else mm_rd8 p phys (vdev w))"

definition mmio_read16 :: "'d vdevice \<Rightarrow> u64 \<Rightarrow> 'd vworld \<Rightarrow> u16" where
  "mmio_read16 p phys w = (if \<not> window_live w then 0 else mm_rd16 p phys (vdev w))"

definition mmio_read32 :: "'d vdevice \<Rightarrow> u64 \<Rightarrow> 'd vworld \<Rightarrow> u32" where
  "mmio_read32 p phys w = (if \<not> window_live w then 0 else mm_rd32 p phys (vdev w))"

definition mmio_write8 :: "'d vdevice \<Rightarrow> u64 \<Rightarrow> u8 \<Rightarrow> 'd vworld \<Rightarrow> 'd vworld" where
  "mmio_write8 p phys v w = (if \<not> window_live w then w else mm_wr8 p phys v w)"

definition mmio_write16 :: "'d vdevice \<Rightarrow> u64 \<Rightarrow> u16 \<Rightarrow> 'd vworld \<Rightarrow> 'd vworld" where
  "mmio_write16 p phys v w = (if \<not> window_live w then w else mm_wr16 p phys v w)"

definition mmio_write32 :: "'d vdevice \<Rightarrow> u64 \<Rightarrow> u32 \<Rightarrow> 'd vworld \<Rightarrow> 'd vworld" where
  "mmio_write32 p phys v w = (if \<not> window_live w then w else mm_wr32 p phys v w)"

section \<open>Identification and capabilities\<close>

definition VIRTIO_VENDOR :: u16 where
  "VIRTIO_VENDOR = 0x1AF4"

definition VIRTIO_BLK_MODERN :: u16 where
  "VIRTIO_BLK_MODERN = 0x1041"

definition VIRTIO_BLK_LEGACY :: u16 where
  "VIRTIO_BLK_LEGACY = 0x1001"

definition is_virtio_blk :: "u16 \<Rightarrow> u16 \<Rightarrow> u8 \<Rightarrow> bool" where
  "is_virtio_blk vendor device class_code \<longleftrightarrow>
     vendor = VIRTIO_VENDOR \<and> (device = VIRTIO_BLK_MODERN \<or> device = VIRTIO_BLK_LEGACY) \<and> class_code = 0x01"

definition cfg8 :: "(u32 \<Rightarrow> u32) \<Rightarrow> PciDevice \<Rightarrow> u8 \<Rightarrow> u8" where
  "cfg8 port d off =
     (let w = config_read port (pci_bus d) (pci_slot d) (pci_func d) (off AND 0xFC)
      in ucast (drop_bit (8 * unat (off AND 3)) w AND 0xFF))"

definition cfg32 :: "(u32 \<Rightarrow> u32) \<Rightarrow> PciDevice \<Rightarrow> u8 \<Rightarrow> u32" where
  "cfg32 port d off = foldl (\<lambda>v i. v OR push_bit (8 * i) (ucast (cfg8 port d (off + word_of_nat i)))) 0 [0..<4]"

type_synonym virtio_caps = "u64 \<times> u64 \<times> u32 \<times> u64"

definition cap_found :: "(u32 \<Rightarrow> u32) \<Rightarrow> PciDevice \<Rightarrow> u8 \<Rightarrow> virtio_caps \<Rightarrow> virtio_caps" where
  "cap_found port d cp = (\<lambda>(common, ntf, mlt, devcfg).
     if cfg8 port d cp \<noteq> 0x09 then (common, ntf, mlt, devcfg)
     else let typ = cfg8 port d (cp + 3);
              bar = cfg8 port d (cp + 4);
              off = ucast (cfg32 port d (cp + 8));
              base = bar_addr port d bar
          in if typ = 0x01 then (base + off, ntf, mlt, devcfg)
             else if typ = 0x02 then (common, base + off, cfg32 port d (cp + 16), devcfg)
             else if typ = 0x04 then (common, ntf, mlt, base + off)
             else (common, ntf, mlt, devcfg))"

text \<open>The list of capabilities is followed until its pointer is 0; a cyclic list has no result.\<close>

partial_function (option) caps_loop :: "(u32 \<Rightarrow> u32) \<Rightarrow> PciDevice \<Rightarrow> u8 \<Rightarrow> virtio_caps \<Rightarrow> virtio_caps option" where
  "caps_loop port d cp c =
     (if cp = 0 then Some c else caps_loop port d (cfg8 port d (cp + 1)) (cap_found port d cp c))"

text \<open>The outer option is a result at all, the inner one the driver's.\<close>

definition caps :: "(u32 \<Rightarrow> u32) \<Rightarrow> PciDevice \<Rightarrow> virtio_caps option option" where
  "caps port d =
     map_option (\<lambda>c. if fst c \<noteq> 0 then Some c else None) (caps_loop port d (cfg8 port d 0x34) (0, 0, 0, 0))"

section \<open>Bringing the device up\<close>

record VirtioBlk =
  vb_common :: u64
  vb_notify :: u64
  vb_notify_mult :: u32
  vb_qsz :: u16
  fr_desc :: u64
  fr_avail :: u64
  fr_used :: u64
  fr_buf :: u64
  avail_head :: u16

definition reset_and_negotiate :: "'d vdevice \<Rightarrow> VirtioBlk \<Rightarrow> 'd vworld \<Rightarrow> bool \<times> 'd vworld" where
  "reset_and_negotiate p v w =
     (let c = vb_common v;
          w = mmio_write8 p (c + 20) 0 w;
          w = mmio_write8 p (c + 20) (0x01 OR 0x02) w;
          w = mmio_write32 p (c + 0x08) 0 w;
          w = mmio_write32 p (c + 0x0C) 0 w;
          w = mmio_write32 p (c + 0x08) 1 w;
          w = mmio_write32 p (c + 0x0C) 0x00000001 w;
          w = mmio_write32 p (c + 0x08) 0 w;
          w = mmio_write8 p (c + 20) (0x01 OR 0x02 OR 0x08) w
      in (mmio_read8 p (c + 20) w AND 0x08 \<noteq> 0, w))"

text \<open>Four frames, or none; frames taken before a failure are not returned.\<close>

fun alloc_frames :: "nat \<Rightarrow> 'd vworld \<Rightarrow> u64 list option \<times> 'd vworld" where
  "alloc_frames 0 w = (Some [], w)"
| "alloc_frames (Suc n) w =
     (case allocate (vframes w) of (r, fa) \<Rightarrow>
      let w = w\<lparr>vframes := fa\<rparr> in
      case r of None \<Rightarrow> (None, w)
      | Some f \<Rightarrow> (case alloc_frames n w of (None, w) \<Rightarrow> (None, w) | (Some fs, w) \<Rightarrow> (Some (f * 4096 # fs), w)))"

definition setup_queue :: "'d vdevice \<Rightarrow> VirtioBlk \<Rightarrow> 'd vworld \<Rightarrow> (bool \<times> VirtioBlk) \<times> 'd vworld" where
  "setup_queue p v w =
     (let c = vb_common v;
          w = mmio_write16 p (c + 22) 0 w;
          qsz = mmio_read16 p (c + 24) w;
          v = v\<lparr>vb_qsz := qsz\<rparr> in
      if qsz = 0 \<or> qsz > 256 then ((False, v), w)
      else case alloc_frames 4 w of
        (Some [d, a, u, b], w) \<Rightarrow>
          let w = mmio_write32 p (c + 32) (ucast d) w;
              w = mmio_write32 p (c + 32 + 4) 0 w;
              w = mmio_write32 p (c + 40) (ucast a) w;
              w = mmio_write32 p (c + 40 + 4) 0 w;
              w = mmio_write32 p (c + 48) (ucast u) w;
              w = mmio_write32 p (c + 48 + 4) 0 w;
              w = mmio_write16 p (c + 28) 1 w;
              v = v\<lparr>fr_desc := d, fr_avail := a, fr_used := u, fr_buf := b\<rparr>;
              w = mmio_write8 p (c + 20) (mmio_read8 p (c + 20) w OR 0x04) w
          in ((True, v), w)
      | (_, w) \<Rightarrow> ((False, v), w))"

definition virtio_probe :: "(u32 \<Rightarrow> u32) \<Rightarrow> 'd vdevice \<Rightarrow> 'd vworld \<Rightarrow> (VirtioBlk option \<times> 'd vworld) option" where
  "virtio_probe port p w =
     (case find (\<lambda>d. is_virtio_blk (pci_vendor d) (pci_device d) (pci_class d)) (probe_bus0 port) of
        None \<Rightarrow> Some (None, w)
      | Some d \<Rightarrow>
          case caps port d of None \<Rightarrow> None
          | Some None \<Rightarrow> Some (None, w)
          | Some (Some (common, ntf, mlt, devcfg)) \<Rightarrow>
              let v = \<lparr>vb_common = common, vb_notify = ntf, vb_notify_mult = mlt, vb_qsz = 0,
                       fr_desc = 0, fr_avail = 0, fr_used = 0, fr_buf = 0, avail_head = 0\<rparr> in
              Some (case reset_and_negotiate p v w of
                  (False, w) \<Rightarrow> (None, w\<lparr>vlog := vlog w @ [WriteStr ''LIONOS_DRV_VIRTIO_BLK negfail'', WriteStr [CHR 0x0D, CHR 0x0A]]\<rparr>)
                | (True, w) \<Rightarrow>
                    (case setup_queue p v w of
                       ((False, v), w) \<Rightarrow> (None, w\<lparr>vlog := vlog w @ [WriteStr ''LIONOS_DRV_VIRTIO_BLK qfail'', WriteStr [CHR 0x0D, CHR 0x0A]]\<rparr>)
                     | ((True, v), w) \<Rightarrow> (Some v, w))))"

section \<open>A request\<close>

definition write_des :: "u64 \<Rightarrow> nat \<Rightarrow> u64 \<Rightarrow> u32 \<Rightarrow> u16 \<Rightarrow> u16 \<Rightarrow> (u64 \<Rightarrow> u8) \<Rightarrow> u64 \<Rightarrow> u8" where
  "write_des d n addr len flags nxt m =
     (let e = d + word_of_nat (n * 16)
      in put_bytes (e + 14) (to_le16 nxt) (put_bytes (e + 12) (to_le16 flags)
           (put_bytes (e + 8) (to_le32 len) (put_bytes e (to_le64 addr) m))))"

definition virtio_notify :: "'d vdevice \<Rightarrow> VirtioBlk \<Rightarrow> 'd vworld \<Rightarrow> 'd vworld" where
  "virtio_notify p v w =
     (let n = ucast (mmio_read16 p (vb_common v + 30) w) :: u32;
          phys = vb_notify v + ucast (n * vb_notify_mult v)
      in mm_wr16 p phys 0 w)"

text \<open>The stores of a request before the device is told of it.\<close>

definition place_request :: "VirtioBlk \<Rightarrow> u32 \<Rightarrow> (u64 \<Rightarrow> u8) \<Rightarrow> u64 \<Rightarrow> u8" where
  "place_request v lba m =
     (let b = fr_buf v;
          m = put_bytes b (to_le32 0) m;
          m = put_bytes (b + 4) (to_le32 0) m;
          m = put_bytes (b + 8) (to_le64 (ucast lba)) m;
          m = put_bytes (b + 1024) [0] m;
          m = write_des (fr_desc v) 0 b 16 0x0001 1 m;
          m = write_des (fr_desc v) 1 (b + 512) 512 (0x0002 OR 0x0001) 2 m;
          m = write_des (fr_desc v) 2 (b + 1024) 1 0x0002 0 m;
          slot = unat (avail_head v mod vb_qsz v);
          m = put_bytes (fr_avail v + 2) (to_le16 (avail_head v + 1)) m
      in put_bytes (fr_avail v + word_of_nat (2 * (2 + slot))) (to_le16 0) m)"

fun poll_used :: "'d vdevice \<Rightarrow> VirtioBlk \<Rightarrow> u16 \<Rightarrow> bytes \<Rightarrow> nat \<Rightarrow> 'd vworld \<Rightarrow> (bool \<times> bytes) \<times> 'd vworld" where
  "poll_used p v seen out 0 w = ((False, out), w)"
| "poll_used p v seen out (Suc n) w =
     (let w = dev_step p w in
      if get16 (fr_used v + 2) (vmem w) \<noteq> seen
      then ((get_bytes (fr_buf v + 1024) 1 (vmem w) = [0], get_bytes (fr_buf v + 512) 512 (vmem w)), w)
      else poll_used p v seen out n w)"

definition POLLS :: nat where
  "POLLS = 40000000"

definition xfer :: "'d vdevice \<Rightarrow> VirtioBlk \<Rightarrow> u32 \<Rightarrow> bytes \<Rightarrow> 'd vworld \<Rightarrow> (bool \<times> bytes) \<times> VirtioBlk \<times> 'd vworld" where
  "xfer p v lba out w =
     (let w = w\<lparr>vmem := place_request v lba (vmem w)\<rparr>;
          v' = v\<lparr>avail_head := avail_head v + 1\<rparr>;
          seen = get16 (fr_used v + 2) (vmem w);
          w = virtio_notify p v w
      in case poll_used p v seen out POLLS w of (r, w) \<Rightarrow> (r, v', w))"

text \<open>What the file system sees of the driver in one state.\<close>

definition virtio_sector :: "'d vdevice \<Rightarrow> VirtioBlk \<Rightarrow> 'd vworld \<Rightarrow> block_dev" where
  "virtio_sector p v w lba =
     (case xfer p v lba (replicate 512 0) w of ((ok, buf), _) \<Rightarrow> if ok then Some buf else None)"

lemma poll_used_length:
  "poll_used p v seen out n w = ((ok, buf), w') \<Longrightarrow> length out = 512 \<Longrightarrow> length buf = 512"
  by (induction n arbitrary: w) (auto simp: Let_def get_bytes_def split: if_splits)

interpretation virtio: block_device "virtio_sector p v w" for p v w
proof
  fix l s
  assume "virtio_sector p v w l = Some s"
  then show "length s = 512"
    by (auto simp: virtio_sector_def xfer_def Let_def split: prod.splits if_splits dest: poll_used_length)
qed

section \<open>Stores and loads inside frames\<close>

text \<open>Frames start at multiples of 4096.\<close>

definition frame_base :: "u64 \<Rightarrow> bool" where
  "frame_base F \<longleftrightarrow> unat F mod 4096 = 0"

lemma frame_base_room: "frame_base F \<Longrightarrow> unat F + 4096 \<le> 2 ^ 64"
proof -
  assume "frame_base F"
  then obtain k where k: "unat F = 4096 * k"
    unfolding frame_base_def by (metis mod_0_imp_dvd dvdE)
  then have "4096 * k < 4096 * 4503599627370496"
    using unat_bound [of F] by simp
  then have "Suc k \<le> 4503599627370496"
    by simp
  then have "4096 * Suc k \<le> 4096 * 4503599627370496"
    by (rule mult_le_mono2)
  then show ?thesis
    using k by simp
qed

lemma frames_apart:
  assumes "frame_base F" "frame_base G" "F \<noteq> G"
  shows "unat F + 4096 \<le> unat G \<or> unat G + 4096 \<le> unat F"
proof -
  obtain j k where jk: "unat F = 4096 * j" "unat G = 4096 * k"
    using assms(1,2) unfolding frame_base_def by (metis mod_0_imp_dvd dvdE)
  have "unat F \<noteq> unat G"
    using assms(3) unsigned_word_eqI [where ?'a = nat] by blast
  then have "j \<noteq> k"
    using jk by auto
  then have "Suc j \<le> k \<or> Suc k \<le> j"
    by arith
  then show ?thesis
    using jk by auto
qed

lemma in_frame:
  assumes "frame_base F" "unat (p - F) + n \<le> 4096" "0 < n"
  shows "unat p = unat F + unat (p - F)"
  using unat_add_small [of F "p - F"] assms frame_base_room [OF assms(1)] by simp

lemma get_put_cross:
  assumes "frame_base F" "frame_base G" "F \<noteq> G"
    and "unat (p - F) + length bs \<le> 4096" "unat (q - G) + n \<le> 4096" "0 < length bs" "0 < n"
  shows "get_bytes q n (put_bytes p bs m) = get_bytes q n m"
  using frames_apart [OF assms(1-3)] in_frame [OF assms(1,4,6)] in_frame [OF assms(2,5,7)] assms
    frame_base_room [OF assms(1)] frame_base_room [OF assms(2)]
  by (intro get_put_other) linarith+

lemma get_put_within:
  assumes "frame_base F" "unat (p - F) + length bs \<le> 4096" "unat (q - F) + n \<le> 4096" "0 < length bs" "0 < n"
    and "unat (p - F) + length bs \<le> unat (q - F) \<or> unat (q - F) + n \<le> unat (p - F)"
  shows "get_bytes q n (put_bytes p bs m) = get_bytes q n m"
  using in_frame [OF assms(1,2,4)] in_frame [OF assms(1,3,5)] assms frame_base_room [OF assms(1)]
  by (intro get_put_other) linarith+

lemma get_put_here:
  assumes "frame_base F" "unat (p - F) + length bs \<le> 4096" "0 < length bs" "n = length bs"
  shows "get_bytes p n (put_bytes p bs m) = bs"
  using in_frame [OF assms(1-3)] assms frame_base_room [OF assms(1)] by (intro get_put_n) linarith+

section \<open>What a device finds in the queue\<close>

definition descriptor :: "u64 \<Rightarrow> u16 \<Rightarrow> (u64 \<Rightarrow> u8) \<Rightarrow> u64 \<times> u32 \<times> u16 \<times> u16" where
  "descriptor d i m = (let e = d + 16 * ucast i in (get64 e m, get32 (e + 8) m, get16 (e + 12) m, get16 (e + 14) m))"

text \<open>
  The newest entry of the available ring read as a block request: a header of sixteen bytes the
  device reads, 512 bytes and a status byte it writes.  The result is the sector and the two places.
\<close>

definition block_request :: "u64 \<Rightarrow> u64 \<Rightarrow> u16 \<Rightarrow> (u64 \<Rightarrow> u8) \<Rightarrow> (u64 \<times> u64 \<times> u64) option" where
  "block_request d a qsz m =
     (let idx = get16 (a + 2) m;
          hd = get16 (a + 4 + 2 * ucast ((idx - 1) mod qsz)) m;
          (ha, hl, hf, hn) = descriptor d hd m;
          (da, dl, df, dn) = descriptor d hn m;
          (sa, sl, sf, _) = descriptor d dn m
      in if hl = 16 \<and> hf = 1 \<and> dl = 512 \<and> df = 3 \<and> sl = 1 \<and> sf = 2 \<and> get32 ha m = 0
         then Some (get64 (ha + 8) m, da, sa) else None)"

definition queue_ok :: "VirtioBlk \<Rightarrow> bool" where
  "queue_ok v \<longleftrightarrow> list_all frame_base [fr_desc v, fr_avail v, fr_used v, fr_buf v]
     \<and> distinct [fr_desc v, fr_avail v, fr_used v, fr_buf v] \<and> 0 < vb_qsz v \<and> vb_qsz v \<le> 256"

lemma slot_offset:
  assumes "0 < (q :: u16)" "q \<le> 256"
  shows "word_of_nat (2 * (2 + unat (h mod q))) = (4 + 2 * ucast (h mod q) :: u64)"
    and "unat (4 + 2 * ucast (h mod q) :: u64) + 2 \<le> 4096" "4 \<le> unat (4 + 2 * ucast (h mod q) :: u64)"
proof -
  have "unat (h mod q) < unat q" "unat q \<le> 256"
    using assms by (simp_all add: unat_mod word_less_nat_alt word_le_nat_alt)
  then have lt: "unat (h mod q) < 256"
    by linarith
  have u: "unat (ucast (h mod q) :: u64) = unat (h mod q)"
    by (rule unat_ucast_up) simp
  then have "unat (2 * ucast (h mod q) :: u64) = 2 * unat (h mod q)"
    using lt unat_mult_small [of 2 "ucast (h mod q) :: u64"] by simp
  then have s: "unat (4 + 2 * ucast (h mod q) :: u64) = 4 + 2 * unat (h mod q)"
    using lt unat_add_small [of 4 "2 * ucast (h mod q) :: u64"] by simp
  then show "unat (4 + 2 * ucast (h mod q) :: u64) + 2 \<le> 4096" "4 \<le> unat (4 + 2 * ucast (h mod q) :: u64)"
    using lt by simp_all
  show "word_of_nat (2 * (2 + unat (h mod q))) = (4 + 2 * ucast (h mod q) :: u64)"
  proof (rule unsigned_word_eqI [where ?'a = nat])
    have "unat (word_of_nat (2 * (2 + unat (h mod q))) :: u64) = 2 * (2 + unat (h mod q))"
      using lt by (intro unat_of_nat_small) simp
    then show "unat (word_of_nat (2 * (2 + unat (h mod q))) :: u64) = unat (4 + 2 * ucast (h mod q) :: u64)"
      using s by simp
  qed
qed

lemma place_request_puts:
  assumes "0 < vb_qsz v" "vb_qsz v \<le> 256"
  shows "place_request v lba m =
    (let b = fr_buf v; d = fr_desc v; a = fr_avail v;
         m = put_bytes (b + 1024) [0] (put_bytes (b + 8) (to_le64 (ucast lba)) (put_bytes (b + 4) (to_le32 0) (put_bytes b (to_le32 0) m)));
         m = put_bytes (d + 14) (to_le16 1) (put_bytes (d + 12) (to_le16 1) (put_bytes (d + 8) (to_le32 16) (put_bytes d (to_le64 b) m)));
         m = put_bytes (d + 30) (to_le16 2) (put_bytes (d + 28) (to_le16 3) (put_bytes (d + 24) (to_le32 512) (put_bytes (d + 16) (to_le64 (b + 512)) m)));
         m = put_bytes (d + 46) (to_le16 0) (put_bytes (d + 44) (to_le16 2) (put_bytes (d + 40) (to_le32 1) (put_bytes (d + 32) (to_le64 (b + 1024)) m)))
     in put_bytes (a + (4 + 2 * ucast (avail_head v mod vb_qsz v))) (to_le16 0) (put_bytes (a + 2) (to_le16 (avail_head v + 1)) m))"
  unfolding place_request_def write_des_def Let_def slot_offset(1) [OF assms] by (simp add: add.assoc)

lemma place_request_found:
  assumes "queue_ok v"
  shows "get16 (fr_avail v + 2) (place_request v lba m) = avail_head v + 1"
    and "block_request (fr_desc v) (fr_avail v) (vb_qsz v) (place_request v lba m)
      = Some (ucast lba, fr_buf v + 512, fr_buf v + 1024)"
proof -
  define d where "d = fr_desc v"
  define a where "a = fr_avail v"
  define b where "b = fr_buf v"
  define i :: u64 where "i = 4 + 2 * ucast (avail_head v mod vb_qsz v)"
  have q: "0 < vb_qsz v" "vb_qsz v \<le> 256"
    using assms by (simp_all add: queue_ok_def)
  have f: "frame_base d" "frame_base a" "frame_base b" and ne: "d \<noteq> a" "d \<noteq> b" "a \<noteq> b"
    using assms by (simp_all add: queue_ok_def d_def a_def b_def)
  have i: "unat i + 2 \<le> 4096" "4 \<le> unat i"
    using slot_offset(2,3) [OF q] by (simp_all add: i_def)
  define M where "M = place_request v lba m"
  note M = M_def [unfolded place_request_puts [OF q] Let_def, folded d_def a_def b_def i_def]
  note here = get_put_here [OF f(1)] get_put_here [OF f(2)] get_put_here [OF f(3)]
  note within = get_put_within [OF f(1)] get_put_within [OF f(2)] get_put_within [OF f(3)]
  note cross = get_put_cross [OF f(1,2) ne(1)] get_put_cross [OF f(2,1) ne(1) [symmetric]] get_put_cross [OF f(1,3) ne(2)]
    get_put_cross [OF f(3,1) ne(2) [symmetric]] get_put_cross [OF f(2,3) ne(3)] get_put_cross [OF f(3,2) ne(3) [symmetric]]
  have a: "get_bytes (a + 2) 2 M = to_le16 (avail_head v + 1)" "get_bytes (a + i) 2 M = to_le16 0"
    unfolding M using i by (simp_all add: here within)
  have d0: "get_bytes d 8 M = to_le64 b" "get_bytes (d + 8) 4 M = to_le32 16" "get_bytes (d + 12) 2 M = to_le16 1" "get_bytes (d + 14) 2 M = to_le16 1"
    unfolding M using i by (simp_all add: here within cross)
  have d1: "get_bytes (d + 16) 8 M = to_le64 (b + 512)" "get_bytes (d + 24) 4 M = to_le32 512" "get_bytes (d + 28) 2 M = to_le16 3" "get_bytes (d + 30) 2 M = to_le16 2"
    unfolding M using i by (simp_all add: here within cross)
  have d2: "get_bytes (d + 32) 8 M = to_le64 (b + 1024)" "get_bytes (d + 40) 4 M = to_le32 1" "get_bytes (d + 44) 2 M = to_le16 2" "get_bytes (d + 46) 2 M = to_le16 0"
    unfolding M using i by (simp_all add: here within cross)
  have h: "get_bytes b 4 M = to_le32 0" "get_bytes (b + 8) 8 M = to_le64 (ucast lba)"
    unfolding M using i by (simp_all add: here within cross)
  show idx: "get16 (fr_avail v + 2) (place_request v lba m) = avail_head v + 1"
    using a(1) by (simp add: get16_def M_def a_def)
  have "a + 4 + 2 * ucast ((avail_head v + 1 - 1) mod vb_qsz v) = a + i"
    by (simp add: i_def)
  then have "block_request d a (vb_qsz v) M = Some (ucast lba, b + 512, b + 1024)"
    using a d0 d1 d2 h by (simp add: block_request_def descriptor_def Let_def get16_def get32_def get64_def add.assoc)
  then show "block_request (fr_desc v) (fr_avail v) (vb_qsz v) (place_request v lba m)
      = Some (ucast lba, fr_buf v + 512, fr_buf v + 1024)"
    by (simp add: d_def a_def b_def M_def)
qed

section \<open>A device that follows the protocol\<close>

abbreviation used_idx :: "VirtioBlk \<Rightarrow> 'd vworld \<Rightarrow> u16" where
  "used_idx v w \<equiv> get16 (fr_used v + 2) (vmem w)"

text \<open>
  \<open>idle n w\<close>: the device has served \<open>n\<close> entries of the available ring and waits.  Stores of the driver
  do not wake it.  A notification with one more entry, a block request into the driver's buffer,
  makes it serve the request: within the polling bound the used index moves by one, and by then the
  data and a zero status are in their places.
\<close>

definition virtio_conforms :: "'d vdevice \<Rightarrow> VirtioBlk \<Rightarrow> (u64 \<Rightarrow> bytes) \<Rightarrow> (u16 \<Rightarrow> 'd vworld \<Rightarrow> bool) \<Rightarrow> bool" where
  "virtio_conforms p v medium idle \<longleftrightarrow>
     (\<forall>n w m. idle n w \<longrightarrow> idle n (w\<lparr>vmem := m\<rparr>))
     \<and> (\<forall>n w l. idle n w \<and> get16 (fr_avail v + 2) (vmem w) = n + 1
          \<and> block_request (fr_desc v) (fr_avail v) (vb_qsz v) (vmem w) = Some (l, fr_buf v + 512, fr_buf v + 1024)
        \<longrightarrow> (\<exists>k<POLLS. let u = (\<lambda>j. (dev_step p ^^ j) (virtio_notify p v w)) in
              (\<forall>j. 0 < j \<and> j \<le> k \<longrightarrow> used_idx v (u j) = used_idx v w) \<and> used_idx v (u (Suc k)) = used_idx v w + 1
              \<and> get_bytes (fr_buf v + 512) 512 (vmem (u (Suc k))) = medium l
              \<and> get_bytes (fr_buf v + 1024) 1 (vmem (u (Suc k))) = [0] \<and> idle (n + 1) (u (Suc k))))"

lemma poll_used_after:
  assumes "\<forall>j. 0 < j \<and> j \<le> k \<longrightarrow> used_idx v ((dev_step p ^^ j) w) = seen" "used_idx v ((dev_step p ^^ Suc k) w) \<noteq> seen" "k < n"
  shows "poll_used p v seen out n w =
    (let w' = (dev_step p ^^ Suc k) w
     in ((get_bytes (fr_buf v + 1024) 1 (vmem w') = [0], get_bytes (fr_buf v + 512) 512 (vmem w')), w'))"
  using assms
proof (induction k arbitrary: w n)
  case 0
  then show ?case
    by (cases n) simp_all
next
  case (Suc k)
  then obtain n' where n: "n = Suc n'"
    by (cases n) simp_all
  have "used_idx v (dev_step p w) = seen"
    using Suc.prems(1) [rule_format, of 1] by simp
  moreover have "used_idx v ((dev_step p ^^ j) (dev_step p w)) = seen" if "0 < j \<and> j \<le> k" for j
    using Suc.prems(1) [rule_format, of "Suc j"] that by (simp only: funpow_Suc_right comp_def) simp
  ultimately show ?case
    using Suc.IH [of "dev_step p w" n'] Suc.prems(2,3) by (simp only: n funpow_Suc_right comp_def poll_used.simps Let_def) simp
qed

lemma xfer_conforms:
  assumes "virtio_conforms p v medium idle" "queue_ok v" "idle (avail_head v) w"
  shows "\<exists>w'. xfer p v lba out w = ((True, medium (ucast lba)), v\<lparr>avail_head := avail_head v + 1\<rparr>, w') \<and> idle (avail_head v + 1) w'"
proof -
  define w1 where "w1 = w\<lparr>vmem := place_request v lba (vmem w)\<rparr>"
  have "idle (avail_head v) w1"
    using assms(1,3) by (simp add: virtio_conforms_def w1_def)
  moreover have "get16 (fr_avail v + 2) (vmem w1) = avail_head v + 1"
    "block_request (fr_desc v) (fr_avail v) (vb_qsz v) (vmem w1) = Some (ucast lba, fr_buf v + 512, fr_buf v + 1024)"
    using place_request_found [OF assms(2)] by (simp_all add: w1_def)
  ultimately obtain k where k: "k < POLLS"
      "\<forall>j. 0 < j \<and> j \<le> k \<longrightarrow> used_idx v ((dev_step p ^^ j) (virtio_notify p v w1)) = used_idx v w1"
      "used_idx v ((dev_step p ^^ Suc k) (virtio_notify p v w1)) = used_idx v w1 + 1"
      "get_bytes (fr_buf v + 512) 512 (vmem ((dev_step p ^^ Suc k) (virtio_notify p v w1))) = medium (ucast lba)"
      "get_bytes (fr_buf v + 1024) 1 (vmem ((dev_step p ^^ Suc k) (virtio_notify p v w1))) = [0]"
      "idle (avail_head v + 1) ((dev_step p ^^ Suc k) (virtio_notify p v w1))"
    using assms(1) unfolding virtio_conforms_def Let_def by blast
  have "used_idx v ((dev_step p ^^ Suc k) (virtio_notify p v w1)) \<noteq> used_idx v w1"
    unfolding k(3) by simp
  note poll_used_after [OF k(2) this k(1), of out]
  then have "xfer p v lba out w = ((True, medium (ucast lba)), v\<lparr>avail_head := avail_head v + 1\<rparr>, (dev_step p ^^ Suc k) (virtio_notify p v w1))"
    unfolding xfer_def Let_def w1_def [symmetric] using k(4,5) by (simp del: funpow.simps)
  then show ?thesis
    using k(6) by blast
qed

lemma virtio_sector_conforms:
  assumes "virtio_conforms p v medium idle" "queue_ok v" "idle (avail_head v) w"
  shows "virtio_sector p v w = (\<lambda>l. Some (medium (ucast l)))"
proof
  fix l
  show "virtio_sector p v w l = Some (medium (ucast l))"
    using xfer_conforms [OF assms, of l "replicate 512 0"] by (auto simp: virtio_sector_def)
qed

section \<open>The queue that bring-up leaves\<close>

text \<open>Register writes reach the device, never the kernel's frame allocator.\<close>

definition registers_only :: "'d vdevice \<Rightarrow> bool" where
  "registers_only p \<longleftrightarrow> (\<forall>a x w. vframes (mm_wr8 p a x w) = vframes w) \<and> (\<forall>a x w. vframes (mm_wr16 p a x w) = vframes w)
     \<and> (\<forall>a x w. vframes (mm_wr32 p a x w) = vframes w)"

lemma mmio_write_frames:
  assumes "registers_only p"
  shows "vframes (mmio_write8 p a x w) = vframes w" "vframes (mmio_write16 p a y w) = vframes w"
    "vframes (mmio_write32 p a z w) = vframes w"
  using assms by (simp_all add: registers_only_def mmio_write8_def mmio_write16_def mmio_write32_def)

lemma frame_address:
  assumes "unat (f :: u64) < 2 ^ 52"
  shows "unat (f * 4096) = unat f * 4096"
  using assms by (simp add: unat_mult_small)

lemma alloc_frames_ok:
  assumes "frames_wf (vframes w)" "alloc_frames n w = (Some fs, w')"
  shows "frames_wf (vframes w') \<and> length fs = n \<and> list_all frame_base fs
    \<and> free_list (vframes w) = map (\<lambda>F. unat F div 4096) fs @ free_list (vframes w')"
  using assms
proof (induction n arbitrary: w fs)
  case (Suc n)
  from Suc.prems(2) obtain f fa gs where a: "allocate (vframes w) = (Some f, fa)"
      and r: "alloc_frames n (w\<lparr>vframes := fa\<rparr>) = (Some gs, w')" and fs: "fs = f * 4096 # gs"
    by (auto simp: Let_def split: prod.splits option.splits)
  have fa: "frames_wf fa" "free_list (vframes w) = unat f # free_list fa"
    using allocate_wf [OF Suc.prems(1) a] by blast+
  then have "unat (f * 4096) = unat f * 4096"
    using frames_wf_free_bound [OF Suc.prems(1), of "unat f"] by (intro frame_address) simp
  moreover note Suc.IH [OF _ r]
  ultimately show ?case
    using fa by (simp add: fs frame_base_def)
qed simp

lemma setup_queue_ok:
  assumes "setup_queue p v w = ((True, v'), w')" "frames_wf (vframes w)" "registers_only p"
  shows "queue_ok v' \<and> frames_wf (vframes w') \<and> avail_head v' = avail_head v
    \<and> free_list (vframes w) = map (\<lambda>F. unat F div 4096) [fr_desc v', fr_avail v', fr_used v', fr_buf v'] @ free_list (vframes w')"
proof -
  let ?w = "mmio_write16 p (vb_common v + 22) 0 w" let ?q = "mmio_read16 p (vb_common v + 24) ?w"
  note keep = mmio_write_frames [OF assms(3)]
  obtain fs w1 where al: "alloc_frames 4 ?w = (fs, w1)"
    by (cases "alloc_frames 4 ?w")
  obtain d a u b where f: "fs = Some [d, a, u, b]" and q: "0 < ?q" "?q \<le> 256"
      and v: "v' = v\<lparr>vb_qsz := ?q, fr_desc := d, fr_avail := a, fr_used := u, fr_buf := b\<rparr>" and w': "vframes w' = vframes w1"
    using assms(1) al unfolding setup_queue_def Let_def
    by (auto simp: keep not_less word_neq_0_conv split: if_splits option.splits list.splits)
  have wf: "frames_wf (vframes ?w)"
    using assms(2) by (simp add: keep)
  note ok = alloc_frames_ok [OF wf al [unfolded f]]
  moreover have "distinct (free_list (vframes ?w))"
    using wf by (simp only: frames_wf_def)
  ultimately have "distinct [d, a, u, b]"
    by auto
  then show ?thesis
    using ok q by (simp add: queue_ok_def v w' keep)
qed

lemma virtio_probe_ok:
  assumes "virtio_probe port p w = Some (Some v, w')" "frames_wf (vframes w)" "registers_only p"
  shows "queue_ok v \<and> frames_wf (vframes w') \<and> avail_head v = 0
    \<and> free_list (vframes w) = map (\<lambda>F. unat F div 4096) [fr_desc v, fr_avail v, fr_used v, fr_buf v] @ free_list (vframes w')"
proof -
  obtain v0 w1 w2 where r: "reset_and_negotiate p v0 w = (True, w1)" and s: "setup_queue p v0 w1 = ((True, v), w2)"
      and v0: "avail_head v0 = 0" and w': "w' = w2"
    using assms(1) unfolding virtio_probe_def Let_def
    by (fastforce split: option.splits prod.splits bool.splits)
  have f: "vframes w1 = vframes w"
    using r by (auto simp: reset_and_negotiate_def Let_def mmio_write_frames [OF assms(3)])
  then show ?thesis
    using setup_queue_ok [OF s _ assms(3)] assms(2) by (simp add: v0 w')
qed

text \<open>The sectors a client reads one after the other.\<close>

fun read_sectors :: "'d vdevice \<Rightarrow> VirtioBlk \<Rightarrow> u32 list \<Rightarrow> 'd vworld \<Rightarrow> bytes option list \<times> VirtioBlk \<times> 'd vworld" where
  "read_sectors p v [] w = ([], v, w)"
| "read_sectors p v (l # ls) w =
     (case xfer p v l (replicate 512 0) w of ((ok, buf), v, w) \<Rightarrow>
      case read_sectors p v ls w of (rs, r) \<Rightarrow> ((if ok then Some buf else None) # rs, r))"

lemma conforms_next:
  "virtio_conforms p (v\<lparr>avail_head := h\<rparr>) = virtio_conforms p v" "queue_ok (v\<lparr>avail_head := h\<rparr>) = queue_ok v"
  by (simp_all add: virtio_conforms_def queue_ok_def virtio_notify_def fun_eq_iff)

lemma read_sectors_conforms:
  assumes "virtio_conforms p v medium idle" "queue_ok v" "idle (avail_head v) w"
  shows "fst (read_sectors p v ls w) = map (\<lambda>l. Some (medium (ucast l))) ls"
  using assms
proof (induction ls arbitrary: v w)
  case (Cons l ls)
  obtain w' where x: "xfer p v l (replicate 512 0) w = ((True, medium (ucast l)), v\<lparr>avail_head := avail_head v + 1\<rparr>, w')"
      "idle (avail_head v + 1) w'"
    using xfer_conforms [OF Cons.prems] by blast
  have "fst (read_sectors p (v\<lparr>avail_head := avail_head v + 1\<rparr>) ls w') = map (\<lambda>l. Some (medium (ucast l))) ls"
    using Cons.prems x(2) by (intro Cons.IH) (simp_all add: conforms_next)
  then show ?case
    by (simp add: x(1) case_prod_beta)
qed simp


text \<open>A device that serves a notified request at its second step.\<close>

record sim_virtio =
  sv_served :: u16
  sv_delay :: "nat option"

definition sim_blk :: VirtioBlk where
  "sim_blk = \<lparr>vb_common = 0xFE000000, vb_notify = 0xFE001000, vb_notify_mult = 4, vb_qsz = 8,
     fr_desc = 0x10000, fr_avail = 0x11000, fr_used = 0x12000, fr_buf = 0x13000, avail_head = 0\<rparr>"

definition sim_content :: "u64 \<Rightarrow> bytes" where
  "sim_content l = replicate 512 (ucast l)"

definition sim_serve :: "sim_virtio vworld \<Rightarrow> sim_virtio vworld" where
  "sim_serve w =
     (case sv_delay (vdev w) of
        None \<Rightarrow> w
      | Some (Suc n) \<Rightarrow> w\<lparr>vdev := (vdev w)\<lparr>sv_delay := Some n\<rparr>\<rparr>
      | Some 0 \<Rightarrow>
          (case block_request (fr_desc sim_blk) (fr_avail sim_blk) (vb_qsz sim_blk) (vmem w) of
             None \<Rightarrow> w
           | Some (l, da, sa) \<Rightarrow>
               w\<lparr>vmem := put_bytes sa [0] (put_bytes da (sim_content l)
                   (put_bytes (fr_used sim_blk + 2) (to_le16 (used_idx sim_blk w + 1)) (vmem w))),
                 vdev := \<lparr>sv_served = sv_served (vdev w) + 1, sv_delay = None\<rparr>\<rparr>))"

definition sim_device :: "sim_virtio vdevice" where
  "sim_device = \<lparr>mm_rd8 = (\<lambda>_ _. 0x0B), mm_rd16 = (\<lambda>a _. if a = 0xFE000018 then 8 else 0), mm_rd32 = (\<lambda>_ _. 0),
     mm_wr8 = (\<lambda>_ _ w. w),
     mm_wr16 = (\<lambda>a _ w. if a = 0xFE001000 then w\<lparr>vdev := (vdev w)\<lparr>sv_delay := Some 1\<rparr>\<rparr> else w),
     mm_wr32 = (\<lambda>_ _ w. w), dev_step = sim_serve\<rparr>"

definition sim_idle :: "u16 \<Rightarrow> sim_virtio vworld \<Rightarrow> bool" where
  "sim_idle n w \<longleftrightarrow> vdev w = \<lparr>sv_served = n, sv_delay = None\<rparr>"

lemma sim_queue_ok: "queue_ok sim_blk"
  by (simp add: queue_ok_def sim_blk_def frame_base_def)

lemma sim_virtio_conforms: "virtio_conforms sim_device sim_blk sim_content sim_idle"
  unfolding virtio_conforms_def
proof (intro conjI allI impI, goal_cases)
  case (1 n w m)
  then show ?case
    by (simp add: sim_idle_def)
next
  case (2 n w l)
  then have idle: "sim_idle n w"
    and req: "block_request (fr_desc sim_blk) (fr_avail sim_blk) (vb_qsz sim_blk) (vmem w) = Some (l, fr_buf sim_blk + 512, fr_buf sim_blk + 1024)"
    by blast+
  let ?w1 = "w\<lparr>vdev := \<lparr>sv_served = n, sv_delay = Some 1\<rparr>\<rparr>" and ?w2 = "w\<lparr>vdev := \<lparr>sv_served = n, sv_delay = Some 0\<rparr>\<rparr>"
  let ?m = "put_bytes (fr_buf sim_blk + 1024) [0] (put_bytes (fr_buf sim_blk + 512) (sim_content l)
      (put_bytes (fr_used sim_blk + 2) (to_le16 (used_idx sim_blk w + 1)) (vmem w)))"
  let ?w3 = "w\<lparr>vmem := ?m, vdev := \<lparr>sv_served = n + 1, sv_delay = None\<rparr>\<rparr>"
  have n0: "virtio_notify sim_device sim_blk w = ?w1"
    using idle by (simp add: virtio_notify_def mmio_read16_def sim_device_def sim_blk_def sim_idle_def Let_def)
  have s1: "sim_serve ?w1 = ?w2"
    by (simp add: sim_serve_def)
  have s2: "sim_serve ?w2 = ?w3"
    using req by (simp add: sim_serve_def)
  have u1: "(sim_serve ^^ Suc 0) ?w1 = ?w2" and u2: "(sim_serve ^^ Suc 1) ?w1 = ?w3"
    using s1 s2 by simp_all
  have f: "frame_base 0x12000" "frame_base 0x13000"
    by (simp_all add: frame_base_def)
  have len: "length (sim_content l) = 512"
    by (simp add: sim_content_def)
  have c: "(0x12000 :: u64) \<noteq> 0x13000"
    by simp
  note rules = get_put_here [OF f(1)] get_put_here [OF f(2)] get_put_within [OF f(2)]
    get_put_cross [OF f(1,2) c] get_put_cross [OF f(2,1) c [symmetric]]
  have "get_bytes 0x12002 2 ?m = to_le16 (used_idx sim_blk w + 1)" "get_bytes 0x13200 512 ?m = sim_content l" "get_bytes 0x13400 1 ?m = [0]"
    using len by (simp_all add: sim_blk_def rules)
  then have v: "used_idx sim_blk ?w3 = used_idx sim_blk w + 1" "get_bytes (fr_buf sim_blk + 512) 512 (vmem ?w3) = sim_content l"
    "get_bytes (fr_buf sim_blk + 1024) 1 (vmem ?w3) = [0]"
    by (simp_all add: get16_def sim_blk_def)
  have j: "used_idx sim_blk ((sim_serve ^^ j) ?w1) = used_idx sim_blk w" if "0 < j \<and> j \<le> 1" for j
  proof -
    have "j = Suc 0"
      using that by simp
    then show ?thesis
      using s1 by simp
  qed
  have d: "dev_step sim_device = sim_serve"
    by (simp add: sim_device_def)
  show ?case
    unfolding n0 d Let_def using v u1 u2 j
    by (intro exI [of _ 1]) (auto simp: POLLS_def sim_idle_def simp del: funpow.simps)
qed

text \<open>
  Configuration space of a disk in slot 0 with a common and a notify capability, and a machine
  whose allocator holds the frames 16 to 19.
\<close>

definition sim_pci :: "u32 \<Rightarrow> u32" where
  "sim_pci a =
     (case map_of [(0x80000000, 0x10011AF4), (0x80000008, 0x01000000), (0x80000010, 0xFE000000), (0x80000034, 0x40),
        (0x80000040, 0x01105009), (0x80000050, 0x02140009), (0x80000058, 0x1000), (0x80000060, 4)] a of
        Some x \<Rightarrow> x | None \<Rightarrow> 0)"

definition sim_disk :: PciDevice where
  "sim_disk = \<lparr>pci_bus = 0, pci_slot = 0, pci_func = 0, pci_vendor = 0x1AF4, pci_device = 0x1001, pci_class = 1, pci_subclass = 0\<rparr>"

definition sim_frames :: FrameAllocator where
  "sim_frames = frames_empty\<lparr>fa_runs := (fa_runs frames_empty)[0 := \<lparr>run_start = 16, run_len = 4\<rparr>], run_count := 1, total := 4\<rparr>"

definition sim_world :: "sim_virtio vworld" where
  "sim_world = \<lparr>vmem = (\<lambda>_. 0), vdev = \<lparr>sv_served = 0, sv_delay = None\<rparr>, vframes = sim_frames,
     window_live = True, vlog = []\<rparr>"

lemma sim_found:
  "find (\<lambda>d. is_virtio_blk (pci_vendor d) (pci_device d) (pci_class d)) (probe_bus0 sim_pci) = Some sim_disk"
proof -
  have "probe_slot sim_pci 0 = [sim_disk]"
    by code_simp
  moreover have "[0..<32] = 0 # [1..<32]"
    by (simp add: upt_conv_Cons)
  ultimately show ?thesis
    by (simp add: probe_bus0_def is_virtio_blk_def sim_disk_def VIRTIO_VENDOR_def VIRTIO_BLK_LEGACY_def del: upt_rec_numeral)
qed

lemma sim_caps: "caps sim_pci sim_disk = Some (Some (0xFE000000, 0xFE001000, 4, 0))"
proof -
  have "cfg8 sim_pci sim_disk 0x34 = 0x40" "cfg8 sim_pci sim_disk 0x41 = 0x50" "cfg8 sim_pci sim_disk 0x51 = 0"
    by code_simp+
  moreover have "cap_found sim_pci sim_disk 0x40 (0, 0, 0, 0) = (0xFE000000, 0, 0, 0)"
      "cap_found sim_pci sim_disk 0x50 (0xFE000000, 0, 0, 0) = (0xFE000000, 0xFE001000, 4, 0)"
    by code_simp+
  ultimately show ?thesis
    by (simp add: caps_def caps_loop.simps)
qed

lemma sim_live: "take (run_count sim_frames) (fa_runs sim_frames) = [\<lparr>run_start = 16, run_len = 4\<rparr>]"
  by (simp add: sim_frames_def frames_empty_def MAX_RUNS_def numeral_eq_Suc)

lemma sim_frames_wf: "frames_wf (vframes sim_world)"
proof -
  have "[16..<20] = [16, 17, 18, 19 :: nat]"
    by (simp add: upt_conv_Cons)
  then have "free_list sim_frames = [16, 17, 18, 19]"
    by (simp add: free_list_def sim_live run_frames_def)
  then show ?thesis
    by (simp add: frames_wf_def sim_live run_ok_def sim_world_def) (simp add: sim_frames_def frames_empty_def MAX_RUNS_def)
qed

lemma sim_alloc: "\<exists>w'. alloc_frames 4 sim_world = (Some [0x10000, 0x11000, 0x12000, 0x13000], w') \<and> vdev w' = vdev sim_world \<and> window_live w'"
proof -
  have "(4 :: nat) = Suc (Suc (Suc (Suc 0)))"
    by simp
  then show ?thesis
    by (simp only: alloc_frames.simps)
      (simp add: sim_world_def sim_frames_def allocate_def frames_empty_def MAX_RUNS_def Let_def)
qed

lemma sim_setup:
  assumes "v0 = \<lparr>vb_common = 0xFE000000, vb_notify = 0xFE001000, vb_notify_mult = 4, vb_qsz = 0,
    fr_desc = 0, fr_avail = 0, fr_used = 0, fr_buf = 0, avail_head = 0\<rparr>"
  shows "reset_and_negotiate sim_device v0 sim_world = (True, sim_world)"
    "\<exists>w'. setup_queue sim_device v0 sim_world = ((True, sim_blk), w') \<and> vdev w' = vdev sim_world"
proof -
  have live: "window_live sim_world"
    by (simp add: sim_world_def)
  note regs = mmio_write8_def mmio_write16_def mmio_write32_def mmio_read8_def mmio_read16_def sim_device_def
  show "reset_and_negotiate sim_device v0 sim_world = (True, sim_world)"
    by (simp add: reset_and_negotiate_def regs live Let_def)
  obtain w' where a: "alloc_frames 4 sim_world = (Some [0x10000, 0x11000, 0x12000, 0x13000], w')" "vdev w' = vdev sim_world" "window_live w'"
    using sim_alloc by blast
  show "\<exists>w'. setup_queue sim_device v0 sim_world = ((True, sim_blk), w') \<and> vdev w' = vdev sim_world"
    by (simp add: setup_queue_def regs live Let_def assms a sim_blk_def)
qed

lemma sim_probe: "\<exists>w. virtio_probe sim_pci sim_device sim_world = Some (Some sim_blk, w) \<and> sim_idle 0 w"
proof -
  define v0 where "v0 = \<lparr>vb_common = 0xFE000000, vb_notify = 0xFE001000, vb_notify_mult = 4, vb_qsz = 0,
    fr_desc = 0, fr_avail = 0, fr_used = 0, fr_buf = 0, avail_head = 0\<rparr>"
  note s = sim_setup [OF v0_def]
  then obtain w where "setup_queue sim_device v0 sim_world = ((True, sim_blk), w)" "vdev w = vdev sim_world"
    by blast
  then show ?thesis
    using s(1) by (simp add: virtio_probe_def sim_found sim_caps Let_def v0_def [symmetric] sim_idle_def sim_world_def)
qed

lemma sim_registers: "registers_only sim_device"
  by (simp add: registers_only_def sim_device_def)


end
