(* ===== verification/Drivers.thy ===== *)
theory Drivers
  imports Virtio Ide
begin

text \<open>
  The driver layer as a whole: the detect-only drivers (\<open>ahci.rs\<close>, \<open>nvme.rs\<close>, \<open>e1000.rs\<close>, \<open>rtl8139.rs\<close>,
  \<open>uhci.rs\<close>, \<open>ehci.rs\<close>, \<open>hpet.rs\<close>, \<open>ioapic.rs\<close>, \<open>vbe.rs\<close> under \<open>src/kernel/src/drivers\<close>) and \<open>init_all\<close> of
  \<open>mod.rs\<close>, which runs every driver, mounts the first FAT32 volume and reports on the serial line.
  The output is the list of its serial calls.
\<close>

definition crlf :: serial_call where
  "crlf = WriteStr [CHR 0x0D, CHR 0x0A]"

text \<open>A Rust string on the serial line.\<close>

definition say_bytes :: "bytes \<Rightarrow> serial_call" where
  "say_bytes s = WriteStr (map (\<lambda>b. char_of (unat b)) s)"

section \<open>Detect-only drivers\<close>

definition is_ahci :: "u8 \<Rightarrow> u8 \<Rightarrow> bool" where
  "is_ahci cls sub \<longleftrightarrow> cls = 0x01 \<and> sub = 0x06"

definition ahci_probe :: "(u32 \<Rightarrow> u32) \<Rightarrow> PciDevice option" where
  "ahci_probe port = find (\<lambda>d. is_ahci (pci_class d) (pci_subclass d)) (probe_bus0 port)"

definition ahci_init :: "(u32 \<Rightarrow> u32) \<Rightarrow> (u64 \<Rightarrow> u32) \<Rightarrow> serial_call list" where
  "ahci_init port reg32 =
     (case ahci_probe port of
        Some d \<Rightarrow>
          let bar = bar_addr port d 5
          in [WriteStr ''LIONOS_DRV_AHCI found=1 cap='', WriteHex (ucast (reg32 (bar + 0x00))),
              WriteStr '' ver='', WriteHex (ucast (reg32 (bar + 0x08) AND 0xffff))]
      | None \<Rightarrow> [WriteStr ''LIONOS_DRV_AHCI ABSENT'']) @ [crlf]"

definition is_nvme :: "u8 \<Rightarrow> u8 \<Rightarrow> bool" where
  "is_nvme cls sub \<longleftrightarrow> cls = 0x01 \<and> sub = 0x08"

definition nvme_init :: "(u32 \<Rightarrow> u32) \<Rightarrow> (u64 \<Rightarrow> u32) \<Rightarrow> serial_call list" where
  "nvme_init port reg32 =
     (case find (\<lambda>d. is_nvme (pci_class d) (pci_subclass d)) (probe_bus0 port) of
        Some d \<Rightarrow> [WriteStr ''LIONOS_DRV_NVME found=1 vs='', WriteHex (ucast (reg32 (bar_addr port d 0 + 0x04)))]
      | None \<Rightarrow> [WriteStr ''LIONOS_DRV_NVME ABSENT'']) @ [crlf]"

definition is_e1000 :: "u16 \<Rightarrow> u16 \<Rightarrow> bool" where
  "is_e1000 vendor device \<longleftrightarrow> vendor = 0x8086 \<and> device = 0x100E"

definition e1000_probe :: "(u32 \<Rightarrow> u32) \<Rightarrow> PciDevice option" where
  "e1000_probe port = find (\<lambda>d. is_e1000 (pci_vendor d) (pci_device d)) (probe_bus0 port)"

definition e1000_init :: "(u32 \<Rightarrow> u32) \<Rightarrow> (u64 \<Rightarrow> u32) \<Rightarrow> serial_call list" where
  "e1000_init port reg32 =
     (case e1000_probe port of
        Some d \<Rightarrow> [WriteStr ''LIONOS_DRV_E1000 found=1 stat='', WriteHex (ucast (reg32 (bar_addr port d 0 + 0x0008)))]
      | None \<Rightarrow> [WriteStr ''LIONOS_DRV_E1000 ABSENT'']) @ [crlf]"

definition is_rtl8139 :: "u16 \<Rightarrow> u16 \<Rightarrow> bool" where
  "is_rtl8139 vendor device \<longleftrightarrow> vendor = 0x10EC \<and> device = 0x8139"

definition rtl8139_probe :: "(u32 \<Rightarrow> u32) \<Rightarrow> PciDevice option" where
  "rtl8139_probe port = find (\<lambda>d. is_rtl8139 (pci_vendor d) (pci_device d)) (probe_bus0 port)"

definition rtl8139_init :: "(u32 \<Rightarrow> u32) \<Rightarrow> (u64 \<Rightarrow> u32) \<Rightarrow> (u16 \<Rightarrow> u8) \<Rightarrow> serial_call list" where
  "rtl8139_init port reg32 inb =
     (case rtl8139_probe port of
        Some d \<Rightarrow>
          let raw = config_read port (pci_bus d) (pci_slot d) (pci_func d) 0x10;
              bar = bar_addr port d 0;
              cfg = (if raw AND 1 = 1 then ucast (inb (ucast bar + 0x52)) else reg32 (bar + 0x52) AND 0xFF)
          in [WriteStr ''LIONOS_DRV_RTL8139 found=1 cfg='', WriteHex (ucast cfg)]
      | None \<Rightarrow> [WriteStr ''LIONOS_DRV_RTL8139 ABSENT'']) @ [crlf]"

definition is_uhci :: "u16 \<Rightarrow> u16 \<Rightarrow> bool" where
  "is_uhci vendor device \<longleftrightarrow> vendor = 0x8086 \<and> device = 0x7020"

definition uhci_probe :: "(u32 \<Rightarrow> u32) \<Rightarrow> PciDevice option" where
  "uhci_probe port = find (\<lambda>d. is_uhci (pci_vendor d) (pci_device d)) (probe_bus0 port)"

definition uhci_init :: "(u32 \<Rightarrow> u32) \<Rightarrow> (u16 \<Rightarrow> u16) \<Rightarrow> serial_call list" where
  "uhci_init port inw =
     (case uhci_probe port of
        Some d \<Rightarrow>
          let io = ucast (bar_addr port d 0) :: u16
          in [WriteStr ''LIONOS_DRV_UHCI found=1 '', WriteStr ''cmd='', WriteHex (ucast (inw io)),
              WriteStr '' frame='', WriteHex (ucast (inw (io + 8)))]
      | None \<Rightarrow> [WriteStr ''LIONOS_DRV_UHCI ABSENT'']) @ [crlf]"

definition is_ehci :: "u8 \<Rightarrow> u8 \<Rightarrow> bool" where
  "is_ehci cls sub \<longleftrightarrow> cls = 0x0C \<and> sub = 0x03"

definition ehci_probe :: "(u32 \<Rightarrow> u32) \<Rightarrow> PciDevice option" where
  "ehci_probe port = find (\<lambda>d. is_ehci (pci_class d) (pci_subclass d)) (probe_bus0 port)"

definition ehci_init :: "(u32 \<Rightarrow> u32) \<Rightarrow> (u64 \<Rightarrow> u32) \<Rightarrow> serial_call list" where
  "ehci_init port reg32 =
     (case ehci_probe port of
        Some d \<Rightarrow> [WriteStr ''LIONOS_DRV_EHCI found=1 hcs='', WriteHex (ucast (reg32 (bar_addr port d 0 + 0x04)))]
      | None \<Rightarrow> [WriteStr ''LIONOS_DRV_EHCI ABSENT'']) @ [crlf]"

definition HPET_BASE :: u64 where
  "HPET_BASE = 0xFED00000"

definition hpet_version :: "u32 \<Rightarrow> u8" where
  "hpet_version cap = ucast (cap AND 0xFF)"

definition hpet_is_present :: "u32 \<Rightarrow> bool" where
  "hpet_is_present cap \<longleftrightarrow> cap AND 0x8000 \<noteq> 0"

definition hpet_init :: "(u64 \<Rightarrow> u32) \<Rightarrow> serial_call list" where
  "hpet_init reg32 =
     (if \<not> hpet_is_present (reg32 (HPET_BASE + 0x00)) then [WriteStr ''LIONOS_DRV_HPET ABSENT'', crlf]
      else [WriteStr ''LIONOS_DRV_HPET found=1 counter='', WriteHex (ucast (reg32 (HPET_BASE + 0xF0))), crlf])"

definition IOAPIC_BASE :: u32 where
  "IOAPIC_BASE = 0xFEC00000"

definition irq_cnt :: "u32 \<Rightarrow> u32" where
  "irq_cnt ver = (drop_bit 16 ver AND 0xFF) + 1"

text \<open>The version is read after its index was written to the select register.\<close>

definition ioapic_init :: "'d vdevice \<Rightarrow> 'd vworld \<Rightarrow> serial_call list \<times> 'd vworld" where
  "ioapic_init p w =
     (let w = mmio_write32 p (ucast IOAPIC_BASE + 0x00) 0x01 w;
          ver = mmio_read32 p (ucast IOAPIC_BASE + 0x10) w
      in ([WriteStr ''LIONOS_DRV_IOAPIC found=1 irqs='', WriteDec (ucast (irq_cnt ver)), WriteStr '' raw='', WriteHex (ucast ver), crlf], w))"

record VbeMode =
  vbe_width :: u16
  vbe_height :: u16
  vbe_bpp :: u16

definition VBE_DISPI_INDEX :: u16 where
  "VBE_DISPI_INDEX = 0x01CE"

definition VBE_DISPI_DATA :: u16 where
  "VBE_DISPI_DATA = 0x01CF"

definition cap_to_bpp :: "u16 \<Rightarrow> u16" where
  "cap_to_bpp x = x"

text \<open>The adapter is a state with 16-bit port accesses.\<close>

record 'v vbe_ports =
  vbe_outw :: "u16 \<Rightarrow> u16 \<Rightarrow> 'v \<Rightarrow> 'v"
  vbe_inw :: "u16 \<Rightarrow> 'v \<Rightarrow> u16 \<times> 'v"

definition vbe_read_reg :: "'v vbe_ports \<Rightarrow> u8 \<Rightarrow> 'v \<Rightarrow> u16 \<times> 'v" where
  "vbe_read_reg q idx v = vbe_inw q VBE_DISPI_DATA (vbe_outw q VBE_DISPI_INDEX (ucast idx) v)"

definition vbe_write_reg :: "'v vbe_ports \<Rightarrow> u8 \<Rightarrow> u16 \<Rightarrow> 'v \<Rightarrow> 'v" where
  "vbe_write_reg q idx x v = vbe_outw q VBE_DISPI_DATA x (vbe_outw q VBE_DISPI_INDEX (ucast idx) v)"

definition vbe_probe :: "'v vbe_ports \<Rightarrow> 'v \<Rightarrow> VbeMode option \<times> 'v" where
  "vbe_probe q v =
     (case vbe_read_reg q 0x00 v of (i, v) \<Rightarrow>
      if i \<noteq> 0xB0C0 then (None, v)
      else let v = vbe_write_reg q 0x04 0x0041 (vbe_write_reg q 0x03 24 (vbe_write_reg q 0x02 720 (vbe_write_reg q 0x01 1280 v))) in
      case vbe_read_reg q 0x01 v of (width, v) \<Rightarrow>
      if width = 0 then (None, v)
      else case vbe_read_reg q 0x02 v of (height, v) \<Rightarrow>
      case vbe_read_reg q 0x03 v of (bpp, v) \<Rightarrow>
      (Some \<lparr>vbe_width = width, vbe_height = height, vbe_bpp = bpp\<rparr>, v))"

definition vbe_init :: "'v vbe_ports \<Rightarrow> 'v \<Rightarrow> serial_call list \<times> 'v" where
  "vbe_init q v =
     (case vbe_probe q v of
        (Some m, v) \<Rightarrow> ([WriteStr ''LIONOS_DRV_VBE'', WriteStr '' found=1 w='', WriteDec (ucast (vbe_width m)), WriteStr '' h='',
           WriteDec (ucast (vbe_height m)), WriteStr '' bpp='', WriteDec (ucast (vbe_bpp m)), crlf], v)
      | (None, v) \<Rightarrow> ([WriteStr ''LIONOS_DRV_VBE'', WriteStr '' ABSENT'', crlf], v))"

section \<open>Reports on a volume\<close>

text \<open>The comma-separated names of a listing.\<close>

fun say_names :: "nat \<Rightarrow> DirEntry list \<Rightarrow> serial_call list" where
  "say_names k [] = []"
| "say_names k (e # es) = (if k > 0 then [WriteStr '', ''] else []) @ [say_bytes (display_name e)] @ say_names (Suc k) es"

definition say_listing :: "string \<Rightarrow> DirEntry list \<Rightarrow> serial_call list" where
  "say_listing marker entries =
     [WriteStr marker, WriteDec (word_of_nat (length entries)), WriteStr '' [''] @ say_names 0 entries @ [WriteStr '']'', crlf]"

definition say_read :: "string \<Rightarrow> string \<Rightarrow> bytes \<Rightarrow> bool \<times> bytes \<Rightarrow> serial_call list" where
  "say_read ok_marker err_marker name r =
     (case r of
        (True, got) \<Rightarrow> [WriteStr ok_marker, say_bytes name, WriteStr '' bytes='', WriteDec (word_of_nat (length got)), crlf]
      | (False, _) \<Rightarrow> [WriteStr err_marker, crlf])"

text \<open>
  \<open>probe0\<close> is what the driver answers for sector 0 with a zeroed buffer: the bytes are in the buffer
  even when the device reports an error.
\<close>

definition virtio_report :: "block_dev \<Rightarrow> bool \<times> bytes \<Rightarrow> serial_call list" where
  "virtio_report v probe0 =
     (case mount v of
        Inr f \<Rightarrow>
          [WriteStr ''LIONOS_FS_VIRTIO_OK'', crlf] @
          (case fs_ls f v [] of
             (True, entries) \<Rightarrow>
               say_listing ''LIONOS_FS_VIRTIO_LS count='' entries @
               (case find (\<lambda>e. \<not> de_is_dir e) entries of
                  Some e0 \<Rightarrow> say_read ''LIONOS_FS_VIRTIO_READ name='' ''LIONOS_FS_VIRTIO_READ_ERR'' (display_name e0) (read_path f v (display_name e0) [])
                | None \<Rightarrow> [])
           | (False, _) \<Rightarrow> [])
      | Inl _ \<Rightarrow>
          (case probe0 of (okr, buf512) \<Rightarrow>
              [WriteStr ''LIONOS_FS_VIRTIO_BAD_BPB read='', WriteDec (of_bool okr),
               WriteStr '' b00='', WriteHex (ucast (le32 buf512 0)), WriteStr '' sig='', WriteHex (ucast (le16 buf512 510)), crlf]))"

text \<open>The first four bytes of a file as a little-endian number.\<close>

definition file_head :: "bytes \<Rightarrow> u32" where
  "file_head data = foldl (\<lambda>h (i, b). h OR push_bit (8 * i) (ucast b)) 0 (enumerate 0 (take 4 data))"

definition say_sub :: "Fs \<Rightarrow> block_dev \<Rightarrow> DirEntry \<Rightarrow> serial_call list" where
  "say_sub f disk dir =
     (let dirname = display_name dir in
      case ls_path f disk dirname [] of
        (True, sub) \<Rightarrow>
          [WriteStr ''LIONOS_FS_LS_SUB dir='', say_bytes dirname, WriteStr '' count='', WriteDec (word_of_nat (length sub)), crlf] @
          (case find (\<lambda>e. \<not> de_is_dir e) sub of
             Some inner \<Rightarrow>
               (let path = dirname @ [0x2F] @ display_name inner
                in say_read ''LIONOS_FS_READ_SUB name='' ''LIONOS_FS_READ_SUB_ERR'' path (read_path f disk path []))
           | None \<Rightarrow> [])
      | (False, _) \<Rightarrow> [WriteStr ''LIONOS_FS_LS_SUB_ERR'', crlf])"

definition say_chain :: "Fs \<Rightarrow> block_dev \<Rightarrow> DirEntry \<Rightarrow> serial_call list" where
  "say_chain f disk e0 =
     (case fs_read f disk (de_cluster e0) (de_size e0) [] of
        (True, data) \<Rightarrow> [WriteStr ''LIONOS_FS_READ name='', say_bytes (display_name e0), WriteStr '' bytes='',
           WriteDec (word_of_nat (length data)), WriteStr '' head='', WriteHex (ucast (file_head data)), crlf]
      | (False, _) \<Rightarrow> [WriteStr ''LIONOS_FS_READ_ERR'', crlf])"

text \<open>What is said of a mounted disk, and the number of entries when the listing succeeded.\<close>

definition mounted_report :: "nat \<Rightarrow> Fs \<Rightarrow> block_dev \<Rightarrow> serial_call list \<times> nat option" where
  "mounted_report i f disk =
     (case fs_ls f disk [] of
        (True, entries) \<Rightarrow>
          ([WriteStr ''LIONOS_FS_OK disk='', WriteDec (word_of_nat i), crlf]
           @ say_listing ''LIONOS_FS_LS count='' entries
           @ (case find (\<lambda>e. \<not> de_is_dir e) entries of
                Some file \<Rightarrow> say_read ''LIONOS_FS_READ_PATH name='' ''LIONOS_FS_READ_PATH_ERR'' (display_name file) (read_path f disk (display_name file) [])
              | None \<Rightarrow> [])
           @ (case find de_is_dir entries of Some dir \<Rightarrow> say_sub f disk dir | None \<Rightarrow> [])
           @ (case find (\<lambda>e. \<not> de_is_dir e) entries of Some e0 \<Rightarrow> say_chain f disk e0 | None \<Rightarrow> []),
           Some (length entries))
      | (False, _) \<Rightarrow>
          ([WriteStr ''LIONOS_FS_OK disk='', WriteDec (word_of_nat i), crlf, WriteStr ''LIONOS_FS_LS_ERR'', crlf], None))"

fun mount_first :: "nat \<Rightarrow> block_dev list \<Rightarrow> nat \<Rightarrow> serial_call list \<times> nat" where
  "mount_first i [] files = ([WriteStr ''LIONOS_FS_NONE_MOUNTED'', crlf], files)"
| "mount_first i (disk # disks) files =
     (case mount disk of
        Inr f \<Rightarrow> (case mounted_report i f disk of (cs, n) \<Rightarrow> (cs, case n of Some n \<Rightarrow> n | None \<Rightarrow> files))
      | Inl _ \<Rightarrow> (case mount_first (Suc i) disks files of (cs, n) \<Rightarrow> ([WriteStr ''LIONOS_FS_BAD_BPB'', crlf] @ cs, n)))"

definition disk_report :: "block_dev list \<Rightarrow> nat \<Rightarrow> serial_call list \<times> nat" where
  "disk_report disks files =
     (if disks = [] then ([WriteStr ''LIONOS_DRV_IDE ABSENT'', crlf], files)
      else case mount_first 0 disks files of (cs, n) \<Rightarrow>
        ([WriteStr ''LIONOS_DRV_IDE disks='', WriteDec (word_of_nat (length disks)), crlf] @ cs, n))"

section \<open>All drivers\<close>

record ('d, 'i, 'v) drv_world =
  dw_virtio :: "'d vworld"
  dw_ata :: 'i
  dw_vbe :: 'v
  dw_vga :: vga_state
  dw_face :: face_state
  dw_ports :: "(u16 \<times> u8) list"
  dw_ps2 :: "ps2_step list"
  LAST_FS_FILES :: nat
  dw_log :: "serial_call list"

text \<open>What the hardware answers.\<close>

record ('d, 'i, 'v) hardware =
  hw_pci :: "u32 \<Rightarrow> u32"
  hw_cmos :: "nat \<Rightarrow> u8 \<Rightarrow> u8"
  hw_gate :: "u8 \<times> u8"
  hw_ps2_cfg :: u8
  hw_mmio :: "'d vdevice"
  hw_ata :: "'i ports"
  hw_vbe :: "'v vbe_ports"
  hw_inb :: "u16 \<Rightarrow> u8"
  hw_inw :: "u16 \<Rightarrow> u16"

definition say_drv :: "serial_call list \<Rightarrow> ('d, 'i, 'v) drv_world \<Rightarrow> ('d, 'i, 'v) drv_world" where
  "say_drv cs s = s\<lparr>dw_log := dw_log s @ cs\<rparr>"

definition rtc_report :: "(nat \<Rightarrow> u8 \<Rightarrow> u8) \<Rightarrow> serial_call list" where
  "rtc_report cmos =
     (case read_datetime cmos of (y, mo, d, h, mi, sec) \<Rightarrow>
      [WriteStr ''LIONOS_DRV_RTC 20'', WriteDec (ucast y), WriteStr ''-'', WriteDec (ucast mo), WriteStr ''-'', WriteDec (ucast d),
       WriteStr '' '', WriteDec (ucast h), WriteStr '':'', WriteDec (ucast mi), WriteStr '':'', WriteDec (ucast sec), crlf])"

text \<open>The banner of the VGA console; its dash is one character.\<close>

definition VGA_BANNER :: codepoints where
  "VGA_BANNER = map (\<lambda>c. of_char c) ''LionOS v0.2.0 '' @ [0x2014] @ map (\<lambda>c. of_char c) '' VGA text mode''"

definition face_report :: "face_state \<Rightarrow> serial_call list \<times> face_state" where
  "face_report s =
     (let idt = 0x4C494F4E4F532026;
          s = register_identity idt s;
          auth = verify idt s;
          deny = \<not> verify 0xDEADBEEF0000DEAD s
      in ([WriteStr ''LIONOS_DRV_FACEID auth='', WriteDec (of_bool auth), WriteStr '' deny='', WriteDec (of_bool deny), crlf], s))"

definition early_drivers :: "('d, 'i, 'v) hardware \<Rightarrow> ('d, 'i, 'v) drv_world \<Rightarrow> ('d, 'i, 'v) drv_world" where
  "early_drivers hw s =
     (let s = say_drv (rtc_report (hw_cmos hw)) s;
          s = say_drv [WriteStr ''LIONOS_DRV_PCI devs='', WriteDec (word_of_nat (length (probe_bus0 (hw_pci hw)))), crlf] s;
          s = s\<lparr>dw_vga := write_str_at 0 0 VGA_BANNER 0x0A (vga_clear 0x07 (dw_vga s))\<rparr>;
          s = say_drv [WriteStr ''LIONOS_DRV_VGA ok'', crlf] s;
          s = s\<lparr>dw_ports := dw_ports s @ beep 800 (fst (hw_gate hw)) (snd (hw_gate hw))\<rparr>;
          s = say_drv [WriteStr ''LIONOS_DRV_SPEAKER ok'', crlf] s;
          s = say_drv [WriteStr ''LIONOS_DRV_KBD decode_a='', WriteDec (case key_decode 0x1E False of Some c \<Rightarrow> ucast c | None \<Rightarrow> 0), crlf] s;
          s = s\<lparr>dw_ps2 := dw_ps2 s @ mouse_init (hw_ps2_cfg hw)\<rparr>;
          s = say_drv [WriteStr ''LIONOS_DRV_MOUSE armed'', crlf] s
      in case face_report (dw_face s) of (cs, f) \<Rightarrow> say_drv cs (s\<lparr>dw_face := f\<rparr>))"

definition late_drivers :: "('d, 'i, 'v) hardware \<Rightarrow> ('d, 'i, 'v) drv_world \<Rightarrow> ('d, 'i, 'v) drv_world" where
  "late_drivers hw s =
     (let port = hw_pci hw;
          reg32 = (\<lambda>a. mmio_read32 (hw_mmio hw) a (dw_virtio s));
          s = say_drv (ahci_init port reg32 @ nvme_init port reg32 @ e1000_init port reg32 @ rtl8139_init port reg32 (hw_inb hw)
                @ uhci_init port (hw_inw hw) @ ehci_init port reg32 @ hpet_init reg32) s
      in case ioapic_init (hw_mmio hw) (dw_virtio s) of (cs, w) \<Rightarrow>
         let s = say_drv cs (s\<lparr>dw_virtio := w\<rparr>)
         in case vbe_init (hw_vbe hw) (dw_vbe s) of (cs, v) \<Rightarrow> say_drv cs (s\<lparr>dw_vbe := v\<rparr>))"

text \<open>
  \<open>None\<close>: the walk over the capability list of a virtio device never ends.  The file system reads
  through the driver as it is after probing; that later reads find the same is what the theorems
  on the two drivers say.
\<close>

definition init_all :: "('d, 'i, 'v) hardware \<Rightarrow> ('d, 'i, 'v) drv_world \<Rightarrow> ('d, 'i, 'v) drv_world option" where
  "init_all hw s =
     (let s = early_drivers hw s in
      case virtio_probe (hw_pci hw) (hw_mmio hw) (dw_virtio s) of None \<Rightarrow> None
      | Some (v, w) \<Rightarrow>
          let s = s\<lparr>dw_virtio := w\<rparr>;
              s = say_drv (case v of
                    Some v \<Rightarrow> [WriteStr ''LIONOS_DRV_VIRTIO found=1'', crlf] @ virtio_report (virtio_sector (hw_mmio hw) v w) (fst (xfer (hw_mmio hw) v 0 (replicate 512 0) w))
                  | None \<Rightarrow> [WriteStr ''LIONOS_DRV_VIRTIO ABSENT'', crlf]) s
          in case probe_all (hw_ata hw) (dw_ata s) of (disks, d) \<Rightarrow>
             let s = s\<lparr>dw_ata := d\<rparr> in
             case disk_report (map (\<lambda>disk. ata_sector (hw_ata hw) disk d) disks) (LAST_FS_FILES s) of
               (cs, n) \<Rightarrow> Some (late_drivers hw (say_drv cs (s\<lparr>LAST_FS_FILES := n\<rparr>))))"

section \<open>The capability walk\<close>

text \<open>A capability that names itself as the next one keeps the driver in its loop.\<close>

lemma caps_loop_self:
  assumes "cp \<noteq> 0" "cfg8 port d (cp + 1) = cp"
  shows "caps_loop port d cp c = None"
proof (rule ccontr)
  assume "caps_loop port d cp c \<noteq> None"
  then obtain r where "caps_loop port d cp c = Some r"
    by blast
  then have "cp \<noteq> 0 \<longrightarrow> cfg8 port d (cp + 1) = cp \<longrightarrow> False"
  proof (rule caps_loop.raw_induct [rotated])
    fix f port d cp c y
    assume ih: "\<And>port d cp c y. f port d cp c = Some y \<Longrightarrow> cp \<noteq> 0 \<longrightarrow> cfg8 port d (cp + 1) = cp \<longrightarrow> False"
      and "(if cp = 0 then Some c else f port d (cfg8 port d (cp + 1)) (cap_found port d cp c)) = Some y"
    then show "cp \<noteq> 0 \<longrightarrow> cfg8 port d (cp + 1) = cp \<longrightarrow> False"
      by (metis option.distinct(1))
  qed
  then show False
    using assms by simp
qed

text \<open>A list whose pointers grow ends.\<close>

lemma caps_loop_ends:
  assumes "\<And>cp. cp \<noteq> 0 \<Longrightarrow> cfg8 port d (cp + 1) = 0 \<or> cp < cfg8 port d (cp + 1)"
  shows "caps_loop port d cp c \<noteq> None"
proof (induction "256 - unat cp" arbitrary: cp c rule: less_induct)
  case less
  show ?case
  proof (cases "cp = 0 \<or> cfg8 port d (cp + 1) = 0")
    case True
    then show ?thesis
      by (subst caps_loop.simps) (auto simp: caps_loop.simps [of _ _ 0] simp del: not_None_eq)
  next
    case False
    then have "unat cp < unat (cfg8 port d (cp + 1))"
      using assms by (auto simp: word_less_nat_alt)
    moreover have "unat (cfg8 port d (cp + 1)) < 256"
      using unat_bound [of "cfg8 port d (cp + 1)"] by simp
    ultimately have "caps_loop port d (cfg8 port d (cp + 1)) (cap_found port d cp c) \<noteq> None"
      by (intro less) simp
    then show ?thesis
      using False by (subst caps_loop.simps) simp
  qed
qed

section \<open>After all drivers ran\<close>

text \<open>The number of entries of the root directory of the first disk that mounts, if it can be listed.\<close>

definition first_volume_files :: "block_dev list \<Rightarrow> nat option" where
  "first_volume_files disks =
     (case find (\<lambda>d. \<exists>f. mount d = Inr f) disks of
        None \<Rightarrow> None
      | Some d \<Rightarrow> (case mount d of Inl _ \<Rightarrow> None
          | Inr f \<Rightarrow> (case fs_ls f d [] of (True, es) \<Rightarrow> Some (length es) | (False, _) \<Rightarrow> None)))"

lemma mount_first_files:
  "snd (mount_first i disks files) = (case first_volume_files disks of Some n \<Rightarrow> n | None \<Rightarrow> files)"
proof (induction disks arbitrary: i)
  case (Cons d ds)
  show ?case
  proof (cases "mount d")
    case (Inl e)
    then show ?thesis
      using Cons.IH [of "Suc i"] by (simp add: first_volume_files_def case_prod_beta)
  next
    case (Inr f)
    then show ?thesis
      by (auto simp: first_volume_files_def mounted_report_def split: prod.splits bool.splits)
  qed
qed (simp add: first_volume_files_def)

lemma disk_report_files:
  "snd (disk_report disks files) = (case first_volume_files disks of Some n \<Rightarrow> n | None \<Rightarrow> files)"
  using mount_first_files [of 0 disks files] by (auto simp: disk_report_def first_volume_files_def split: prod.splits)

lemma early_drivers_state:
  "dw_virtio (early_drivers hw s) = dw_virtio s" "dw_ata (early_drivers hw s) = dw_ata s"
  "LAST_FS_FILES (early_drivers hw s) = LAST_FS_FILES s"
  "dw_face (early_drivers hw s) = register_identity 0x4C494F4E4F532026 (dw_face s)"
  by (simp_all add: early_drivers_def say_drv_def face_report_def Let_def split: prod.splits)

lemma late_drivers_state:
  "LAST_FS_FILES (late_drivers hw s) = LAST_FS_FILES s" "dw_face (late_drivers hw s) = dw_face s"
  "dw_ata (late_drivers hw s) = dw_ata s"
  by (simp_all add: late_drivers_def say_drv_def Let_def split: prod.splits)


text \<open>A machine with an empty PCI bus, no drive and no display adapter.\<close>

definition bare_hardware :: "(unit, unit, unit) hardware" where
  "bare_hardware = \<lparr>hw_pci = (\<lambda>_. 0xFFFFFFFF), hw_cmos = (\<lambda>_ _. 0), hw_gate = (0, 3), hw_ps2_cfg = 0x61,
     hw_mmio = \<lparr>mm_rd8 = (\<lambda>_ _. 0), mm_rd16 = (\<lambda>_ _. 0), mm_rd32 = (\<lambda>_ _. 0), mm_wr8 = (\<lambda>_ _ w. w), mm_wr16 = (\<lambda>_ _ w. w),
       mm_wr32 = (\<lambda>_ _ w. w), dev_step = (\<lambda>w. w)\<rparr>,
     hw_ata = \<lparr>port_outb = (\<lambda>_ _ d. d), port_inb = (\<lambda>_ d. (0, d)), port_inw = (\<lambda>_ d. (0, d))\<rparr>,
     hw_vbe = \<lparr>vbe_outw = (\<lambda>_ _ v. v), vbe_inw = (\<lambda>_ v. (0, v))\<rparr>, hw_inb = (\<lambda>_. 0), hw_inw = (\<lambda>_. 0)\<rparr>"

definition bare_drivers :: "(unit, unit, unit) drv_world" where
  "bare_drivers = \<lparr>dw_virtio = \<lparr>vmem = (\<lambda>_. 0), vdev = (), vframes = frames_empty, window_live = True, vlog = []\<rparr>,
     dw_ata = (), dw_vbe = (), dw_vga = \<lparr>vga_cells = (\<lambda>_. 0), CURSOR_COL = 0, CURSOR_ROW = 0\<rparr>,
     dw_face = \<lparr>STORED = 0, ENROLLED = False\<rparr>, dw_ports = [], dw_ps2 = [], LAST_FS_FILES = 0, dw_log = []\<rparr>"

lemma bare_bus: "probe_bus0 (hw_pci bare_hardware) = []"
proof -
  have "probe_slot (hw_pci bare_hardware) slot = []" for slot
    by (simp add: probe_slot_def bare_hardware_def config_read_def is_present_def)
  then show ?thesis
    by (simp add: probe_bus0_def)
qed

lemma bare_identify: "identify (hw_ata bare_hardware) base () = (None, ())"
proof -
  have "wait_bs_loop (hw_ata bare_hardware) base n () = (True, ())" if "0 < n" for n
    using that by (cases n) (simp_all add: bare_hardware_def STATUS_BSY_def)
  then have "wait_bs (hw_ata bare_hardware) base () = (True, ())"
    by (simp add: wait_bs_def)
  then show ?thesis
    by (simp add: identify_def Let_def) (simp add: bare_hardware_def STATUS_DRQ_def)
qed


end
