(* ===== verification/C_Support.thy ===== *)
theory C_Support
  imports Serial Byte_Memory
begin

text \<open>
  The routines in C (\<open>src/kernel/c/support.c\<close>, \<open>src/kernel/c/string_utils.c\<close>) and their bindings in
  \<open>src/kernel/src/ffi.rs\<close>, over byte-addressed memory.  A C loop that counts down is a recursion on the
  count, one that runs until a NUL byte is a partial function.  Signed results are integers: they
  are differences of two bytes.  The theorems say what every routine does to memory, overlapping
  regions included.
\<close>

unbundle bit_operations_syntax

section \<open>Memory routines\<close>

fun set_loop :: "nat \<Rightarrow> u64 \<Rightarrow> u8 \<Rightarrow> (u64 \<Rightarrow> u8) \<Rightarrow> u64 \<Rightarrow> u8" where
  "set_loop 0 d c m = m"
| "set_loop (Suc n) d c m = set_loop n (d + 1) c (m(d := c))"

fun copy_up :: "nat \<Rightarrow> u64 \<Rightarrow> u64 \<Rightarrow> (u64 \<Rightarrow> u8) \<Rightarrow> u64 \<Rightarrow> u8" where
  "copy_up 0 d s m = m"
| "copy_up (Suc n) d s m = copy_up n (d + 1) (s + 1) (m(d := m s))"

fun copy_down :: "nat \<Rightarrow> u64 \<Rightarrow> u64 \<Rightarrow> (u64 \<Rightarrow> u8) \<Rightarrow> u64 \<Rightarrow> u8" where
  "copy_down 0 d s m = m"
| "copy_down (Suc n) d s m = copy_down n (d - 1) (s - 1) (m(d - 1 := m (s - 1)))"

definition lion_memset :: "u64 \<Rightarrow> u32 \<Rightarrow> u64 \<Rightarrow> (u64 \<Rightarrow> u8) \<Rightarrow> u64 \<times> (u64 \<Rightarrow> u8)" where
  "lion_memset dst c n m = (dst, set_loop (unat n) dst (ucast c) m)"

definition lion_memcpy :: "u64 \<Rightarrow> u64 \<Rightarrow> u64 \<Rightarrow> (u64 \<Rightarrow> u8) \<Rightarrow> u64 \<times> (u64 \<Rightarrow> u8)" where
  "lion_memcpy dst src n m = (dst, copy_up (unat n) dst src m)"

fun cmp_loop :: "nat \<Rightarrow> u64 \<Rightarrow> u64 \<Rightarrow> (u64 \<Rightarrow> u8) \<Rightarrow> int" where
  "cmp_loop 0 x y m = 0"
| "cmp_loop (Suc n) x y m =
     (let d = int (unat (m x)) - int (unat (m y)) in if d \<noteq> 0 then d else cmp_loop n (x + 1) (y + 1) m)"

definition lion_memcmp :: "u64 \<Rightarrow> u64 \<Rightarrow> u64 \<Rightarrow> (u64 \<Rightarrow> u8) \<Rightarrow> int" where
  "lion_memcmp a b n m = cmp_loop (unat n) a b m"

definition lion_memmove :: "u64 \<Rightarrow> u64 \<Rightarrow> u64 \<Rightarrow> (u64 \<Rightarrow> u8) \<Rightarrow> u64 \<times> (u64 \<Rightarrow> u8)" where
  "lion_memmove dst src n m =
     (dst, if dst < src \<or> dst \<ge> src + n then copy_up (unat n) dst src m
           else copy_down (unat n) (dst + n) (src + n) m)"

section \<open>String routines\<close>

partial_function (option) strlen_loop :: "u64 \<Rightarrow> u64 \<Rightarrow> (u64 \<Rightarrow> u8) \<Rightarrow> u64 option" where
  "strlen_loop s n m = (if m s \<noteq> 0 then strlen_loop (s + 1) (n + 1) m else Some n)"

definition lionos_strlen :: "u64 \<Rightarrow> (u64 \<Rightarrow> u8) \<Rightarrow> u64 option" where
  "lionos_strlen s m = strlen_loop s 0 m"

partial_function (option) lionos_strcmp :: "u64 \<Rightarrow> u64 \<Rightarrow> (u64 \<Rightarrow> u8) \<Rightarrow> int option" where
  "lionos_strcmp a b m =
     (if m a \<noteq> 0 \<and> m a = m b then lionos_strcmp (a + 1) (b + 1) m
      else Some (int (unat (m a)) - int (unat (m b))))"

partial_function (option) strcpy_loop :: "u64 \<Rightarrow> u64 \<Rightarrow> (u64 \<Rightarrow> u8) \<Rightarrow> (u64 \<Rightarrow> u8) option" where
  "strcpy_loop d s m =
     (if m s \<noteq> 0 then strcpy_loop (d + 1) (s + 1) (m(d := m s)) else Some (m(d := m s)))"

definition lionos_strcpy :: "u64 \<Rightarrow> u64 \<Rightarrow> (u64 \<Rightarrow> u8) \<Rightarrow> (u64 \<times> (u64 \<Rightarrow> u8)) option" where
  "lionos_strcpy dst src m = map_option (\<lambda>m. (dst, m)) (strcpy_loop dst src m)"

definition lionos_itoa_hex :: "u64 \<Rightarrow> u64 \<Rightarrow> (u64 \<Rightarrow> u8) \<Rightarrow> u64 \<Rightarrow> u8" where
  "lionos_itoa_hex val buf m =
     (let m = m(buf := 0x30, buf + 1 := 0x78);
          m = foldl (\<lambda>m i. m(buf + word_of_nat (2 + i) := HEX ! unat (drop_bit (60 - 4 * i) val AND 0xF))) m [0..<16]
      in m(buf + 18 := 0))"

section \<open>Bindings\<close>

definition memset :: "u64 \<Rightarrow> u8 \<Rightarrow> u64 \<Rightarrow> (u64 \<Rightarrow> u8) \<Rightarrow> u64 \<Rightarrow> u8" where
  "memset dst val len m = snd (lion_memset dst (ucast val) len m)"

definition memcpy :: "u64 \<Rightarrow> u64 \<Rightarrow> u64 \<Rightarrow> (u64 \<Rightarrow> u8) \<Rightarrow> u64 \<Rightarrow> u8" where
  "memcpy dst src len m = snd (lion_memcpy dst src len m)"

definition memcmp :: "u64 \<Rightarrow> u64 \<Rightarrow> u64 \<Rightarrow> (u64 \<Rightarrow> u8) \<Rightarrow> int" where
  "memcmp a b len m = lion_memcmp a b len m"

definition memmove :: "u64 \<Rightarrow> u64 \<Rightarrow> u64 \<Rightarrow> (u64 \<Rightarrow> u8) \<Rightarrow> u64 \<times> (u64 \<Rightarrow> u8)" where
  "memmove dst src len m = lion_memmove dst src len m"

definition strlen_c :: "u64 \<Rightarrow> (u64 \<Rightarrow> u8) \<Rightarrow> u64 option" where
  "strlen_c s m = lionos_strlen s m"

definition strcmp_c :: "u64 \<Rightarrow> u64 \<Rightarrow> (u64 \<Rightarrow> u8) \<Rightarrow> int option" where
  "strcmp_c a b m = lionos_strcmp a b m"

definition strcpy_c :: "u64 \<Rightarrow> u64 \<Rightarrow> (u64 \<Rightarrow> u8) \<Rightarrow> (u64 \<times> (u64 \<Rightarrow> u8)) option" where
  "strcpy_c dst src m = lionos_strcpy dst src m"

definition itoa_hex :: "u64 \<Rightarrow> u64 \<Rightarrow> (u64 \<Rightarrow> u8) \<Rightarrow> u64 \<Rightarrow> u8" where
  "itoa_hex val buf m = lionos_itoa_hex val buf m"

section \<open>Copying\<close>

lemma set_loop_eq:
  "n < 2 ^ 64 \<Longrightarrow> set_loop n d c m = put_bytes d (replicate n c) m"
proof (induction n arbitrary: d m)
  case (Suc n)
  then show ?case
    using put_bytes_Cons [of "replicate n c"] by simp
qed simp

lemma unat_plus_one: "unat (p :: u64) + 1 < 2 ^ 64 \<Longrightarrow> unat (p + 1) = unat p + 1"
  using unat_offset [of p 1] by simp

text \<open>Copying upwards is right unless the destination starts inside the source, after its first byte.\<close>

lemma copy_up_eq:
  assumes "n < 2 ^ 64" "unat d + n \<le> 2 ^ 64" "unat s + n \<le> 2 ^ 64" "unat d \<le> unat s \<or> unat s + n \<le> unat d"
  shows "copy_up n d s m = put_bytes d (get_bytes s n m) m"
  using assms
proof (induction n arbitrary: d s m)
  case (Suc n)
  have keep: "get_bytes (s + 1) n (m(d := m s)) = get_bytes (s + 1) n m"
  proof (rule get_bytes_upd)
    fix k
    assume "k < n"
    then have "unat (s + word_of_nat (Suc k)) = unat s + Suc k"
      using Suc.prems(3) by (intro unat_offset) linarith
    moreover have "unat s + Suc k \<noteq> unat d"
      using Suc.prems(4) \<open>k < n\<close> by linarith
    ultimately show "s + 1 + word_of_nat k \<noteq> d"
      by (auto simp: add.assoc)
  qed
  have "copy_up n (d + 1) (s + 1) (m(d := m s)) = put_bytes (d + 1) (get_bytes (s + 1) n (m(d := m s))) (m(d := m s))"
  proof (cases "n = 0")
    case False
    then have "unat (d + 1) = unat d + 1" "unat (s + 1) = unat s + 1"
      using Suc.prems(2,3) by (simp_all add: unat_plus_one)
    then show ?thesis
      using Suc.prems by (intro Suc.IH) linarith+
  qed (simp add: get_bytes_def)
  then show ?case
    using Suc.prems(1) by (simp add: keep get_bytes_Suc put_bytes_Cons)
qed (simp add: get_bytes_def)

lemma copy_down_eq:
  assumes "n < 2 ^ 64" "unat d + n \<le> 2 ^ 64" "unat s + n \<le> 2 ^ 64" "unat s \<le> unat d \<or> unat d + n \<le> unat s"
  shows "copy_down n (d + word_of_nat n) (s + word_of_nat n) m = put_bytes d (get_bytes s n m) m"
  using assms
proof (induction n arbitrary: m)
  case (Suc n)
  let ?m = "m(d + word_of_nat n := m (s + word_of_nat n))"
  have keep: "get_bytes s n ?m = get_bytes s n m"
  proof (rule get_bytes_upd)
    fix k
    assume "k < n"
    then have "unat (s + word_of_nat k) = unat s + k" "unat (d + word_of_nat n) = unat d + n"
      using Suc.prems(2,3) by (auto intro!: unat_offset)
    moreover have "unat s + k \<noteq> unat d + n"
      using Suc.prems(4) \<open>k < n\<close> by linarith
    ultimately show "s + word_of_nat k \<noteq> d + word_of_nat n"
      by auto
  qed
  have "copy_down n (d + word_of_nat n) (s + word_of_nat n) ?m = put_bytes d (get_bytes s n ?m) ?m"
    using Suc.prems by (intro Suc.IH) linarith+
  then show ?case
    using Suc.prems(1) keep put_bytes_snoc [of "get_bytes s n m" d "m (s + word_of_nat n)" m] by (simp add: get_bytes_snoc algebra_simps)
qed (simp add: get_bytes_def)

lemma memcpy_eq:
  assumes "unat dst + unat n \<le> 2 ^ 64" "unat src + unat n \<le> 2 ^ 64" "dst \<le> src \<or> unat src + unat n \<le> unat dst"
  shows "memcpy dst src n m = put_bytes dst (get_bytes src (unat n) m) m" "copy_up (unat n) dst src m = put_bytes dst (get_bytes src (unat n) m) m"
  using assms unat_bound [of n] copy_up_eq [of "unat n" dst src m] by (auto simp: memcpy_def lion_memcpy_def word_le_nat_alt)

lemma memmove_eq:
  assumes "unat dst + unat n \<le> 2 ^ 64" "unat src + unat n \<le> 2 ^ 64"
  shows "memmove dst src n m = (dst, put_bytes dst (get_bytes src (unat n) m) m)"
proof (cases "dst < src \<or> dst \<ge> src + n")
  case True
  have "dst \<le> src \<or> unat src + unat n \<le> unat dst"
  proof (cases "dst \<le> src")
    case False
    then have "src + n \<le> dst" "unat src < unat dst"
      using True by (auto simp: word_le_nat_alt word_less_nat_alt)
    moreover have "unat src + unat n < 2 ^ 64"
      using assms(1) \<open>unat src < unat dst\<close> by linarith
    ultimately show ?thesis
      by (auto simp: word_le_nat_alt unat_add_small)
  qed simp
  then show ?thesis
    using True memcpy_eq(2) [OF assms] by (simp add: memmove_def lion_memmove_def)
next
  case False
  then show ?thesis
    using copy_down_eq [of "unat n" dst src m] assms unat_bound [of n]
    by (simp add: memmove_def lion_memmove_def word_less_nat_alt)
qed

text \<open>
  C36: \<open>memmove\<close> replaces the bytes at the destination by the bytes that were at the source and changes
  no other byte, whether or not the two regions overlap and in whichever direction; \<open>memcpy\<close>
  does the same except when the destination starts inside the source after its first byte.
\<close>

theorem memmove_correct:
  assumes "unat dst + unat n \<le> 2 ^ 64" "unat src + unat n \<le> 2 ^ 64"
  shows "memmove dst src n m = (dst, put_bytes dst (get_bytes src (unat n) m) m)
    \<and> (dst \<le> src \<or> unat src + unat n \<le> unat dst \<longrightarrow> memcpy dst src n m = put_bytes dst (get_bytes src (unat n) m) m)"
  using memmove_eq [OF assms] memcpy_eq(1) [OF assms] by blast

theorem memmove_correct_witness:
  "memmove 1002 1000 4 (\<lambda>a. ucast a) = (1002, put_bytes 1002 [0xE8, 0xE9, 0xEA, 0xEB] (\<lambda>a. ucast a))"
proof -
  have "get_bytes 1000 4 (\<lambda>a. ucast a) = [0xE8, 0xE9, 0xEA, 0xEB]"
    by (simp add: get_bytes_def upt_rec)
  then show ?thesis
    using memmove_correct [of 1002 4 1000 "\<lambda>a. ucast a"] by simp
qed

section \<open>Comparing\<close>

definition three_way :: "int \<Rightarrow> bytes \<Rightarrow> bytes \<Rightarrow> bool" where
  "three_way d xs ys \<longleftrightarrow> (d = 0 \<longleftrightarrow> xs = ys) \<and> (d < 0 \<longleftrightarrow> ord_class.lexordp xs ys)"

lemma uint_byte [simp]:
  "uint (x :: u8) = uint y \<longleftrightarrow> x = y" "uint (x :: u8) < uint y \<longleftrightarrow> x < y" "uint (x :: u8) = 0 \<longleftrightarrow> x = 0" "0 < uint (x :: u8) \<longleftrightarrow> 0 < x"
  by (simp_all add: word_less_def word_eq_iff_unsigned [where ?'a = int])

lemma memcmp_correct: "three_way (memcmp a b n m) (get_bytes a (unat n) m) (get_bytes b (unat n) m)"
proof -
  have "three_way (cmp_loop k a b m) (get_bytes a k m) (get_bytes b k m)" for k
  proof (induction k arbitrary: a b)
    case (Suc k)
    then show ?case
      by (auto simp: three_way_def get_bytes_Suc Let_def)
  qed (simp add: three_way_def get_bytes_def)
  then show ?thesis
    by (simp add: memcmp_def lion_memcmp_def)
qed

section \<open>Strings\<close>

text \<open>The bytes before the NUL byte at an address.\<close>

fun cstring :: "(u64 \<Rightarrow> u8) \<Rightarrow> u64 \<Rightarrow> bytes \<Rightarrow> bool" where
  "cstring m s [] \<longleftrightarrow> m s = 0"
| "cstring m s (b # bs) \<longleftrightarrow> m s = b \<and> b \<noteq> 0 \<and> cstring m (s + 1) bs"

lemma strlen_correct: "cstring m s bs \<Longrightarrow> strlen_c s m = Some (word_of_nat (length bs))"
proof -
  have "cstring m s bs \<Longrightarrow> strlen_loop s n m = Some (n + word_of_nat (length bs))" for n
  proof (induction bs arbitrary: s n)
    case (Cons b bs)
    then show ?case
      by (subst strlen_loop.simps) (simp add: algebra_simps)
  qed (simp add: strlen_loop.simps)
  then show "cstring m s bs \<Longrightarrow> strlen_c s m = Some (word_of_nat (length bs))"
    by (simp add: strlen_c_def lionos_strlen_def)
qed

lemma strcmp_correct:
  assumes "cstring m a xs" "cstring m b ys"
  shows "\<exists>d. strcmp_c a b m = Some d \<and> three_way d xs ys"
  using assms unfolding strcmp_c_def
proof (induction xs arbitrary: a b ys)
  case Nil
  then show ?case
    by (cases ys) (auto simp: lionos_strcmp.simps three_way_def word_gt_0)
next
  case (Cons x xs)
  show ?case
  proof (cases ys)
    case Nil
    then show ?thesis
      using Cons.prems by (auto simp: lionos_strcmp.simps three_way_def)
  next
    case (Cons y ys')
    then show ?thesis
      using Cons.prems Cons.IH [of "a + 1" "b + 1" ys']
      by (subst lionos_strcmp.simps) (auto simp: three_way_def)
  qed
qed

lemma cstring_upd:
  "(\<And>k. k \<le> length bs \<Longrightarrow> s + word_of_nat k \<noteq> d) \<Longrightarrow> cstring (m(d := b)) s bs \<longleftrightarrow> cstring m s bs"
proof (induction bs arbitrary: s)
  case Nil
  then show ?case
    using Nil [of 0] by auto
next
  case (Cons x xs)
  have "s \<noteq> d"
    using Cons.prems [of 0] by simp
  moreover have "s + 1 + word_of_nat k \<noteq> d" if "k \<le> length xs" for k
    using Cons.prems [of "Suc k"] that by (simp add: algebra_simps)
  ultimately show ?case
    using Cons.IH [of "s + 1"] by simp
qed

text \<open>Copying a string moves its bytes and the NUL byte, and returns.\<close>

lemma strcpy_loop_eq:
  assumes "cstring m s bs" "unat s + Suc (length bs) \<le> 2 ^ 64" "unat d + Suc (length bs) \<le> 2 ^ 64"
    and "unat d \<le> unat s \<or> unat s + Suc (length bs) \<le> unat d"
  shows "strcpy_loop d s m = Some (put_bytes d (bs @ [0]) m)"
  using assms
proof (induction bs arbitrary: d s m)
  case Nil
  then show ?case
    using put_bytes_Cons [of "[]" d 0 m] by (simp add: strcpy_loop.simps fun_upd_def)
next
  case (Cons b bs)
  have step: "unat (s + 1) = unat s + 1" "unat (d + 1) = unat d + 1"
    using Cons.prems(2,3) by (simp_all add: unat_plus_one)
  have "cstring (m(d := b)) (s + 1) bs"
  proof (subst cstring_upd)
    fix k
    assume k: "k \<le> length bs"
    then have "unat (s + word_of_nat (Suc k)) = unat s + Suc k"
      using Cons.prems(2) by (intro unat_offset) simp
    moreover have "unat s + Suc k \<noteq> unat d"
      using Cons.prems(4) k by auto
    ultimately show "s + 1 + word_of_nat k \<noteq> d"
      by (auto simp: add.assoc)
  qed (use Cons.prems(1) in simp)
  then have "strcpy_loop (d + 1) (s + 1) (m(d := b)) = Some (put_bytes (d + 1) (bs @ [0]) (m(d := b)))"
    using Cons.prems(2-) by (intro Cons.IH) (assumption | auto simp: step)+
  moreover have "put_bytes d (b # bs @ [0]) m = put_bytes (d + 1) (bs @ [0]) (m(d := b))"
    using Cons.prems(2) by (intro put_bytes_Cons) simp
  ultimately show ?case
    using Cons.prems(1) by (subst strcpy_loop.simps) simp
qed

lemma strcpy_correct:
  assumes "cstring m s bs" "unat s + Suc (length bs) \<le> 2 ^ 64" "unat d + Suc (length bs) \<le> 2 ^ 64"
    and "unat d \<le> unat s \<or> unat s + Suc (length bs) \<le> unat d"
  shows "strcpy_c d s m = Some (d, put_bytes d (bs @ [0]) m)"
  using strcpy_loop_eq [OF assms] by (simp add: strcpy_c_def lionos_strcpy_def)

section \<open>Hexadecimal text\<close>

lemma put_bytes_upd:
  assumes "length bs < 2 ^ 64"
  shows "(put_bytes p bs m)(p + word_of_nat (length bs) := b) = put_bytes p (bs @ [b]) m"
proof -
  have "unat (p + word_of_nat (length bs) - p) = length bs"
    using assms by (simp add: unat_of_nat_small)
  then show ?thesis
    using put_bytes_snoc [OF assms, of p b m] by (auto simp: put_bytes_def fun_eq_iff)
qed

lemma put_bytes_foldl:
  assumes "length pre + n < 2 ^ 64"
  shows "foldl (\<lambda>m i. m(p + word_of_nat (length pre + i) := f i)) (put_bytes p pre m) [0..<n]
    = put_bytes p (pre @ map f [0..<n]) m"
  using assms
proof (induction n)
  case (Suc n)
  have "(put_bytes p (pre @ map f [0..<n]) m)(p + word_of_nat (length (pre @ map f [0..<n])) := f n)
    = put_bytes p ((pre @ map f [0..<n]) @ [f n]) m"
    using Suc.prems by (intro put_bytes_upd) simp
  then show ?case
    using Suc by (simp add: fun_upd_def)
qed simp

definition hex_text :: "u64 \<Rightarrow> bytes" where
  "hex_text v = map (\<lambda>k. HEX ! unat (drop_bit (4 * k) v AND 0xF)) (rev [0..<16])"

lemma itoa_hex_eq: "itoa_hex v buf m = put_bytes buf ([0x30, 0x78] @ hex_text v @ [0]) m"
proof -
  let ?f = "\<lambda>i. HEX ! unat (drop_bit (60 - 4 * i) v AND 0xF)"
  have digits: "map ?f [0..<16] = hex_text v"
    unfolding hex_text_def by (intro nth_equalityI) (simp_all add: rev_nth diff_mult_distrib2)
  have "m(buf := 0x30, buf + 1 := 0x78) = put_bytes buf [0x30, 0x78] m"
    by (simp add: put_bytes_Cons)
  then have "foldl (\<lambda>m i. m(buf + word_of_nat (2 + i) := ?f i)) (m(buf := 0x30, buf + 1 := 0x78)) [0..<16]
      = put_bytes buf ([0x30, 0x78] @ hex_text v) m"
    using put_bytes_foldl [of "[0x30, 0x78]" 16 buf ?f m] digits by simp
  moreover have "length ([0x30, 0x78] @ hex_text v) = 18"
    by (simp add: hex_text_def)
  ultimately show ?thesis
    using put_bytes_upd [of "[0x30, 0x78] @ hex_text v" buf m 0] by (simp add: itoa_hex_def lionos_itoa_hex_def Let_def)
qed

text \<open>The text is the value's: its digits read as a number give it back.\<close>

lemma hex_text_value: "digits_value 16 hex_value (hex_text v) = unat v" "length (hex_text v) = 16"
  using hex_digits_value [of v 16] unat_bound [of v] unfolding hex_text_def by simp_all

end
