(* ===== verification/Assembly.thy ===== *)
theory Assembly
  imports Byte_Memory
begin

text \<open>
  The assembly of the kernel (\<open>src/kernel/asm/cpu.s\<close>, \<open>cpu_utils.asm\<close>, \<open>port_io.asm\<close>, \<open>switch.asm\<close>) as lists
  of instructions, run by a small processor model, and the bindings of \<open>src/kernel/src/ffi.rs\<close> that call
  them by the System V calling convention.  What \<open>cpuid\<close> answers, what the ports deliver and the
  compiled dispatcher the system-call entry calls are parameters.  The routines that only park the
  processor (\<open>lion_hlt\<close>) have no final state and are left out.  The theorems say that the two
  assemblers' routines agree, that model specific registers survive the split into halves, and what
  the system-call entry hands over and gives back.
\<close>

unbundle bit_operations_syntax

section \<open>The processor\<close>

datatype reg = RAX | RBX | RCX | RDX | RSI | RDI | RBP | RSP | R8 | R9 | R10 | R11 | R12 | R13 | R14 | R15

record processor =
  gpr :: "reg \<Rightarrow> u64"
  ram :: "u64 \<Rightarrow> u8"
  rflags :: u64
  creg3 :: u64
  creg4 :: u64
  msr :: "u32 \<Rightarrow> u64"
  pc :: u64
  cs_sel :: u64
  ss_sel :: u64
  tlb_dropped :: "u64 list"
  port_log :: "(u16 \<times> u16) list"

record board =
  cpuid_leaf :: "u32 \<Rightarrow> u32 \<Rightarrow> u32 \<times> u32 \<times> u32 \<times> u32"
  in_byte :: "u16 \<Rightarrow> u8"
  in_word :: "u16 \<Rightarrow> u16"
  kstack_slot :: u64
  return_to :: u64
  callee :: "processor \<Rightarrow> processor"

datatype insn = Mov reg reg | MovL reg reg | MovW reg reg | MovB reg reg
  | Push reg | Pop reg | Pushfq
  | StoreL reg nat reg | StoreQ reg reg | LoadKstack reg
  | Shl reg nat | Shr reg nat | Orq reg reg
  | Cpuid | Rdmsr | Wrmsr | InB | OutB | InW | OutW | OutImm u8
  | Xchgb reg reg | Movzbl reg
  | ReadCr3 reg | WriteCr3 reg | ReadCr4 reg | WriteCr4 reg | Invlpg reg
  | Cli | Sti | Stac | Clac | Pause | Hlt
  | Call | Ret | Sysretq | Iretq

definition set_reg :: "reg \<Rightarrow> u64 \<Rightarrow> processor \<Rightarrow> processor" where
  "set_reg r v c = c\<lparr>gpr := (gpr c)(r := v)\<rparr>"

abbreviation low32 :: "u64 \<Rightarrow> u32" where
  "low32 v \<equiv> ucast v"

definition push_val :: "u64 \<Rightarrow> processor \<Rightarrow> processor" where
  "push_val v c = (let sp = gpr c RSP - 8 in set_reg RSP sp (c\<lparr>ram := put_bytes sp (to_le64 v) (ram c)\<rparr>))"

definition top_val :: "processor \<Rightarrow> u64" where
  "top_val c = get64 (gpr c RSP) (ram c)"

definition drop_val :: "processor \<Rightarrow> processor" where
  "drop_val c = set_reg RSP (gpr c RSP + 8) c"

text \<open>
  A 32-bit destination clears the upper half, an 8- or 16-bit one keeps the rest.  The pause and a
  halt that an interrupt ends change nothing here.  \<open>Call\<close> is the call up to its return.
\<close>

fun run_insn :: "board \<Rightarrow> insn \<Rightarrow> processor \<Rightarrow> processor" where
  "run_insn b (Mov d s) c = set_reg d (gpr c s) c"
| "run_insn b (MovL d s) c = set_reg d (ucast (low32 (gpr c s))) c"
| "run_insn b (MovW d s) c = set_reg d (gpr c d AND NOT 0xFFFF OR gpr c s AND 0xFFFF) c"
| "run_insn b (MovB d s) c = set_reg d (gpr c d AND NOT 0xFF OR gpr c s AND 0xFF) c"
| "run_insn b (Push r) c = push_val (gpr c r) c"
| "run_insn b (Pop r) c = set_reg r (top_val c) (drop_val c)"
| "run_insn b Pushfq c = push_val (rflags c) c"
| "run_insn b (StoreL base off r) c = c\<lparr>ram := put_bytes (gpr c base + word_of_nat off) (to_le32 (low32 (gpr c r))) (ram c)\<rparr>"
| "run_insn b (StoreQ base r) c = c\<lparr>ram := put_bytes (gpr c base) (to_le64 (gpr c r)) (ram c)\<rparr>"
| "run_insn b (LoadKstack r) c = set_reg r (get64 (kstack_slot b) (ram c)) c"
| "run_insn b (Shl r n) c = set_reg r (push_bit n (gpr c r)) c"
| "run_insn b (Shr r n) c = set_reg r (drop_bit n (gpr c r)) c"
| "run_insn b (Orq d s) c = set_reg d (gpr c d OR gpr c s) c"
| "run_insn b Cpuid c =
     (case cpuid_leaf b (low32 (gpr c RAX)) (low32 (gpr c RCX)) of (eax, ebx, ecx, edx) \<Rightarrow>
      set_reg RDX (ucast edx) (set_reg RCX (ucast ecx) (set_reg RBX (ucast ebx) (set_reg RAX (ucast eax) c))))"
| "run_insn b Rdmsr c =
     (let v = msr c (low32 (gpr c RCX))
      in set_reg RDX (drop_bit 32 v) (set_reg RAX (ucast (low32 v)) c))"
| "run_insn b Wrmsr c =
     c\<lparr>msr := (msr c)(low32 (gpr c RCX) := push_bit 32 (gpr c RDX) OR ucast (low32 (gpr c RAX)))\<rparr>"
| "run_insn b InB c = set_reg RAX (gpr c RAX AND NOT 0xFF OR ucast (in_byte b (ucast (gpr c RDX)))) c"
| "run_insn b OutB c = c\<lparr>port_log := port_log c @ [(ucast (gpr c RDX), ucast (gpr c RAX) AND 0xFF)]\<rparr>"
| "run_insn b InW c = set_reg RAX (gpr c RAX AND NOT 0xFFFF OR ucast (in_word b (ucast (gpr c RDX)))) c"
| "run_insn b OutW c = c\<lparr>port_log := port_log c @ [(ucast (gpr c RDX), ucast (gpr c RAX))]\<rparr>"
| "run_insn b (OutImm p) c = c\<lparr>port_log := port_log c @ [(ucast p, ucast (gpr c RAX) AND 0xFF)]\<rparr>"
| "run_insn b (Xchgb r base) c =
     set_reg r (gpr c r AND NOT 0xFF OR ucast (ram c (gpr c base))) (c\<lparr>ram := (ram c)(gpr c base := ucast (gpr c r))\<rparr>)"
| "run_insn b (Movzbl r) c = set_reg r (gpr c r AND 0xFF) c"
| "run_insn b (ReadCr3 r) c = set_reg r (creg3 c) c"
| "run_insn b (WriteCr3 r) c = c\<lparr>creg3 := gpr c r\<rparr>"
| "run_insn b (ReadCr4 r) c = set_reg r (creg4 c) c"
| "run_insn b (WriteCr4 r) c = c\<lparr>creg4 := gpr c r\<rparr>"
| "run_insn b (Invlpg r) c = c\<lparr>tlb_dropped := tlb_dropped c @ [gpr c r]\<rparr>"
| "run_insn b Cli c = c\<lparr>rflags := rflags c AND NOT 0x200\<rparr>"
| "run_insn b Sti c = c\<lparr>rflags := rflags c OR 0x200\<rparr>"
| "run_insn b Stac c = c\<lparr>rflags := rflags c OR 0x40000\<rparr>"
| "run_insn b Clac c = c\<lparr>rflags := rflags c AND NOT 0x40000\<rparr>"
| "run_insn b Pause c = c"
| "run_insn b Hlt c = c"
| "run_insn b Call c = callee b c"
| "run_insn b Ret c = drop_val (c\<lparr>pc := top_val c\<rparr>)"
| "run_insn b Sysretq c = c\<lparr>pc := gpr c RCX, rflags := gpr c R11\<rparr>"
| "run_insn b Iretq c =
     (let sp = gpr c RSP; at = (\<lambda>k. get64 (sp + word_of_nat (8 * k)) (ram c))
      in set_reg RSP (at 3) (c\<lparr>pc := at 0, cs_sel := at 1, rflags := at 2, ss_sel := at 4\<rparr>))"

definition exec :: "board \<Rightarrow> insn list \<Rightarrow> processor \<Rightarrow> processor" where
  "exec b code c = fold (run_insn b) code c"

section \<open>The routines\<close>

definition lion_cli :: "insn list" where "lion_cli = [Cli, Ret]"
definition lion_sti :: "insn list" where "lion_sti = [Sti, Ret]"
definition lion_pause :: "insn list" where "lion_pause = [Pause, Ret]"
definition lion_read_cr3 :: "insn list" where "lion_read_cr3 = [ReadCr3 RAX, Ret]"
definition lion_write_cr3 :: "insn list" where "lion_write_cr3 = [WriteCr3 RDI, Ret]"
definition lion_invlpg :: "insn list" where "lion_invlpg = [Invlpg RDI, Ret]"
definition lion_read_cr4 :: "insn list" where "lion_read_cr4 = [ReadCr4 RAX, Ret]"
definition lion_write_cr4 :: "insn list" where "lion_write_cr4 = [WriteCr4 RDI, Ret]"
definition lion_stac :: "insn list" where "lion_stac = [Stac, Ret]"
definition lion_clac :: "insn list" where "lion_clac = [Clac, Ret]"
definition lion_read_rflags :: "insn list" where "lion_read_rflags = [Pushfq, Pop RAX, Ret]"
definition lion_inb :: "insn list" where "lion_inb = [MovW RDX RDI, InB, Ret]"
definition lion_outb :: "insn list" where "lion_outb = [MovW RDX RDI, MovB RAX RSI, OutB, Ret]"
definition lion_xchg8 :: "insn list" where "lion_xchg8 = [MovB RAX RSI, Xchgb RAX RDI, Movzbl RAX, Ret]"

definition lion_cpuid :: "insn list" where
  "lion_cpuid = [Push RBX, Mov R8 RDX, MovL RAX RDI, MovL RCX RSI, Cpuid,
     StoreL R8 0 RAX, StoreL R8 4 RBX, StoreL R8 8 RCX, StoreL R8 12 RDX, Pop RBX, Ret]"

definition lion_read_msr :: "insn list" where
  "lion_read_msr = [MovL RCX RDI, Rdmsr, Shl RDX 32, Orq RAX RDX, Ret]"

definition lion_write_msr :: "insn list" where
  "lion_write_msr = [MovL RCX RDI, Mov RAX RSI, Shr RSI 32, MovL RDX RSI, Wrmsr, Ret]"

definition lion_usermode_go :: "insn list" where
  "lion_usermode_go = [Mov RAX R8, Push RCX, Push RSI, Push RAX, Push RDX, Push RDI, Iretq]"

definition lion_syscall_entry :: "insn list" where
  "lion_syscall_entry = [Mov R13 RSP, LoadKstack RSP, Push RCX, Push R11, Push R13,
     Mov R9 R13, Mov R8 R10, Mov RCX RDX, Mov RDX RSI, Mov RSI RDI, Mov RDI RAX,
     Call, Pop R13, Pop R11, Pop RCX, Mov RSP R13, Sysretq]"

definition outb_code :: "insn list" where "outb_code = [MovW RDX RDI, MovB RAX RSI, OutB, Ret]"
definition inb_code :: "insn list" where "inb_code = [MovW RDX RDI, InB, Ret]"
definition outw_code :: "insn list" where "outw_code = [MovW RDX RDI, MovW RAX RSI, OutW, Ret]"
definition inw_code :: "insn list" where "inw_code = [MovW RDX RDI, InW, Ret]"
definition io_wait_code :: "insn list" where "io_wait_code = [OutImm 0x80, Ret]"
definition cpu_pause_code :: "insn list" where "cpu_pause_code = [Pause, Ret]"
definition cpu_halt_code :: "insn list" where "cpu_halt_code = [Hlt, Ret]"
definition enable_interrupts_code :: "insn list" where "enable_interrupts_code = [Sti, Ret]"
definition disable_interrupts_code :: "insn list" where "disable_interrupts_code = [Cli, Ret]"

definition read_msr_code :: "insn list" where
  "read_msr_code = [MovL RCX RDI, Rdmsr, Shl RDX 32, Orq RAX RDX, Ret]"

definition write_msr_code :: "insn list" where
  "write_msr_code = [MovL RCX RDI, MovL RAX RSI, Mov RDX RSI, Shr RDX 32, Wrmsr, Ret]"

definition cpuid_query_code :: "insn list" where
  "cpuid_query_code = [Push RBX, Mov R10 RDX, Mov R11 RCX, MovL RAX RDI, MovL RCX RSI, Cpuid,
     StoreL R10 0 RAX, StoreL R11 0 RBX, StoreL R8 0 RCX, StoreL R9 0 RDX, Pop RBX, Ret]"

definition context_switch_code :: "insn list" where
  "context_switch_code = [Push RBX, Push RBP, Push R12, Push R13, Push R14, Push R15,
     Mov RAX RSP, StoreQ RDI RAX, Mov RSP RSI,
     Pop R15, Pop R14, Pop R13, Pop R12, Pop RBP, Pop RBX, Ret]"

section \<open>Bindings\<close>

text \<open>A call by the System V convention: arguments in registers, the return address on the stack.\<close>

definition sysv :: "board \<Rightarrow> insn list \<Rightarrow> u64 list \<Rightarrow> processor \<Rightarrow> processor" where
  "sysv b code args c =
     exec b code (push_val (return_to b) (fold (\<lambda>(r, v). set_reg r v) (zip [RDI, RSI, RDX, RCX, R8, R9] args) c))"

definition sysv_result :: "board \<Rightarrow> insn list \<Rightarrow> u64 list \<Rightarrow> processor \<Rightarrow> u64 \<times> processor" where
  "sysv_result b code args c = (let c = sysv b code args c in (gpr c RAX, c))"

definition cli :: "board \<Rightarrow> processor \<Rightarrow> processor" where "cli b c = sysv b lion_cli [] c"
definition sti :: "board \<Rightarrow> processor \<Rightarrow> processor" where "sti b c = sysv b lion_sti [] c"
definition pause_hint :: "board \<Rightarrow> processor \<Rightarrow> processor" where "pause_hint b c = sysv b lion_pause [] c"
definition read_cr3 :: "board \<Rightarrow> processor \<Rightarrow> u64 \<times> processor" where "read_cr3 b c = sysv_result b lion_read_cr3 [] c"
definition write_cr3 :: "board \<Rightarrow> u64 \<Rightarrow> processor \<Rightarrow> processor" where "write_cr3 b r c = sysv b lion_write_cr3 [r] c"
definition read_cr4 :: "board \<Rightarrow> processor \<Rightarrow> u64 \<times> processor" where "read_cr4 b c = sysv_result b lion_read_cr4 [] c"
definition write_cr4 :: "board \<Rightarrow> u64 \<Rightarrow> processor \<Rightarrow> processor" where "write_cr4 b v c = sysv b lion_write_cr4 [v] c"
definition stac :: "board \<Rightarrow> processor \<Rightarrow> processor" where "stac b c = sysv b lion_stac [] c"
definition clac :: "board \<Rightarrow> processor \<Rightarrow> processor" where "clac b c = sysv b lion_clac [] c"
definition invlpg :: "board \<Rightarrow> u64 \<Rightarrow> processor \<Rightarrow> processor" where "invlpg b a c = sysv b lion_invlpg [a] c"
definition read_msr :: "board \<Rightarrow> u32 \<Rightarrow> processor \<Rightarrow> u64 \<times> processor" where "read_msr b i c = sysv_result b lion_read_msr [ucast i] c"
definition write_msr :: "board \<Rightarrow> u32 \<Rightarrow> u64 \<Rightarrow> processor \<Rightarrow> processor" where "write_msr b i v c = sysv b lion_write_msr [ucast i, v] c"
definition read_rflags :: "board \<Rightarrow> processor \<Rightarrow> u64 \<times> processor" where "read_rflags b c = sysv_result b lion_read_rflags [] c"

definition usermode_go :: "board \<Rightarrow> u64 \<Rightarrow> u64 \<Rightarrow> u64 \<Rightarrow> u64 \<Rightarrow> u64 \<Rightarrow> processor \<Rightarrow> processor" where
  "usermode_go b rip rsp cs ss fl c = sysv b lion_usermode_go [rip, rsp, cs, ss, fl] c"

definition ffi_inb :: "board \<Rightarrow> u16 \<Rightarrow> processor \<Rightarrow> u8 \<times> processor" where
  "ffi_inb b port c = (case sysv_result b lion_inb [ucast port] c of (v, c) \<Rightarrow> (ucast v, c))"

definition ffi_outb :: "board \<Rightarrow> u16 \<Rightarrow> u8 \<Rightarrow> processor \<Rightarrow> processor" where
  "ffi_outb b port v c = sysv b lion_outb [ucast port, ucast v] c"

definition xchg8 :: "board \<Rightarrow> u64 \<Rightarrow> u8 \<Rightarrow> processor \<Rightarrow> u8 \<times> processor" where
  "xchg8 b p v c = (case sysv_result b lion_xchg8 [p, ucast v] c of (v, c) \<Rightarrow> (ucast v, c))"

text \<open>The four result words are a zeroed array at \<open>out\<close>.\<close>

definition zero_words :: "u64 \<Rightarrow> processor \<Rightarrow> processor" where
  "zero_words out c = c\<lparr>ram := put_bytes out (replicate 16 0) (ram c)\<rparr>"

definition four_words :: "u64 \<Rightarrow> processor \<Rightarrow> u32 list" where
  "four_words out c = map (\<lambda>i. get32 (out + word_of_nat (4 * i)) (ram c)) [0..<4]"

definition cpuid :: "board \<Rightarrow> u64 \<Rightarrow> u32 \<Rightarrow> u32 \<Rightarrow> processor \<Rightarrow> u32 list \<times> processor" where
  "cpuid b out leaf subleaf c =
     (let c = sysv b lion_cpuid [ucast leaf, ucast subleaf, out] (zero_words out c) in (four_words out c, c))"

definition vendor_bytes :: "u32 list \<Rightarrow> bytes" where
  "vendor_bytes r = to_le32 (r ! 1) @ to_le32 (r ! 3) @ to_le32 (r ! 2)"

definition cpuid_vendor :: "board \<Rightarrow> u64 \<Rightarrow> processor \<Rightarrow> bytes \<times> processor" where
  "cpuid_vendor b out c = (case cpuid b out 0 0 c of (r, c) \<Rightarrow> (vendor_bytes r, c))"

text \<open>The routine in C keeps its array at \<open>out\<close> and does not clear it.\<close>

definition cpu_leaf1_edx :: "board \<Rightarrow> u64 \<Rightarrow> processor \<Rightarrow> u32 \<times> processor" where
  "cpu_leaf1_edx b out c = (let c = sysv b lion_cpuid [1, 0, out] c in (four_words out c ! 3, c))"

definition nasm_outb :: "board \<Rightarrow> u16 \<Rightarrow> u8 \<Rightarrow> processor \<Rightarrow> processor" where
  "nasm_outb b port v c = sysv b outb_code [ucast port, ucast v] c"

definition nasm_inb :: "board \<Rightarrow> u16 \<Rightarrow> processor \<Rightarrow> u8 \<times> processor" where
  "nasm_inb b port c = (case sysv_result b inb_code [ucast port] c of (v, c) \<Rightarrow> (ucast v, c))"

definition nasm_outw :: "board \<Rightarrow> u16 \<Rightarrow> u16 \<Rightarrow> processor \<Rightarrow> processor" where
  "nasm_outw b port v c = sysv b outw_code [ucast port, ucast v] c"

definition nasm_inw :: "board \<Rightarrow> u16 \<Rightarrow> processor \<Rightarrow> u16 \<times> processor" where
  "nasm_inw b port c = (case sysv_result b inw_code [ucast port] c of (v, c) \<Rightarrow> (ucast v, c))"

definition nasm_io_wait :: "board \<Rightarrow> processor \<Rightarrow> processor" where "nasm_io_wait b c = sysv b io_wait_code [] c"
definition nasm_cpu_pause :: "board \<Rightarrow> processor \<Rightarrow> processor" where "nasm_cpu_pause b c = sysv b cpu_pause_code [] c"
definition nasm_cpu_halt :: "board \<Rightarrow> processor \<Rightarrow> processor" where "nasm_cpu_halt b c = sysv b cpu_halt_code [] c"
definition nasm_enable_interrupts :: "board \<Rightarrow> processor \<Rightarrow> processor" where "nasm_enable_interrupts b c = sysv b enable_interrupts_code [] c"
definition nasm_disable_interrupts :: "board \<Rightarrow> processor \<Rightarrow> processor" where "nasm_disable_interrupts b c = sysv b disable_interrupts_code [] c"
definition nasm_read_msr :: "board \<Rightarrow> u32 \<Rightarrow> processor \<Rightarrow> u64 \<times> processor" where "nasm_read_msr b i c = sysv_result b read_msr_code [ucast i] c"
definition nasm_write_msr :: "board \<Rightarrow> u32 \<Rightarrow> u64 \<Rightarrow> processor \<Rightarrow> processor" where "nasm_write_msr b i v c = sysv b write_msr_code [ucast i, v] c"

definition nasm_cpuid_query :: "board \<Rightarrow> u64 \<Rightarrow> u32 \<Rightarrow> u32 \<Rightarrow> processor \<Rightarrow> u32 list \<times> processor" where
  "nasm_cpuid_query b out leaf subleaf c =
     (let c = sysv b cpuid_query_code [ucast leaf, ucast subleaf, out, out + 4, out + 8, out + 12] (zero_words out c)
      in (four_words out c, c))"

section \<open>Running code\<close>

lemma set_reg_simps [simp]:
  "gpr (set_reg r v c) = (gpr c)(r := v)" "ram (set_reg r v c) = ram c" "rflags (set_reg r v c) = rflags c"
  "creg3 (set_reg r v c) = creg3 c" "creg4 (set_reg r v c) = creg4 c" "msr (set_reg r v c) = msr c" "pc (set_reg r v c) = pc c"
  "cs_sel (set_reg r v c) = cs_sel c" "ss_sel (set_reg r v c) = ss_sel c" "tlb_dropped (set_reg r v c) = tlb_dropped c"
  "port_log (set_reg r v c) = port_log c"
  by (simp_all add: set_reg_def)

lemma push_val_simps [simp]:
  "gpr (push_val v c) = (gpr c)(RSP := gpr c RSP - 8)" "ram (push_val v c) = put_bytes (gpr c RSP - 8) (to_le64 v) (ram c)"
  "rflags (push_val v c) = rflags c" "creg3 (push_val v c) = creg3 c" "creg4 (push_val v c) = creg4 c" "msr (push_val v c) = msr c"
  "pc (push_val v c) = pc c" "cs_sel (push_val v c) = cs_sel c" "ss_sel (push_val v c) = ss_sel c"
  "tlb_dropped (push_val v c) = tlb_dropped c" "port_log (push_val v c) = port_log c"
  by (simp_all add: push_val_def Let_def)

lemma drop_val_simps [simp]:
  "gpr (drop_val c) = (gpr c)(RSP := gpr c RSP + 8)" "ram (drop_val c) = ram c"
  "rflags (drop_val c) = rflags c" "creg3 (drop_val c) = creg3 c" "creg4 (drop_val c) = creg4 c" "msr (drop_val c) = msr c"
  "pc (drop_val c) = pc c" "cs_sel (drop_val c) = cs_sel c" "ss_sel (drop_val c) = ss_sel c"
  "tlb_dropped (drop_val c) = tlb_dropped c" "port_log (drop_val c) = port_log c"
  by (simp_all add: drop_val_def)

lemma exec_simps [simp]: "exec b [] c = c" "exec b (i # is) c = exec b is (run_insn b i c)"
  by (simp_all add: exec_def)

text \<open>A stack of \<open>n\<close> free bytes below the stack pointer.\<close>

definition stack_room :: "nat \<Rightarrow> processor \<Rightarrow> bool" where
  "stack_room n c \<longleftrightarrow> n \<le> unat (gpr c RSP)"

lemma get64_here:
  "unat p + 8 \<le> 2 ^ 64 \<Longrightarrow> get64 p (put_bytes p (to_le64 v) m) = v"
  by (simp add: get64_def get_put_n)

lemma get64_other:
  assumes "unat q + length bs \<le> 2 ^ 64" "unat p + 8 \<le> 2 ^ 64" "unat q + length bs \<le> unat p \<or> unat p + 8 \<le> unat q"
  shows "get64 p (put_bytes q bs m) = get64 p m"
  using assms by (simp add: get64_def get_put_other)

lemma unat_below:
  "k \<le> unat (sp :: u64) \<Longrightarrow> unat (sp - word_of_nat k) = unat sp - k"
  using unat_bound [of sp] by (simp add: unat_sub_le word_le_nat_alt unat_of_nat_small)

lemma top_val_push:
  assumes "stack_room 8 c"
  shows "get64 (gpr c RSP - 8) (put_bytes (gpr c RSP - 8) (to_le64 v) m) = v"
proof (rule get64_here)
  show "unat (gpr c RSP - 8) + 8 \<le> 2 ^ 64"
    using assms unat_below [of 8 "gpr c RSP"] unat_bound [of "gpr c RSP"] by (simp add: stack_room_def)
qed

section \<open>Model specific registers\<close>

lemma halves: "push_bit 32 (ucast (low32 (drop_bit 32 v))) OR ucast (low32 v) = v"
  by (rule bit_eqI) (auto simp: bit_simps)

lemma low32_ucast [simp]: "low32 (ucast (i :: u32)) = i"
  by (rule bit_eqI) (auto simp: bit_simps)

lemma halves': "ucast (low32 v) OR push_bit 32 (drop_bit 32 v) = v"
proof (rule bit_eqI)
  fix n
  assume "possible_bit TYPE(u64) n"
  then show "bit (ucast (low32 v) OR push_bit 32 (drop_bit 32 v)) n = bit v n"
    by (cases "n < 32") (auto simp: bit_simps)
qed

lemma read_msr_correct:
  assumes "stack_room 8 c"
  shows "fst (read_msr b i c) = msr c i" "msr (snd (read_msr b i c)) = msr c" "pc (snd (read_msr b i c)) = return_to b"
    "gpr (snd (read_msr b i c)) RSP = gpr c RSP"
  using assms by (simp_all add: read_msr_def sysv_result_def sysv_def lion_read_msr_def Let_def top_val_def top_val_push halves' ucast_id)

lemma write_msr_correct:
  assumes "stack_room 8 c"
  shows "msr (write_msr b i v c) = (msr c)(i := v)" "pc (write_msr b i v c) = return_to b"
    "gpr (write_msr b i v c) RSP = gpr c RSP"
  using assms by (simp_all add: write_msr_def sysv_def lion_write_msr_def top_val_def top_val_push halves)

lemma nasm_msr_agrees:
  assumes "stack_room 8 c"
  shows "fst (nasm_read_msr b i c) = fst (read_msr b i c)" "msr (nasm_write_msr b i v c) = msr (write_msr b i v c)"
proof -
  have "push_bit 32 (drop_bit 32 v) OR ucast (low32 v) = v"
    using halves' [of v] by (simp add: or.commute)
  then show "msr (nasm_write_msr b i v c) = msr (write_msr b i v c)"
    using assms by (simp add: nasm_write_msr_def write_msr_correct sysv_def write_msr_code_def)
qed (simp add: nasm_read_msr_def read_msr_def read_msr_code_def lion_read_msr_def)

section \<open>Processor identification\<close>

abbreviation store_words :: "u64 \<Rightarrow> u32 \<Rightarrow> u32 \<Rightarrow> u32 \<Rightarrow> u32 \<Rightarrow> (u64 \<Rightarrow> u8) \<Rightarrow> u64 \<Rightarrow> u8" where
  "store_words out x y z w m \<equiv>
     put_bytes (out + 12) (to_le32 w) (put_bytes (out + 8) (to_le32 z) (put_bytes (out + 4) (to_le32 y) (put_bytes out (to_le32 x) m)))"

lemma words_at:
  assumes "unat (out :: u64) + 16 \<le> 2 ^ 64"
  shows "unat (out + 4) = unat out + 4" "unat (out + 8) = unat out + 8" "unat (out + 12) = unat out + 12"
  using assms unat_offset [of out 4] unat_offset [of out 8] unat_offset [of out 12] by simp_all

lemma four_words_stored:
  assumes "unat out + 16 \<le> 2 ^ 64" "ram c = store_words out x y z w m"
  shows "four_words out c = [x, y, z, w]"
proof -
  note u = words_at [OF assms(1)]
  have "get32 out (ram c) = x" "get32 (out + 4) (ram c) = y" "get32 (out + 8) (ram c) = z" "get32 (out + 12) (ram c) = w"
    using assms(1) by (simp_all add: assms(2) get32_def get_put_other get_put_n u)
  then show ?thesis
    by (simp add: four_words_def upt_rec)
qed

lemma get64_words:
  assumes "unat out + 16 \<le> 2 ^ 64" "unat p + 8 \<le> 2 ^ 64" "unat out + 16 \<le> unat p \<or> unat p + 8 \<le> unat out"
  shows "get64 p (store_words out x y z w m) = get64 p m"
  using assms by (auto simp: get64_other words_at [OF assms(1)])

definition callee_saved_regs :: "reg set" where
  "callee_saved_regs = {RBX, RBP, RSP, R12, R13, R14, R15}"

lemma two_pushes:
  assumes "stack_room 16 c"
  defines "sp \<equiv> gpr c RSP"
  shows "get64 (sp - 16) (put_bytes (sp - 16) (to_le64 v) (put_bytes (sp - 8) (to_le64 r) m)) = v"
    "get64 (sp - 8) (put_bytes (sp - 16) (to_le64 v) (put_bytes (sp - 8) (to_le64 r) m)) = r"
proof -
  have "unat (sp - 16) = unat sp - 16" "unat (sp - 8) = unat sp - 8"
    using assms unat_below [of 16 sp] unat_below [of 8 sp] by (simp_all add: stack_room_def)
  then show "get64 (sp - 16) (put_bytes (sp - 16) (to_le64 v) (put_bytes (sp - 8) (to_le64 r) m)) = v"
    "get64 (sp - 8) (put_bytes (sp - 16) (to_le64 v) (put_bytes (sp - 8) (to_le64 r) m)) = r"
    using assms unat_bound [of sp] by (simp_all add: get64_here get64_other stack_room_def)
qed

lemma out_apart:
  assumes "stack_room 16 c" "unat out + 16 \<le> 2 ^ 64" "unat out + 32 \<le> unat (gpr c RSP) \<or> unat (gpr c RSP) \<le> unat out"
  shows "get64 (gpr c RSP - 16) (store_words out x y z w m) = get64 (gpr c RSP - 16) m"
    "get64 (gpr c RSP - 8) (store_words out x y z w m) = get64 (gpr c RSP - 8) m"
proof -
  have "unat (gpr c RSP - 16) = unat (gpr c RSP) - 16" "unat (gpr c RSP - 8) = unat (gpr c RSP) - 8"
    using assms(1) unat_below [of 16 "gpr c RSP"] unat_below [of 8 "gpr c RSP"] by (simp_all add: stack_room_def)
  then show "get64 (gpr c RSP - 16) (store_words out x y z w m) = get64 (gpr c RSP - 16) m"
    "get64 (gpr c RSP - 8) (store_words out x y z w m) = get64 (gpr c RSP - 8) m"
    using assms unat_bound [of "gpr c RSP"] by (auto simp: stack_room_def intro!: get64_words)
qed

lemma cpuid_run:
  assumes "stack_room 16 c" "unat out + 16 \<le> 2 ^ 64" "unat out + 32 \<le> unat (gpr c RSP) \<or> unat (gpr c RSP) \<le> unat out"
    and "cpuid_leaf b leaf subleaf = (x, y, z, w)"
  defines "c' \<equiv> sysv b lion_cpuid [ucast leaf, ucast subleaf, out] c"
  shows "four_words out c' = [x, y, z, w]" "pc c' = return_to b" "\<forall>r\<in>callee_saved_regs. gpr c' r = gpr c r"
proof -
  let ?m = "put_bytes (gpr c RSP - 16) (to_le64 (gpr c RBX)) (put_bytes (gpr c RSP - 8) (to_le64 (return_to b)) (ram c))"
  have ram: "ram c' = store_words out x y z w ?m"
    by (simp add: c'_def sysv_def lion_cpuid_def assms(4) algebra_simps)
  show "four_words out c' = [x, y, z, w]"
    using four_words_stored [OF assms(2) ram] .
  show "pc c' = return_to b" "\<forall>r\<in>callee_saved_regs. gpr c' r = gpr c r"
    by (simp_all add: c'_def sysv_def lion_cpuid_def assms(4) callee_saved_regs_def top_val_def algebra_simps
        out_apart [OF assms(1-3)] two_pushes [OF assms(1)])
qed

lemma cpuid_query_run:
  assumes "stack_room 16 c" "unat out + 16 \<le> 2 ^ 64" "unat out + 32 \<le> unat (gpr c RSP) \<or> unat (gpr c RSP) \<le> unat out"
    and "cpuid_leaf b leaf subleaf = (x, y, z, w)"
  defines "c' \<equiv> sysv b cpuid_query_code [ucast leaf, ucast subleaf, out, out + 4, out + 8, out + 12] c"
  shows "four_words out c' = [x, y, z, w]" "pc c' = return_to b" "\<forall>r\<in>callee_saved_regs. gpr c' r = gpr c r"
proof -
  let ?m = "put_bytes (gpr c RSP - 16) (to_le64 (gpr c RBX)) (put_bytes (gpr c RSP - 8) (to_le64 (return_to b)) (ram c))"
  have ram: "ram c' = store_words out x y z w ?m"
    by (simp add: c'_def sysv_def cpuid_query_code_def assms(4) algebra_simps)
  show "four_words out c' = [x, y, z, w]"
    using four_words_stored [OF assms(2) ram] .
  show "pc c' = return_to b" "\<forall>r\<in>callee_saved_regs. gpr c' r = gpr c r"
    by (simp_all add: c'_def sysv_def cpuid_query_code_def assms(4) callee_saved_regs_def top_val_def algebra_simps
        out_apart [OF assms(1-3)] two_pushes [OF assms(1)])
qed

text \<open>
  C38: the two assemblers' routines for processor identification agree: each delivers the four words
  the processor answers for the leaf and subleaf, in order, and returns to its caller with the
  stack pointer and the callee-saved registers as they were, although \<open>cpuid\<close> overwrites the register
  that held the output pointer and the callee-saved RBX.
\<close>

theorem cpuid_bindings_agree:
  assumes "stack_room 16 c" "unat out + 16 \<le> 2 ^ 64" "unat out + 32 \<le> unat (gpr c RSP) \<or> unat (gpr c RSP) \<le> unat out"
    and "cpuid_leaf b leaf subleaf = (x, y, z, w)"
  shows "fst (cpuid b out leaf subleaf c) = [x, y, z, w] \<and> fst (nasm_cpuid_query b out leaf subleaf c) = [x, y, z, w]
    \<and> (\<forall>c'\<in>{snd (cpuid b out leaf subleaf c), snd (nasm_cpuid_query b out leaf subleaf c)}.
         pc c' = return_to b \<and> (\<forall>r\<in>callee_saved_regs. gpr c' r = gpr c r))"
proof -
  have z: "gpr (zero_words out c) = gpr c" "stack_room 16 (zero_words out c)"
    using assms(1) by (simp_all add: zero_words_def stack_room_def)
  note g = cpuid_run [where c = "zero_words out c", unfolded z(1), OF z(2) assms(2-4)]
  note n = cpuid_query_run [where c = "zero_words out c", unfolded z(1), OF z(2) assms(2-4)]
  show ?thesis
    unfolding cpuid_def nasm_cpuid_query_def Let_def fst_conv snd_conv using g n by blast
qed

definition sample_cpu :: processor where
  "sample_cpu = \<lparr>gpr = (\<lambda>_. 0x8000), ram = (\<lambda>_. 0), rflags = 2, creg3 = 0x1000, creg4 = 0x20, msr = (\<lambda>_. 0), pc = 0,
     cs_sel = 8, ss_sel = 16, tlb_dropped = [], port_log = []\<rparr>"

definition sample_board :: board where
  "sample_board = \<lparr>cpuid_leaf = (\<lambda>l s. (0xD, 0x756E6547, 0x6C65746E, 0x49656E69)), in_byte = (\<lambda>_. 0), in_word = (\<lambda>_. 0),
     kstack_slot = 0x2000, return_to = 0x5555,
     callee = (\<lambda>c. set_reg RCX 1 (set_reg R11 1 (set_reg RAX (gpr c RDI + gpr c R8) c)))\<rparr>"

theorem cpuid_bindings_agree_witness:
  "fst (cpuid sample_board 0x1000 0 0 sample_cpu) = [0xD, 0x756E6547, 0x6C65746E, 0x49656E69]
   \<and> fst (nasm_cpuid_query sample_board 0x1000 0 0 sample_cpu) = [0xD, 0x756E6547, 0x6C65746E, 0x49656E69]"
  using cpuid_bindings_agree [of sample_cpu "0x1000" sample_board 0 0 "0xD" "0x756E6547" "0x6C65746E" "0x49656E69"]
  by (simp add: stack_room_def sample_cpu_def sample_board_def)

section \<open>The system-call entry\<close>

text \<open>What the convention asks of compiled code: the callee-saved registers and the caller's stack survive.\<close>

definition sysv_callee :: "(processor \<Rightarrow> processor) \<Rightarrow> bool" where
  "sysv_callee g \<longleftrightarrow> (\<forall>c. (\<forall>r\<in>callee_saved_regs. gpr (g c) r = gpr c r)
     \<and> (\<forall>k. unat (gpr c RSP) + k < 2 ^ 64 \<longrightarrow> ram (g c) (gpr c RSP + word_of_nat k) = ram c (gpr c RSP + word_of_nat k)))"

lemma sysv_callee_stack:
  assumes "sysv_callee g" "unat (gpr c RSP) + k + 8 \<le> 2 ^ 64"
  shows "get64 (gpr c RSP + word_of_nat k) (ram (g c)) = get64 (gpr c RSP + word_of_nat k) (ram c)"
proof -
  have "ram (g c) (gpr c RSP + word_of_nat k + word_of_nat i) = ram c (gpr c RSP + word_of_nat k + word_of_nat i)" if "i < 8" for i
  proof -
    have keep: "unat (gpr c RSP) + j < 2 ^ 64 \<Longrightarrow> ram (g c) (gpr c RSP + word_of_nat j) = ram c (gpr c RSP + word_of_nat j)" for j
      using assms(1) unfolding sysv_callee_def by blast
    have "ram (g c) (gpr c RSP + word_of_nat (k + i)) = ram c (gpr c RSP + word_of_nat (k + i))"
      by (rule keep) (use assms(2) that in linarith)
    then show ?thesis
      by (simp add: add.assoc)
  qed
  then have "get_bytes (gpr c RSP + word_of_nat k) 8 (ram (g c)) = get_bytes (gpr c RSP + word_of_nat k) 8 (ram c)"
    unfolding get_bytes_def by (intro map_cong) simp_all
  then show ?thesis
    by (simp add: get64_def)
qed

lemma three_pushes:
  fixes x y z :: u64 and m :: "u64 \<Rightarrow> u8"
  assumes "24 \<le> unat sp"
  defines "m' \<equiv> put_bytes (sp - 24) (to_le64 z) (put_bytes (sp - 16) (to_le64 y) (put_bytes (sp - 8) (to_le64 x) m))"
  shows "get64 (sp - 24) m' = z" "get64 (sp - 16) m' = y" "get64 (sp - 8) m' = x"
proof -
  have u: "unat (sp - 24) + 24 = unat sp" "unat (sp - 16) + 16 = unat sp" "unat (sp - 8) + 8 = unat sp" "unat sp < 2 ^ 64"
    using assms(1) unat_below [of 24 sp] unat_below [of 16 sp] unat_below [of 8 sp] unat_bound [of sp] by simp_all
  have "unat (sp - 16) = unat (sp - 24) + 8" "unat (sp - 8) = unat (sp - 24) + 16" "unat (sp - 24) + 24 < 2 ^ 64"
    using u by linarith+
  then show "get64 (sp - 24) m' = z" "get64 (sp - 16) m' = y" "get64 (sp - 8) m' = x"
    by (simp_all add: m'_def get64_here get64_other)
qed

definition at_dispatch :: "board \<Rightarrow> processor \<Rightarrow> processor" where
  "at_dispatch b c = exec b (take 11 lion_syscall_entry) c"

lemma at_dispatch_state:
  defines "ks \<equiv> \<lambda>b c. get64 (kstack_slot b) (ram c)"
  shows "gpr (at_dispatch b c) = (gpr c)(R13 := gpr c RSP, R9 := gpr c RSP, R8 := gpr c R10, RCX := gpr c RDX, RDX := gpr c RSI,
      RSI := gpr c RDI, RDI := gpr c RAX, RSP := ks b c - 24)"
    "ram (at_dispatch b c) = put_bytes (ks b c - 24) (to_le64 (gpr c RSP)) (put_bytes (ks b c - 16) (to_le64 (gpr c R11))
      (put_bytes (ks b c - 8) (to_le64 (gpr c RCX)) (ram c)))"
  by (auto simp: at_dispatch_def lion_syscall_entry_def ks_def algebra_simps fun_eq_iff)

lemma syscall_entry_split: "exec b lion_syscall_entry c = exec b [Pop R13, Pop R11, Pop RCX, Mov RSP R13, Sysretq] (callee b (at_dispatch b c))"
  by (simp add: at_dispatch_def lion_syscall_entry_def)

text \<open>
  C14: the system-call entry hands the number and the arguments to the dispatcher in the order of the
  calling convention, on the kernel's stack; and when the dispatcher, compiled to the convention, has
  returned, ring 3 continues after its \<open>syscall\<close> with its flags, its stack pointer, the result
  in RAX and every callee-saved register but one: R13, which the entry uses before it saves it,
  comes back holding the user's stack pointer.
\<close>

theorem syscall_entry_correct:
  assumes "sysv_callee (callee b)" "24 \<le> unat (get64 (kstack_slot b) (ram c))"
  defines "e \<equiv> at_dispatch b c" and "c' \<equiv> exec b lion_syscall_entry c"
  shows "[gpr e RDI, gpr e RSI, gpr e RDX, gpr e RCX, gpr e R8, gpr e R9] = [gpr c RAX, gpr c RDI, gpr c RSI, gpr c RDX, gpr c R10, gpr c RSP]
    \<and> gpr e RSP = get64 (kstack_slot b) (ram c) - 24
    \<and> pc c' = gpr c RCX \<and> rflags c' = gpr c R11 \<and> gpr c' RSP = gpr c RSP \<and> gpr c' RAX = gpr (callee b e) RAX
    \<and> (\<forall>r\<in>{RBX, RBP, R12, R14, R15}. gpr c' r = gpr c r) \<and> gpr c' R13 = gpr c RSP"
proof -
  let ?ks = "get64 (kstack_slot b) (ram c)"
  let ?d = "callee b e"
  have sp: "gpr e RSP = ?ks - 24"
    by (simp add: e_def at_dispatch_state)
  have keep: "gpr ?d r = gpr e r" if "r \<in> callee_saved_regs" for r
    using assms(1) that unfolding sysv_callee_def by blast
  have "unat (?ks - 24) = unat ?ks - 24"
    using assms(2) unat_below [of 24 ?ks] by simp
  then have room: "unat (gpr e RSP) + 24 \<le> 2 ^ 64"
    using assms(2) unat_bound [of ?ks] by (simp add: sp)
  have "get64 (gpr e RSP + word_of_nat k) (ram ?d) = get64 (gpr e RSP + word_of_nat k) (ram e)" if "k \<le> 16" for k
    using sysv_callee_stack [OF assms(1), of e k] room that by simp
  moreover have "ram e = put_bytes (?ks - 24) (to_le64 (gpr c RSP)) (put_bytes (?ks - 16) (to_le64 (gpr c R11)) (put_bytes (?ks - 8) (to_le64 (gpr c RCX)) (ram c)))"
    by (simp add: e_def at_dispatch_state(2))
  ultimately have found: "get64 (?ks - 24 + word_of_nat k) (ram ?d) = get64 (?ks - 24 + word_of_nat k)
      (put_bytes (?ks - 24) (to_le64 (gpr c RSP)) (put_bytes (?ks - 16) (to_le64 (gpr c R11)) (put_bytes (?ks - 8) (to_le64 (gpr c RCX)) (ram c))))" if "k \<le> 16" for k
    using that by (simp add: sp)
  from found [of 0] found [of 8] found [of 16]
  have saved: "get64 (?ks - 24) (ram ?d) = gpr c RSP" "get64 (?ks - 16) (ram ?d) = gpr c R11" "get64 (?ks - 8) (ram ?d) = gpr c RCX"
    using three_pushes [OF assms(2)] by simp_all
  have dsp: "gpr ?d RSP = ?ks - 24"
    using keep [of RSP] sp by (simp add: callee_saved_regs_def)
  have c': "c' = exec b [Pop R13, Pop R11, Pop RCX, Mov RSP R13, Sysretq] ?d"
    by (simp only: c'_def e_def syscall_entry_split)
  have up: "?ks - 24 + 8 = ?ks - 16" "?ks - 16 + 8 = ?ks - 8"
    by simp_all
  have "pc c' = gpr c RCX" "rflags c' = gpr c R11" "gpr c' RSP = gpr c RSP" "gpr c' R13 = gpr c RSP"
    "\<forall>r\<in>{RAX, RBX, RBP, R12, R14, R15}. gpr c' r = gpr ?d r"
    unfolding c' by (simp_all add: top_val_def dsp up saved)
  moreover have "gpr ?d r = gpr c r" if "r \<in> {RBX, RBP, R12, R14, R15}" for r
    using keep [of r] that by (auto simp: callee_saved_regs_def e_def at_dispatch_state(1))
  ultimately show ?thesis
    using sp by (simp add: e_def at_dispatch_state(1))
qed

theorem syscall_entry_correct_witness:
  "\<exists>c. let c' = exec sample_board lion_syscall_entry c in
     pc c' = 0x4000 \<and> rflags c' = 0x246 \<and> gpr c' RSP = 0x8000 \<and> gpr c' RAX = 12 \<and> gpr c R13 = 99 \<and> gpr c' R13 = 0x8000"
proof -
  let ?c = "sample_cpu\<lparr>gpr := (\<lambda>_. 0x8000)(RAX := 5, R10 := 7, RCX := 0x4000, R11 := 0x246, R13 := 99),
    ram := put_bytes 0x2000 (to_le64 0x9000) (\<lambda>_. 0)\<rparr>"
  have "sysv_callee (callee sample_board)"
    by (auto simp: sysv_callee_def sample_board_def callee_saved_regs_def)
  moreover have "get64 (kstack_slot sample_board) (ram ?c) = 0x9000"
    by (simp add: sample_board_def get64_here)
  ultimately have *: "pc (exec sample_board lion_syscall_entry ?c) = gpr ?c RCX" "rflags (exec sample_board lion_syscall_entry ?c) = gpr ?c R11"
    "gpr (exec sample_board lion_syscall_entry ?c) RSP = gpr ?c RSP"
    "gpr (exec sample_board lion_syscall_entry ?c) RAX = gpr (callee sample_board (at_dispatch sample_board ?c)) RAX"
    "gpr (exec sample_board lion_syscall_entry ?c) R13 = gpr ?c RSP"
    using syscall_entry_correct [of sample_board ?c] by simp_all
  have "gpr (callee sample_board (at_dispatch sample_board ?c)) RAX = 12"
  proof -
    have "gpr (callee sample_board e) RAX = gpr e RDI + gpr e R8" for e
      by (simp add: sample_board_def)
    then show ?thesis
      by (simp add: at_dispatch_state(1))
  qed
  with * show ?thesis
    by (intro exI [of _ ?c]) (simp del: exec_simps)
qed

section \<open>Stacks\<close>

fun push_chain :: "u64 \<Rightarrow> u64 list \<Rightarrow> (u64 \<Rightarrow> u8) \<Rightarrow> u64 \<Rightarrow> u8" where
  "push_chain sp [] m = m"
| "push_chain sp (v # vs) m = push_chain (sp - 8) vs (put_bytes (sp - 8) (to_le64 v) m)"

lemma push_chain_above:
  assumes "8 * length vs \<le> unat sp" "unat sp \<le> unat p" "unat p + 8 \<le> 2 ^ 64"
  shows "get64 p (push_chain sp vs m) = get64 p m"
  using assms
proof (induction vs arbitrary: sp m)
  case (Cons v vs)
  have u: "unat (sp - 8) = unat sp - 8"
    using Cons.prems(1) unat_below [of 8 sp] by simp
  then have "get64 p (push_chain (sp - 8) vs (put_bytes (sp - 8) (to_le64 v) m)) = get64 p (put_bytes (sp - 8) (to_le64 v) m)"
    using Cons.prems by (intro Cons.IH) simp_all
  also have "\<dots> = get64 p m"
    using Cons.prems u by (intro get64_other) simp_all
  finally show ?case
    by simp
qed simp

lemma push_chain_nth:
  assumes "8 * length vs \<le> unat sp" "i < length vs"
  shows "get64 (sp - word_of_nat (8 * Suc i)) (push_chain sp vs m) = vs ! i"
  using assms
proof (induction vs arbitrary: sp m i)
  case (Cons v vs)
  have u: "unat (sp - 8) = unat sp - 8"
    using Cons.prems(1) unat_below [of 8 sp] by simp
  have fits: "unat (sp - 8) + 8 \<le> 2 ^ 64"
    using u Cons.prems(1) unat_bound [of sp] by simp
  show ?case
  proof (cases i)
    case 0
    have "get64 (sp - 8) (push_chain (sp - 8) vs (put_bytes (sp - 8) (to_le64 v) m)) = get64 (sp - 8) (put_bytes (sp - 8) (to_le64 v) m)"
      using Cons.prems(1) u fits by (intro push_chain_above) simp_all
    then show ?thesis
      using 0 fits by (simp add: get64_here)
  next
    case (Suc j)
    have "get64 (sp - 8 - word_of_nat (8 * Suc j)) (push_chain (sp - 8) vs (put_bytes (sp - 8) (to_le64 v) m)) = vs ! j"
      using Cons.prems Suc u by (intro Cons.IH) simp_all
    then show ?thesis
      using Suc by (simp add: algebra_simps)
  qed
qed simp

text \<open>Counted from the last value pushed.\<close>

lemma push_chain_up:
  assumes "8 * length vs \<le> unat sp" "k < length vs"
  shows "get64 (sp - word_of_nat (8 * length vs) + word_of_nat (8 * k)) (push_chain sp vs m) = rev vs ! k"
proof -
  let ?i = "length vs - Suc k"
  have sub_add: "x = y + z \<Longrightarrow> sp - x + z = sp - y" for x y z
    by simp
  have "8 * length vs = 8 * Suc ?i + 8 * k"
    using assms(2) by simp
  then have "(word_of_nat (8 * length vs) :: u64) = word_of_nat (8 * Suc ?i) + word_of_nat (8 * k)"
    by (metis of_nat_add)
  then have "sp - word_of_nat (8 * length vs) + word_of_nat (8 * k) = sp - word_of_nat (8 * Suc ?i)"
    by (rule sub_add)
  moreover have "?i < length vs" "rev vs ! k = vs ! ?i"
    using assms(2) by (simp_all add: rev_nth)
  moreover note push_chain_nth [OF assms(1) \<open>?i < length vs\<close>, of m]
  ultimately show ?thesis
    by (simp only:)
qed

section \<open>The descent to ring 3\<close>

text \<open>The interrupt return takes the five values from the frame and leaves the address pushed by the call behind.\<close>

lemma usermode_go_descends:
  fixes rip rsp cs ss fl :: u64 and b :: board
  assumes "stack_room 48 c"
  defines "c' \<equiv> usermode_go b rip rsp cs ss fl c"
  shows "pc c' = rip" "gpr c' RSP = rsp" "cs_sel c' = cs" "ss_sel c' = ss" "rflags c' = fl"
proof -
  let ?sp = "gpr c RSP"
  let ?m = "push_chain ?sp [return_to b, ss, rsp, fl, cs, rip] (ram c)"
  have room: "8 * length [return_to b, ss, rsp, fl, cs, rip] \<le> unat ?sp"
    using assms(1) by (simp add: stack_room_def)
  have at: "get64 (?sp - 48 + word_of_nat (8 * k)) ?m = [rip, cs, fl, rsp, ss, return_to b] ! k" if "k < 6" for k
    using push_chain_up [OF room, of k "ram c"] that by (simp del: push_chain.simps)
  have c': "c' = run_insn b Iretq (exec b [Mov RAX R8, Push RCX, Push RSI, Push RAX, Push RDX, Push RDI]
      (push_val (return_to b) (fold (\<lambda>(r, v). set_reg r v) (zip [RDI, RSI, RDX, RCX, R8, R9] [rip, rsp, cs, ss, fl]) c)))"
    by (simp add: c'_def usermode_go_def sysv_def lion_usermode_go_def)
  show "pc c' = rip" "gpr c' RSP = rsp" "cs_sel c' = cs" "ss_sel c' = ss" "rflags c' = fl"
    unfolding c' using at [of 0] at [of 1] at [of 2] at [of 3] at [of 4] by (simp_all add: Let_def algebra_simps)
qed

section \<open>The context switch\<close>

text \<open>The registers a suspended task has on its stack, from the saved stack pointer upwards.\<close>

definition saved_frame :: "u64 \<Rightarrow> (u64 \<Rightarrow> u8) \<Rightarrow> u64 list" where
  "saved_frame sp m = map (\<lambda>k. get64 (sp + word_of_nat (8 * k)) m) [0..<7]"

lemma pops_run:
  fixes b :: board and c :: processor
  defines "c' \<equiv> exec b [Pop R15, Pop R14, Pop R13, Pop R12, Pop RBP, Pop RBX, Ret] c"
  shows "[gpr c' R15, gpr c' R14, gpr c' R13, gpr c' R12, gpr c' RBP, gpr c' RBX, pc c'] = saved_frame (gpr c RSP) (ram c)"
    "gpr c' RSP = gpr c RSP + 56" "ram c' = ram c"
  by (simp_all add: c'_def saved_frame_def upt_rec top_val_def add.assoc)

lemma context_switch_run:
  fixes b :: board
  assumes "stack_room 48 c" "unat (gpr c RSP) + 8 \<le> 2 ^ 64" "unat (gpr c RDI) + 8 \<le> 2 ^ 64"
    and "unat (gpr c RDI) + 48 + 8 \<le> unat (gpr c RSP) \<or> unat (gpr c RSP) + 8 \<le> unat (gpr c RDI)"
  defines "c' \<equiv> exec b context_switch_code c"
  shows "get64 (gpr c RDI) (ram c') = gpr c RSP - 48"
    "saved_frame (gpr c RSP - 48) (ram c') = [gpr c R15, gpr c R14, gpr c R13, gpr c R12, gpr c RBP, gpr c RBX, get64 (gpr c RSP) (ram c)]"
    "[gpr c' R15, gpr c' R14, gpr c' R13, gpr c' R12, gpr c' RBP, gpr c' RBX, pc c'] = saved_frame (gpr c RSI) (ram c')"
    "gpr c' RSP = gpr c RSI + 56"
proof -
  let ?sp = "gpr c RSP" and ?vs = "[gpr c RBX, gpr c RBP, gpr c R12, gpr c R13, gpr c R14, gpr c R15]"
  let ?m = "push_chain ?sp ?vs (ram c)"
  have room: "8 * length ?vs \<le> unat ?sp"
    using assms(1) by (simp add: stack_room_def)
  define d where "d = exec b (take 9 context_switch_code) c"
  have d: "ram d = put_bytes (gpr c RDI) (to_le64 (?sp - 48)) ?m" "gpr d RSP = gpr c RSI"
    by (simp_all add: d_def context_switch_code_def)
  have c': "c' = exec b [Pop R15, Pop R14, Pop R13, Pop R12, Pop RBP, Pop RBX, Ret] d"
    by (simp only: c'_def d_def context_switch_code_def) simp
  note pops = pops_run [of b d, folded c']
  have ram: "ram c' = put_bytes (gpr c RDI) (to_le64 (?sp - 48)) ?m"
    by (simp only: pops(3) d(1))
  show "get64 (gpr c RDI) (ram c') = ?sp - 48"
    using assms(3) by (simp add: ram get64_here)
  have "get64 (?sp - 48 + word_of_nat (8 * k)) (ram c') = [gpr c R15, gpr c R14, gpr c R13, gpr c R12, gpr c RBP, gpr c RBX, get64 ?sp (ram c)] ! k"
    if "k < 7" for k
  proof -
    have u: "unat (?sp - 48 + word_of_nat (8 * k)) = unat ?sp - 48 + 8 * k"
      using unat_below [of 48 ?sp] unat_offset [of "?sp - 48" "8 * k"] assms(1,2) that unat_bound [of ?sp] by (simp add: stack_room_def)
    have "get64 (?sp - 48 + word_of_nat (8 * k)) (ram c') = get64 (?sp - 48 + word_of_nat (8 * k)) ?m"
      unfolding ram using assms(1-4) that u by (intro get64_other) (auto simp: stack_room_def)
    also have "\<dots> = [gpr c R15, gpr c R14, gpr c R13, gpr c R12, gpr c RBP, gpr c RBX, get64 ?sp (ram c)] ! k"
    proof (cases "k = 6")
      case True
      then show ?thesis
        using push_chain_above [OF room, of ?sp "ram c"] assms(2) by simp
    next
      case False
      then have "get64 (?sp - 48 + word_of_nat (8 * k)) ?m = rev ?vs ! k"
        using push_chain_up [OF room, of k "ram c"] that by (simp del: push_chain.simps)
      moreover have "rev ?vs ! k = (rev ?vs @ [get64 ?sp (ram c)]) ! k"
        using that False by (simp only: nth_append) simp
      ultimately show ?thesis
        by (simp del: push_chain.simps)
    qed
    finally show ?thesis .
  qed
  then show "saved_frame (?sp - 48) (ram c') = [gpr c R15, gpr c R14, gpr c R13, gpr c R12, gpr c RBP, gpr c RBX, get64 ?sp (ram c)]"
    unfolding saved_frame_def by (intro nth_equalityI) simp_all
  show "[gpr c' R15, gpr c' R14, gpr c' R13, gpr c' R12, gpr c' RBP, gpr c' RBX, pc c'] = saved_frame (gpr c RSI) (ram c')"
    "gpr c' RSP = gpr c RSI + 56"
    using pops(1,2) unfolding pops(3) d(2) by simp_all
qed

lemma push_chain_below:
  assumes "8 * length vs \<le> unat sp" "unat p + 8 + 8 * length vs \<le> unat sp"
  shows "get64 p (push_chain sp vs m) = get64 p m"
  using assms
proof (induction vs arbitrary: sp m)
  case (Cons v vs)
  have u: "unat (sp - 8) = unat sp - 8"
    using Cons.prems(1) unat_below [of 8 sp] by simp
  then have "get64 p (push_chain (sp - 8) vs (put_bytes (sp - 8) (to_le64 v) m)) = get64 p (put_bytes (sp - 8) (to_le64 v) m)"
    using Cons.prems by (intro Cons.IH) simp_all
  also have "\<dots> = get64 p m"
    using Cons.prems u unat_bound [of sp] by (intro get64_other) simp_all
  finally show ?case
    by simp
qed simp

text \<open>A region of the address space that neither the pushes of a switch nor its store touch.\<close>

definition untouched :: "processor \<Rightarrow> u64 \<Rightarrow> bool" where
  "untouched c f \<longleftrightarrow> unat f + 56 \<le> 2 ^ 64 \<and> (unat (gpr c RSP) \<le> unat f \<or> unat f + 56 + 48 \<le> unat (gpr c RSP))
     \<and> (unat (gpr c RDI) + 8 \<le> unat f \<or> unat f + 56 \<le> unat (gpr c RDI))"

lemma context_switch_keeps_frame:
  fixes b :: board
  assumes "stack_room 48 c" "unat (gpr c RDI) + 8 \<le> 2 ^ 64" "untouched c f"
  shows "saved_frame f (ram (exec b context_switch_code c)) = saved_frame f (ram c)"
proof -
  let ?vs = "[gpr c RBX, gpr c RBP, gpr c R12, gpr c R13, gpr c R14, gpr c R15]"
  define d where "d = exec b (take 9 context_switch_code) c"
  have d: "ram d = put_bytes (gpr c RDI) (to_le64 (gpr c RSP - 48)) (push_chain (gpr c RSP) ?vs (ram c))"
    by (simp add: d_def context_switch_code_def)
  have "exec b context_switch_code c = exec b [Pop R15, Pop R14, Pop R13, Pop R12, Pop RBP, Pop RBX, Ret] d"
    by (simp only: d_def context_switch_code_def) simp
  then have ram: "ram (exec b context_switch_code c) = ram d"
    using pops_run(3) by simp
  have "get64 (f + word_of_nat (8 * k)) (ram d) = get64 (f + word_of_nat (8 * k)) (ram c)" if "k < 7" for k
  proof -
    have u: "unat (f + word_of_nat (8 * k)) = unat f + 8 * k"
      using assms(3) that by (intro unat_offset) (simp add: untouched_def)
    have "get64 (f + word_of_nat (8 * k)) (ram d) = get64 (f + word_of_nat (8 * k)) (push_chain (gpr c RSP) ?vs (ram c))"
      unfolding d using assms that u by (intro get64_other) (auto simp: untouched_def)
    also have "\<dots> = get64 (f + word_of_nat (8 * k)) (ram c)"
    proof (cases "unat (gpr c RSP) \<le> unat f")
      case True
      then show ?thesis
        using assms(1,3) that u by (intro push_chain_above) (simp_all add: stack_room_def untouched_def)
    next
      case False
      then show ?thesis
        using assms(1,3) that u by (intro push_chain_below) (simp_all add: stack_room_def untouched_def)
    qed
    finally show ?thesis .
  qed
  then show ?thesis
    by (simp add: ram saved_frame_def)
qed

text \<open>
  A task that was switched away resumes where it was: when its frame is still on its stack and the
  scheduler switches to the stack pointer that the first switch stored for it, the assembly returns
  to the address it was called from, with all six callee-saved registers and the stack pointer
  the task had, whatever the other task did meanwhile.
\<close>

lemma context_switch_resumes:
  assumes "stack_room 48 c" "unat (gpr c RSP) + 8 \<le> 2 ^ 64" "unat (gpr c RDI) + 8 \<le> 2 ^ 64"
    and "unat (gpr c RDI) + 48 + 8 \<le> unat (gpr c RSP) \<or> unat (gpr c RSP) + 8 \<le> unat (gpr c RDI)"
    and "c1 = exec b context_switch_code c"
    and "gpr c2 RSI = get64 (gpr c RDI) (ram c1)" "saved_frame (gpr c2 RSI) (ram c2) = saved_frame (gpr c2 RSI) (ram c1)"
    and "stack_room 48 c2" "unat (gpr c2 RDI) + 8 \<le> 2 ^ 64" "untouched c2 (gpr c2 RSI)"
    and "c3 = exec b context_switch_code c2"
  shows "pc c3 = get64 (gpr c RSP) (ram c) \<and> gpr c3 RSP = gpr c RSP + 8
    \<and> (\<forall>r\<in>{RBX, RBP, R12, R13, R14, R15}. gpr c3 r = gpr c r)"
proof -
  note first = context_switch_run [OF assms(1-4), of b, folded assms(5)]
  have rsi: "gpr c2 RSI = gpr c RSP - 48"
    using first(1) assms(6) by simp
  define d where "d = exec b (take 9 context_switch_code) c2"
  have "gpr d RSP = gpr c2 RSI"
    by (simp add: d_def context_switch_code_def)
  moreover have c3: "c3 = exec b [Pop R15, Pop R14, Pop R13, Pop R12, Pop RBP, Pop RBX, Ret] d"
    by (simp only: assms(11) d_def context_switch_code_def) simp
  ultimately have "[gpr c3 R15, gpr c3 R14, gpr c3 R13, gpr c3 R12, gpr c3 RBP, gpr c3 RBX, pc c3] = saved_frame (gpr c2 RSI) (ram c3)"
    "gpr c3 RSP = gpr c2 RSI + 56"
    using pops_run [of b d, folded c3] by simp_all
  moreover have "saved_frame (gpr c2 RSI) (ram c3) = saved_frame (gpr c2 RSI) (ram c1)"
    using context_switch_keeps_frame [OF assms(8-10), of b] assms(7,11) by simp
  ultimately show ?thesis
    using first(2) by (simp add: rsi)
qed

lemma context_switch_resumes_witness:
  "\<exists>c c1 c2. c1 = exec sample_board context_switch_code c \<and> gpr c R12 = 77 \<and> gpr c2 R12 = 0
     \<and> gpr (exec sample_board context_switch_code c2) R12 = 77 \<and> gpr (exec sample_board context_switch_code c2) RSP = 0x8008"
proof -
  let ?c = "sample_cpu\<lparr>gpr := (\<lambda>_. 0)(RSP := 0x8000, RDI := 0x3000, R12 := 77)\<rparr>"
  define c1 where "c1 = exec sample_board context_switch_code ?c"
  let ?c2 = "c1\<lparr>gpr := (\<lambda>_. 0)(RSP := 0x9000, RDI := 0x3008, RSI := 0x8000 - 48)\<rparr>"
  have room: "stack_room 48 ?c" "stack_room 48 ?c2"
    by (simp_all add: stack_room_def)
  have "get64 (gpr ?c RDI) (ram c1) = gpr ?c RSP - 48"
    unfolding c1_def by (rule context_switch_run(1) [OF room(1)]) simp_all
  then have rsi: "gpr ?c2 RSI = get64 (gpr ?c RDI) (ram c1)"
    by simp
  have "untouched ?c2 (gpr ?c2 RSI)"
    by (simp add: untouched_def)
  then have "gpr (exec sample_board context_switch_code ?c2) R12 = gpr ?c R12" "gpr (exec sample_board context_switch_code ?c2) RSP = gpr ?c RSP + 8"
    using context_switch_resumes [OF room(1) _ _ _ c1_def rsi _ room(2) _ _ refl] by simp_all
  then show ?thesis
    by (intro exI [of _ ?c] exI [of _ c1] exI [of _ ?c2]) (simp add: c1_def del: exec_simps)
qed

section \<open>Smaller routines\<close>

lemma read_rflags_correct:
  assumes "stack_room 16 c"
  shows "fst (read_rflags b c) = rflags c" "pc (snd (read_rflags b c)) = return_to b"
  using two_pushes [OF assms] by (simp_all add: read_rflags_def sysv_result_def sysv_def lion_read_rflags_def Let_def top_val_def)

lemma interrupt_flag:
  assumes "stack_room 8 c"
  shows "bit (rflags (sti b c)) 9" "\<not> bit (rflags (cli b c)) 9" "rflags (nasm_enable_interrupts b c) = rflags (sti b c)"
    "rflags (nasm_disable_interrupts b c) = rflags (cli b c)" "bit (rflags (stac b c)) 18" "\<not> bit (rflags (clac b c)) 18"
proof -
  have "bit (0x200 :: u64) 9" "bit (0x40000 :: u64) 18"
    by (simp_all add: bit_iff_odd)
  then show "bit (rflags (sti b c)) 9" "\<not> bit (rflags (cli b c)) 9" "rflags (nasm_enable_interrupts b c) = rflags (sti b c)"
    "rflags (nasm_disable_interrupts b c) = rflags (cli b c)" "bit (rflags (stac b c)) 18" "\<not> bit (rflags (clac b c)) 18"
    by (simp_all add: sti_def cli_def stac_def clac_def nasm_enable_interrupts_def nasm_disable_interrupts_def sysv_def
        lion_sti_def lion_cli_def lion_stac_def lion_clac_def enable_interrupts_code_def disable_interrupts_code_def
        bit_and_iff bit_or_iff bit_not_iff)
qed

lemma byte_of:
  "ucast (x AND - 256 OR ucast (y :: u8) AND 255 :: u64) = y" "ucast ((x AND - 256 OR ucast (y :: u8)) AND 255 :: u64) = y"
proof -
  have m: "(255 :: u64) = mask 8" "(- 256 :: u64) = NOT (mask 8)"
    by (simp_all add: mask_eq_exp_minus_1)
  show "ucast (x AND - 256 OR ucast (y :: u8) AND 255 :: u64) = y" "ucast ((x AND - 256 OR ucast (y :: u8)) AND 255 :: u64) = y"
    unfolding m by (auto intro!: bit_eqI simp: bit_simps)
qed

text \<open>An exchange outside the call's stack slot returns the old byte and stores the new one.\<close>

lemma xchg8_correct:
  assumes "stack_room 8 c" "unat p < unat (gpr c RSP) - 8 \<or> unat (gpr c RSP) \<le> unat p"
  shows "fst (xchg8 b p v c) = ram c p" "ram (snd (xchg8 b p v c)) p = v"
proof -
  have u: "unat (gpr c RSP - 8) = unat (gpr c RSP) - 8" "8 \<le> unat (gpr c RSP)"
    using assms(1) unat_below [of 8 "gpr c RSP"] by (simp_all add: stack_room_def)
  then have "\<not> (unat (gpr c RSP - 8) \<le> unat p \<and> unat p < unat (gpr c RSP - 8) + 8)"
    using assms(2) by auto
  then have old: "put_bytes (gpr c RSP - 8) (to_le64 w) m p = m p" for w m
    using put_bytes_at [of "gpr c RSP - 8" "to_le64 w" p 0 m] u unat_bound [of "gpr c RSP"] unat_bound [of p] by auto
  show "fst (xchg8 b p v c) = ram c p" "ram (snd (xchg8 b p v c)) p = v"
    by (simp_all add: xchg8_def sysv_result_def sysv_def lion_xchg8_def Let_def byte_of old)
qed

end
