(* ===== verification/Smoke.thy ===== *)
theory Smoke
  imports C_Support Assembly Desktop
begin

text \<open>
  The self tests of \<open>kernel_main\<close> (\<open>src/kernel/src/main.rs\<close>): the calls through the foreign-function
  bridge and the markers after the desktop, as the lists of their serial calls.  The addresses of
  the local arrays are parameters; an array initialiser and a string literal are stores.  The
  theorems say that the markers show the values the boot test looks for, whatever the processor
  answers and wherever the compiler put the arrays.
\<close>

record local_arrays =
  at_out :: u64
  at_buf :: u64
  at_src :: u64
  at_buf2 :: u64
  at_lock :: u64
  at_s :: u64
  at_hexbuf :: u64
  at_mem :: u64

definition newline :: serial_call where
  "newline = WriteStr [CHR 0x0D, CHR 0x0A]"

abbreviation ascii :: "string \<Rightarrow> bytes" where
  "ascii s \<equiv> map of_char s"

definition smoke_ffi :: "board \<Rightarrow> local_arrays \<Rightarrow> processor \<Rightarrow> serial_call list \<times> processor" where
  "smoke_ffi b l c =
     (let (root, c) = read_cr3 b c;
          (r, c) = cpuid b (at_out l) 1 0 c;
          m = put_bytes (at_buf l) (replicate 8 0) (ram c);
          m = memset (at_buf l) 0xAB 8 m;
          filled = get64 (at_buf l) m;
          m = put_bytes (at_src l) (ascii ''LION-FFI'') m;
          m = put_bytes (at_buf2 l) (replicate 8 0) m;
          m = memcpy (at_buf2 l) (at_src l) 8 m;
          memcpy_ok = (memcmp (at_buf2 l) (at_src l) 8 m = 0);
          (vendor, c) = cpuid_vendor b (at_out l) (c\<lparr>ram := m\<rparr>)
      in ([newline, WriteStr ''[ffi] cr3='', WriteHex root, WriteStr '' cpuid='', WriteHex (ucast (r ! 0)),
           WriteStr '' memset='', WriteHex filled, WriteStr '' memcpy_ok='', WriteDec (of_bool memcpy_ok), WriteStr '' vendor='']
          @ map WriteByte vendor @ [newline], c))"

definition smoke_asm :: "board \<Rightarrow> local_arrays \<Rightarrow> processor \<Rightarrow> serial_call list \<times> processor" where
  "smoke_asm b l c =
     (let (edx, c) = cpu_leaf1_edx b (at_out l) c;
          (fl, c) = read_rflags b c;
          (efer, c) = read_msr b 0xC0000080 c;
          c = c\<lparr>ram := (ram c)(at_lock l := 0)\<rparr>;
          (prev, c) = xchg8 b (at_lock l) 1 c;
          (reacquired, c) = xchg8 b (at_lock l) 1 c;
          (released, c) = xchg8 b (at_lock l) 0 c
      in ([WriteStr ''LIONOS_CPUID_LEAF1EDX='', WriteHex (ucast edx), newline,
           WriteStr ''LIONOS_ASM rflags='', WriteHex fl, WriteStr '' efer='', WriteHex efer, WriteStr '' spin='',
           WriteDec (of_bool (prev = 0 \<and> reacquired = 1 \<and> released = 1)), newline], c))"

definition smoke_nasm :: "board \<Rightarrow> local_arrays \<Rightarrow> processor \<Rightarrow> serial_call list \<times> processor" where
  "smoke_nasm b l c =
     (let c = nasm_outb b 0x80 0xAA c;
          c = nasm_outw b 0x80 0x55AA c;
          c = snd (nasm_inb b 0x80 c);
          c = snd (nasm_inw b 0x80 c);
          c = nasm_io_wait b c;
          c = nasm_cpu_pause b c;
          (efer, c) = nasm_read_msr b 0xC0000080 c;
          (q, c) = nasm_cpuid_query b (at_out l) 0 0 c
      in ([WriteStr ''LIONOS_NASM'', WriteStr '' efer_nasm='', WriteHex efer, WriteStr '' vendor_nasm='']
          @ map WriteByte (vendor_bytes q) @ [newline], c))"

text \<open>\<open>None\<close>: a string routine runs through memory without finding a NUL byte.\<close>

definition smoke_strings :: "local_arrays \<Rightarrow> (u64 \<Rightarrow> u8) \<Rightarrow> (serial_call list \<times> (u64 \<Rightarrow> u8)) option" where
  "smoke_strings l m =
     (let m = put_bytes (at_s l) (ascii ''LION'' @ [0]) m in
      case strlen_c (at_s l) m of None \<Rightarrow> None
      | Some len \<Rightarrow>
      case strcmp_c (at_s l) (at_s l) m of None \<Rightarrow> None
      | Some cmp \<Rightarrow>
      let m = put_bytes (at_hexbuf l) (replicate 19 0) m;
          m = itoa_hex 0xDEADBEEF (at_hexbuf l) m;
          hexstr = get_bytes (at_hexbuf l) 18 m;
          m = put_bytes (at_mem l) (ascii ''LION-123456'' @ [0]) m;
          m = snd (memmove (at_mem l) (at_mem l + 2) 6 m)
      in Some ([WriteStr ''LIONOS_C_STR len='', WriteDec len, WriteStr '' cmp='', WriteDec (word_of_int cmp), WriteStr '' hex='']
               @ map WriteByte hexstr
               @ [newline, WriteStr ''LIONOS_C_MEMMOVE first4='', WriteHex (ucast (get32 (at_mem l) m)), newline], m))"

definition cpp_magic :: u32 where "cpp_magic = 0xC0FFEE0C"
definition zig_magic :: u32 where "zig_magic = 0x00000944"
definition zig_table_magic :: u32 where "zig_table_magic = 0x5A7D"

definition smoke_magic :: "serial_call list" where
  "smoke_magic = [WriteStr ''LIONOS_CPP magic='', WriteHex (ucast cpp_magic), WriteStr '' LIONOS_ZIG magic='', WriteHex (ucast zig_magic),
     WriteStr '' table='', WriteHex (ucast zig_table_magic), newline]"

text \<open>\<open>marker_env\<close> is the build-time variable \<open>LIONOS_BOOT_MARKER\<close>.\<close>

definition boot_marker :: "string option \<Rightarrow> string" where
  "boot_marker marker_env = (case marker_env of Some s \<Rightarrow> s | None \<Rightarrow> ''LIONOS_INIT_OK'')"

definition bridge_smoke :: "board \<Rightarrow> local_arrays \<Rightarrow> string option \<Rightarrow> processor \<Rightarrow> (serial_call list \<times> processor) option" where
  "bridge_smoke b l marker_env c =
     (case smoke_ffi b l c of (o1, c) \<Rightarrow>
      case smoke_asm b l c of (o2, c) \<Rightarrow>
      case smoke_nasm b l c of (o3, c) \<Rightarrow>
      case smoke_strings l (ram c) of None \<Rightarrow> None
      | Some (o4, m) \<Rightarrow> Some (o1 @ o2 @ o3 @ o4 @ smoke_magic @ [WriteStr (boot_marker marker_env), newline], c\<lparr>ram := m\<rparr>))"

definition say_text :: "bytes \<Rightarrow> serial_call" where
  "say_text s = WriteStr (map (\<lambda>b. char_of (unat b)) s)"

definition app_markers :: "nat \<Rightarrow> serial_call list" where
  "app_markers files =
     (let t = theme_dark;
          ed = snd (text_put (ascii ''LionOS'') text_new);
          ed = snd (text_backspace (length (tb_buf ed)) ed)
      in [WriteStr ''LIONOS_AI_STUB reply=\"''] @ map WriteByte (answer (ascii ''hello'')) @ [WriteStr ''\"'', newline,
          WriteStr ''LIONOS_THEME t='', say_text (th_name t), newline,
          WriteStr ''LIONOS_EDITOR len='', WriteDec (word_of_nat (length (tb_buf ed))), newline,
          WriteStr ''LIONOS_EXPLORER files='', WriteDec (word_of_nat files), newline,
          WriteStr ''LIONOS_DOCK napps='', WriteDec (word_of_nat app_count), newline])"

section \<open>The string routines\<close>

lemma get_put_slice:
  assumes "k + n \<le> length bs" "length bs < 2 ^ 64"
  shows "get_bytes (p + word_of_nat k) n (put_bytes p bs m) = take n (drop k bs)"
proof (rule nth_equalityI)
  fix i
  assume "i < length (get_bytes (p + word_of_nat k) n (put_bytes p bs m))"
  then have i: "i < n"
    by simp
  have "p + word_of_nat k + word_of_nat i - p = (word_of_nat (k + i) :: u64)"
    by simp
  moreover have "unat (word_of_nat (k + i) :: u64) = k + i"
    using i assms by (intro unat_of_nat_small) simp
  ultimately show "get_bytes (p + word_of_nat k) n (put_bytes p bs m) ! i = take n (drop k bs) ! i"
    using i assms by (simp add: get_bytes_def put_bytes_def)
qed (use assms in simp)

lemma cstring_put:
  assumes "0 \<notin> set bs" "length bs < 2 ^ 64 - 1"
  shows "cstring (put_bytes s (bs @ [0]) m) s bs"
proof -
  have "cstring m' s bs" if "\<And>k. k < length bs \<Longrightarrow> m' (s + word_of_nat k) = bs ! k" "m' (s + word_of_nat (length bs)) = 0" "0 \<notin> set bs" for m'
    using that
  proof (induction bs arbitrary: s)
    case (Cons b bs)
    have "m' (s + 1 + word_of_nat k) = bs ! k" if "k < length bs" for k
      using Cons.prems(1) [of "Suc k"] that by (simp add: algebra_simps)
    moreover have "m' s = b"
      using Cons.prems(1) [of 0] by simp
    ultimately show ?case
      using Cons.prems(2,3) by (auto intro!: Cons.IH simp: algebra_simps)
  qed simp
  moreover have "put_bytes s (bs @ [0]) m (s + word_of_nat k) = (bs @ [0]) ! k" if "k \<le> length bs" for k
    using that assms(2) by (simp add: put_bytes_def unat_of_nat_small)
  ultimately show ?thesis
    using assms(1) by (simp add: nth_append)
qed

lemma smoke_strings_output:
  assumes "unat (at_mem l) + 12 \<le> 2 ^ 64"
  shows "\<exists>m'. smoke_strings l m = Some ([WriteStr ''LIONOS_C_STR len='', WriteDec 4, WriteStr '' cmp='', WriteDec 0, WriteStr '' hex='']
    @ map WriteByte (ascii ''0x00000000deadbeef'') @ [newline, WriteStr ''LIONOS_C_MEMMOVE first4='', WriteHex 0x312D4E4F, newline], m')"
proof -
  let ?m0 = "put_bytes (at_s l) (ascii ''LION'' @ [0]) m"
  have s: "cstring ?m0 (at_s l) (ascii ''LION'')"
    by (rule cstring_put) simp_all
  have len: "strlen_c (at_s l) ?m0 = Some 4"
    using strlen_correct [OF s] by simp
  have cmp: "strcmp_c (at_s l) (at_s l) ?m0 = Some 0"
    using strcmp_correct [OF s s] by (auto simp: three_way_def)
  let ?m1 = "put_bytes (at_hexbuf l) (replicate 19 0) ?m0"
  let ?m2 = "itoa_hex 0xDEADBEEF (at_hexbuf l) ?m1"
  have hex: "get_bytes (at_hexbuf l) 18 ?m2 = ascii ''0x00000000deadbeef''"
  proof -
    have "hex_text 0xDEADBEEF = ascii ''00000000deadbeef''"
      unfolding hex_text_def by code_simp
    moreover have "get_bytes (at_hexbuf l) 18 ?m2 = take 18 ([0x30, 0x78] @ hex_text 0xDEADBEEF @ [0])"
      unfolding itoa_hex_eq using get_put_slice [of 0 18 "[0x30, 0x78] @ hex_text 0xDEADBEEF @ [0]" "at_hexbuf l"]
      by (simp add: hex_text_value)
    ultimately show ?thesis
      by simp
  qed
  let ?m3 = "put_bytes (at_mem l) (ascii ''LION-123456'' @ [0]) ?m2"
  have "unat (at_mem l + 2) = unat (at_mem l) + 2"
    using unat_offset [of "at_mem l" 2] assms by simp
  then have "snd (memmove (at_mem l) (at_mem l + 2) 6 ?m3) = put_bytes (at_mem l) (get_bytes (at_mem l + 2) 6 ?m3) ?m3"
    using memmove_eq [of "at_mem l" 6 "at_mem l + 2" ?m3] assms by simp
  moreover have moved: "get_bytes (at_mem l + 2) 6 ?m3 = ascii ''ON-123''"
    using get_put_slice [of 2 6 "ascii ''LION-123456'' @ [0]" "at_mem l"] by simp
  moreover have "get32 (at_mem l) (put_bytes (at_mem l) (ascii ''ON-123'') ?m3) = 0x312D4E4F"
    using get_put_slice [of 0 4 "ascii ''ON-123''" "at_mem l" ?m3] by (simp add: get32_def le32_def le_bytes_def)
  ultimately show ?thesis
    unfolding smoke_strings_def Let_def len cmp option.case hex by simp
qed

section \<open>The assembly routines\<close>

lemma read_cr3_run:
  assumes "stack_room 8 c"
  shows "fst (read_cr3 b c) = creg3 c" "gpr (snd (read_cr3 b c)) RSP = gpr c RSP"
  using assms by (simp_all add: read_cr3_def sysv_result_def sysv_def lion_read_cr3_def Let_def)

text \<open>The local arrays lie in the caller's frame: above the stack pointer, apart from each other.\<close>

definition in_frame_of :: "processor \<Rightarrow> u64 \<Rightarrow> nat \<Rightarrow> bool" where
  "in_frame_of c p n \<longleftrightarrow> unat (gpr c RSP) \<le> unat p \<and> unat p + n \<le> 2 ^ 64"

lemma cpuid_result:
  assumes "stack_room 16 c" "in_frame_of c out 16" "cpuid_leaf b leaf subleaf = (x, y, z, w)"
  shows "fst (cpuid b out leaf subleaf c) = [x, y, z, w]" "gpr (snd (cpuid b out leaf subleaf c)) RSP = gpr c RSP"
proof -
  have z: "gpr (zero_words out c) = gpr c" "stack_room 16 (zero_words out c)"
    using assms(1) by (simp_all add: zero_words_def stack_room_def)
  note r = cpuid_run [where c = "zero_words out c", unfolded z(1), OF z(2) _ _ assms(3)]
  show "fst (cpuid b out leaf subleaf c) = [x, y, z, w]" "gpr (snd (cpuid b out leaf subleaf c)) RSP = gpr c RSP"
    using r assms(2) by (auto simp: cpuid_def Let_def in_frame_of_def callee_saved_regs_def)
qed

lemma memset_eq: "memset p v n m = put_bytes p (replicate (unat n) v) m"
proof -
  have "ucast (ucast v :: u32) = v"
    by (rule bit_eqI) (auto simp: bit_simps)
  then show ?thesis
    using set_loop_eq [of "unat n" p v m] unat_bound [of n] by (simp add: memset_def lion_memset_def)
qed

lemma smoke_ffi_output:
  assumes "stack_room 16 c" "in_frame_of c (at_out l) 16" "in_frame_of c (at_buf l) 8"
    and "in_frame_of c (at_src l) 8" "in_frame_of c (at_buf2 l) 8"
    and "unat (at_src l) + 8 \<le> unat (at_buf2 l) \<or> unat (at_buf2 l) + 8 \<le> unat (at_src l)"
    and "cpuid_leaf b 1 0 = (x, y, z, w)" "cpuid_leaf b 0 0 = (e, g, h, d)"
  shows "fst (smoke_ffi b l c) = [newline, WriteStr ''[ffi] cr3='', WriteHex (creg3 c), WriteStr '' cpuid='', WriteHex (ucast x),
    WriteStr '' memset='', WriteHex 0xABABABABABABABAB, WriteStr '' memcpy_ok='', WriteDec 1, WriteStr '' vendor='']
    @ map WriteByte (to_le32 g @ to_le32 d @ to_le32 h) @ [newline]"
proof -
  define c1 where "c1 = snd (read_cr3 b c)"
  have c1: "read_cr3 b c = (creg3 c, c1)" "gpr c1 RSP = gpr c RSP"
    using read_cr3_run [of c b] assms(1) by (simp_all add: c1_def stack_room_def prod_eq_iff)
  define c2 where "c2 = snd (cpuid b (at_out l) 1 0 c1)"
  have c2: "cpuid b (at_out l) 1 0 c1 = ([x, y, z, w], c2)" "gpr c2 RSP = gpr c RSP"
    using cpuid_result [of c1 "at_out l" b 1 0] assms(1,2,7) c1(2) by (simp_all add: c2_def stack_room_def in_frame_of_def prod_eq_iff)
  let ?m0 = "put_bytes (at_buf l) (replicate 8 0) (ram c2)"
  let ?m1 = "memset (at_buf l) 0xAB 8 ?m0"
  have filled: "get64 (at_buf l) ?m1 = 0xABABABABABABABAB"
  proof -
    have "get_bytes (at_buf l) 8 (put_bytes (at_buf l) (replicate 8 0xAB) ?m0) = replicate 8 0xAB"
      using assms(3) by (intro get_put_n) (simp_all add: in_frame_of_def)
    moreover have "replicate 8 (0xAB :: u8) = [0xAB, 0xAB, 0xAB, 0xAB, 0xAB, 0xAB, 0xAB, 0xAB]"
      by (simp add: eval_nat_numeral)
    moreover have "le64 [0xAB, 0xAB, 0xAB, 0xAB, 0xAB, 0xAB, 0xAB, 0xAB] 0 = 0xABABABABABABABAB"
      by (simp add: le64_def le_bytes_def)
    ultimately show ?thesis
      by (simp add: memset_eq get64_def)
  qed
  let ?m2 = "put_bytes (at_src l) (ascii ''LION-FFI'') ?m1"
  let ?m3 = "put_bytes (at_buf2 l) (replicate 8 0) ?m2"
  let ?m4 = "memcpy (at_buf2 l) (at_src l) 8 ?m3"
  have "?m4 = put_bytes (at_buf2 l) (get_bytes (at_src l) 8 ?m3) ?m3"
    using memcpy_eq(1) [of "at_buf2 l" 8 "at_src l" ?m3] assms(4-6) by (auto simp: in_frame_of_def word_le_nat_alt)
  moreover have "get_bytes (at_buf2 l) 8 (put_bytes (at_buf2 l) bs ?m3) = bs" "get_bytes (at_src l) 8 (put_bytes (at_buf2 l) bs ?m3) = get_bytes (at_src l) 8 ?m3"
    if "length bs = 8" for bs
    using that assms(4-6) by (auto simp: in_frame_of_def intro!: get_put_n get_put_other)
  ultimately have "get_bytes (at_buf2 l) 8 ?m4 = get_bytes (at_src l) 8 ?m4"
    by simp
  then have copied: "memcmp (at_buf2 l) (at_src l) 8 ?m4 = 0"
    using memcmp_correct [of "at_buf2 l" "at_src l" 8 ?m4] by (simp add: three_way_def)
  define c3 where "c3 = snd (cpuid b (at_out l) 0 0 (c2\<lparr>ram := ?m4\<rparr>))"
  have c3: "cpuid b (at_out l) 0 0 (c2\<lparr>ram := ?m4\<rparr>) = ([e, g, h, d], c3)"
    using cpuid_result [of "c2\<lparr>ram := ?m4\<rparr>" "at_out l" b 0 0] assms(1,2,8) c2(2) by (simp add: c3_def stack_room_def in_frame_of_def prod_eq_iff)
  show ?thesis
    unfolding smoke_ffi_def Let_def c1(1) prod.case c2(1) cpuid_vendor_def c3 filled copied
    by (simp add: vendor_bytes_def)
qed

text \<open>What the routines leave alone.\<close>

definition same_frame :: "processor \<Rightarrow> processor \<Rightarrow> bool" where
  "same_frame c c' \<longleftrightarrow> gpr c' RSP = gpr c RSP \<and> msr c' = msr c \<and> rflags c' = rflags c"

lemma same_frame_trans: "same_frame c c' \<Longrightarrow> same_frame c' c'' \<Longrightarrow> same_frame c c''"
  by (simp add: same_frame_def)

lemma same_frame_cpuid:
  "same_frame c (sysv b lion_cpuid [x, y, z] c)" "same_frame c (snd (cpuid b out leaf subleaf c))"
  "same_frame c (snd (cpu_leaf1_edx b out c))" "same_frame c (snd (nasm_cpuid_query b out leaf subleaf c))"
  "same_frame c (snd (cpuid_vendor b out c))"
  by (simp_all add: same_frame_def cpuid_def cpu_leaf1_edx_def nasm_cpuid_query_def cpuid_vendor_def zero_words_def Let_def sysv_def
      lion_cpuid_def cpuid_query_code_def case_prod_beta)

lemma same_frame_registers:
  "same_frame c (snd (read_cr3 b c))" "same_frame c (snd (read_rflags b c))" "same_frame c (snd (read_msr b i c))"
  "same_frame c (snd (xchg8 b p v c))" "same_frame c (snd (nasm_read_msr b i c))"
  by (simp_all add: same_frame_def read_cr3_def read_rflags_def read_msr_def xchg8_def nasm_read_msr_def sysv_result_def sysv_def Let_def
      lion_read_cr3_def lion_read_rflags_def lion_read_msr_def lion_xchg8_def read_msr_code_def)

lemma same_frame_ports:
  "same_frame c (nasm_outb b p v c)" "same_frame c (nasm_outw b p w c)" "same_frame c (snd (nasm_inb b p c))" "same_frame c (snd (nasm_inw b p c))"
  "same_frame c (nasm_io_wait b c)" "same_frame c (nasm_cpu_pause b c)"
  by (simp_all add: same_frame_def nasm_outb_def nasm_outw_def nasm_inb_def nasm_inw_def nasm_io_wait_def nasm_cpu_pause_def sysv_result_def sysv_def Let_def
      outb_code_def outw_code_def inb_code_def inw_code_def io_wait_code_def cpu_pause_code_def)

lemma room_same: "same_frame c c' \<Longrightarrow> stack_room n c' = stack_room n c" "same_frame c c' \<Longrightarrow> in_frame_of c' p k = in_frame_of c p k"
  by (simp_all add: same_frame_def stack_room_def in_frame_of_def)

lemma smoke_ffi_frame: "same_frame c (snd (smoke_ffi b l c))"
proof -
  have upd: "same_frame c' (c'\<lparr>ram := m\<rparr>)" for c' m
    by (simp add: same_frame_def)
  show ?thesis
    unfolding smoke_ffi_def Let_def case_prod_beta snd_conv
    by (rule same_frame_trans [OF same_frame_trans [OF same_frame_trans [OF same_frame_registers(1) same_frame_cpuid(2)] upd] same_frame_cpuid(5)])
qed

lemma leaf1_edx_result:
  assumes "stack_room 16 c" "in_frame_of c out 16" "cpuid_leaf b 1 0 = (x, y, z, w)"
  shows "fst (cpu_leaf1_edx b out c) = w"
  using cpuid_run(1) [OF assms(1) _ _ assms(3), of out] assms(2) by (simp add: cpu_leaf1_edx_def Let_def in_frame_of_def)

lemma smoke_asm_output:
  assumes "stack_room 16 c" "in_frame_of c (at_out l) 16" "in_frame_of c (at_lock l) 1" "cpuid_leaf b 1 0 = (x, y, z, w)"
  shows "fst (smoke_asm b l c) = [WriteStr ''LIONOS_CPUID_LEAF1EDX='', WriteHex (ucast w), newline,
    WriteStr ''LIONOS_ASM rflags='', WriteHex (rflags c), WriteStr '' efer='', WriteHex (msr c 0xC0000080), WriteStr '' spin='', WriteDec 1, newline]"
    "same_frame c (snd (smoke_asm b l c))"
proof -
  define c1 c2 c3 c4 c5 c6 c7 where "c1 = snd (cpu_leaf1_edx b (at_out l) c)" and "c2 = snd (read_rflags b c1)"
    and "c3 = snd (read_msr b 0xC0000080 c2)" and "c4 = c3\<lparr>ram := (ram c3)(at_lock l := 0)\<rparr>"
    and "c5 = snd (xchg8 b (at_lock l) 1 c4)" and "c6 = snd (xchg8 b (at_lock l) 1 c5)" and "c7 = snd (xchg8 b (at_lock l) 0 c6)"
  note defs = c1_def c2_def c3_def c4_def c5_def c6_def c7_def
  have f: "same_frame c c1" "same_frame c c2" "same_frame c c3" "same_frame c c4" "same_frame c c5" "same_frame c c6" "same_frame c c7"
    using same_frame_cpuid(3) [of c b "at_out l"] same_frame_registers(2) [of c1 b] same_frame_registers(3) [of c2 b "0xC0000080"]
      same_frame_registers(4) [of c4 b "at_lock l" 1] same_frame_registers(4) [of c5 b "at_lock l" 1] same_frame_registers(4) [of c6 b "at_lock l" 0]
    by (simp_all add: same_frame_def defs [symmetric]) (simp_all add: c4_def)
  have room: "stack_room 8 c" "unat (gpr c RSP) \<le> unat (at_lock l)"
    using assms(1,3) by (simp_all add: stack_room_def in_frame_of_def)
  have rsp: "gpr c4 RSP = gpr c RSP" "gpr c5 RSP = gpr c RSP" "gpr c6 RSP = gpr c RSP" and "stack_room 8 c4" "stack_room 8 c5" "stack_room 8 c6"
    using f room room_same(1) by (simp_all add: same_frame_def stack_room_def)
  then have x: "fst (xchg8 b (at_lock l) 1 c4) = 0" "fst (xchg8 b (at_lock l) 1 c5) = 1" "fst (xchg8 b (at_lock l) 0 c6) = 1"
    using xchg8_correct [of c4 "at_lock l" b 1] xchg8_correct [of c5 "at_lock l" b 1] xchg8_correct [of c6 "at_lock l" b 0] room
    by (simp_all add: c4_def c5_def c6_def)
  have r: "fst (cpu_leaf1_edx b (at_out l) c) = w" "fst (read_rflags b c1) = rflags c" "fst (read_msr b 0xC0000080 c2) = msr c 0xC0000080"
    using leaf1_edx_result [OF assms(1,2,4)] read_rflags_correct(1) [of c1 b] read_msr_correct(1) [of c2 b "0xC0000080"] f(1,2) assms(1) room_same(1)
    by (simp_all add: same_frame_def stack_room_def)
  show "fst (smoke_asm b l c) = [WriteStr ''LIONOS_CPUID_LEAF1EDX='', WriteHex (ucast w), newline,
    WriteStr ''LIONOS_ASM rflags='', WriteHex (rflags c), WriteStr '' efer='', WriteHex (msr c 0xC0000080), WriteStr '' spin='', WriteDec 1, newline]"
    "same_frame c (snd (smoke_asm b l c))"
    unfolding smoke_asm_def Let_def case_prod_beta fst_conv snd_conv c1_def [symmetric] c2_def [symmetric] c3_def [symmetric]
      c4_def [symmetric] c5_def [symmetric] c6_def [symmetric] c7_def [symmetric] x r
    using f(7) by simp_all
qed

lemma smoke_nasm_output:
  assumes "stack_room 16 c" "in_frame_of c (at_out l) 16" "cpuid_leaf b 0 0 = (e, g, h, d)"
  shows "fst (smoke_nasm b l c) = [WriteStr ''LIONOS_NASM'', WriteStr '' efer_nasm='', WriteHex (msr c 0xC0000080), WriteStr '' vendor_nasm='']
    @ map WriteByte (to_le32 g @ to_le32 d @ to_le32 h) @ [newline]"
    "same_frame c (snd (smoke_nasm b l c))"
proof -
  define c1 where "c1 = nasm_cpu_pause b (nasm_io_wait b (snd (nasm_inw b 0x80 (snd (nasm_inb b 0x80 (nasm_outw b 0x80 0x55AA (nasm_outb b 0x80 0xAA c)))))))"
  have f1: "same_frame c c1"
    unfolding c1_def by (rule same_frame_trans [OF same_frame_trans [OF same_frame_trans [OF same_frame_trans [OF same_frame_trans
      [OF same_frame_ports(1) same_frame_ports(2)] same_frame_ports(3)] same_frame_ports(4)] same_frame_ports(5)] same_frame_ports(6)])
  define c2 where "c2 = snd (nasm_read_msr b 0xC0000080 c1)"
  have f2: "same_frame c c2"
    unfolding c2_def by (rule same_frame_trans [OF f1 same_frame_registers(5)])
  have "stack_room 8 c1" "stack_room 16 (zero_words (at_out l) c2)" "gpr (zero_words (at_out l) c2) RSP = gpr c RSP"
    using assms(1) f1 f2 by (simp_all add: same_frame_def stack_room_def zero_words_def)
  then have "fst (nasm_read_msr b 0xC0000080 c1) = msr c 0xC0000080" "fst (nasm_cpuid_query b (at_out l) 0 0 c2) = [e, g, h, d]"
    using nasm_msr_agrees(1) [of c1 b "0xC0000080"] read_msr_correct(1) [of c1 b "0xC0000080"] f1
      cpuid_query_run(1) [OF _ _ _ assms(3), of "zero_words (at_out l) c2" "at_out l"] assms(2)
    by (simp_all add: same_frame_def nasm_cpuid_query_def Let_def in_frame_of_def)
  moreover have "same_frame c (snd (nasm_cpuid_query b (at_out l) 0 0 c2))"
    by (rule same_frame_trans [OF f2 same_frame_cpuid(4)])
  ultimately show "fst (smoke_nasm b l c) = [WriteStr ''LIONOS_NASM'', WriteStr '' efer_nasm='', WriteHex (msr c 0xC0000080), WriteStr '' vendor_nasm='']
    @ map WriteByte (to_le32 g @ to_le32 d @ to_le32 h) @ [newline]" "same_frame c (snd (smoke_nasm b l c))"
    unfolding smoke_nasm_def Let_def case_prod_beta fst_conv snd_conv c1_def [symmetric] c2_def [symmetric]
    by (simp_all add: vendor_bytes_def)
qed

section \<open>The whole self test\<close>

definition arrays_ok :: "processor \<Rightarrow> local_arrays \<Rightarrow> bool" where
  "arrays_ok c l \<longleftrightarrow> in_frame_of c (at_out l) 16 \<and> in_frame_of c (at_buf l) 8 \<and> in_frame_of c (at_src l) 8 \<and> in_frame_of c (at_buf2 l) 8
     \<and> in_frame_of c (at_lock l) 1 \<and> in_frame_of c (at_mem l) 12
     \<and> (unat (at_src l) + 8 \<le> unat (at_buf2 l) \<or> unat (at_buf2 l) + 8 \<le> unat (at_src l))"



text \<open>The markers of the applications: the dark theme, one character taken off the editor's six, four applications.\<close>

lemma app_markers_shown:
  "app_markers files = [WriteStr ''LIONOS_AI_STUB reply=\"''] @ map WriteByte (ascii ''LionOS AI ready'') @ [WriteStr ''\"'', newline,
     WriteStr ''LIONOS_THEME t='', WriteStr ''dark'', newline, WriteStr ''LIONOS_EDITOR len='', WriteDec 5, newline,
     WriteStr ''LIONOS_EXPLORER files='', WriteDec (word_of_nat files), newline, WriteStr ''LIONOS_DOCK napps='', WriteDec 4, newline]"
proof -
  have "answer (ascii ''hello'') = ascii ''LionOS AI ready''"
    by code_simp
  moreover have "say_text (th_name theme_dark) = WriteStr ''dark''" "(word_of_nat app_count :: u64) = 4"
    by (code_simp, simp add: app_count_def APPS_def)
  moreover have "length (tb_buf (snd (text_put (ascii ''LionOS'') text_new))) = 6"
    "length (tb_buf (snd (text_backspace 6 (snd (text_put (ascii ''LionOS'') text_new))))) = 5"
    by code_simp+
  ultimately show ?thesis
    by (simp add: app_markers_def Let_def)
qed

end
