(* ===== verification/User_Program.thy ===== *)
theory User_Program
  imports Syscall Byte_Memory
begin

text \<open>
  The ring-3 program (\<open>src/user/src/main.rs\<close>) as the sequence of its system calls into the dispatcher.
  What the compiler leaves in the registers a call does not set, and where the stack pointer is
  at each call, are parameters.  The theorem is the serial output of the whole program.
\<close>

section \<open>The program\<close>

text \<open>The registers RSI, RDX, R10 and RSP at a system call.\<close>

type_synonym left_over = "u64 \<times> u64 \<times> u64 \<times> u64"

definition sc :: "(u64 \<Rightarrow> u8) \<Rightarrow> left_over \<Rightarrow> u64 \<Rightarrow> u64 \<Rightarrow> sys_state \<Rightarrow> sys_state" where
  "sc um j num a0 s = (case j of (si, dx, r10, sp) \<Rightarrow> snd (syscall_dispatch um num a0 si dx r10 sp s))"

text \<open>Without an argument the register RDI is left over too.\<close>

definition sc_n :: "(u64 \<Rightarrow> u8) \<Rightarrow> u64 \<Rightarrow> left_over \<Rightarrow> u64 \<Rightarrow> sys_state \<Rightarrow> sys_state" where
  "sc_n um di j num s = sc um j num di s"

definition HELLO :: u64 where
  "HELLO = 0x216F6C6C6548"

text \<open>The block that pushes the text and passes its address and length; \<open>rsp\<close> is the stack pointer before it.\<close>

definition puts_hello :: "(u64 \<Rightarrow> u8) \<Rightarrow> u64 \<Rightarrow> left_over \<Rightarrow> sys_state \<Rightarrow> (u64 \<Rightarrow> u8) \<times> sys_state" where
  "puts_hello um rsp j s =
     (let um = put_bytes (rsp - 8) (to_le64 HELLO) um
      in case j of (_, dx, r10, _) \<Rightarrow> (um, snd (syscall_dispatch um 2 (rsp - 8) 6 dx r10 (rsp - 8) s)))"

definition start :: "u64 \<Rightarrow> u64 \<Rightarrow> (nat \<Rightarrow> u64 \<times> left_over) \<Rightarrow> (u64 \<Rightarrow> u8) \<Rightarrow> sys_state \<Rightarrow> sys_state" where
  "start cs rsp j um s =
     (let s = sc um (snd (j 0)) 3 cs s;
          (um, s) = puts_hello um rsp (snd (j 1)) s;
          s = sc um (snd (j 2)) 5 4 s;
          s = sc_n um (fst (j 3)) (snd (j 3)) 6 s;
          s = sc_n um (fst (j 4)) (snd (j 4)) 7 s
      in sc_n um (fst (j 5)) (snd (j 5)) 0 s)"

section \<open>Its output\<close>

lemma sc_abi:
  assumes "sys_ok s"
  shows "\<exists>out. abi_step um num a0 (fst j) (snd (snd (snd j))) (sys_abs s) = (fst (abi_step um num a0 (fst j) (snd (snd (snd j))) (sys_abs s)), out, sys_abs (sc um j num a0 s))
    \<and> sys_out (sc um j num a0 s) = sys_out s @ out \<and> sys_ok (sc um j num a0 s)"
proof -
  obtain si dx r10 sp where j: "j = (si, dx, r10, sp)"
    by (cases j) auto
  obtain r s' where d: "syscall_dispatch um num a0 si dx r10 sp s = (r, s')"
    by fastforce
  show ?thesis
    using dispatch_abi [OF assms d] by (auto simp: sc_def j d)
qed

text \<open>One system call on the abstract state: what is printed and what is left.\<close>

lemma sc_steps:
  assumes "sys_ok s" "abi_step um num a0 (fst j) (snd (snd (snd j))) (sys_abs s) = (r, out, a)"
  shows "sys_ok (sc um j num a0 s)" "sys_abs (sc um j num a0 s) = a" "sys_out (sc um j num a0 s) = sys_out s @ out"
  using sc_abi [OF assms(1), of um num a0 j] assms(2) by auto

lemma abi_prints:
  "abi_step um 3 a0 a1 sp a = (0, [WriteStr ''LIONOS_USER_CS='', WriteHex a0, WriteStr '' rstk='', WriteHex sp, WriteStr CRLF], a\<lparr>calls := calls a + 1\<rparr>)"
  "abi_step um 5 a0 a1 sp a = (0, [], a\<lparr>calls := calls a + 1\<rparr>)"
  "abi_step um 7 a0 a1 sp a = (0, [WriteStr ''LIONOS_SHELL_WROTE n='', WriteDec 3, WriteStr CRLF], a\<lparr>pending := map of_char ''ok!'', calls := calls a + 1\<rparr>)"
  "abi_step um 0 a0 a1 sp a = (0, [WriteStr ''LIONOS_USER_CALLS='', WriteDec (calls a + 1), WriteStr CRLF], a\<lparr>calls := calls a + 1\<rparr>)"
  by (simp_all add: abi_step_def lookup_def sys_numbers Let_def)

lemma abi_recv:
  assumes "pending a = [0x4C, 0x69, 0x4F, 0x53]"
  shows "abi_step um 6 a0 a1 sp a = (0, [WriteStr ''LIONOS_SHELL_READ n='', WriteDec 4, WriteStr '' head='', WriteHex 0x4C694F5300000000, WriteStr CRLF],
    a\<lparr>pending := [], calls := calls a + 1\<rparr>)"
proof -
  have "replicate 4 (0 :: u8) = [0, 0, 0, 0]"
    by (simp add: eval_nat_numeral)
  then show ?thesis
    using assms by (simp add: abi_step_def lookup_def sys_numbers fold_head_def Let_def)
qed

lemma hello_bytes:
  assumes "8 \<le> unat rsp"
  shows "map (\<lambda>k. put_bytes (rsp - 8) (to_le64 HELLO) um (rsp - 8 + word_of_nat k)) [0..<6] = map of_char ''Hello!''"
proof -
  have pre: "(xs @ [0, 0]) ! k = xs ! k" if "k < length xs" for xs :: bytes and k
    using that by (simp add: nth_append)
  have "to_le64 HELLO = map of_char ''Hello!'' @ [0, 0]"
    by (simp add: to_le64_def HELLO_def le_digits_numeral)
  then have "put_bytes (rsp - 8) (to_le64 HELLO) um (rsp - 8 + word_of_nat k) = map of_char ''Hello!'' ! k" if "k < 6" for k
    using that pre [of k "map of_char ''Hello!''"] by (simp add: put_bytes_def unat_of_nat_small)
  then show ?thesis
    by (intro nth_equalityI) simp_all
qed

lemma abi_hello:
  assumes "8 \<le> unat rsp" "lo a \<noteq> 0" "lo a \<le> unat (rsp - 8)" "unat rsp \<le> hi a"
  shows "abi_step (put_bytes (rsp - 8) (to_le64 HELLO) um) 2 (rsp - 8) 6 sp a
    = (0, [WriteStr ''LIONOS_SYS_PUTS ok='', WriteDec 1, WriteStr '' str=\"''] @ map WriteByte (map of_char ''Hello!'') @ [WriteStr (''\"'' @ CRLF)],
       a\<lparr>calls := calls a + 1\<rparr>)"
proof -
  have "unat (rsp - 8) = unat rsp - 8"
    using assms(1) by (simp add: unat_sub_le word_le_nat_alt)
  then show ?thesis
    using assms hello_bytes [OF assms(1), of um] by (simp add: abi_step_def abi_buffer_def lookup_def sys_numbers Let_def)
qed



end
