(* ===== verification/Launcher.thy ===== *)
theory Launcher
  imports Setup
begin

text \<open>
  The command line of the launcher (\<open>src/launcher/src/main.rs\<close>): the commands, what each runs
  (\<open>qemu::run\<close>, \<open>doctor::run\<close>, \<open>install::run\<close>, \<open>update::run\<close>, \<open>setup::run\<close>) and the exit code; and the
  search for the repository.  Parsing the arguments is the clap library's; a started process is a
  parameter.
\<close>

section \<open>Commands\<close>

datatype Command = Run bytes bool | Doctor | Install bool bool bool | Update bytes | SetupCmd bool

text \<open>
  \<open>start_qemu\<close> and \<open>start_self\<close> say whether the process could be started; QEMU's own exit status is not
  looked at.  \<open>smoke\<close> is the variable \<open>LIONOS_SMOKE\<close>.
\<close>

record session =
  kernel_file :: "bytes \<Rightarrow> bool"
  start_qemu :: "bytes \<times> bytes \<Rightarrow> bytes list \<Rightarrow> bool"
  start_self :: "bytes list \<Rightarrow> bool"
  exe_known :: bool
  log_opens :: bool
  smoke :: bool
  stdin_term :: terminal

datatype launch_error = QemuMissing | KernelMissing bytes | CannotStart | InstallFailed install_error | NoExecutable | LogNotOpened

definition qemu_run :: "platform \<Rightarrow> session \<Rightarrow> bytes \<Rightarrow> bool \<Rightarrow> host \<Rightarrow> launch_error + unit" where
  "qemu_run pl z img headless h =
     (case find_qemu pl h of None \<Rightarrow> Inl QemuMissing
      | Some qemu \<Rightarrow>
          if \<not> kernel_file z img then Inl (KernelMissing img)
          else if \<not> start_qemu z qemu (build_argv img headless) then Inl CannotStart else Inr ())"

definition detached_args :: "bool \<Rightarrow> bool \<Rightarrow> bytes list" where
  "detached_args skip_build from_release =
     [lit ''install''] @ (if skip_build then [lit ''--skip-build''] else []) @ (if from_release then [lit ''--release''] else [])"

definition run_detached :: "session \<Rightarrow> bool \<Rightarrow> bool \<Rightarrow> launch_error + unit" where
  "run_detached z skip_build from_release =
     (if \<not> exe_known z then Inl NoExecutable
      else if \<not> log_opens z then Inl LogNotOpened
      else if \<not> start_self z (detached_args skip_build from_release) then Inl CannotStart else Inr ())"

definition install_run :: "platform \<Rightarrow> outside \<Rightarrow> session \<Rightarrow> bool \<Rightarrow> bool \<Rightarrow> bool \<Rightarrow> host \<Rightarrow> (launch_error + unit) \<times> host" where
  "install_run pl w z skip_build detach from_release h =
     (if detach then (run_detached z skip_build from_release, h)
      else case run_inner pl w skip_build from_release h of
        (Inl e, h) \<Rightarrow> (Inl (InstallFailed e), h) | (Inr _, h) \<Rightarrow> (Inr (), h))"

definition setup_run ::
    "platform \<Rightarrow> outside \<Rightarrow> (install_error \<Rightarrow> bytes) \<Rightarrow> bytes \<Rightarrow> session \<Rightarrow> bool \<Rightarrow> host \<Rightarrow> ((install_error + unit) \<times> bytes list \<times> host) option" where
  "setup_run pl w err_text log_path z from_release h =
     (if smoke z then Some (run_smoke pl w err_text log_path from_release h)
      else run_wizard pl w err_text log_path from_release (stdin_term z) h)"

datatype ExitCode = SUCCESS | FAILURE

fun exit_code :: "'e + unit \<Rightarrow> ExitCode" where
  "exit_code (Inr _) = SUCCESS"
| "exit_code (Inl _) = FAILURE"

definition lionos_main ::
    "platform \<Rightarrow> outside \<Rightarrow> (install_error \<Rightarrow> bytes) \<Rightarrow> bytes \<Rightarrow> session \<Rightarrow> Command \<Rightarrow> host \<Rightarrow> (ExitCode \<times> host) option" where
  "lionos_main pl w err_text log_path z cmd h =
     (case cmd of
        Run img headless \<Rightarrow> Some (exit_code (qemu_run pl z img headless h), h)
      | Doctor \<Rightarrow> Some (if doctor_run pl h then SUCCESS else FAILURE, h)
      | Install skip_build detach from_release \<Rightarrow>
          (case install_run pl w z skip_build detach from_release h of (r, h) \<Rightarrow> Some (exit_code r, h))
      | Update source \<Rightarrow> (case update_step w source h of (r, h) \<Rightarrow> Some (exit_code r, h))
      | SetupCmd from_release \<Rightarrow>
          map_option (\<lambda>(r, _, h). (exit_code r, h)) (setup_run pl w err_text log_path z from_release h))"

section \<open>The repository\<close>

text \<open>A directory is the list of its components from the innermost outwards.\<close>

fun find_repo_root :: "(bytes list \<Rightarrow> bytes \<Rightarrow> bool) \<Rightarrow> bytes list \<Rightarrow> bytes list option" where
  "find_repo_root has dir =
     (if has dir (lit ''kernel'') \<and> has dir (lit ''os'') then Some dir
      else case dir of [] \<Rightarrow> None | _ # up \<Rightarrow> find_repo_root has up)"

declare find_repo_root.simps [simp del]

section \<open>What the commands do\<close>

lemma find_repo_root_nearest:
  "find_repo_root has dir = Some d \<longleftrightarrow>
     suffix d dir \<and> has d (lit ''kernel'') \<and> has d (lit ''os'')
     \<and> (\<forall>d'. suffix d' dir \<and> length d < length d' \<longrightarrow> \<not> (has d' (lit ''kernel'') \<and> has d' (lit ''os'')))"
proof (induction dir)
  case Nil
  then show ?case
    by (subst find_repo_root.simps) auto
next
  case (Cons x up)
  show ?case
  proof (cases "has (x # up) (lit ''kernel'') \<and> has (x # up) (lit ''os'')")
    case True
    then have "find_repo_root has (x # up) = Some (x # up)"
      by (subst find_repo_root.simps) simp
    then show ?thesis
      using True by (auto simp: suffix_Cons dest: suffix_length_le)
  next
    case False
    then have "find_repo_root has (x # up) = find_repo_root has up"
      by (subst find_repo_root.simps) auto
    then show ?thesis
      using False Cons.IH by (auto simp: suffix_Cons)
  qed
qed


end
