(* ===== verification/Switch_Refinement.thy ===== *)
theory Switch_Refinement
  imports Assembly Sched
begin

text \<open>
  The scheduler's model of the context switch against the instructions of \<open>switch.asm\<close>.  The
  scheduler theory keeps stacks as stack_cells of natural numbers and the saved stack pointers as fields
  of its own; the assembly has byte-addressed memory and 64-bit registers.  The relation below says
  which machine states a scheduler state stands for, and the theorems that the instructions of
  \<open>context_switch\<close>, called as \<open>run_pending_switch\<close> calls them, carry related states to related states.
\<close>

section \<open>Aligned stack_cells\<close>

lemma aligned_room: "8 dvd unat (p :: u64) \<Longrightarrow> unat p + 8 \<le> 2 ^ 64"
  using unat_bound [of p] by (auto elim!: dvdE)

lemma aligned_apart:
  assumes "8 dvd unat (p :: u64)" "8 dvd unat (q :: u64)" "p \<noteq> q"
  shows "unat q + 8 \<le> unat p \<or> unat p + 8 \<le> unat q"
proof -
  obtain i j where "unat p = 8 * i" "unat q = 8 * j"
    using assms(1,2) by (auto elim!: dvdE)
  moreover have "i < j \<or> j < i"
    using assms(3) calculation by (metis linorder_neqE_nat word_unat_eq_iff)
  ultimately show ?thesis
    by linarith
qed

lemma get_put_cell:
  assumes "8 dvd unat (p :: u64)" "8 dvd unat (q :: u64)"
  shows "get64 p (put_bytes q (to_le64 v) m) = (if p = q then v else get64 p m)"
  using aligned_room [OF assms(1)] aligned_room [OF assms(2)] aligned_apart [OF assms]
  by (simp add: get64_here get64_other)

section \<open>Scheduler states and machine states\<close>

text \<open>
  Where a machine keeps the scheduler's data: the 8-byte stack_cells that belong to stacks, and the
  address of each slot that holds a saved stack pointer.
\<close>

record switch_layout =
  stack_cells :: "nat set"
  slot_at :: "rsp_slot \<Rightarrow> u64"

definition ring_slots :: "Scheduler \<Rightarrow> rsp_slot set" where
  "ring_slots s = insert IdleSlot (TaskSlot ` {..<length (tasks s)})"

definition slot_value :: "world \<Rightarrow> rsp_slot \<Rightarrow> nat" where
  "slot_value w slot = (case slot of IdleSlot \<Rightarrow> IDLE_RSP w | TaskSlot i \<Rightarrow> saved_rsp (tasks (sched w) ! i))"

lemma slot_value_regs [simp]: "slot_value (regs_update f w) = slot_value w"
  by (intro ext) (simp add: slot_value_def split: rsp_slot.splits)

definition switch_layout_ok :: "switch_layout \<Rightarrow> Scheduler \<Rightarrow> bool" where
  "switch_layout_ok L s \<longleftrightarrow> (\<forall>a\<in>stack_cells L. 8 dvd a \<and> a < 2 ^ 64)
     \<and> (\<forall>x\<in>ring_slots s. 8 dvd unat (slot_at L x) \<and> unat (slot_at L x) \<notin> stack_cells L)
     \<and> inj_on (slot_at L) (ring_slots s)"

definition CALLEE_SAVED :: "reg list" where
  "CALLEE_SAVED = [RBX, RBP, R12, R13, R14, R15]"

definition machine_rel :: "switch_layout \<Rightarrow> world \<Rightarrow> processor \<Rightarrow> bool" where
  "machine_rel L w c \<longleftrightarrow> rsp (regs w) = unat (gpr c RSP) \<and> callee_saved (regs w) = map (unat \<circ> gpr c) CALLEE_SAVED
     \<and> rip (regs w) = unat (pc c)
     \<and> (\<forall>a\<in>stack_cells L. stack w a = unat (get64 (word_of_nat a) (ram c)))
     \<and> (\<forall>x\<in>ring_slots (sched w). slot_value w x = unat (get64 (slot_at L x) (ram c)))"

lemma cell_word:
  assumes "switch_layout_ok L s" "a \<in> stack_cells L"
  shows "unat (word_of_nat a :: u64) = a" "8 dvd unat (word_of_nat a :: u64)"
  using assms by (simp_all add: switch_layout_ok_def unat_of_nat_small)

lemma cell_not_slot:
  assumes "switch_layout_ok L s" "a \<in> stack_cells L" "x \<in> ring_slots s"
  shows "word_of_nat a \<noteq> slot_at L x" "8 dvd unat (slot_at L x)"
  using assms cell_word(1) [OF assms(1,2)] by (auto simp: switch_layout_ok_def)

section \<open>One instruction at a time\<close>

lemma push_refines:
  assumes "machine_rel L w c" "switch_layout_ok L (sched w)" "8 \<le> rsp (regs w)" "rsp (regs w) - 8 \<in> stack_cells L"
  shows "machine_rel L (push_cell (unat v) w) (push_val v c)"
proof -
  let ?q = "gpr c RSP - 8"
  have q: "unat ?q = rsp (regs w) - 8" "?q = word_of_nat (rsp (regs w) - 8)"
    using assms(1,3) unat_below [of 8 "gpr c RSP"] by (simp_all add: machine_rel_def flip: word_unat_eq_iff)
  have al: "8 dvd unat ?q"
    using cell_word(2) [OF assms(2,4)] q(2) by simp
  have "stack (push_cell (unat v) w) a = unat (get64 (word_of_nat a) (put_bytes ?q (to_le64 v) (ram c)))" if "a \<in> stack_cells L" for a
  proof -
    have "word_of_nat a = ?q \<longleftrightarrow> a = rsp (regs w) - 8"
      using cell_word(1) [OF assms(2) that] q by metis
    then show ?thesis
      using assms(1) that get_put_cell [OF cell_word(2) [OF assms(2) that] al, of v "ram c"]
      by (simp add: push_cell_def machine_rel_def)
  qed
  moreover have "slot_value (push_cell (unat v) w) x = unat (get64 (slot_at L x) (put_bytes ?q (to_le64 v) (ram c)))"
    if "x \<in> ring_slots (sched w)" for x
    using assms(1) that get_put_cell [OF cell_not_slot(2) [OF assms(2,4) that] al, of v "ram c"]
      cell_not_slot(1) [OF assms(2,4) that] q(2)
    by (auto simp: push_cell_def machine_rel_def slot_value_def split: rsp_slot.splits)
  ultimately show ?thesis
    using assms(1) q(1) by (simp add: machine_rel_def push_val_def push_cell_def set_reg_def CALLEE_SAVED_def Let_def)
qed

lemma push_cell_sched [simp]: "sched (push_cell v w) = sched w" "rsp (regs (push_cell v w)) = rsp (regs w) - 8"
  by (simp_all add: push_cell_def)

lemma push_all_refines:
  assumes "machine_rel L w c" "switch_layout_ok L (sched w)" "8 * length rs \<le> rsp (regs w)" "RSP \<notin> set rs"
    and "\<forall>k. 0 < k \<and> k \<le> length rs \<longrightarrow> rsp (regs w) - 8 * k \<in> stack_cells L"
  shows "machine_rel L (push_all (map (unat \<circ> gpr c) rs) w) (exec b (map Push rs) c)"
  using assms
proof (induction rs arbitrary: w c)
  case (Cons r rs)
  let ?c = "push_val (gpr c r) c"
  have m: "machine_rel L (push_cell (unat (gpr c r)) w) ?c"
    using Cons.prems(3) Cons.prems(5) [rule_format, of 1] by (intro push_refines [OF Cons.prems(1,2)]) simp_all
  have g: "map (\<lambda>x. unat (gpr ?c x)) rs = map (\<lambda>x. unat (gpr c x)) rs"
    using Cons.prems(4) by (auto simp: push_val_def set_reg_def Let_def)
  have "rsp (regs w) - 8 - 8 * k \<in> stack_cells L" if "0 < k" "k \<le> length rs" for k
    using Cons.prems(5) [rule_format, of "Suc k"] that by simp
  then have "machine_rel L (push_all (map (unat \<circ> gpr ?c) rs) (push_cell (unat (gpr c r)) w)) (exec b (map Push rs) ?c)"
    using Cons.prems(2-4) by (intro Cons.IH [OF m]) simp_all
  then show ?case
    unfolding comp_def g by (simp add: comp_def)
qed simp

lemma push_all_state: "sched (push_all vs w) = sched w" "rsp (regs (push_all vs w)) = rsp (regs w) - 8 * length vs"
  by (induction vs arbitrary: w) simp_all

lemma store_slot_refines:
  assumes "machine_rel L w c" "switch_layout_ok L (sched w)" "x \<in> ring_slots (sched w)" "gpr c RDI = slot_at L x"
  shows "machine_rel L (store_slot x (rsp (regs w)) w) (exec b [Mov RAX RSP, StoreQ RDI RAX] c)"
proof -
  let ?m = "put_bytes (slot_at L x) (to_le64 (gpr c RSP)) (ram c)"
  let ?w = "store_slot x (rsp (regs w)) w"
  have al: "8 dvd unat (slot_at L y)" if "y \<in> ring_slots (sched w)" for y
    using assms(2) that by (simp add: switch_layout_ok_def)
  have "get64 (word_of_nat a) ?m = get64 (word_of_nat a) (ram c)" if "a \<in> stack_cells L" for a
    using get_put_cell [OF cell_word(2) [OF assms(2) that] al [OF assms(3)]] cell_not_slot(1) [OF assms(2) that assms(3)] by simp
  moreover have "slot_value ?w y = unat (get64 (slot_at L y) ?m)" if "y \<in> ring_slots (sched w)" for y
  proof -
    have "slot_at L y = slot_at L x \<longleftrightarrow> y = x"
      using assms(2,3) that by (auto simp: switch_layout_ok_def inj_on_def)
    moreover have "slot_value ?w y = (if y = x then rsp (regs w) else slot_value w y)"
      using assms(3) by (auto simp: slot_value_def store_slot_def ring_slots_def nth_list_update split: rsp_slot.splits)
    ultimately show ?thesis
      using assms(1) that get_put_cell [OF al [OF that] al [OF assms(3)]] by (simp add: machine_rel_def)
  qed
  moreover have "ring_slots (sched ?w) = ring_slots (sched w)"
    by (auto simp: store_slot_def ring_slots_def split: rsp_slot.splits)
  moreover have "regs ?w = regs w" "stack ?w = stack w"
    by (simp_all add: store_slot_def split: rsp_slot.splits)
  ultimately show ?thesis
    using assms(1,4) by (simp add: machine_rel_def set_reg_def CALLEE_SAVED_def)
qed


section \<open>The call\<close>

lemma saved_frame_cells:
  assumes "machine_rel L w c" "switch_layout_ok L (sched w)" "\<forall>k<7. sp + 8 * k \<in> stack_cells L"
  shows "map unat (saved_frame (word_of_nat sp) (ram c)) = pops 7 sp (stack w)"
proof -
  have "unat (get64 (word_of_nat sp + word_of_nat (8 * k)) (ram c)) = stack w (sp + 8 * k)" if "k < 7" for k
  proof -
    have "word_of_nat sp + word_of_nat (8 * k) = (word_of_nat (sp + 8 * k) :: u64)"
      by simp
    then show ?thesis
      using assms(1,3) that by (simp only: machine_rel_def)
  qed
  then show ?thesis
    by (simp add: saved_frame_def pops_def)
qed

lemma pops_refine:
  assumes "machine_rel L w c" "switch_layout_ok L (sched w)" "\<forall>k<7. sp + 8 * k \<in> stack_cells L" "gpr c RSP = word_of_nat sp" "sp + 56 < 2 ^ 64"
  shows "machine_rel L (w\<lparr>regs := \<lparr>rsp = sp + 56, callee_saved = rev (pops 6 sp (stack w)), rip = stack w (sp + 48)\<rparr>\<rparr>)
    (exec b [Pop R15, Pop R14, Pop R13, Pop R12, Pop RBP, Pop RBX, Ret] c)" (is "machine_rel L ?w ?c")
proof -
  note r = pops_run [of b c]
  have f: "map unat [gpr ?c R15, gpr ?c R14, gpr ?c R13, gpr ?c R12, gpr ?c RBP, gpr ?c RBX, pc ?c] = pops 7 sp (stack w)"
    using saved_frame_cells [OF assms(1-3)] r(1) assms(4) by (simp only:)
  have "pops 7 sp (stack w) = pops 6 sp (stack w) @ [stack w (sp + 48)]"
    by (simp add: pops_def upt_rec)
  then have "pops 6 sp (stack w) = map unat [gpr ?c R15, gpr ?c R14, gpr ?c R13, gpr ?c R12, gpr ?c RBP, gpr ?c RBX]"
      "stack w (sp + 48) = unat (pc ?c)"
    using f by (simp_all add: pops_def upt_rec del: exec_simps)
  moreover have "unat (gpr ?c RSP) = sp + 56"
  proof -
    have "gpr ?c RSP = word_of_nat (sp + 56)"
      using r(2) assms(4) by (simp del: exec_simps)
    then show ?thesis
      using assms(5) by (simp only:) (rule unat_of_nat_small, simp)
  qed
  ultimately show ?thesis
    using assms(1) r(3) by (simp add: machine_rel_def CALLEE_SAVED_def del: exec_simps)
qed

text \<open>The caller's stack has room for the return address and six registers, and the next stack for what is popped.\<close>

definition switch_room :: "switch_layout \<Rightarrow> world \<Rightarrow> nat \<Rightarrow> bool" where
  "switch_room L w sp \<longleftrightarrow> 56 \<le> rsp (regs w) \<and> (\<forall>k. 0 < k \<and> k \<le> 7 \<longrightarrow> rsp (regs w) - 8 * k \<in> stack_cells L)
     \<and> (\<forall>k<7. sp + 8 * k \<in> stack_cells L) \<and> sp + 56 < 2 ^ 64"

lemma context_switch_refines:
  assumes "machine_rel L w c" "switch_layout_ok L (sched w)" "x \<in> ring_slots (sched w)" "switch_room L w sp"
  shows "machine_rel L (context_switch x sp (unat (return_to b)) w) (sysv b context_switch_code [slot_at L x, word_of_nat sp] c)"
proof -
  let ?a = "set_reg RSI (word_of_nat sp) (set_reg RDI (slot_at L x) c)"
  let ?c = "push_val (return_to b) ?a"
  let ?w = "push_cell (unat (return_to b)) w"
  let ?d = "exec b (map Push CALLEE_SAVED) ?c"
  let ?v = "push_all (callee_saved (regs w)) ?w"
  have "machine_rel L w ?a"
    using assms(1) by (simp add: machine_rel_def set_reg_def CALLEE_SAVED_def)
  then have w: "machine_rel L ?w ?c"
    using assms(2,4) by (intro push_refines) (auto simp: switch_room_def)
  have cs: "callee_saved (regs w) = map (unat \<circ> gpr ?c) CALLEE_SAVED" "length CALLEE_SAVED = 6"
    using assms(1) by (simp_all add: machine_rel_def push_val_def set_reg_def CALLEE_SAVED_def Let_def)
  have "rsp (regs ?w) - 8 * k \<in> stack_cells L" if "0 < k" "k \<le> 6" for k
  proof -
    have "rsp (regs w) - 8 * Suc k \<in> stack_cells L"
      using assms(4) that unfolding switch_room_def by (metis Suc_le_mono zero_less_Suc numeral_nat(7) eval_nat_numeral(3))
    then show ?thesis
      by simp
  qed
  moreover have "8 * length CALLEE_SAVED \<le> rsp (regs ?w)" "RSP \<notin> set CALLEE_SAVED"
    using assms(4) by (auto simp: switch_room_def CALLEE_SAVED_def)
  ultimately have v: "machine_rel L ?v ?d"
    unfolding cs(1) using assms(2) w cs(2) by (intro push_all_refines) simp_all
  have s: "sched ?v = sched w"
    by (simp add: push_all_state)
  have di: "gpr ?d RDI = slot_at L x" "gpr ?d RSI = word_of_nat sp"
    by (simp_all add: CALLEE_SAVED_def)
  let ?e = "exec b [Mov RAX RSP, StoreQ RDI RAX] ?d" and ?u = "store_slot x (rsp (regs ?v)) ?v"
  have u: "machine_rel L ?u ?e"
    using v assms(2,3) s di by (intro store_slot_refines) simp_all
  have us: "switch_layout_ok L (sched ?u)" "stack ?u = stack ?v"
    using assms(2) s by (auto simp: store_slot_def switch_layout_ok_def ring_slots_def split: rsp_slot.splits)
  let ?f = "run_insn b (Mov RSP RSI) ?e" and ?u' = "?u\<lparr>regs := (regs ?u)\<lparr>rsp := sp\<rparr>\<rparr>"
  have spw: "unat (word_of_nat sp :: u64) = sp"
    using assms(4) by (intro unat_of_nat_small) (simp add: switch_room_def)
  have "machine_rel L ?u' ?f" "gpr ?f RSP = word_of_nat sp"
    using u di spw by (simp_all add: machine_rel_def set_reg_def CALLEE_SAVED_def del: run_insn.simps(5))
  then have "machine_rel L (?u'\<lparr>regs := \<lparr>rsp = sp + 56, callee_saved = rev (pops 6 sp (stack ?u')), rip = stack ?u' (sp + 48)\<rparr>\<rparr>)
      (exec b [Pop R15, Pop R14, Pop R13, Pop R12, Pop RBP, Pop RBX, Ret] ?f)"
    using us(1) assms(4) by (intro pops_refine) (simp_all add: switch_room_def)
  then show ?thesis
    by (simp add: context_switch_def sysv_def context_switch_code_def CALLEE_SAVED_def Let_def del: run_insn.simps)
qed


section \<open>A pending switch\<close>

definition slot_of :: "Scheduler \<Rightarrow> nat \<Rightarrow> rsp_slot" where
  "slot_of s i = (if i \<ge> real_tasks s then IdleSlot else TaskSlot i)"

lemma slot_value_of: "slot_value w (slot_of (sched w) i) = slot_rsp w i"
  by (simp add: slot_value_def slot_of_def slot_rsp_def)

lemma machine_rel_bookkeeping:
  assumes "machine_rel L w c"
  shows "machine_rel L (w\<lparr>sched := (sched w)\<lparr>switch_pending := p, switches := n\<rparr>, CURRENT_ID := i\<rparr>) c"
proof -
  have "slot_value (w\<lparr>sched := (sched w)\<lparr>switch_pending := p, switches := n\<rparr>, CURRENT_ID := i\<rparr>) = slot_value w"
    by (intro ext) (simp add: slot_value_def split: rsp_slot.splits)
  then show ?thesis
    using assms by (simp add: machine_rel_def ring_slots_def)
qed

text \<open>
  C10: The scheduler's switch is what the processor does.  Whenever a machine state represents the
  scheduler's state (registers, stack stack_cells and the memory slots of the saved stack pointers) and a
  switch is pending, calling the assembly of \<open>switch.asm\<close> with the address of the running slot and the
  stack pointer read from the slot to resume leaves a machine state that represents the state the
  scheduler's model of \<open>run_pending_switch\<close> computes, with no switch pending and the ring's invariant kept.
\<close>

theorem run_pending_switch_refines:
  fixes b :: board
  assumes "machine_rel L w c" "switch_layout_ok L (sched w)" "sched_wf w" "switch_pending (sched w)"
    and "switch_room L w (slot_rsp w (current (sched w)))"
  defines "w' \<equiv> run_pending_switch (unat (return_to b)) w"
  shows "machine_rel L w' (sysv b context_switch_code
      [slot_at L (slot_of (sched w) (CURRENT_ID w)), get64 (slot_at L (slot_of (sched w) (current (sched w)))) (ram c)] c)
    \<and> sched_wf w' \<and> \<not> switch_pending (sched w') \<and> CURRENT_ID w' = current (sched w) \<and> switch_layout_ok L (sched w')"
proof -
  let ?s = "sched w" let ?t = "slot_rsp w (current ?s)"
  let ?v = "w\<lparr>sched := ?s\<lparr>switch_pending := False, switches := switches ?s + 1\<rparr>, CURRENT_ID := current ?s\<rparr>"
  have room: "56 \<le> rsp (regs w)"
    using assms(5) by (simp add: switch_room_def)
  note r = run_pending_switch_step [OF assms(3,4) room, of "unat (return_to b)", folded w'_def]
  have in_ring: "slot_of ?s i \<in> ring_slots ?s" if "i \<le> real_tasks ?s" for i
    using that assms(3) by (auto simp: slot_of_def ring_slots_def sched_wf_def)
  have "current ?s \<le> real_tasks ?s" "CURRENT_ID w \<le> real_tasks ?s" "started ?s"
    using assms(3) by (auto simp: sched_wf_def)
  then have t: "?t = unat (get64 (slot_at L (slot_of ?s (current ?s))) (ram c))"
    using assms(1) in_ring by (simp add: machine_rel_def flip: slot_value_of)
  have w': "w' = context_switch (slot_of ?s (CURRENT_ID w)) ?t (unat (return_to b)) ?v"
    using assms(4) \<open>started ?s\<close> by (simp add: w'_def run_pending_switch_def Let_def slot_of_def slot_rsp_def)
  have "machine_rel L (context_switch (slot_of ?s (CURRENT_ID w)) ?t (unat (return_to b)) ?v)
      (sysv b context_switch_code [slot_at L (slot_of ?s (CURRENT_ID w)), word_of_nat ?t] c)"
    using assms(2,5) in_ring [OF \<open>CURRENT_ID w \<le> real_tasks ?s\<close>]
    by (intro context_switch_refines machine_rel_bookkeeping assms(1)) (simp_all add: switch_layout_ok_def ring_slots_def switch_room_def)
  moreover have "switch_layout_ok L (sched w')"
    using assms(2) by (simp add: w' context_switch_def store_slot_def switch_layout_ok_def ring_slots_def push_all_state Let_def split: rsp_slot.splits)
  ultimately show ?thesis
    using r(7-9) by (simp add: w' t)
qed


text \<open>Stacks below \<open>0x3000\<close>, the idle slot there and the task slots above it; task 0 is parked on a zero frame.\<close>

definition switch_sample :: switch_layout where
  "switch_sample = \<lparr>stack_cells = {a. 8 dvd a \<and> a < 0x3000}, slot_at = (\<lambda>s. case s of IdleSlot \<Rightarrow> 0x3000 | TaskSlot i \<Rightarrow> 0x3008 + 8 * word_of_nat i)\<rparr>"

definition sample_ring :: world where
  "sample_ring = \<lparr>sched = \<lparr>tasks = [pcb_new\<lparr>saved_rsp := 0x1000\<rparr>, pcb_new], current = 0, switches = 0,
      started = True, switch_pending = True, real_tasks = 1\<rparr>, CURRENT_ID = 1, IDLE_RSP = 0, TASK_FN = None,
      SCHED_ON = True, PIT_KICKS = 0, regs = \<lparr>rsp = 0x2000, callee_saved = [7, 7, 7, 7, 7, 7], rip = 0\<rparr>, stack = (\<lambda>_. 0)\<rparr>"

definition ring_machine :: processor where
  "ring_machine = sample_cpu\<lparr>gpr := (\<lambda>_. 7)(RSP := 0x2000), ram := put_bytes 0x3008 (to_le64 0x1000) (\<lambda>_. 0)\<rparr>"

lemma sample_slots: "ring_slots (sched sample_ring) = {IdleSlot, TaskSlot 0, TaskSlot 1}"
  by (auto simp: ring_slots_def sample_ring_def image_def dest: less_2_cases)

lemma sample_slot_at:
  "slot_at switch_sample IdleSlot = 0x3000" "slot_at switch_sample (TaskSlot 0) = 0x3008" "slot_at switch_sample (TaskSlot (Suc 0)) = 0x3010"
  by (simp_all add: switch_sample_def)

lemma switch_sample_ok: "switch_layout_ok switch_sample (sched sample_ring)"
proof -
  have "inj_on (slot_at switch_sample) {IdleSlot, TaskSlot 0, TaskSlot 1}"
    by (simp add: sample_slot_at)
  moreover have "\<forall>a\<in>stack_cells switch_sample. 8 dvd a \<and> a < 2 ^ 64" "0x3000 \<notin> stack_cells switch_sample" "0x3008 \<notin> stack_cells switch_sample"
      "0x3010 \<notin> stack_cells switch_sample"
    by (simp_all add: switch_sample_def)
  ultimately show ?thesis
    by (simp add: switch_layout_ok_def sample_slots sample_slot_at)
qed

lemma get64_zeros: "get64 p (\<lambda>_. 0) = 0"
  by (simp add: get64_def get_bytes_def map_replicate_const le64_def, code_simp)

lemma ring_machine_rel: "machine_rel switch_sample sample_ring ring_machine"
proof -
  have "get64 (word_of_nat a) (ram ring_machine) = 0" if "a \<in> stack_cells switch_sample" for a
  proof -
    have "8 dvd unat (word_of_nat a :: u64)" "word_of_nat a \<noteq> (0x3008 :: u64)"
      using that cell_word [OF switch_sample_ok that] by (auto simp: switch_sample_def)
    then show ?thesis
      using get_put_cell [of "word_of_nat a" "0x3008" "0x1000" "\<lambda>_. 0"] by (simp add: ring_machine_def get64_zeros)
  qed
  moreover have "slot_value sample_ring x = unat (get64 (slot_at switch_sample x) (ram ring_machine))"
    if "x \<in> ring_slots (sched sample_ring)" for x
  proof -
    have "get64 0x3000 (ram ring_machine) = 0" "get64 0x3008 (ram ring_machine) = 0x1000" "get64 0x3010 (ram ring_machine) = 0"
      by (simp_all add: ring_machine_def get_put_cell get64_zeros)
    moreover have "slot_value sample_ring IdleSlot = 0" "slot_value sample_ring (TaskSlot 0) = 0x1000" "slot_value sample_ring (TaskSlot 1) = 0"
      by (simp_all add: slot_value_def sample_ring_def pcb_new_def)
    ultimately show ?thesis
      using that by (auto simp: sample_slots sample_slot_at)
  qed
  moreover have "rsp (regs sample_ring) = unat (gpr ring_machine RSP)" "rip (regs sample_ring) = unat (pc ring_machine)"
      "callee_saved (regs sample_ring) = map (unat \<circ> gpr ring_machine) CALLEE_SAVED" "stack sample_ring = (\<lambda>_. 0)"
    by (simp_all add: sample_ring_def ring_machine_def sample_cpu_def CALLEE_SAVED_def)
  ultimately show ?thesis
    by (simp add: machine_rel_def)
qed

theorem run_pending_switch_refines_witness:
  "let c = sysv sample_board context_switch_code [0x3000, 0x1000] ring_machine
   in machine_rel switch_sample (run_pending_switch 0x5555 sample_ring) c \<and> gpr c RSP = 0x1038"
proof -
  have wf: "sched_wf sample_ring" "switch_pending (sched sample_ring)"
    by (simp_all add: sched_wf_def sample_ring_def)
  have room: "switch_room switch_sample sample_ring (slot_rsp sample_ring (current (sched sample_ring)))"
    by (auto simp: switch_room_def switch_sample_def sample_ring_def slot_rsp_def intro: dvd_diff_nat)
  have args: "slot_at switch_sample (slot_of (sched sample_ring) (CURRENT_ID sample_ring)) = 0x3000"
      "get64 (slot_at switch_sample (slot_of (sched sample_ring) (current (sched sample_ring)))) (ram ring_machine) = 0x1000"
      "unat (return_to sample_board) = 0x5555"
    by (simp_all add: slot_of_def sample_ring_def switch_sample_def ring_machine_def get64_here sample_board_def)
  have "gpr (sysv sample_board context_switch_code [0x3000, 0x1000] ring_machine) RSP = 0x1038"
    by (simp add: sysv_def context_switch_code_def)
  then show ?thesis
    using run_pending_switch_refines [OF ring_machine_rel switch_sample_ok wf room, of sample_board] by (simp add: args Let_def)
qed

end
