(* ===== verification/Rotation.thy ===== *)
theory Rotation
  imports Sched Serial
begin

text \<open>
  The running scheduler: the boot context spawns tasks, closes the ring and then every slot runs
  its own code and calls \<open>pump_ticks\<close> and \<open>run_pending_switch\<close> (\<open>src/kernel/src/sched.rs\<close>, the scheduler
  self test of \<open>kernel_main\<close>).  A step relation interleaves timer interrupts, the work a slot does on
  its own stack and the rounds of its loop; the theorems say that a slot always gets its processor
  state back and that timer kicks turn the ring by one slot each.
\<close>

section \<open>Steps of the running system\<close>

text \<open>
  \<open>zone i\<close> are the addresses of the stack of slot \<open>i\<close>.  The second component of a state remembers what each
  slot that is not running had in its registers when it called: the specification, not part of the
  kernel.  Work of the running slot changes its registers and its stack only.
\<close>

definition own_stack :: "(nat \<Rightarrow> nat set) \<Rightarrow> world \<Rightarrow> bool" where
  "own_stack zone w \<longleftrightarrow> 56 \<le> rsp (regs w) \<and> {rsp (regs w) - 56..<rsp (regs w)} \<subseteq> zone (CURRENT_ID w)"

definition note_caller :: "nat \<Rightarrow> world \<Rightarrow> (nat \<Rightarrow> cpu) \<Rightarrow> nat \<Rightarrow> cpu" where
  "note_caller ra w sv = (if switch_pending (sched (pump_ticks w)) then sv(CURRENT_ID w := (regs w)\<lparr>rip := ra\<rparr>) else sv)"

inductive rotation :: "(nat \<Rightarrow> nat set) \<Rightarrow> world \<Rightarrow> (nat \<Rightarrow> cpu) \<Rightarrow> world \<Rightarrow> (nat \<Rightarrow> cpu) \<Rightarrow> bool"
  for zone w0 sv0 where
  start: "rotation zone w0 sv0 w0 sv0"
| kick: "rotation zone w0 sv0 w sv \<Longrightarrow> rotation zone w0 sv0 (on_timer_irq w) sv"
| work: "rotation zone w0 sv0 w sv \<Longrightarrow> length (callee_saved c) = 6 \<Longrightarrow> \<forall>a. a \<notin> zone (CURRENT_ID w) \<longrightarrow> m a = stack w a
    \<Longrightarrow> rotation zone w0 sv0 (w\<lparr>regs := c, stack := m\<rparr>) sv"
| round: "rotation zone w0 sv0 w sv \<Longrightarrow> own_stack zone w \<Longrightarrow> rotation zone w0 sv0 (loop_round ra w) (note_caller ra w sv)"

section \<open>What every slot is owed\<close>

definition zones_apart :: "(nat \<Rightarrow> nat set) \<Rightarrow> nat \<Rightarrow> bool" where
  "zones_apart zone n \<longleftrightarrow> (\<forall>i\<le>n. \<forall>j\<le>n. i \<noteq> j \<longrightarrow> zone i \<inter> zone j = {})"

definition ring_inv :: "(nat \<Rightarrow> nat set) \<Rightarrow> nat \<Rightarrow> world \<Rightarrow> (nat \<Rightarrow> cpu) \<Rightarrow> bool" where
  "ring_inv zone n w sv \<longleftrightarrow> sched_wf w \<and> \<not> switch_pending (sched w) \<and> real_tasks (sched w) = n
     \<and> (\<forall>i\<le>n. i \<noteq> CURRENT_ID w \<longrightarrow> parked w i (sv i) \<and> {slot_rsp w i..<slot_rsp w i + 56} \<subseteq> zone i)"

lemma slot_rsp_bookkeeping [simp]:
  "slot_rsp (w\<lparr>PIT_KICKS := k\<rparr>) = slot_rsp w" "slot_rsp (w\<lparr>regs := c\<rparr>) = slot_rsp w" "slot_rsp (w\<lparr>stack := m\<rparr>) = slot_rsp w"
  by (simp_all add: slot_rsp_def fun_eq_iff)

lemma parked_frame:
  assumes "parked w i c" "slot_rsp w' i = slot_rsp w i" "\<forall>a\<in>{slot_rsp w i..<slot_rsp w i + 56}. stack w' a = stack w a"
  shows "parked w' i c"
  using assms by (simp add: parked_def pops_6)

lemma on_timer_irq_inv: "ring_inv zone n w sv \<Longrightarrow> ring_inv zone n (on_timer_irq w) sv"
  by (auto simp: ring_inv_def on_timer_irq_def sched_wf_def parked_def)

lemma work_inv:
  assumes "ring_inv zone n w sv" "zones_apart zone n" "length (callee_saved c) = 6"
    and "\<forall>a. a \<notin> zone (CURRENT_ID w) \<longrightarrow> m a = stack w a"
  shows "ring_inv zone n (w\<lparr>regs := c, stack := m\<rparr>) sv"
proof -
  have "CURRENT_ID w \<le> n"
    using assms(1) by (auto simp: ring_inv_def sched_wf_def)
  have "parked (w\<lparr>regs := c, stack := m\<rparr>) i (sv i)" if i: "i \<le> n" "i \<noteq> CURRENT_ID w" for i
  proof (rule parked_frame)
    show "parked w i (sv i)"
      using assms(1) i by (simp add: ring_inv_def)
    have "{slot_rsp w i..<slot_rsp w i + 56} \<subseteq> zone i" "zone i \<inter> zone (CURRENT_ID w) = {}"
      using assms(1,2) i \<open>CURRENT_ID w \<le> n\<close> by (auto simp: ring_inv_def zones_apart_def)
    then have "a \<notin> zone (CURRENT_ID w)" if "a \<in> {slot_rsp w i..<slot_rsp w i + 56}" for a
      using that by blast
    then show "\<forall>a\<in>{slot_rsp w i..<slot_rsp w i + 56}. stack (w\<lparr>regs := c, stack := m\<rparr>) a = stack w a"
      using assms(4) by simp
  qed simp
  then show ?thesis
    using assms(1,3) by (simp add: ring_inv_def sched_wf_def)
qed

lemma pump_ticks_keeps:
  "regs (pump_ticks w) = regs w" "stack (pump_ticks w) = stack w" "CURRENT_ID (pump_ticks w) = CURRENT_ID w"
  "IDLE_RSP (pump_ticks w) = IDLE_RSP w" "tasks (sched (pump_ticks w)) = tasks (sched w)"
  "real_tasks (sched (pump_ticks w)) = real_tasks (sched w)" "slot_rsp (pump_ticks w) = slot_rsp w"
  "switches (sched (pump_ticks w)) = switches (sched w)" "SCHED_ON (pump_ticks w) = SCHED_ON w" "PIT_KICKS (pump_ticks w) = 0"
  by (auto simp: pump_ticks_def tick_def slot_rsp_def Let_def fun_eq_iff split: option.splits)

lemma pump_ticks_inv:
  assumes "ring_inv zone n w sv"
  shows "sched_wf (pump_ticks w)"
    "\<forall>i\<le>n. i \<noteq> CURRENT_ID w \<longrightarrow> parked (pump_ticks w) i (sv i) \<and> {slot_rsp (pump_ticks w) i..<slot_rsp (pump_ticks w) i + 56} \<subseteq> zone i"
proof -
  show "sched_wf (pump_ticks w)"
    using assms by (intro pump_ticks_wf) (simp_all add: ring_inv_def)
  show "\<forall>i\<le>n. i \<noteq> CURRENT_ID w \<longrightarrow> parked (pump_ticks w) i (sv i) \<and> {slot_rsp (pump_ticks w) i..<slot_rsp (pump_ticks w) i + 56} \<subseteq> zone i"
    using assms by (simp add: ring_inv_def parked_def pump_ticks_keeps)
qed

text \<open>A round either leaves the slot running or parks it and resumes the next slot where it was.\<close>

lemma round_switches:
  assumes inv: "ring_inv zone n w sv" and apart: "zones_apart zone n" and own: "own_stack zone w"
    and pending: "switch_pending (sched (pump_ticks w))"
  shows "ring_inv zone n (loop_round ra w) (sv(CURRENT_ID w := (regs w)\<lparr>rip := ra\<rparr>))"
    "regs (loop_round ra w) = sv (current (sched (pump_ticks w)))"
    "CURRENT_ID (loop_round ra w) = current (sched (pump_ticks w))"
proof -
  let ?w = "pump_ticks w" let ?t = "current (sched ?w)" and ?i = "CURRENT_ID w" and ?w' = "run_pending_switch ra (pump_ticks w)"
  note k = pump_ticks_keeps [of w]
  have wf: "sched_wf ?w" and all: "\<forall>i\<le>n. i \<noteq> ?i \<longrightarrow> parked ?w i (sv i) \<and> {slot_rsp ?w i..<slot_rsp ?w i + 56} \<subseteq> zone i"
    using pump_ticks_inv [OF inv] by blast+
  have n: "real_tasks (sched ?w) = n"
    using inv by (simp add: ring_inv_def k)
  have t: "?t \<le> n" "?t \<noteq> ?i" "?i \<le> n"
    using wf pending n by (auto simp: sched_wf_def k)
  have room: "56 \<le> rsp (regs ?w)" and mine: "{rsp (regs w) - 56..<rsp (regs w)} \<subseteq> zone ?i"
    using own by (simp_all add: own_stack_def k)
  have out: "\<forall>a. slot_rsp ?w i \<le> a \<longrightarrow> a < slot_rsp ?w i + 56 \<longrightarrow> a < rsp (regs ?w) - 56 \<or> rsp (regs ?w) \<le> a"
    if "i \<le> n" "i \<noteq> ?i" for i
  proof -
    have "{slot_rsp ?w i..<slot_rsp ?w i + 56} \<inter> {rsp (regs w) - 56..<rsp (regs w)} = {}"
      using all that mine apart t(3) unfolding zones_apart_def by blast
    then show ?thesis
      by (auto simp: k disjoint_iff)
  qed
  have tp: "parked ?w ?t (sv ?t)"
    using all t by blast
  note step = run_pending_switch_step [OF wf pending room, of ra]
  note r = run_pending_switch_correct [OF wf pending room tp out [OF t(1,2)], of ra]
  show "regs (loop_round ra w) = sv ?t" "CURRENT_ID (loop_round ra w) = ?t"
    using r by (simp_all add: loop_round_def)
  have others: "parked ?w' i (sv i) \<and> {slot_rsp ?w' i..<slot_rsp ?w' i + 56} \<subseteq> zone i" if i: "i \<le> n" "i \<noteq> ?i" for i
  proof
    have e: "slot_rsp ?w' i = slot_rsp ?w i"
      using step(2) i n by (simp add: k)
    then show "{slot_rsp ?w' i..<slot_rsp ?w' i + 56} \<subseteq> zone i"
      using all i by simp
    have "stack ?w' a = stack ?w a" if "a \<in> {slot_rsp ?w i..<slot_rsp ?w i + 56}" for a
    proof -
      have "a < rsp (regs ?w) - 56 \<or> rsp (regs ?w) - 56 + 56 \<le> a"
        using out [OF i, rule_format, of a] that room by simp
      then show ?thesis
        by (rule step(5) [rule_format])
    qed
    moreover have "parked ?w i (sv i)"
      using all i by blast
    ultimately show "parked ?w' i (sv i)"
      using e parked_frame by blast
  qed
  have "slot_rsp ?w' ?i = rsp (regs w) - 56"
    using step(1) by (simp add: k)
  then have mine': "{slot_rsp ?w' ?i..<slot_rsp ?w' ?i + 56} \<subseteq> zone ?i"
    using mine room by (simp add: k)
  have "parked ?w' ?i ((regs w)\<lparr>rip := ra\<rparr>)"
    using step(1,3,4) room by (simp add: parked_def k)
  then show "ring_inv zone n (loop_round ra w) (sv(?i := (regs w)\<lparr>rip := ra\<rparr>))"
    using others mine' r step(10) n by (auto simp: ring_inv_def loop_round_def)
qed

lemma round_stays:
  assumes "ring_inv zone n w sv" "\<not> switch_pending (sched (pump_ticks w))"
  shows "ring_inv zone n (loop_round ra w) sv"
  using assms pump_ticks_inv [OF assms(1)] by (simp add: loop_round_def run_pending_switch_def ring_inv_def pump_ticks_keeps Let_def)

lemma rotation_inv:
  assumes "rotation zone w0 sv0 w sv" "ring_inv zone n w0 sv0" "zones_apart zone n"
  shows "ring_inv zone n w sv"
  using assms(1)
proof induction
  case (round w sv ra)
  then show ?case
    using round_switches(1) [OF round.IH assms(3)] round_stays [OF round.IH] by (auto simp: note_caller_def)
qed (use assms(2,3) on_timer_irq_inv work_inv in blast)+


section \<open>Spawning\<close>

definition stack_zone :: "nat \<Rightarrow> nat set" where
  "stack_zone base = {base..<base + STACK_SIZE}"

text \<open>The state a task starts in: at its entry, on an empty stack, with zero registers.\<close>

definition entry_state :: "nat \<Rightarrow> nat \<Rightarrow> cpu" where
  "entry_state entry base = \<lparr>rsp = base + STACK_SIZE, callee_saved = [0, 0, 0, 0, 0, 0], rip = entry\<rparr>"

definition spawn_all :: "nat \<Rightarrow> nat \<Rightarrow> nat list \<Rightarrow> world \<Rightarrow> world" where
  "spawn_all entry f bases w = fold (\<lambda>base. spawn base entry f) bases w"

definition fresh_pcb :: "nat \<Rightarrow> Pcb" where
  "fresh_pcb base = pcb_new\<lparr>saved_rsp := base + STACK_SIZE - 56\<rparr>"

definition frame_at :: "nat \<Rightarrow> nat \<Rightarrow> (nat \<Rightarrow> nat) \<Rightarrow> bool" where
  "frame_at entry base m \<longleftrightarrow> pops 6 (base + STACK_SIZE - 56) m = [0, 0, 0, 0, 0, 0] \<and> m (base + STACK_SIZE - 8) = entry"

lemma frame_at_new:
  "fst (alloc_task_stack base entry m) = base + STACK_SIZE - 56" "frame_at entry base (snd (alloc_task_stack base entry m))"
  using alloc_task_stack_frame [of base entry m] by (auto simp: frame_at_def STACK_SIZE_def simp flip: diff_add_inverse2)

lemma frame_at_kept:
  assumes "frame_at entry base m" "\<forall>a\<in>stack_zone base. m' a = m a"
  shows "frame_at entry base m'"
  using assms by (simp add: frame_at_def stack_zone_def STACK_SIZE_def pops_6)

lemma spawn_state:
  assumes "real_tasks (sched w) < TASKS_CAP - 1" "length (tasks (sched w)) = real_tasks (sched w)"
    and "started (sched w) \<longleftrightarrow> real_tasks (sched w) \<noteq> 0"
  shows "sched (spawn base entry f w) = (sched w)\<lparr>tasks := tasks (sched w) @ [fresh_pcb base],
      real_tasks := real_tasks (sched w) + 1, started := True\<rparr>"
    "stack (spawn base entry f w) = snd (alloc_task_stack base entry (stack w))" "regs (spawn base entry f w) = regs w"
    "PIT_KICKS (spawn base entry f w) = PIT_KICKS w" "SCHED_ON (spawn base entry f w) \<longleftrightarrow> SCHED_ON w \<or> \<not> started (sched w)"
  using assms frame_at_new(1) [of base entry "stack w"]
  by (auto simp: spawn_def Let_def fresh_pcb_def case_prod_beta)

lemma spawn_all_state:
  assumes "sched w = scheduler_new" "length bases < TASKS_CAP"
    and "\<forall>i<length bases. \<forall>j<length bases. i \<noteq> j \<longrightarrow> stack_zone (bases ! i) \<inter> stack_zone (bases ! j) = {}"
  shows "sched (spawn_all entry f bases w) =
      scheduler_new\<lparr>tasks := map fresh_pcb bases, real_tasks := length bases, started := (bases \<noteq> [])\<rparr>
    \<and> (\<forall>base\<in>set bases. frame_at entry base (stack (spawn_all entry f bases w))) \<and> regs (spawn_all entry f bases w) = regs w
    \<and> PIT_KICKS (spawn_all entry f bases w) = PIT_KICKS w \<and> (bases \<noteq> [] \<longrightarrow> SCHED_ON (spawn_all entry f bases w))"
  using assms(2,3)
proof (induction bases rule: rev_induct)
  case Nil
  then show ?case
    using assms(1) by (simp add: spawn_all_def scheduler_new_def)
next
  case (snoc base bases)
  let ?w = "spawn_all entry f bases w"
  have apart: "stack_zone b \<inter> stack_zone base = {}" if "b \<in> set bases" for b
  proof -
    obtain i where "i < length bases" "b = bases ! i"
      using \<open>b \<in> set bases\<close> by (auto simp: in_set_conv_nth)
    then show ?thesis
      using snoc.prems(2) [rule_format, of i "length bases"] by (simp add: nth_append)
  qed
  have "stack_zone (bases ! i) \<inter> stack_zone (bases ! j) = {}" if "i < length bases" "j < length bases" "i \<noteq> j" for i j
    using snoc.prems(2) [rule_format, of i j] that by (simp add: nth_append)
  then have IH: "sched ?w = scheduler_new\<lparr>tasks := map fresh_pcb bases, real_tasks := length bases, started := (bases \<noteq> [])\<rparr>"
      "\<forall>b\<in>set bases. frame_at entry b (stack ?w)" "regs ?w = regs w"
      "PIT_KICKS ?w = PIT_KICKS w" "bases \<noteq> [] \<longrightarrow> SCHED_ON ?w"
    using snoc.IH snoc.prems(1) by auto
  have w': "spawn_all entry f (bases @ [base]) w = spawn base entry f ?w"
    by (simp add: spawn_all_def)
  have "real_tasks (sched ?w) < TASKS_CAP - 1" "length (tasks (sched ?w)) = real_tasks (sched ?w)"
      "started (sched ?w) \<longleftrightarrow> real_tasks (sched ?w) \<noteq> 0"
    using snoc.prems(1) by (simp_all add: IH(1))
  note s = spawn_state [OF this, of base entry f]
  have "frame_at entry b (snd (alloc_task_stack base entry (stack ?w)))" if "b \<in> set bases" for b
  proof (rule frame_at_kept)
    show "frame_at entry b (stack ?w)"
      using IH(2) that by blast
    have "a < base \<or> base + STACK_SIZE \<le> a" if "a \<in> stack_zone b" for a
      using apart [OF \<open>b \<in> set bases\<close>] that by (metis IntI atLeastLessThan_iff emptyE not_le stack_zone_def)
    then show "\<forall>a\<in>stack_zone b. snd (alloc_task_stack base entry (stack ?w)) a = stack ?w a"
      using alloc_task_stack_frame(4) [of base entry "stack ?w"] by blast
  qed
  then have "\<forall>b\<in>set (bases @ [base]). frame_at entry b (stack (spawn base entry f ?w))"
    using frame_at_new(2) by (simp add: s(2))
  then show ?case
    unfolding w' using s(1,3-5) IH(1,3-5) by auto
qed

text \<open>The ring the boot context closes: the spawned tasks parked at their entry, the boot context running.\<close>

definition boot_ring :: "nat \<Rightarrow> nat \<Rightarrow> nat list \<Rightarrow> world \<Rightarrow> world" where
  "boot_ring entry f bases w = finish (spawn_all entry f bases w)"

definition ring_zone :: "nat list \<Rightarrow> nat set \<Rightarrow> nat \<Rightarrow> nat set" where
  "ring_zone bases boot i = (if i < length bases then stack_zone (bases ! i) else boot)"

lemma boot_ring_state:
  assumes "sched w = scheduler_new" "length bases < TASKS_CAP" "bases \<noteq> []" "zones_apart (ring_zone bases boot) (length bases)"
  shows "sched (boot_ring entry f bases w) = scheduler_new\<lparr>tasks := map fresh_pcb bases @ [pcb_new], real_tasks := length bases,
      started := True, current := length bases\<rparr>"
    "\<forall>base\<in>set bases. frame_at entry base (stack (boot_ring entry f bases w))" "regs (boot_ring entry f bases w) = regs w"
    "CURRENT_ID (boot_ring entry f bases w) = length bases"
    "PIT_KICKS (boot_ring entry f bases w) = PIT_KICKS w" "SCHED_ON (boot_ring entry f bases w)"
proof -
  have "stack_zone (bases ! i) \<inter> stack_zone (bases ! j) = {}" if "i < length bases" "j < length bases" "i \<noteq> j" for i j
    using assms(4) [unfolded zones_apart_def, rule_format, of i j] that by (simp add: ring_zone_def)
  note s = spawn_all_state [OF assms(1,2), of entry f] this
  then show "sched (boot_ring entry f bases w) = scheduler_new\<lparr>tasks := map fresh_pcb bases @ [pcb_new], real_tasks := length bases,
      started := True, current := length bases\<rparr>"
    "\<forall>base\<in>set bases. frame_at entry base (stack (boot_ring entry f bases w))" "regs (boot_ring entry f bases w) = regs w"
    "CURRENT_ID (boot_ring entry f bases w) = length bases"
    "PIT_KICKS (boot_ring entry f bases w) = PIT_KICKS w" "SCHED_ON (boot_ring entry f bases w)"
    using assms(3) by (simp_all add: boot_ring_def finish_def Let_def)
qed

lemma boot_ring_inv:
  assumes "sched w = scheduler_new" "length bases < TASKS_CAP" "bases \<noteq> []" "zones_apart (ring_zone bases boot) (length bases)"
    and "length (callee_saved (regs w)) = 6"
  shows "ring_inv (ring_zone bases boot) (length bases) (boot_ring entry f bases w) (\<lambda>i. entry_state entry (bases ! i))"
proof -
  let ?w = "boot_ring entry f bases w"
  note s = boot_ring_state [OF assms(1-4), of entry f]
  have wf: "sched_wf ?w" "\<not> switch_pending (sched ?w)" "real_tasks (sched ?w) = length bases"
    using assms(5) s by (simp_all add: sched_wf_def scheduler_new_def)
  have "parked ?w i (entry_state entry (bases ! i)) \<and> {slot_rsp ?w i..<slot_rsp ?w i + 56} \<subseteq> ring_zone bases boot i"
    if i: "i < length bases" for i
  proof -
    have sp: "slot_rsp ?w i = bases ! i + STACK_SIZE - 56"
      using s(1) i by (simp add: slot_rsp_def fresh_pcb_def nth_append)
    have "frame_at entry (bases ! i) (stack ?w)"
      using s(2) i by simp
    then show ?thesis
      using i by (auto simp: parked_def sp entry_state_def frame_at_def STACK_SIZE_def ring_zone_def stack_zone_def)
  qed
  then show ?thesis
    using wf s(4) by (auto simp: ring_inv_def)
qed

section \<open>Timer kicks turn the ring\<close>

definition kicked_round :: "nat \<Rightarrow> world \<Rightarrow> world" where
  "kicked_round ra w = loop_round ra (on_timer_irq w)"

lemma next_index_all:
  assumes "\<forall>p\<in>set ts. runnable p" "ts \<noteq> []"
  shows "next_index ts cur = Some (Suc cur mod length ts)"
proof -
  obtain n where n: "length ts = Suc n"
    using assms(2) by (cases ts) auto
  have "[1..<Suc (length ts)] = 1 # [2..<Suc (length ts)]"
    using n by (simp add: upt_conv_Cons numeral_2_eq_2 del: upt_Suc)
  moreover have "runnable (ts ! (Suc cur mod length ts))"
    using assms by (intro bspec [OF assms(1)] nth_mem) (simp add: mod_less_divisor)
  ultimately show ?thesis
    using assms(2) by (simp add: next_index_def del: upt_Suc)
qed

lemma push_all_flags: "SCHED_ON (push_all vs w) = SCHED_ON w" "PIT_KICKS (push_all vs w) = PIT_KICKS w"
  by (induction vs arbitrary: w) (simp_all add: push_cell_def)

lemma run_pending_switch_flags:
  "SCHED_ON (run_pending_switch ra w) = SCHED_ON w" "PIT_KICKS (run_pending_switch ra w) = PIT_KICKS w"
  by (simp_all add: run_pending_switch_def context_switch_def store_slot_def push_all_flags push_cell_def Let_def split: rsp_slot.splits)

text \<open>A ring of tasks that are all ready, between two rounds.\<close>

definition turning :: "nat \<Rightarrow> world \<Rightarrow> bool" where
  "turning n w \<longleftrightarrow> sched_wf w \<and> \<not> switch_pending (sched w) \<and> real_tasks (sched w) = n \<and> 0 < n \<and> SCHED_ON w \<and> PIT_KICKS w = 0
     \<and> (\<forall>p\<in>set (tasks (sched w)). runnable p) \<and> 56 \<le> rsp (regs w)"

lemma kick_selects:
  assumes "turning n w"
  shows "sched (pump_ticks (on_timer_irq w)) = (sched w)\<lparr>current := Suc (CURRENT_ID w) mod Suc n, switch_pending := True\<rparr>"
    "regs (pump_ticks (on_timer_irq w)) = regs w" "CURRENT_ID (pump_ticks (on_timer_irq w)) = CURRENT_ID w"
    "SCHED_ON (pump_ticks (on_timer_irq w))" "PIT_KICKS (pump_ticks (on_timer_irq w)) = 0"
proof -
  have s: "started (sched w)" "length (tasks (sched w)) = Suc n" "current (sched w) = CURRENT_ID w" "CURRENT_ID w \<le> n" "0 < n"
    using assms by (auto simp: turning_def sched_wf_def)
  have all: "\<forall>p\<in>set (tasks (sched w)). runnable p"
    using assms unfolding turning_def by blast
  have "Suc (CURRENT_ID w) mod Suc n \<noteq> CURRENT_ID w"
    using s(4,5) by (cases "CURRENT_ID w = n") simp_all
  moreover have "next_index (tasks (sched w)) (current (sched w)) = Some (Suc (CURRENT_ID w) mod Suc n)"
    using next_index_all [OF all, of "CURRENT_ID w"] s by (metis Suc_neq_Zero length_0_conv)
  ultimately have t: "snd (tick (sched w)) = (sched w)\<lparr>current := Suc (CURRENT_ID w) mod Suc n, switch_pending := True\<rparr>"
    using s by (simp add: tick_def)
  then show "sched (pump_ticks (on_timer_irq w)) = (sched w)\<lparr>current := Suc (CURRENT_ID w) mod Suc n, switch_pending := True\<rparr>"
    "regs (pump_ticks (on_timer_irq w)) = regs w" "CURRENT_ID (pump_ticks (on_timer_irq w)) = CURRENT_ID w"
    "SCHED_ON (pump_ticks (on_timer_irq w))" "PIT_KICKS (pump_ticks (on_timer_irq w)) = 0"
    using assms s(1) by (simp_all add: turning_def on_timer_irq_def pump_ticks_def Let_def)
qed

lemma kicked_round_advances:
  assumes "turning n w"
  shows "turning n (kicked_round ra w) \<and> CURRENT_ID (kicked_round ra w) = Suc (CURRENT_ID w) mod Suc n
    \<and> switches (sched (kicked_round ra w)) = switches (sched w) + 1"
proof -
  let ?w = "pump_ticks (on_timer_irq w)"
  note w = kick_selects [OF assms]
  have all: "\<forall>p\<in>set (tasks (sched w)). runnable p" and n: "0 < n"
    using assms unfolding turning_def by blast+
  have wf: "sched_wf ?w"
    using assms by (intro pump_ticks_wf) (auto simp: turning_def on_timer_irq_def sched_wf_def)
  have room: "56 \<le> rsp (regs ?w)"
    using assms by (simp add: turning_def w)
  note r = run_pending_switch_step [OF wf _ room, of ra]
  have st: "map task_state (tasks (sched (run_pending_switch ra ?w))) = map task_state (tasks (sched w))"
    using r(12) by (simp add: w)
  have "runnable p" if "p \<in> set (tasks (sched (run_pending_switch ra ?w)))" for p
  proof -
    have "task_state p \<in> set (map task_state (tasks (sched w)))"
      using that unfolding st [symmetric] by simp
    then show ?thesis
      using all by (auto simp: runnable_def)
  qed
  moreover have "real_tasks (sched w) = n"
    using assms by (simp add: turning_def)
  ultimately show ?thesis
    using r(6-11) n w by (simp add: turning_def kicked_round_def loop_round_def run_pending_switch_flags)
qed

lemma ring_turns:
  assumes "turning n w"
  shows "turning n (fold kicked_round ras w) \<and> CURRENT_ID (fold kicked_round ras w) = (CURRENT_ID w + length ras) mod Suc n
    \<and> switches (sched (fold kicked_round ras w)) = switches (sched w) + word_of_nat (length ras)"
  using assms
proof (induction ras arbitrary: w)
  case Nil
  then show ?case
    by (auto simp: turning_def sched_wf_def)
next
  case (Cons ra ras)
  have k: "turning n (kicked_round ra w)" "CURRENT_ID (kicked_round ra w) = Suc (CURRENT_ID w) mod Suc n"
      "switches (sched (kicked_round ra w)) = switches (sched w) + 1"
    using kicked_round_advances [OF Cons.prems, of ra] by blast+
  then show ?case
    using Cons.IH [OF k(1)] by (simp add: mod_simps)
qed

section \<open>The body of a task\<close>

text \<open>
  \<open>task_entry\<close> runs the closure of the one slot \<open>TASK_FN\<close> and then parks in its loop; \<open>call\<close> is what running a
  closure does and \<open>ras\<close> the return addresses of the rounds the loop has made so far.
\<close>

definition task_entry :: "(nat \<Rightarrow> world \<Rightarrow> world) \<Rightarrow> nat list \<Rightarrow> world \<Rightarrow> world" where
  "task_entry call ras w = fold loop_round ras (case TASK_FN w of Some f \<Rightarrow> call f w | None \<Rightarrow> w)"

text \<open>Every task runs the closure that was spawned last, even one that was refused.\<close>

lemma task_entry_last_closure:
  "task_entry call [] (spawn base entry g w) = call g (spawn base entry g w)"
  by (simp add: task_entry_def spawn_def Let_def case_prod_beta)

section \<open>The self test of \<open>kernel_main\<close>\<close>

text \<open>The closure every task runs stores its own count; \<open>rot\<close> is the shared counter before.\<close>

definition task_closure :: "u64 \<Rightarrow> u64" where
  "task_closure rot = snd (fold (\<lambda>_ (t, r). (t + 1, t + 1)) [0..<100000] (0 :: u64, rot))"

text \<open>
  The bounded wait of the boot context.  \<open>elsewhere\<close> is what happens from the call of \<open>run_pending_switch\<close>
  until it returns here: interrupts and, after a switch, the other slots.
\<close>

fun wait_switches :: "(world \<Rightarrow> world) \<Rightarrow> nat \<Rightarrow> nat \<Rightarrow> world \<Rightarrow> world" where
  "wait_switches elsewhere ra 0 w = w"
| "wait_switches elsewhere ra (Suc spins) w =
     (if sched_switches w < 4 then wait_switches elsewhere ra spins (elsewhere (loop_round ra w)) else w)"

definition sched_marker :: "u64 \<Rightarrow> world \<Rightarrow> serial_call list" where
  "sched_marker rot w = [WriteStr ''LIONOS_SCHED tasks='', WriteDec (word_of_nat (task_count w)), WriteStr '' switches='',
     WriteDec (sched_switches w), WriteStr '' rot='', WriteDec rot, WriteStr [CHR 0x0D, CHR 0x0A]]"

definition sched_demo :: "(world \<Rightarrow> world) \<Rightarrow> nat \<Rightarrow> nat \<Rightarrow> nat \<Rightarrow> nat \<times> nat \<times> nat \<Rightarrow> world \<Rightarrow> world" where
  "sched_demo elsewhere ra entry f = (\<lambda>(base1, base2, base3) w.
     let w = spawn base1 entry f w;
         w = spawn base2 entry f w;
         w = spawn base3 entry f w;
         w = finish w
     in wait_switches elsewhere ra 500000000 w)"

lemma task_closure_result: "task_closure rot = 100000"
proof -
  have "fold (\<lambda>_ (t, r). (t + 1, t + 1)) [0..<n] (0 :: u64, rot) = (word_of_nat n, if n = 0 then rot else word_of_nat n)" for n
    by (induction n) (simp_all add: algebra_simps)
  from this [of 100000] show ?thesis
    by (simp add: task_closure_def del: upt_rec_numeral)
qed

lemma wait_switches_exit: "sched_switches w \<ge> 4 \<Longrightarrow> wait_switches e ra n w = w"
  by (cases n) simp_all

lemma boot_ring_turning:
  assumes "sched w = scheduler_new" "length bases < TASKS_CAP" "bases \<noteq> []" "zones_apart (ring_zone bases boot) (length bases)"
    and "length (callee_saved (regs w)) = 6" "PIT_KICKS w = 0" "56 \<le> rsp (regs w)"
  shows "turning (length bases) (boot_ring entry f bases w)"
proof -
  note s = boot_ring_state [OF assms(1-4), of entry f]
  have "sched_wf (boot_ring entry f bases w)" "\<not> switch_pending (sched (boot_ring entry f bases w))"
    using boot_ring_inv [OF assms(1-5), of entry f] by (simp_all add: ring_inv_def)
  then show ?thesis
    using assms s by (auto simp: turning_def runnable_def fresh_pcb_def pcb_new_def)
qed

text \<open>
  What the other slots do for the boot context's wait when the timer ticks once for each of them: before
  a switch only the tick, after it one kicked round in every task.
\<close>

definition one_turn :: "nat \<times> nat \<times> nat \<Rightarrow> world \<Rightarrow> world" where
  "one_turn = (\<lambda>(ra1, ra2, ra3) w. if CURRENT_ID w = task_count w then on_timer_irq w else fold kicked_round [ra1, ra2, ra3] w)"

lemma sched_demo_turn:
  fixes ra entry f :: nat and ras :: "nat \<times> nat \<times> nat"
  assumes "sched w = scheduler_new" "zones_apart (ring_zone [base1, base2, base3] boot) 3"
    and "length (callee_saved (regs w)) = 6" "PIT_KICKS w = 0" "56 \<le> rsp (regs w)"
  defines "w' \<equiv> sched_demo (one_turn ras) ra entry f (base1, base2, base3) w"
  shows "CURRENT_ID w' = 3" "sched_marker (task_closure rot) w' = [WriteStr ''LIONOS_SCHED tasks='', WriteDec 3, WriteStr '' switches='',
    WriteDec 4, WriteStr '' rot='', WriteDec 100000, WriteStr [CHR 0x0D, CHR 0x0A]]"
proof -
  let ?w = "boot_ring entry f [base1, base2, base3] w"
  have "turning 3 ?w" and s: "CURRENT_ID ?w = 3" "switches (sched ?w) = 0"
    using boot_ring_turning [of w "[base1, base2, base3]" boot entry f] boot_ring_state(1,4) [of w "[base1, base2, base3]" boot entry f] assms
    by (simp_all add: TASKS_CAP_def scheduler_new_def numeral_3_eq_3)
  obtain ra1 ra2 ra3 where ras: "ras = (ra1, ra2, ra3)"
    by (cases ras)
  have demo: "w' = wait_switches (one_turn ras) ra 500000000 ?w"
    by (simp add: w'_def sched_demo_def boot_ring_def spawn_all_def)
  have idle: "loop_round ra ?w = ?w"
    using \<open>turning 3 ?w\<close> by (simp add: loop_round_def pump_ticks_def turning_def run_pending_switch_def)
  have tc: "task_count v = 3" if "turning 3 v" for v
    using that by (simp add: turning_def task_count_def)
  have first: "one_turn ras ?w = on_timer_irq ?w" "sched_switches ?w = 0" "sched_switches (on_timer_irq ?w) = 0"
    using s tc [OF \<open>turning 3 ?w\<close>] by (simp_all add: one_turn_def ras sched_switches_def on_timer_irq_def)
  note k = kicked_round_advances [OF \<open>turning 3 ?w\<close>, of ra, unfolded kicked_round_def]
  let ?v = "loop_round ra (on_timer_irq ?w)" and ?u = "fold kicked_round [ra1, ra2, ra3] (loop_round ra (on_timer_irq ?w))"
  have "turning 3 ?v" "CURRENT_ID ?v = 0" "switches (sched ?v) = 1"
    using k s by simp_all
  then have u: "turning 3 ?u" "CURRENT_ID ?u = 3" "switches (sched ?u) = 4" "one_turn ras ?v = ?u"
    using ring_turns [of 3 ?v "[ra1, ra2, ra3]"] tc by (simp_all add: one_turn_def ras)
  have "(500000000 :: nat) = Suc (Suc 499999998)"
    by simp
  then have "w' = wait_switches (one_turn ras) ra 499999998 ?u"
    unfolding demo using first idle u(4) by (simp only: wait_switches.simps) simp
  then have "w' = ?u"
    using u(3) by (simp add: wait_switches_exit sched_switches_def del: fold_simps)
  then show "CURRENT_ID w' = 3" "sched_marker (task_closure rot) w' = [WriteStr ''LIONOS_SCHED tasks='', WriteDec 3, WriteStr '' switches='',
    WriteDec 4, WriteStr '' rot='', WriteDec 100000, WriteStr [CHR 0x0D, CHR 0x0A]]"
    using u tc [OF u(1)] by (simp_all add: sched_marker_def task_closure_result sched_switches_def del: fold_simps)
qed

section \<open>Properties\<close>

text \<open>
  C8: A slot of the ring always gets its processor state back.  The boot context spawns up to three
  tasks on disjoint stacks and closes the ring; from then on timer interrupts, the work of whatever
  slot runs (any change of its registers and its own stack) and rounds of the slots' loops interleave
  in any order.  At every moment every slot that is not running is parked in exactly the state it
  had when it called \<open>run_pending_switch\<close> (a task that never ran: at its entry, on its empty stack, with
  zero registers), and the round that switches to a slot continues it in that state.
\<close>

theorem rotation_resumes:
  assumes "sched w0 = scheduler_new" "length (callee_saved (regs w0)) = 6" "bases \<noteq> []" "length bases < TASKS_CAP"
    and "zones_apart (ring_zone bases boot) (length bases)"
    and "rotation (ring_zone bases boot) (boot_ring entry f bases w0) (\<lambda>i. entry_state entry (bases ! i)) w sv"
  shows "sched_wf w \<and> (\<forall>i\<le>length bases. i \<noteq> CURRENT_ID w \<longrightarrow> parked w i (sv i))
    \<and> (\<forall>ra. own_stack (ring_zone bases boot) w \<longrightarrow> switch_pending (sched (pump_ticks w)) \<longrightarrow>
         CURRENT_ID (loop_round ra w) \<noteq> CURRENT_ID w \<and> regs (loop_round ra w) = sv (CURRENT_ID (loop_round ra w)))"
proof -
  have inv: "ring_inv (ring_zone bases boot) (length bases) w sv"
    using rotation_inv [OF assms(6) boot_ring_inv [OF assms(1,4,3,5,2)] assms(5)] .
  have "current (sched (pump_ticks w)) \<noteq> CURRENT_ID w" if "switch_pending (sched (pump_ticks w))"
    using pump_ticks_inv(1) [OF inv] that by (simp add: sched_wf_def pump_ticks_keeps)
  then show ?thesis
    using inv round_switches(2,3) [OF inv assms(5)] by (simp add: ring_inv_def)
qed


text \<open>Three tasks; the timer ticks and the boot context calls: task 0 is at its entry, the boot context parked.\<close>

definition idle_boot :: world where
  "idle_boot = \<lparr>sched = scheduler_new, CURRENT_ID = 0, IDLE_RSP = 0, TASK_FN = None, SCHED_ON = False, PIT_KICKS = 0,
     regs = \<lparr>rsp = 0x9000, callee_saved = [1, 2, 3, 4, 5, 6], rip = 0\<rparr>, stack = (\<lambda>_. 0)\<rparr>"

lemma sample_zones: "zones_apart (ring_zone [0x10000, 0x20000, 0x30000] {0x8000..<0x9000}) 3"
proof -
  have four: "(\<forall>i\<le>3. P i) \<longleftrightarrow> P 0 \<and> P 1 \<and> P 2 \<and> P 3" for P :: "nat \<Rightarrow> bool"
    by (auto simp: numeral_eq_Suc le_Suc_eq)
  have z: "ring_zone [0x10000, 0x20000, 0x30000] B 0 = {0x10000..<0x12000}" "ring_zone [0x10000, 0x20000, 0x30000] B 1 = {0x20000..<0x22000}"
      "ring_zone [0x10000, 0x20000, 0x30000] B 2 = {0x30000..<0x32000}" "ring_zone [0x10000, 0x20000, 0x30000] B 3 = B" for B
    by (simp_all add: ring_zone_def stack_zone_def STACK_SIZE_def)
  show ?thesis
    unfolding zones_apart_def four z by (simp add: disjoint_iff)
qed

theorem rotation_resumes_witness:
  "let w = boot_ring 0x5000 0 [0x10000, 0x20000, 0x30000] idle_boot
   in parked (kicked_round 7 w) 3 \<lparr>rsp = 0x9000, callee_saved = [1, 2, 3, 4, 5, 6], rip = 7\<rparr>
     \<and> parked (kicked_round 7 w) 1 \<lparr>rsp = 0x22000, callee_saved = [0, 0, 0, 0, 0, 0], rip = 0x5000\<rparr>"
proof -
  let ?bs = "[0x10000, 0x20000, 0x30000] :: nat list" and ?B = "{0x8000..<0x9000} :: nat set"
  let ?w = "boot_ring 0x5000 0 ?bs idle_boot" and ?sv = "\<lambda>i. entry_state 0x5000 (?bs ! i)"
  have pre: "sched idle_boot = scheduler_new" "length (callee_saved (regs idle_boot)) = 6" "?bs \<noteq> []" "length ?bs < TASKS_CAP"
      "zones_apart (ring_zone ?bs ?B) (length ?bs)" "PIT_KICKS idle_boot = 0" "56 \<le> rsp (regs idle_boot)"
    using sample_zones by (simp_all add: idle_boot_def TASKS_CAP_def numeral_3_eq_3)
  note s = boot_ring_state [OF pre(1,4,3,5), of "0x5000" 0]
  have t: "turning 3 ?w"
    using boot_ring_turning [OF pre(1,4,3,5,2,6,7)] by (simp add: numeral_3_eq_3)
  have k: "CURRENT_ID (kicked_round 7 ?w) = 0"
    using kicked_round_advances [OF t, of 7] s(4) by simp
  have own: "own_stack (ring_zone ?bs ?B) (on_timer_irq ?w)" "CURRENT_ID (on_timer_irq ?w) = 3" "regs (on_timer_irq ?w) = regs idle_boot"
    using s(3,4) by (simp_all add: own_stack_def on_timer_irq_def idle_boot_def ring_zone_def)
  have r: "rotation (ring_zone ?bs ?B) ?w ?sv (kicked_round 7 ?w) (note_caller 7 (on_timer_irq ?w) ?sv)"
    unfolding kicked_round_def by (intro rotation.round rotation.kick rotation.start own(1))
  have "switch_pending (sched (pump_ticks (on_timer_irq ?w)))"
    using kick_selects(1) [OF t] by simp
  then have n: "note_caller 7 (on_timer_irq ?w) ?sv 3 = (regs idle_boot)\<lparr>rip := 7\<rparr>" "note_caller 7 (on_timer_irq ?w) ?sv 1 = entry_state 0x5000 0x20000"
    using own by (simp_all add: note_caller_def)
  have p: "parked (kicked_round 7 ?w) i (note_caller 7 (on_timer_irq ?w) ?sv i)" if "i \<le> length ?bs" "i \<noteq> 0" for i
  proof -
    note rotation_resumes [OF pre(1,2,3,4,5) r, THEN conjunct2, THEN conjunct1, rule_format, OF that(1)]
    then show ?thesis
      using that(2) k by simp
  qed
  have "parked (kicked_round 7 ?w) 3 ((regs idle_boot)\<lparr>rip := 7\<rparr>)" "parked (kicked_round 7 ?w) 1 (entry_state 0x5000 0x20000)"
    using p [of 3] p [of 1] unfolding n by simp_all
  moreover have "(regs idle_boot)\<lparr>rip := 7\<rparr> = \<lparr>rsp = 0x9000, callee_saved = [1, 2, 3, 4, 5, 6], rip = 7\<rparr>"
      "entry_state 0x5000 0x20000 = \<lparr>rsp = 0x22000, callee_saved = [0, 0, 0, 0, 0, 0], rip = 0x5000\<rparr>"
    by (simp_all add: idle_boot_def entry_state_def STACK_SIZE_def)
  ultimately show ?thesis
    by (simp only: Let_def)
qed

end
