(* ===== verification/Kernel_Main.thy ===== *)
theory Kernel_Main
  imports Framebuffer Serial Interrupts Desktop Selections
begin

text \<open>
  Sections of \<open>kernel_main\<close> (\<open>src/kernel/src/main.rs\<close>) that join parts of the kernel: the framebuffer the
  boot loader hands over, from its descriptor to the drawing, the bounded wait for the timer and
  the markers of the desktop, the manifest and the page tables.  The boot loader's descriptor, the
  values the tick counter shows and the result of the floating-point \<open>dock_pop\<close> are parameters.
\<close>

section \<open>The framebuffer handoff\<close>

text \<open>What the boot loader's API reports of its framebuffer: the mapped bytes and, in pixels, their geometry.\<close>

record loader_fb =
  bl_base :: u64
  bl_len :: u64
  bl_width :: u64
  bl_height :: u64
  bl_stride :: u64
  bl_bytes_per_pixel :: u64

definition handoff_desc :: "loader_fb \<Rightarrow> FramebufferInfo" where
  "handoff_desc fb = \<lparr>fb_address = bl_base fb, fb_width = ucast (bl_width fb), fb_height = ucast (bl_height fb),
     fb_bpp = ucast (ucast (bl_bytes_per_pixel fb) * 8 :: u32),
     fb_pitch = saturating_mul (ucast (bl_stride fb)) (ucast (bl_bytes_per_pixel fb))\<rparr>"

abbreviation fb_eol :: serial_call where
  "fb_eol \<equiv> WriteStr [CHR 0x0D, CHR 0x0A]"

definition fb_handoff :: "loader_fb option \<Rightarrow> (u64 \<Rightarrow> u8) \<Rightarrow> serial_call list \<times> (u64 \<Rightarrow> u8)" where
  "fb_handoff fb m =
     (case fb of
        None \<Rightarrow> ([WriteStr ''LIONOS_FB_NONE'', fb_eol], m)
      | Some fb \<Rightarrow>
          (case validate (handoff_desc fb) of
             Inl e \<Rightarrow> ([WriteStr ''LIONOS_FB_ERROR code='', WriteDec (fb_error_code e), fb_eol], m)
           | Inr v \<Rightarrow>
               ([WriteStr ''LIONOS_FB_OK'', WriteStr '' w='', WriteDec (ucast (fb_width v)), WriteStr '' h='', WriteDec (ucast (fb_height v)),
                 WriteStr '' bpp='', WriteDec (ucast (fb_bpp v)), WriteStr '' pitch='', WriteDec (ucast (fb_pitch v)), fb_eol,
                 WriteStr ''LIONOS_FB_DRAW_OK'', fb_eol, WriteStr ''LIONOS_FB_TEXT ok'', fb_eol],
                foldl (\<lambda>m c. fb_call_run v c m) m (boot_pattern v))))"

text \<open>What the boot loader documents: the bytes hold every scan line of the geometry.\<close>

definition loader_fb_ok :: "loader_fb \<Rightarrow> bool" where
  "loader_fb_ok fb \<longleftrightarrow> unat (bl_stride fb) * unat (bl_bytes_per_pixel fb) * unat (bl_height fb) \<le> unat (bl_len fb)"

text \<open>Every narrowing of the conversion rounds down, so the descriptor never covers more than the loader's bytes.\<close>

lemma unat_ucast_down: "unat (ucast (w :: u64) :: u32) \<le> unat w"
  by (simp add: unsigned_ucast_eq take_bit_nat_eq_self_iff unsigned_take_bit_eq)

lemma saturating_mul_le: "unat (saturating_mul (a :: u32) b) \<le> unat a * unat b"
proof (cases "unat a * unat b < 2 ^ 32")
  case True
  then show ?thesis
    by (simp add: saturating_mul_def unat_mult_small)
next
  case False
  then show ?thesis
    using unat_bound [of "- 1 :: u32"] by (simp add: saturating_mul_def)
qed

lemma handoff_covered:
  assumes "loader_fb_ok fb"
  shows "unat (fb_pitch (handoff_desc fb)) * unat (fb_height (handoff_desc fb)) \<le> unat (bl_len fb)"
proof -
  have "unat (fb_pitch (handoff_desc fb)) \<le> unat (bl_stride fb) * unat (bl_bytes_per_pixel fb)"
    using le_trans [OF saturating_mul_le mult_le_mono [OF unat_ucast_down unat_ucast_down]] by (simp add: handoff_desc_def)
  then have "unat (fb_pitch (handoff_desc fb)) * unat (fb_height (handoff_desc fb))
      \<le> unat (bl_stride fb) * unat (bl_bytes_per_pixel fb) * unat (bl_height fb)"
    by (intro mult_le_mono) (simp_all add: handoff_desc_def unat_ucast_down)
  then show ?thesis
    using assms by (simp add: loader_fb_ok_def)
qed


text \<open>A mode as firmware sets it: an aligned buffer below the end of the address space and whole bytes per pixel.\<close>

definition usual_mode :: "loader_fb \<Rightarrow> bool" where
  "usual_mode fb \<longleftrightarrow> bl_base fb mod 4096 = 0 \<and> 0 < unat (bl_width fb) \<and> unat (bl_width fb) \<le> unat (bl_stride fb)
     \<and> 0 < unat (bl_height fb) \<and> unat (bl_height fb) < 2 ^ 32 \<and> bl_bytes_per_pixel fb \<in> {1, 2, 3, 4}
     \<and> unat (bl_stride fb) * unat (bl_bytes_per_pixel fb) < 2 ^ 32 \<and> unat (bl_base fb) + unat (bl_len fb) < 2 ^ 64"

lemma unat_ucast_fits: "unat (w :: u64) < 2 ^ 32 \<Longrightarrow> unat (ucast w :: u32) = unat w"
  by (simp add: unsigned_ucast_eq take_bit_nat_eq_self_iff unsigned_take_bit_eq)

lemma usual_mode_accepted:
  assumes "loader_fb_ok fb" "usual_mode fb"
  shows "validate (handoff_desc fb) = Inr (handoff_desc fb)"
proof -
  let ?d = "handoff_desc fb"
  have b: "bl_bytes_per_pixel fb \<in> {1, 2, 3, 4}"
    using assms(2) by (simp add: usual_mode_def)
  then have bpp: "is_supported_bpp (fb_bpp ?d)" "(ucast (fb_bpp ?d) + 7) div 8 = (ucast (bl_bytes_per_pixel fb) :: u32)"
      "unat (bl_bytes_per_pixel fb) \<ge> 1"
    by (auto simp: handoff_desc_def is_supported_bpp_def)
  have prod: "unat (bl_stride fb) * unat (bl_bytes_per_pixel fb) < 2 ^ 32"
    using assms(2) by (simp add: usual_mode_def)
  moreover have "unat (bl_stride fb) * 1 \<le> unat (bl_stride fb) * unat (bl_bytes_per_pixel fb)"
      "1 * unat (bl_bytes_per_pixel fb) \<le> unat (bl_stride fb) * unat (bl_bytes_per_pixel fb)"
    using bpp(3) assms(2) by (intro mult_le_mono; simp add: usual_mode_def)+
  ultimately have small: "unat (bl_stride fb) < 2 ^ 32" "unat (bl_bytes_per_pixel fb) < 2 ^ 32"
    by linarith+
  have w: "unat (fb_width ?d) = unat (bl_width fb)" "unat (fb_height ?d) = unat (bl_height fb)"
    using assms(2) small by (simp_all add: handoff_desc_def unat_ucast_fits usual_mode_def)
  have pitch: "unat (fb_pitch ?d) = unat (bl_stride fb) * unat (bl_bytes_per_pixel fb)"
    using prod small by (simp add: handoff_desc_def saturating_mul_def unat_ucast_fits unat_mult_small)
  have line: "unat (bl_width fb) * unat (bl_bytes_per_pixel fb) \<le> unat (fb_pitch ?d)"
    unfolding pitch using assms(2) by (intro mult_le_mono) (simp_all add: usual_mode_def)
  then have "unat (bl_width fb) * unat (bl_bytes_per_pixel fb) < 2 ^ 32"
    using prod unfolding pitch by linarith
  then have mul: "checked_mul (fb_width ?d) (ucast (bl_bytes_per_pixel fb)) = Some (fb_width ?d * ucast (bl_bytes_per_pixel fb))"
      "unat (fb_width ?d * ucast (bl_bytes_per_pixel fb)) = unat (bl_width fb) * unat (bl_bytes_per_pixel fb)"
    using w small by (simp_all add: checked_mul_def unat_mult_small unat_ucast_fits)
  have total: "unat (fb_pitch ?d) * unat (fb_height ?d) \<le> unat (bl_len fb)"
    using handoff_covered [OF assms(1)] .
  then have "unat (fb_pitch ?d) * unat (fb_height ?d) < 2 ^ 64"
    using unat_bound [of "bl_len fb"] by simp
  then have tot: "checked_mul (ucast (fb_pitch ?d)) (ucast (fb_height ?d) :: u64) = Some (ucast (fb_pitch ?d) * ucast (fb_height ?d))"
      "unat (ucast (fb_pitch ?d) * ucast (fb_height ?d) :: u64) = unat (fb_pitch ?d) * unat (fb_height ?d)"
    by (simp_all add: checked_mul_def unat_mult_small unat_ucast_up)
  have "unat (bl_base fb) + unat (fb_pitch ?d) * unat (fb_height ?d) < 2 ^ 64"
    using total assms(2) by (simp add: usual_mode_def)
  then have "checked_add (fb_address ?d) (ucast (fb_pitch ?d) * ucast (fb_height ?d)) \<noteq> None"
    using tot(2) by (simp add: checked_add_None handoff_desc_def del: not_None_eq)
  moreover have "fb_width ?d \<noteq> 0" "fb_height ?d \<noteq> 0" "fb_address ?d mod 4096 = 0"
    using w assms(2) by (auto simp: usual_mode_def handoff_desc_def)
  moreover have "\<not> fb_pitch ?d < fb_width ?d * ucast (bl_bytes_per_pixel fb)"
    using line by (simp add: word_less_nat_alt mul(2))
  ultimately show ?thesis
    using bpp mul(1) tot(1) by (simp add: validate_def Let_def del: not_None_eq)
qed

text \<open>
  C22: What the kernel draws stays in the boot loader's framebuffer.  For every descriptor whose scan
  lines fit the bytes the boot loader mapped, whatever its other values: the boot pattern, and any
  sequence of drawing calls on the validated descriptor with any coordinates, sizes and text,
  change only those bytes, although widths and strides are narrowed and multiplied in 32 bits on the
  way; and every usual mode is accepted unchanged.
\<close>

theorem framebuffer_handoff_safe:
  assumes "loader_fb_ok fb"
  shows "(snd (fb_handoff (Some fb) m) a \<noteq> m a \<longrightarrow> unat (bl_base fb) \<le> unat a \<and> unat a < unat (bl_base fb) + unat (bl_len fb))
    \<and> (validate (handoff_desc fb) = Inr v \<longrightarrow> foldl (\<lambda>m c. fb_call_run v c m) m cs a \<noteq> m a
         \<longrightarrow> unat (bl_base fb) \<le> unat a \<and> unat a < unat (bl_base fb) + unat (bl_len fb))
    \<and> (usual_mode fb \<longrightarrow> validate (handoff_desc fb) = Inr (handoff_desc fb))"
proof -
  have inside: "unat (bl_base fb) \<le> unat a \<and> unat a < unat (bl_base fb) + unat (bl_len fb)"
    if "validate (handoff_desc fb) = Inr v" "foldl (\<lambda>m c. fb_call_run v c m) m cs a \<noteq> m a" for v cs
  proof -
    have "fb_address (handoff_desc fb) = bl_base fb"
      by (simp add: handoff_desc_def)
    then show ?thesis
      using validated_framebuffer_safe [OF that] handoff_covered [OF assms] by simp
  qed
  have "unat (bl_base fb) \<le> unat a \<and> unat a < unat (bl_base fb) + unat (bl_len fb)" if "snd (fb_handoff (Some fb) m) a \<noteq> m a"
  proof (cases "validate (handoff_desc fb)")
    case (Inr v)
    then show ?thesis
      using that inside [OF Inr, of "boot_pattern v"] by (simp add: fb_handoff_def)
  qed (use that in \<open>simp add: fb_handoff_def\<close>)
  then show ?thesis
    using inside usual_mode_accepted [OF assms] by blast
qed

definition sample_loader_fb :: loader_fb where
  "sample_loader_fb = \<lparr>bl_base = 0xFD000000, bl_len = 3145728, bl_width = 1024, bl_height = 768, bl_stride = 1024, bl_bytes_per_pixel = 4\<rparr>"

theorem framebuffer_handoff_safe_witness:
  "validate (handoff_desc sample_loader_fb) = Inr sample_fb"
proof -
  have "loader_fb_ok sample_loader_fb" "usual_mode sample_loader_fb" "handoff_desc sample_loader_fb = sample_fb"
    by (simp_all add: loader_fb_ok_def usual_mode_def sample_loader_fb_def sample_fb_def handoff_desc_def saturating_mul_def)
  then show ?thesis
    using framebuffer_handoff_safe [of sample_loader_fb] by simp
qed

section \<open>The wait for the timer\<close>

text \<open>\<open>seen k\<close> is what the tick counter shows at the \<open>k\<close>-th look.  The result is the number of looks before the exit.\<close>

fun wait_ticks :: "(nat \<Rightarrow> u64) \<Rightarrow> nat \<Rightarrow> nat \<Rightarrow> nat" where
  "wait_ticks seen spins 0 = spins"
| "wait_ticks seen spins (Suc n) = (if seen spins < 25 then wait_ticks seen (Suc spins) n else spins)"

definition TIMER_SPINS :: nat where
  "TIMER_SPINS = 2000000000"

definition timer_markers :: "u64 \<Rightarrow> (nat \<Rightarrow> u64) \<Rightarrow> u64 \<Rightarrow> serial_call list" where
  "timer_markers flags seen pressed =
     [WriteStr ''LIONOS_IRQ_FLAGS='', WriteHex flags, fb_eol,
      WriteStr ''LIONOS_TIMER_TICKS='', WriteDec (seen (Suc (wait_ticks seen 0 TIMER_SPINS))), fb_eol,
      WriteStr ''LIONOS_KBD_ARMED count='', WriteDec pressed, fb_eol]"

text \<open>The wait ends at the first look that shows 25 ticks, or, on a machine whose timer is silent, after its bound.\<close>

lemma wait_ticks_bounds:
  "spins \<le> wait_ticks seen spins n \<and> wait_ticks seen spins n \<le> spins + n
    \<and> (\<forall>k. spins \<le> k \<longrightarrow> k < wait_ticks seen spins n \<longrightarrow> seen k < 25)
    \<and> (wait_ticks seen spins n < spins + n \<longrightarrow> 25 \<le> seen (wait_ticks seen spins n))"
proof (induction n arbitrary: spins)
  case (Suc n)
  show ?case
  proof (cases "seen spins < 25")
    case True
    have "seen k < 25" if "spins \<le> k" "k < wait_ticks seen (Suc spins) n" for k
      using Suc.IH [of "Suc spins"] that True by (cases "k = spins") simp_all
    then show ?thesis
      using Suc.IH [of "Suc spins"] True by simp
  qed (auto simp: not_less)
qed simp

lemma timer_wait_exits:
  assumes "25 \<le> seen k" "k < TIMER_SPINS"
  shows "wait_ticks seen 0 TIMER_SPINS \<le> k" "25 \<le> seen (wait_ticks seen 0 TIMER_SPINS)"
proof -
  note b = wait_ticks_bounds [of 0 seen TIMER_SPINS]
  then show "wait_ticks seen 0 TIMER_SPINS \<le> k"
    using assms(1) by (metis le0 not_le)
  then show "25 \<le> seen (wait_ticks seen 0 TIMER_SPINS)"
    using b assms(2) by simp
qed

lemma timer_silent: "\<forall>k. seen k < 25 \<Longrightarrow> wait_ticks seen 0 TIMER_SPINS = TIMER_SPINS"
  using wait_ticks_bounds [of 0 seen TIMER_SPINS] by (metis add_0 le_less not_le)


section \<open>The desktop and the markers after it\<close>

text \<open>
  The desktop is drawn with the boot loader's own numbers, whether or not the descriptor was accepted
  before; \<open>popped\<close> is what \<open>dock_pop\<close> answers.
\<close>

definition gfx_markers :: "u64 \<Rightarrow> u32 \<Rightarrow> (nat option \<times> u64 option \<times> Canvas) option \<Rightarrow> serial_call list" where
  "gfx_markers popped now drawn =
     (case drawn of
        None \<Rightarrow> [WriteStr ''LIONOS_GFX_CANVAS_ERR'', fb_eol]
      | Some (focused, copied, _) \<Rightarrow>
          [WriteStr ''LIONOS_GFX_CANVAS ok'', fb_eol, WriteStr ''LIONOS_GFX_WALL ok'', fb_eol,
           WriteStr ''LIONOS_GFX_COMPOSITE nwins='', WriteDec (word_of_nat (length desktop_windows)), fb_eol,
           WriteStr ''LIONOS_GFX_FOCUS win='', WriteDec (word_of_nat (case focused of Some i \<Rightarrow> i | None \<Rightarrow> 0)), fb_eol]
          @ (case copied of
               Some n \<Rightarrow> [WriteStr ''LIONOS_GFX_DBLBUF present='', WriteDec n, fb_eol,
                 WriteStr ''LIONOS_GFX_ANIM tick='', WriteDec (ucast now), WriteStr '' drift='', WriteDec popped,
                 WriteStr '' pop='', WriteDec (ucast (now mod 3)), fb_eol]
             | None \<Rightarrow> [WriteStr ''LIONOS_GFX_DBLBUF_ERR'', fb_eol]))"

definition desktop_section :: "u64 \<Rightarrow> u64 \<Rightarrow> loader_fb option \<Rightarrow> bytes \<Rightarrow> (serial_call list \<times> bytes) outcome" where
  "desktop_section popped now fb plane =
     (case fb of
        None \<Rightarrow> Returns ([], plane)
      | Some fb \<Rightarrow>
          (case desktop (ucast now) (bl_width fb) (bl_height fb) (bl_stride fb) (bl_bytes_per_pixel fb) plane of
             Panics \<Rightarrow> Panics
           | Returns r \<Rightarrow> Returns (gfx_markers popped (ucast now) r, case r of Some (_, _, front) \<Rightarrow> cv_buf front | None \<Rightarrow> plane)))"

definition late_markers :: "component_manifest \<Rightarrow> u64 \<Rightarrow> serial_call list" where
  "late_markers manifest pml4 = [WriteStr ''LIONOS_MANIFEST components='', WriteStr (map (\<lambda>b. char_of (unat b)) (CSV manifest)), fb_eol,
     WriteStr ''LIONOS_PML4 cr3='', WriteHex pml4, fb_eol, WriteStr ''LIONOS_IRQ_OK'', fb_eol]"

text \<open>A descriptor the validator refuses for its address is drawn on all the same.\<close>

lemma desktop_ignores_validation:
  assumes "b mod 4096 \<noteq> 0"
  shows "validate (handoff_desc (fb\<lparr>bl_base := b\<rparr>)) = Inl UnalignedAddress"
    "desktop_section popped now (Some (fb\<lparr>bl_base := b\<rparr>)) plane = desktop_section popped now (Some fb) plane"
  using assms by (simp_all add: validate_def handoff_desc_def desktop_section_def)

text \<open>The first line of the boot and the line of the panic handler, which initialises the port again and halts.\<close>

definition fmt_marker :: "serial_call list" where
  "fmt_marker = [WriteStr ''LIONOS_FMT_OK count='', WriteStr ''42'', WriteStr [CHR 0x0A]]"

definition panic_marker :: "serial_call list" where
  "panic_marker = [WriteStr ''PANIC'', fb_eol]"

end
