(* ===== verification/Heap_Demo.thy ===== *)
theory Heap_Demo
  imports Heap Serial
begin

text \<open>
  The heap self test of \<open>kernel_main\<close> (\<open>src/kernel/src/main.rs\<close>): a vector that grows while it is filled and
  a box, on the freshly initialised kernel heap.  The growth policy of \<open>Vec\<close> and the default
  \<open>realloc\<close> of \<open>GlobalAlloc\<close> are those of Rust's library.  The free list is followed as a list of blocks,
  of which the allocator's loops are refinements.
\<close>

section \<open>Allocation on the list of free blocks\<close>

definition first_fit :: "nat \<Rightarrow> block list \<Rightarrow> (nat \<times> block list) option" where
  "first_fit need fs =
     (case dropWhile (\<lambda>c. snd c < need) fs of
        [] \<Rightarrow> None
      | (a, s) # ys \<Rightarrow>
          Some (a, (if s - need \<ge> NODE_SIZE then [(a + need, s - need)] else []) @ takeWhile (\<lambda>c. snd c < need) fs @ ys))"

lemma alloc_layout_first_fit:
  assumes inv: "heap_inv h fs al" and l: "layout_ok l" "unat (layout_align l) \<le> ALIGN"
    and fit: "first_fit (rounded l + NODE_SIZE) fs = Some (a, fs')"
  shows "\<exists>h'. alloc_layout l h = Some (a + NODE_SIZE, h') \<and> heap_inv h' fs' ((a, rounded l + NODE_SIZE) # al)
    \<and> heap_size h' = heap_size h"
proof -
  let ?need = "rounded l + NODE_SIZE"
  let ?xs = "takeWhile (\<lambda>c. snd c < ?need) fs"
  from fit obtain s ys where d: "dropWhile (\<lambda>c. snd c < ?need) fs = (a, s) # ys"
      and fs': "fs' = (if s - ?need \<ge> NODE_SIZE then [(a + ?need, s - ?need)] else []) @ ?xs @ ys"
    by (auto simp: first_fit_def split: list.splits)
  have "fs = ?xs @ (a, s) # ys"
    using d by (metis takeWhile_dropWhile_id)
  then have inv': "heap_inv h (?xs @ (a, s) # ys) al"
    using inv by simp
  have "?need \<le> s"
    using hd_dropWhile [of "\<lambda>c. snd c < ?need" fs] d by auto
  note t = take_block_inv [OF inv' this rounded_props(1) [OF l(1)], folded fs']
  have "alloc_layout l h = Some (a + NODE_SIZE, take_block ?need (rounded l) (link_of ?xs) a h)"
  proof -
    have "chain (cells h) (head h) ([] @ fs)"
      using inv by (simp add: heap_inv_def)
    note f = alloc_loop_first_fit [OF this, of ?need "rounded l", unfolded d]
    have "alloc_layout l h = alloc_loop ?need (rounded l) (link_of []) h"
      using l(2) by (simp add: alloc_layout_def rounded_def link_of_def Let_def)
    then show ?thesis
      using f by (simp add: Let_def)
  qed
  then show ?thesis
    using t by (auto simp: take_block_fields)
qed

section \<open>Reallocation and the vector\<close>

definition realloc_default :: "nat \<Rightarrow> Layout \<Rightarrow> u64 \<Rightarrow> heap_state \<Rightarrow> (nat \<times> heap_state) option" where
  "realloc_default ptr layout new_size h =
     (case alloc_layout (layout\<lparr>layout_size := new_size\<rparr>) h of
        None \<Rightarrow> None
      | Some (p, h1) \<Rightarrow>
          if p \<noteq> 0
          then let n = min (unat (layout_size layout)) (unat new_size);
                   h2 = h1\<lparr>cells := (\<lambda>a. if p \<le> a \<and> a < p + n then cells h1 (ptr + (a - p)) else cells h1 a)\<rparr>
               in (case dealloc_layout ptr layout h2 of None \<Rightarrow> None | Some h3 \<Rightarrow> Some (p, h3))
          else Some (p, h1))"

lemma heap_inv_fill:
  assumes "heap_inv h fs al" "(a, s) \<in> set al" "\<forall>x. x \<notin> block_bytes (a, s) \<longrightarrow> m x = cells h x"
  shows "heap_inv (h\<lparr>cells := m\<rparr>) fs al"
proof -
  have "\<forall>c\<in>set fs. apart (a, s) c"
    using assms(1,2) apart_sym by (auto simp: heap_inv_def sorted_wrt_append)
  then have "block_bytes (a, s) \<inter> headers fs = {}"
    using heap_inv_sizes [OF assms(1)] by (intro apart_headers [of fs "(a, s)"]) auto
  then have "chain m (head h) fs = chain (cells h) (head h) fs"
    using assms(3) by (intro chain_cong) blast
  moreover have "block_ok (h\<lparr>cells := m\<rparr>) = block_ok h"
    by (rule block_ok_cong) simp_all
  ultimately show ?thesis
    using assms(1) by (simp add: heap_inv_def)
qed

lemma realloc_list:
  assumes inv: "heap_inv h fs al" and l: "layout_ok l" "layout_ok (l\<lparr>layout_size := n\<rparr>)" "unat (layout_align l) \<le> ALIGN"
    and old: "(q, rounded l + NODE_SIZE) \<in> set al"
    and fit: "first_fit (rounded (l\<lparr>layout_size := n\<rparr>) + NODE_SIZE) fs = Some (a, fs')"
  shows "\<exists>h'. realloc_default (q + NODE_SIZE) l n h = Some (a + NODE_SIZE, h')
    \<and> heap_inv h' (insert_block (q, rounded l + NODE_SIZE) fs')
        (remove1 (q, rounded l + NODE_SIZE) ((a, rounded (l\<lparr>layout_size := n\<rparr>) + NODE_SIZE) # al))
    \<and> heap_size h' = heap_size h"
proof -
  let ?l = "l\<lparr>layout_size := n\<rparr>" let ?b = "(q, rounded l + NODE_SIZE)" and ?c = "(a, rounded (l\<lparr>layout_size := n\<rparr>) + NODE_SIZE)"
  obtain h1 where a: "alloc_layout ?l h = Some (a + NODE_SIZE, h1)" "heap_inv h1 fs' (?c # al)" "heap_size h1 = heap_size h"
    using alloc_layout_first_fit [OF inv l(2) _ fit] l(3) by auto
  let ?k = "min (unat (layout_size l)) (unat n)"
  let ?h2 = "h1\<lparr>cells := (\<lambda>x. if a + NODE_SIZE \<le> x \<and> x < a + NODE_SIZE + ?k then cells h1 (q + NODE_SIZE + (x - (a + NODE_SIZE))) else cells h1 x)\<rparr>"
  have "unat n \<le> rounded ?l"
    using rounded_props(2) [OF l(2)] by simp
  then have h2: "heap_inv ?h2 fs' (?c # al)"
    by (intro heap_inv_fill [OF a(2)]) (auto simp: block_bytes_def)
  have "?b \<in> set (?c # al)"
    using old by simp
  then obtain h3 where d: "dealloc_loop q 0 None (write_node q 0 (rounded l + NODE_SIZE) ?h2) = Some h3"
      "heap_inv (h3\<lparr>used := used h3 - rounded l\<rparr>) (insert_block ?b fs') (remove1 ?b (?c # al))" "used h3 = used ?h2"
      "heap_base h3 = heap_base ?h2" "heap_size h3 = heap_size ?h2"
    by (rule dealloc_inv [OF h2])
  moreover have "dealloc_layout (q + NODE_SIZE) l ?h2 = Some (h3\<lparr>used := used h3 - rounded l\<rparr>)"
    using d(1) by (simp add: dealloc_layout_def rounded_def Let_def)
  ultimately show ?thesis
    using a(1,3) by (intro exI [of _ "h3\<lparr>used := used h3 - rounded l\<rparr>"]) (simp add: realloc_default_def Let_def, simp add: NODE_SIZE_def)
qed


definition u32s :: "nat \<Rightarrow> Layout" where
  "u32s n = \<lparr>layout_size = word_of_nat (4 * n), layout_align = 4\<rparr>"

text \<open>
  Pointer, capacity and length of a \<open>Vec<u32>\<close>.  A full vector doubles, and has room for at least four
  elements; a failed allocation panics.  The outer \<open>None\<close> is an allocator loop that does not return.
\<close>

type_synonym vec_u32 = "nat \<times> nat \<times> nat"

definition vec_push :: "vec_u32 \<Rightarrow> heap_state \<Rightarrow> (vec_u32 \<times> heap_state) outcome option" where
  "vec_push = (\<lambda>(ptr, cap, len) h.
     if len < cap then Some (Returns ((ptr, cap, Suc len), h))
     else let cap' = max (max (2 * cap) (Suc len)) 4 in
       case (if cap = 0 then alloc_layout (u32s cap') h else realloc_default ptr (u32s cap) (word_of_nat (4 * cap')) h) of
         None \<Rightarrow> None
       | Some (p, h) \<Rightarrow> Some (if p = 0 then Panics else Returns ((p, cap', Suc len), h)))"

fun vec_pushes :: "nat \<Rightarrow> vec_u32 \<Rightarrow> heap_state \<Rightarrow> (vec_u32 \<times> heap_state) outcome option" where
  "vec_pushes 0 v h = Some (Returns (v, h))"
| "vec_pushes (Suc n) v h =
     (case vec_push v h of
        Some (Returns (v, h)) \<Rightarrow> vec_pushes n v h
      | Some Panics \<Rightarrow> Some Panics
      | None \<Rightarrow> None)"

text \<open>An empty vector has a dangling pointer of its alignment and no memory.\<close>

definition heap_demo :: "heap_state \<Rightarrow> (serial_call list \<times> heap_state) outcome option" where
  "heap_demo h =
     (let values = map (\<lambda>i. word_of_nat (i * 3) :: u32) [0..<64] in
      case vec_pushes (length values) (4, 0, 0) h of
        None \<Rightarrow> None
      | Some Panics \<Rightarrow> Some Panics
      | Some (Returns (v, h)) \<Rightarrow>
          (case alloc_layout \<lparr>layout_size = 1, layout_align = 1\<rparr> h of
             None \<Rightarrow> None
           | Some (boxed, h) \<Rightarrow> Some (if boxed = 0 then Panics
               else Returns ([WriteStr ''LIONOS_HEAP_OK cap='', WriteDec (word_of_nat (capacity h)), WriteStr '' used='',
                 WriteDec (word_of_nat (heap_used h)), WriteStr '' sum='', WriteDec (ucast (sum_list values)), WriteStr '' box='',
                 WriteHex 0xA5, WriteStr [CHR 0x0D, CHR 0x0A]], h))))"

lemma vec_pushes_room:
  "len + n \<le> cap \<Longrightarrow> vec_pushes n (p, cap, len) h = Some (Returns ((p, cap, len + n), h))"
  by (induction n arbitrary: len) (simp_all add: vec_push_def)

lemma vec_pushes_add:
  assumes "vec_pushes m v h = Some (Returns (v', h'))"
  shows "vec_pushes (m + n) v h = vec_pushes n v' h'"
  using assms by (induction m arbitrary: v h) (auto split: option.splits outcome.splits prod.splits)

lemma u32s_layout:
  assumes "n \<in> {4, 8, 16, 32, 64}"
  shows "layout_ok (u32s n)" "rounded (u32s n) = 4 * n" "unat (layout_align (u32s n)) \<le> ALIGN"
  using assms by (auto simp: layout_ok_def u32s_def rounded_def align_up_def ALIGN_def)

text \<open>A full vector moves to a block twice its size; its old block goes back to the free list.\<close>

lemma vec_doubles:
  assumes "heap_inv h fs ((q, 4 * n + 16) # al)" "n \<in> {4, 8, 16, 32}" "first_fit (8 * n + 16) fs = Some (a, fs')" "a \<noteq> q"
    and "p = q + 16" "p' = a + 16"
  shows "\<exists>h'. vec_pushes n (p, n, n) h = Some (Returns ((p', 2 * n, 2 * n), h'))
    \<and> heap_inv h' (insert_block (q, 4 * n + 16) fs') ((a, 8 * n + 16) # al) \<and> heap_size h' = heap_size h"
proof -
  have l: "layout_ok (u32s n)" "rounded (u32s n) = 4 * n" "unat (layout_align (u32s n)) \<le> ALIGN"
    using assms(2) u32s_layout [of n] by auto
  have "(u32s n)\<lparr>layout_size := word_of_nat (4 * (2 * n))\<rparr> = u32s (2 * n)"
    by (simp add: u32s_def)
  moreover have l': "layout_ok (u32s (2 * n))" "rounded (u32s (2 * n)) = 8 * n"
    using assms(2) u32s_layout [of "2 * n"] by auto
  ultimately obtain h' where r: "realloc_default (q + 16) (u32s n) (word_of_nat (4 * (2 * n))) h = Some (a + 16, h')"
      "heap_inv h' (insert_block (q, 4 * n + 16) fs') (remove1 (q, 4 * n + 16) ((a, 8 * n + 16) # (q, 4 * n + 16) # al))"
      "heap_size h' = heap_size h"
    using realloc_list [OF assms(1) l(1) _ l(3), of "word_of_nat (4 * (2 * n))" q a fs'] assms(3) l(2) by (auto simp: NODE_SIZE_def)
  have m: "max (max (2 * n) (Suc n)) 4 = 2 * n" "n \<noteq> 0"
    using assms(2) by auto
  have "vec_push (q + 16, n, n) h = Some (Returns ((a + 16, 2 * n, Suc n), h'))"
    unfolding vec_push_def Let_def prod.case m using r(1) m(2) by simp
  moreover obtain k where k: "n = Suc k"
    using m(2) by (cases n) auto
  ultimately have "vec_pushes n (q + 16, n, n) h = vec_pushes k (a + 16, 2 * n, Suc n) h'"
    by simp
  then have "vec_pushes n (q + 16, n, n) h = Some (Returns ((a + 16, 2 * n, 2 * n), h'))"
    using vec_pushes_room [of "Suc n" k "2 * n" "a + 16" h'] k by simp
  then show ?thesis
    using r(2,3) assms(4-6) by auto
qed


section \<open>The self test on a heap of one free block\<close>

lemmas fit_simps = first_fit_def insert_block_def join_left_def join_right_def NODE_SIZE_def

lemma vec_first:
  assumes "heap_inv h [(b, 65536)] []"
  shows "\<exists>h'. vec_pushes 4 (4, 0, 0) h = Some (Returns ((b + 16, 4, 4), h'))
    \<and> heap_inv h' [(b + 32, 65504)] [(b, 32)] \<and> heap_size h' = heap_size h"
proof -
  let ?h = h
  have "first_fit 32 [(b, 65536)] = Some (b, [(b + 32, 65504)])"
    by (simp add: fit_simps)
  then obtain h' where a: "alloc_layout (u32s 4) ?h = Some (b + 16, h')" "heap_inv h' [(b + 32, 65504)] [(b, 32)]"
      "heap_size h' = heap_size h"
    using alloc_layout_first_fit [OF assms, of "u32s 4" b "[(b + 32, 65504)]"] u32s_layout [of 4]
    by (auto simp: NODE_SIZE_def)
  have first: "vec_push (4, 0, 0) ?h = Some (Returns ((b + 16, 4, 1), h'))"
    using a(1) by (simp add: vec_push_def)
  have more: "vec_pushes 3 (b + 16, 4, 1) h' = Some (Returns ((b + 16, 4, 4), h'))"
    using vec_pushes_room [of 1 3 4] by simp
  have "vec_pushes 4 (4, 0, 0) ?h = Some (Returns ((b + 16, 4, 4), h'))"
  proof -
    have "(4 :: nat) = Suc 3"
      by simp
    then show ?thesis
      using first more by (simp only: vec_pushes.simps option.case outcome.case prod.case)
  qed
  then show ?thesis
    using a by blast
qed

lemma vec_filled:
  assumes "heap_inv h [(b, 65536)] []"
  shows "\<exists>h'. vec_pushes 64 (4, 0, 0) h = Some (Returns ((b + 320, 64, 64), h'))
    \<and> heap_inv h' [(b + 160, 144), (b + 576, 64960), (b + 80, 80), (b + 32, 48), (b, 32)] [(b + 304, 272)] \<and> heap_size h' = heap_size h"
proof -
  obtain h1 where h1: "vec_pushes 4 (4, 0, 0) h = Some (Returns ((b + 16, 4, 4), h1))"
      "heap_inv h1 [(b + 32, 65504)] [(b, 32)]" "heap_size h1 = heap_size h"
    using vec_first [OF assms] by blast
  obtain h2 where h2: "vec_pushes 4 (b + 16, 4, 4) h1 = Some (Returns ((b + 48, 8, 8), h2))"
      "heap_inv h2 [(b, 32), (b + 80, 65456)] [(b + 32, 48)]" "heap_size h2 = heap_size h"
    using vec_doubles [of h1 "[(b + 32, 65504)]" b 4 "[]" "b + 32" "[(b + 80, 65456)]" "b + 16" "b + 48"] h1 by (auto simp: fit_simps)
  obtain h3 where h3: "vec_pushes 8 (b + 48, 8, 8) h2 = Some (Returns ((b + 96, 16, 16), h3))"
      "heap_inv h3 [(b + 32, 48), (b + 160, 65376), (b, 32)] [(b + 80, 80)]" "heap_size h3 = heap_size h"
    using vec_doubles [of h2 "[(b, 32), (b + 80, 65456)]" "b + 32" 8 "[]" "b + 80" "[(b + 160, 65376), (b, 32)]" "b + 48" "b + 96"] h2
    by (auto simp: fit_simps)
  obtain h4 where h4: "vec_pushes 16 (b + 96, 16, 16) h3 = Some (Returns ((b + 176, 32, 32), h4))"
      "heap_inv h4 [(b + 80, 80), (b + 304, 65232), (b + 32, 48), (b, 32)] [(b + 160, 144)]" "heap_size h4 = heap_size h"
    using vec_doubles [of h3 "[(b + 32, 48), (b + 160, 65376), (b, 32)]" "b + 80" 16 "[]" "b + 160"
      "[(b + 304, 65232), (b + 32, 48), (b, 32)]" "b + 96" "b + 176"] h3 by (auto simp: fit_simps)
  obtain h5 where h5: "vec_pushes 32 (b + 176, 32, 32) h4 = Some (Returns ((b + 320, 64, 64), h5))"
      "heap_inv h5 [(b + 160, 144), (b + 576, 64960), (b + 80, 80), (b + 32, 48), (b, 32)] [(b + 304, 272)]" "heap_size h5 = heap_size h"
    using vec_doubles [of h4 "[(b + 80, 80), (b + 304, 65232), (b + 32, 48), (b, 32)]" "b + 160" 32 "[]" "b + 304"
      "[(b + 576, 64960), (b + 80, 80), (b + 32, 48), (b, 32)]" "b + 176" "b + 320"] h4 by (auto simp: fit_simps)
  have "vec_pushes (4 + (4 + (8 + (16 + 32)))) (4, 0, 0) h = Some (Returns ((b + 320, 64, 64), h5))"
    unfolding vec_pushes_add [OF h1(1)] vec_pushes_add [OF h2(1)] vec_pushes_add [OF h3(1)] vec_pushes_add [OF h4(1)] by (rule h5(1))
  then show ?thesis
    using h5(2,3) by auto
qed

text \<open>The marker the boot test looks for, whatever region the heap was mapped at.\<close>

lemma heap_demo_marker:
  assumes "heap_inv h [(b, 65536)] []"
  shows "\<exists>h' fs. heap_demo h = Some (Returns ([WriteStr ''LIONOS_HEAP_OK cap='', WriteDec (word_of_nat (heap_size h)), WriteStr '' used='',
      WriteDec 264, WriteStr '' sum='', WriteDec 6048, WriteStr '' box='', WriteHex 0xA5, WriteStr [CHR 0x0D, CHR 0x0A]], h'))
    \<and> heap_inv h' fs [(b + 160, 24), (b + 304, 272)]"
proof -
  let ?l = "\<lparr>layout_size = 1, layout_align = 1\<rparr>"
  obtain h1 where v: "vec_pushes 64 (4, 0, 0) h = Some (Returns ((b + 320, 64, 64), h1))"
      "heap_inv h1 [(b + 160, 144), (b + 576, 64960), (b + 80, 80), (b + 32, 48), (b, 32)] [(b + 304, 272)]" "heap_size h1 = heap_size h"
    using vec_filled [OF assms] by blast
  have l: "layout_ok ?l" "rounded ?l = 8" "unat (layout_align ?l) \<le> ALIGN"
    by (simp_all add: layout_ok_def rounded_def align_up_def ALIGN_def)
  have "first_fit (rounded ?l + NODE_SIZE) [(b + 160, 144), (b + 576, 64960), (b + 80, 80), (b + 32, 48), (b, 32)]
      = Some (b + 160, [(b + 184, 120), (b + 576, 64960), (b + 80, 80), (b + 32, 48), (b, 32)])"
    unfolding l(2) by (simp add: fit_simps)
  then obtain h2 where h2: "alloc_layout ?l h1 = Some (b + 176, h2)" "heap_size h2 = heap_size h"
      "heap_inv h2 [(b + 184, 120), (b + 576, 64960), (b + 80, 80), (b + 32, 48), (b, 32)] [(b + 160, 24), (b + 304, 272)]"
    using alloc_layout_first_fit [OF v(2) l(1,3)] v(3) by (auto simp: l(2) NODE_SIZE_def)
  have used: "heap_used h2 = 264" "capacity h2 = heap_size h"
    using h2 by (simp_all add: heap_used_def capacity_def heap_inv_def NODE_SIZE_def)
  have "sum_list (map (\<lambda>i. word_of_nat (i * 3) :: u32) [0..<64]) = 6048"
    by (simp add: upt_rec)
  then show ?thesis
    using v(1) h2 used by (simp add: heap_demo_def Let_def del: upt_rec_numeral) blast
qed


lemma heap_demo_used:
  assumes "heap_inv h [(b, 65536)] []"
  shows "\<exists>out h'. heap_demo h = Some (Returns (out, h')) \<and> heap_used h' = 264"
proof -
  obtain out h' fs where "heap_demo h = Some (Returns (out, h'))" "heap_inv h' fs [(b + 160, 24), (b + 304, 272)]"
    using heap_demo_marker [OF assms] by blast
  moreover from this(2) have "heap_used h' = 264"
    by (simp add: heap_used_def heap_inv_def NODE_SIZE_def)
  ultimately show ?thesis
    by blast
qed

end
