(* ===== verification/Build_Script.thy ===== *)
theory Build_Script
  imports Selections
begin

text \<open>
  The kernel's build script (\<open>src/kernel/build.rs\<close>) as the sequence of what it does: directives to cargo,
  tools it runs and files it writes or copies.  Whether a step works is a parameter, and so are the
  output directory, the directory of the package and the environment; the target directory set for the
  cargo run of the ring-3 program is not part of its step.  The lemmas say that a host build starts no
  tool, that the archive holds every object exactly once and only objects a tool has just built, and
  that a step that fails ends the build before anything later is tried.
\<close>

datatype build_step = is_directive: Directive string | Tool string "string list" | WriteFile string bytes | CopyFile string string

type_synonym environment = "string \<Rightarrow> string option"

definition env_or :: "environment \<Rightarrow> string \<Rightarrow> string \<Rightarrow> string" where
  "env_or env name fallback = (case env name of Some v \<Rightarrow> v | None \<Rightarrow> fallback)"

definition joined :: "string \<Rightarrow> string \<Rightarrow> string" where
  "joined dir name = dir @ ''/'' @ name"

definition compile :: "string \<Rightarrow> string \<Rightarrow> string \<Rightarrow> build_step" where
  "compile cc src obj = Tool cc [''-m64'', ''-O2'', ''-fno-pie'', ''-ffreestanding'', ''-fno-builtin'', ''-fno-stack-protector'',
     ''-mno-red-zone'', ''-mcmodel=kernel'', ''-nostdlib'', ''-nostdinc'', ''-c'', src, ''-o'', obj]"

definition compile_cxx :: "string \<Rightarrow> string \<Rightarrow> string \<Rightarrow> build_step" where
  "compile_cxx cc src obj = Tool cc [''-m64'', ''-O2'', ''-std=c++17'', ''-fno-pie'', ''-ffreestanding'', ''-fno-exceptions'',
     ''-fno-rtti'', ''-fno-threadsafe-statics'', ''-fno-builtin'', ''-fno-stack-protector'', ''-mno-red-zone'', ''-mcmodel=kernel'',
     ''-nostdlib'', ''-nostdinc'', ''-c'', src, ''-o'', obj]"

definition build_zig :: "string \<Rightarrow> string \<Rightarrow> string \<Rightarrow> build_step" where
  "build_zig zig src obj = Tool zig [''build-obj'', src, ''-O'', ''ReleaseSafe'', ''-femit-bin='' @ obj]"

definition assemble_nasm :: "string \<Rightarrow> string \<Rightarrow> string \<Rightarrow> build_step" where
  "assemble_nasm nasm src obj = Tool nasm [''-f'', ''elf64'', ''-o'', obj, src]"

definition link_ffi :: "environment \<Rightarrow> string list \<Rightarrow> string \<Rightarrow> build_step list" where
  "link_ffi env objects out =
     [Tool (env_or env ''AR'' ''ar'') ([''crus'', joined out ''liblionos_ffi.a''] @ objects),
      Directive (''cargo:rustc-link-search=native='' @ out), Directive ''cargo:rustc-link-lib=static=lionos_ffi'']"

text \<open>The generated source: the three constants as Rust literals.\<close>

definition quoted :: "bytes \<Rightarrow> bytes" where
  "quoted k = lit [CHR 0x22] @ k @ lit [CHR 0x22]"

definition manifest_source :: "component_manifest \<Rightarrow> bytes" where
  "manifest_source m =
     (let list = (\<lambda>ks. join (lit '', '') (map quoted ks))
      in lit ''// generated by build.rs from LIONOS_COMPONENTS; do not edit'' @ [10]
         @ lit ''pub const REQUIRED: &[&str] = &['' @ list (REQUIRED m) @ lit ''];'' @ [10]
         @ lit ''pub const ENABLED: &[&str] = &['' @ list (ENABLED m) @ lit ''];'' @ [10]
         @ lit ''pub const CSV: &str = '' @ quoted (CSV m) @ lit '';'' @ [10])"

definition manifest_steps :: "environment \<Rightarrow> string \<Rightarrow> build_step list" where
  "manifest_steps env out =
     [WriteFile (joined out ''component_manifest.rs'') (manifest_source (generate_manifest (map_option lit (env ''LIONOS_COMPONENTS'')))),
      Directive ''cargo:rerun-if-env-changed=LIONOS_COMPONENTS'']"

definition C_SOURCES :: "(string \<times> string) list" where
  "C_SOURCES = [(''support'', ''c/support.c''), (''fb'', ''c/fb.c''), (''string_utils'', ''c/string_utils.c''), (''cpu'', ''asm/cpu.s'')]"

definition NASM_SOURCES :: "(string \<times> string) list" where
  "NASM_SOURCES = [(''port_io'', ''asm/port_io.asm''), (''cpu_utils'', ''asm/cpu_utils.asm''), (''context_switch'', ''asm/switch.asm'')]"

definition object_of :: "string \<Rightarrow> string \<Rightarrow> string" where
  "object_of out name = joined out (name @ ''.o'')"

definition ffi_steps :: "environment \<Rightarrow> string \<Rightarrow> build_step list" where
  "ffi_steps env out =
     (let cc = env_or env ''CC'' ''cc''; nasm = env_or env ''NASM'' ''nasm''; zig = env_or env ''ZIG'' ''zig'';
          c_steps = map (\<lambda>(name, src). compile cc src (object_of out name)) C_SOURCES;
          objects = map (\<lambda>(name, src). object_of out name) C_SOURCES;
          nasm_steps = map (\<lambda>(name, src). assemble_nasm nasm src (object_of out name)) NASM_SOURCES;
          objects = objects @ map (\<lambda>(name, src). object_of out name) NASM_SOURCES;
          cpp_obj = object_of out ''cpp_lionos'';
          cpp_step = compile_cxx cc ''cpp/lionos_cpp.cpp'' cpp_obj;
          objects = objects @ [cpp_obj];
          zig_obj = object_of out ''zig_lionos'';
          zig_step = build_zig zig ''zig/lionos_zig.zig'' zig_obj;
          objects = objects @ [zig_obj]
      in c_steps @ nasm_steps @ [cpp_step, zig_step] @ link_ffi env objects out)"

definition user_steps :: "environment \<Rightarrow> string \<Rightarrow> string \<Rightarrow> build_step list" where
  "user_steps env kernel_dir out =
     (let dst = joined out ''user_elf.bin''
      in [Tool (env_or env ''CARGO'' ''cargo'') [''build'', ''--release'', ''--manifest-path'', joined kernel_dir ''../user/Cargo.toml'',
            ''--target'', ''x86_64-unknown-none''],
          CopyFile (joined kernel_dir ''../user/target/x86_64-unknown-none/release/user'') dst,
          Directive (''cargo:rustc-env=USER_ELF='' @ dst),
          Directive (''cargo:rerun-if-changed='' @ joined kernel_dir ''../user/src/main.rs''),
          Directive (''cargo:rerun-if-changed='' @ joined kernel_dir ''../user/linker.ld'')])"

definition WATCHED :: "string list" where
  "WATCHED = [''env-changed=LIONOS_BOOT_MARKER'', ''changed=c/support.c'', ''changed=c/fb.c'', ''changed=c/string_utils.c'',
     ''changed=asm/cpu.s'', ''changed=asm/port_io.asm'', ''changed=asm/cpu_utils.asm'', ''changed=asm/switch.asm'',
     ''changed=cpp/lionos_cpp.cpp'', ''changed=zig/lionos_zig.zig'']"

definition build_main :: "environment \<Rightarrow> string \<Rightarrow> string \<Rightarrow> build_step list" where
  "build_main env kernel_dir out =
     manifest_steps env out @ map (\<lambda>w. Directive (''cargo:rerun-if-'' @ w)) WATCHED
     @ (if env ''TARGET'' \<noteq> Some ''x86_64-unknown-none'' then []
        else [Directive (''cargo:rustc-link-arg=-T'' @ joined kernel_dir ''linker.ld'')]
          @ ffi_steps env out @ user_steps env kernel_dir out)"

text \<open>
  The script panics at the first step that fails (a tool that cannot be started or reports an
  error, a file that cannot be written or copied); printing a directive does not fail.  The result is
  what was tried and whether the script finished.
\<close>

fun run_build :: "(build_step \<Rightarrow> bool) \<Rightarrow> build_step list \<Rightarrow> build_step list \<times> bool" where
  "run_build works [] = ([], True)"
| "run_build works (s # ss) =
     (if is_directive s \<or> works s then (case run_build works ss of (tried, ok) \<Rightarrow> (s # tried, ok)) else ([s], False))"

section \<open>What a build does\<close>

fun tool_output :: "build_step \<Rightarrow> string option" where
  "tool_output (Tool p as) =
     (if ''-o'' \<in> set as then Some (as ! Suc (length (takeWhile (\<lambda>a. a \<noteq> ''-o'') as)))
      else case filter (\<lambda>a. take 11 a = ''-femit-bin='') as of [a] \<Rightarrow> Some (drop 11 a) | _ \<Rightarrow> None)"
| "tool_output _ = None"

definition ffi_objects :: "string \<Rightarrow> string list" where
  "ffi_objects out = map (object_of out) [''support'', ''fb'', ''string_utils'', ''cpu'', ''port_io'', ''cpu_utils'', ''context_switch'',
     ''cpp_lionos'', ''zig_lionos'']"

lemma host_build_runs_no_tool:
  assumes "env ''TARGET'' \<noteq> Some ''x86_64-unknown-none''"
  shows "Tool p as \<notin> set (build_main env kernel_dir out)"
  using assms by (auto simp: build_main_def manifest_steps_def)

text \<open>What was tried is an initial part of the script; an unfinished build ends with the step that failed.\<close>

lemma run_build_prefix:
  assumes "run_build works ss = (ds, ok)"
  shows "if ok then ds = ss \<and> (\<forall>s\<in>set ss. is_directive s \<or> works s)
    else \<exists>xs s zs. ds = xs @ [s] \<and> ss = xs @ s # zs \<and> \<not> works s \<and> (\<forall>x\<in>set xs. is_directive x \<or> works x)"
  using assms
proof (induction ss arbitrary: ds)
  case (Cons s ss)
  obtain es ok' where r: "run_build works ss = (es, ok')"
    by (cases "run_build works ss")
  show ?case
  proof (cases "is_directive s \<or> works s")
    case False
    then show ?thesis
      using Cons.prems by (auto intro!: exI [of _ "[]"])
  next
    case s: True
    then have d: "ds = s # es" "ok' = ok"
      using Cons.prems r by auto
    note ih = Cons.IH [OF r [unfolded d(2)]]
    show ?thesis
    proof (cases ok)
      case True
      then show ?thesis
        using ih d s by simp
    next
      case nok: False
      then obtain xs x zs where "es = xs @ [x]" "ss = xs @ x # zs" "\<not> works x" "\<forall>x\<in>set xs. is_directive x \<or> works x"
        using ih by auto
      then show ?thesis
        using nok d s by (auto intro!: exI [of _ "s # xs"])
    qed
  qed
qed simp

text \<open>Before the archiver runs, every object of its list has been built, in this order, each by one tool.\<close>

lemma ffi_steps_objects:
  "\<exists>builds. ffi_steps env out = builds @ link_ffi env (ffi_objects out) out \<and> map tool_output builds = map Some (ffi_objects out)"
proof -
  let ?cc = "env_or env ''CC'' ''cc''" and ?nasm = "env_or env ''NASM'' ''nasm''" and ?zig = "env_or env ''ZIG'' ''zig''"
  let ?bs = "map (\<lambda>(name, src). compile ?cc src (object_of out name)) C_SOURCES
    @ map (\<lambda>(name, src). assemble_nasm ?nasm src (object_of out name)) NASM_SOURCES
    @ [compile_cxx ?cc ''cpp/lionos_cpp.cpp'' (object_of out ''cpp_lionos''), build_zig ?zig ''zig/lionos_zig.zig'' (object_of out ''zig_lionos'')]"
  have "ffi_steps env out = ?bs @ link_ffi env (ffi_objects out) out"
    by (simp add: ffi_steps_def ffi_objects_def C_SOURCES_def NASM_SOURCES_def Let_def)
  moreover have "map tool_output ?bs = map Some (ffi_objects out)"
    by (simp add: ffi_objects_def C_SOURCES_def NASM_SOURCES_def compile_def compile_cxx_def assemble_nasm_def build_zig_def)
  ultimately show ?thesis
    by blast
qed

lemma ffi_objects_distinct: "distinct (ffi_objects out)"
  by (simp add: ffi_objects_def object_of_def joined_def)

end
