(* ===== verification/Fuzz.thy ===== *)
theory Fuzz
  imports Memory_Map Framebuffer
begin

text \<open>
  The fuzz targets (\<open>src/fuzz/fuzz_targets\<close>): how the fuzzer's bytes become a memory map or a framebuffer
  descriptor, and the call of the validator.  The lemmas say that the decoding loses nothing: every
  map and every descriptor is reached by some input, so what the fuzzer can exercise is the
  validators' whole domain, for which the other theories state their results.
\<close>

fun chunks_exact :: "nat \<Rightarrow> bytes \<Rightarrow> bytes list" where
  "chunks_exact n bs = (if n = 0 \<or> length bs < n then [] else take n bs # chunks_exact n (drop n bs))"

declare chunks_exact.simps [simp del]

definition KINDS :: "RegionKind list" where
  "KINDS = [Usable, Reserved, NonUsable]"

definition fuzz_triple :: "bytes \<Rightarrow> raw_region" where
  "fuzz_triple c = (le64 c 0, le64 c 8, KINDS ! (unat (c ! 16) mod 3))"

definition fuzz_memory :: "(Region list \<Rightarrow> Region list) \<Rightarrow> bytes \<Rightarrow> (MapError + nat) \<times> Region list" where
  "fuzz_memory srt data =
     (let triples = map fuzz_triple (chunks_exact 17 data)
      in validate_regions srt triples (replicate MAX_REGIONS region_empty))"

definition fuzz_framebuffer :: "bytes \<Rightarrow> (FbError + FramebufferInfo) option" where
  "fuzz_framebuffer data =
     (if length data < 21 then None
      else Some (validate \<lparr>fb_address = le64 data 0, fb_width = le32 data 8, fb_height = le32 data 12, fb_bpp = data ! 16,
        fb_pitch = le32 data 17\<rparr>))"

lemma le_at:
  "length xs = n \<Longrightarrow> le64 (xs @ to_le64 w @ ys) n = w" "length xs = n \<Longrightarrow> le32 (xs @ to_le32 v @ ys) n = v"
  using le64_to_le64 [of w] le32_to_le32 [of v] by (simp_all add: le64_def le32_def le_bytes_def)

fun kind_byte :: "RegionKind \<Rightarrow> u8" where
  "kind_byte Usable = 0"
| "kind_byte Reserved = 1"
| "kind_byte NonUsable = 2"

definition triple_bytes :: "raw_region \<Rightarrow> bytes" where
  "triple_bytes = (\<lambda>(s, e, k). to_le64 s @ to_le64 e @ [kind_byte k])"

lemma fuzz_triple_bytes: "fuzz_triple (triple_bytes t) = t"
proof -
  obtain s e k where t: "t = (s, e, k)"
    by (cases t)
  have "le64 (triple_bytes t) 0 = s" "le64 (triple_bytes t) 8 = e"
    using le_at(1) [of "[]" 0 s "to_le64 e @ [kind_byte k]"] le_at(1) [of "to_le64 s" 8 e "[kind_byte k]"]
    by (simp_all add: t triple_bytes_def)
  moreover have "KINDS ! (unat (triple_bytes t ! 16) mod 3) = k"
    by (cases k) (simp_all add: t triple_bytes_def nth_append KINDS_def)
  ultimately show ?thesis
    by (simp add: fuzz_triple_def t)
qed

lemma chunks_exact_concat: "length bs < 17 \<Longrightarrow> chunks_exact 17 (concat (map triple_bytes ts) @ bs) = map triple_bytes ts"
proof (induction ts)
  case Nil
  then show ?case
    by (subst chunks_exact.simps) simp
next
  case (Cons t ts)
  have len: "length (triple_bytes t) = 17"
    by (cases t) (simp add: triple_bytes_def)
  then show ?case
    using Cons by (subst chunks_exact.simps) simp
qed

text \<open>Every memory map is decoded from some input, with any ragged tail.\<close>

lemma fuzz_memory_reaches:
  "length bs < 17 \<Longrightarrow> fuzz_memory srt (concat (map triple_bytes ts) @ bs) = validate_regions srt ts (replicate MAX_REGIONS region_empty)"
  by (simp add: fuzz_memory_def chunks_exact_concat fuzz_triple_bytes comp_def)

lemma fuzz_framebuffer_reaches:
  "fuzz_framebuffer (to_le64 (fb_address fb) @ to_le32 (fb_width fb) @ to_le32 (fb_height fb) @ [fb_bpp fb] @ to_le32 (fb_pitch fb) @ bs)
    = Some (validate fb)"
proof -
  let ?a = "to_le64 (fb_address fb)" and ?w = "to_le32 (fb_width fb)" and ?h = "to_le32 (fb_height fb)" and ?p = "to_le32 (fb_pitch fb)"
  let ?d = "?a @ ?w @ ?h @ [fb_bpp fb] @ ?p @ bs"
  have "le64 ?d 0 = fb_address fb" "le32 ?d 8 = fb_width fb" "le32 ?d 12 = fb_height fb" "le32 ?d 17 = fb_pitch fb"
    using le_at(1) [of "[]" 0 "fb_address fb" "?w @ ?h @ [fb_bpp fb] @ ?p @ bs"] le_at(2) [of ?a 8 "fb_width fb" "?h @ [fb_bpp fb] @ ?p @ bs"]
      le_at(2) [of "?a @ ?w" 12 "fb_height fb" "[fb_bpp fb] @ ?p @ bs"] le_at(2) [of "?a @ ?w @ ?h @ [fb_bpp fb]" 17 "fb_pitch fb" bs]
    by simp_all
  moreover have "?d ! 16 = fb_bpp fb"
    by (simp add: nth_append)
  ultimately show ?thesis
    by (cases fb) (simp add: fuzz_framebuffer_def)
qed

end
