(* ===== verification/Spec2Isabelle.thy ===== *)
theory Spec2Isabelle
  imports Lion_Prelude Memory_Map Frames Paging Heap Sched Interrupts Ipc Spinlock Serial
    Elf Regions Gdt Idt Syscall Text Fat_Fs Ide User Boot Font Framebuffer Gfx
    Devices Strings Selections Updates Installer Setup Desktop Virtio Drivers
    Byte_Memory C_Support Assembly Smoke User_Program Launcher Switch_Refinement Rotation Kernel_Main Heap_Demo Build_Script Fuzz
begin

text \<open>
  Lion-OS is a small x86-64 kernel in Rust with C and assembly support (\<open>src/kernel\<close>), a ring-3 program
  (\<open>src/user\<close>) and a host launcher that installs, updates and boots it (\<open>src/launcher\<close>).  This library
  models the program part by part and proves the properties its code relies on.  Each theory opens
  with the files it translates; the definitions keep the names of the source.

  \<^bold>\<open>The parts and how they interact.\<close>  The boot loader hands \<open>kernel_main\<close> a memory map, a window onto
  physical memory and a frame buffer.  The map is validated and becomes the frame allocator's free
  runs; paging takes over the boot loader's tables and maps pages with frames from the allocator;
  the descriptor tables, the heap and the ring-3 process each claim a free 512 GiB region.
  Interrupts feed a queue of deferred work and the scheduler's pending switch.  Drivers give the
  file system a block device; the desktop draws on a canvas over the frame buffer; the ring-3
  program reaches the kernel through the system-call entry.

  \<^bold>\<open>Theories.\<close>
  \<^item> \<open>Lion_Prelude\<close>: machine integers, Rust's checked and saturating operations, little-endian bytes, panics
    as values, and the contract of an unstable sort (locale \<open>unstable_sort\<close>).  \<open>Byte_Memory\<close>: loads and
    stores of bytes.  \<open>Text\<close>, \<open>Strings\<close>: UTF-8 and the operations of Rust's \<open>str\<close>.
  \<^item> \<open>Memory_Map\<close> (\<open>memory.rs\<close>), \<open>Frames\<close> (\<open>frames.rs\<close>, locale \<open>frame_source\<close>), \<open>Paging\<close> (\<open>paging.rs\<close>), \<open>Regions\<close> (the
    free regions), \<open>Heap\<close> (\<open>heap.rs\<close>), \<open>Gdt\<close> (\<open>gdt.rs\<close>), \<open>Idt\<close> (\<open>idt.rs\<close>), \<open>Boot\<close> (\<open>kernel_main\<close> up to the page-table
    self test, and \<open>init_heap\<close>).
  \<^item> \<open>Sched\<close> (\<open>sched.rs\<close>, \<open>switch.asm\<close>), \<open>Interrupts\<close> (\<open>interrupts.rs\<close>, locale \<open>bounded_fifo\<close>), \<open>Ipc\<close> (\<open>ipc.rs\<close>),
    \<open>Spinlock\<close> (\<open>spinlock.rs\<close>, a step relation over any number of threads), \<open>Serial\<close> (\<open>serial.rs\<close>).
  \<^item> \<open>Elf\<close> (\<open>elf.rs\<close>), \<open>Syscall\<close> (\<open>syscall.rs\<close>), \<open>User\<close> (\<open>user.rs\<close>), \<open>User_Program\<close> (\<open>src/user/src/main.rs\<close>).
  \<^item> \<open>Assembly\<close> (\<open>src/kernel/asm\<close>, run by a processor model), \<open>C_Support\<close> (\<open>src/kernel/c/support.c\<close>,
    \<open>string_utils.c\<close>), both with their bindings in \<open>ffi.rs\<close>.  The rest of \<open>kernel_main\<close>: \<open>Smoke\<close> (the bridge and the
    applications), \<open>Kernel_Main\<close> (framebuffer handoff, timer wait, desktop and late markers), \<open>Heap_Demo\<close> (the
    heap self test), \<open>Rotation\<close> (the scheduler self test and the running ring as a step relation).
  \<^item> \<open>Switch_Refinement\<close>: the relation between the scheduler's states and machine states, and the simulation of
    \<open>run_pending_switch\<close> by the instructions of \<open>switch.asm\<close>.
  \<^item> \<open>Fat_Fs\<close> (\<open>fs.rs\<close>, locale \<open>block_device\<close>), \<open>Ide\<close> (\<open>drivers/ide.rs\<close>) and \<open>Virtio\<close> (\<open>drivers/virtio_blk.rs\<close>,
    \<open>mmio.rs\<close>), which both interpret that locale; \<open>Devices\<close> (PCI, keyboard, mouse, VGA text, clock, speaker,
    identity gate), \<open>Drivers\<close> (the detect-only drivers and \<open>drivers/mod.rs\<close>).
  \<^item> \<open>Font\<close>, \<open>Framebuffer\<close> (\<open>framebuffer.rs\<close>, \<open>fb.c\<close>, \<open>fbtext.rs\<close>), \<open>Gfx\<close> (\<open>gfx.rs\<close>), \<open>Desktop\<close> (editor, explorer,
    dock, themes, assistant and the drawing of \<open>kernel_main\<close>).
  \<^item> \<open>Selections\<close> (\<open>selection.rs\<close>, the manifest of \<open>kernel/build.rs\<close>), \<open>Updates\<close> (\<open>update.rs\<close>), \<open>Installer\<close>
    (\<open>install.rs\<close>, \<open>qemu.rs\<close>, \<open>doctor.rs\<close>), \<open>Setup\<close> (\<open>setup.rs\<close>), \<open>Launcher\<close> (\<open>main.rs\<close>); \<open>Build_Script\<close>
    (\<open>kernel/build.rs\<close>), \<open>Fuzz\<close> (\<open>src/fuzz\<close>).

  \<^bold>\<open>State.\<close>  A record per component holds the statics and structures of the source.  The page-table
  machine (physical memory, CR3, frame allocator, window) is shared by \<open>Paging\<close>, \<open>Gdt\<close>, \<open>Boot\<close> and
  \<open>User\<close>.  A panic is \<open>Panics\<close>, an error value a sum, output a list of calls to the serial
  driver or of port writes.

  \<^bold>\<open>What is shown.\<close>
  \<^item> Memory: the validator accepts only disjoint, non-empty maps; the allocator hands out every usable
    frame and none twice; mapping changes exactly the page asked for; the takeover keeps every
    translation; live heap blocks never overlap and allocation fails only for want of room; and
    together the memory path of boot reaches a good state without a panic, on whose heap the self test
    succeeds (\<open>memory_up_correct\<close>, below).
  \<^item> Control: whatever the slots of the ring do, each gets back the registers and stack it left, and the
    instructions of the switch simulate the model; every task is reached; the queue of deferred work is drained in order; the lock excludes.
  \<^item> Ring 3: the image is mapped with the rights of its segments; the dispatcher refines an abstract
    interface and reads only the program's range; the entry passes and restores the registers (and loses
    R13); the program's whole output.
  \<^item> Files and devices: directory and file reads agree with a reference on the volume's content; both disk
    drivers present the medium of a drive that follows its protocol, the virtio driver from its probe on,
    with rings in frames of the allocator.
  \<^item> Drawing: nothing is written outside the boot loader's frame buffer or the canvas; the pixel under the pointer is the
    focused window's.
  \<^item> Launcher: only a verified image is cached; the picker's choice reaches the kernel's manifest; progress
    is reported as it happened; every command ends.

  \<^bold>\<open>Bounds and fuel.\<close>  Loops with a bound in the source keep it: 1000 clusters of a chain, 20000 polls of an
  ATA status, 40,000,000 polls of a virtqueue, 2,000,000,000 looks at the tick counter, 500,000,000 rounds of
  the scheduler self test.  Endless loops are modelled by their rounds.  Loops without one are partial functions whose value
  \<open>None\<close> is not returning: the free-list walks (shown to return on well-formed heaps), the capability walk
  (\<open>caps_loop_self\<close>, \<open>caps_loop_ends\<close>), the C string loops and the waits of the wizard (shown to return).
  The wait for the serial transmitter is a search in the sequence of status values.

  \<^bold>\<open>Parameters.\<close>  Devices, the boot loader's data, \<open>cpuid\<close>, the sort of Rust's library, SHA-256, the network,
  \<open>curl\<close>, started processes and the host's files are arguments; what a property needs of them is a named
  hypothesis (\<open>unstable_sort\<close>, \<open>ata_conforms\<close>, \<open>virtio_conforms\<close>, \<open>registers_only\<close>, \<open>loader_fb_ok\<close>, \<open>sysv_callee\<close>, \<open>uart_ready\<close>), each with an
  instance that satisfies it.

  \<^bold>\<open>Not modelled.\<close>  The two animation curves of \<open>gfx.rs\<close> compute with 32-bit floating-point numbers, and the
  marker that shows one of them takes its value as an argument; \<open>lion_hlt\<close> never returns; the
  log file and the argument parsing of the launcher are output or library code, and the processes that switch
  the terminal to raw mode around a key are left out; crate roots,
  the call of the image builder in \<open>os\<close> and packaging compute nothing of their own.  The translation cache
  of the processor is a list of invalidated addresses, and the file system reads a disk through the driver
  as it is after probing.
\<close>

section \<open>Memory bring-up\<close>

text \<open>
  C1: with a valid map of at most 64 regions, a boot loader whose own tables lie outside the
  usable memory, 82 usable frames above the kernel and three free top-level entries, the
  memory path of boot never panics: it ends on page tables of its own whose root is a usable
  frame, with every mapping of the boot loader still in place, three pages for the descriptor
  tables and sixteen for the heap mapped present, writable and for the supervisor to nineteen
  different usable frames, a heap at a non-null base that is one free block over exactly those sixteen
  pages, and a self test that read back what it wrote; and the heap self test that \<open>kernel_main\<close> runs next,
  a vector grown to 64 numbers and a box, gets all its memory and leaves 264 bytes in use.
\<close>

theorem memory_up_correct:
  assumes "unstable_sort region_start srt_r" "unstable_sort run_start srt_f"
    and "length ms \<le> MAX_REGIONS" "\<forall>(s, e, k)\<in>set ms. s < e"
    and "sorted_wrt usable_disjoint (map raw_bytes (raw_of ms))"
    and "loader_ok ms (frame_floor ke) (mach s)"
    and "82 \<le> card (usable_frames (frame_floor ke) ms)" "3 \<le> card (absent_tops (mach s))"
  shows "\<exists>s' h' fs. memory_up srt_r srt_f ms (Some (window (mach s))) ke s h = Returns (s', h')
    \<and> tables_ok (mach s') 4 (root (mach s')) \<and> cr3 (mach s') \<in> faddr ` usable_frames (frame_floor ke) ms
    \<and> length fs = 19 \<and> distinct fs \<and> set fs \<subseteq> usable_frames (frame_floor ke) ms
    \<and> (\<forall>k<3. kernel_page (mach s') (TSS_VBASE s' + word_of_nat k * 4096) (fs ! k))
    \<and> (\<forall>k<16. kernel_page (mach s') (word_of_nat (heap_base h' + k * 4096)) (fs ! (3 + k)))
    \<and> heap_inv h' [(heap_base h', 16 * 4096)] [] \<and> 0 < heap_base h'
    \<and> (\<forall>v. translate (mach s) (window (mach s)) v AND PRESENT \<noteq> 0 \<longrightarrow>
         translate (mach s') (window (mach s)) v = translate (mach s) (window (mach s)) v)
    \<and> (\<exists>pre pte post. console s' = pre @ self_test_line pte @ post)
    \<and> (\<exists>out h''. heap_demo h' = Some (Returns (out, h'')) \<and> heap_used h'' = 264)"
proof -
  let ?U = "usable_frames (frame_floor ke) ms"
  have "6 \<le> card ?U" "absent_tops (mach s) \<noteq> {}"
    using assms(7,8) by auto
  then show ?thesis
  proof (rule boot_memory_ok [OF assms(1-6)])
    fix s0 fa s1
    assume b: "boot_memory srt_r srt_f ms (Some (window (mach s))) ke s = Returns s1"
      and t: "taken_over s0 s1" and m0: "mach s0 = (mach s)\<lparr>FRAMES := fa\<rparr>"
      and U: "free (mach s0) \<subseteq> ?U" "card ?U \<le> card (free (mach s0)) + 1"
    have w: "window (mach s0) = window (mach s)" "absent_tops (mach s0) = absent_tops (mach s)"
      "\<forall>v. translate (mach s0) (window (mach s)) v = translate (mach s) (window (mach s)) v"
      using m0 translate_walk [of "mach s0"] translate_walk [of "mach s"] by (simp_all add: absent_tops_def)
    show ?thesis
    proof (rule taken_overE [OF t])
      fix f pte
      assume f: "f \<in> free (mach s0)" "cr3 (mach s1) = faddr f"
        and c1: "console s1 = console s0 @ takeover_lines (faddr f) @ self_test_line pte"
        and ok1: "tables_ok (mach s1) 4 (root (mach s1))" and off: "PHYS_OFFSET (mach s1) = window (mach s0)"
        and w1: "window (mach s1) = window (mach s0)" and fr: "free (mach s1) \<subseteq> free (mach s0)"
        and cards: "card (free (mach s0)) \<le> card (free (mach s1)) + 5"
          "card (absent_tops (mach s0)) \<le> card (absent_tops (mach s1)) + 1"
        and keep: "\<forall>v. translate (mach s0) (window (mach s0)) v AND PRESENT \<noteq> 0 \<longrightarrow>
          translate (mach s1) (window (mach s0)) v = translate (mach s0) (window (mach s0)) v"
        and low: "\<And>m2 j. sticky (mach s1) m2 \<Longrightarrow> find_free_top_index (window (mach s1)) m2 = Some j \<Longrightarrow> 0 < j"
      have pre: "PHYS_OFFSET (mach s1) = window (mach s1)" "2 \<le> card (absent_tops (mach s1))" "76 \<le> card (free (mach s1))"
        using off w1 cards U(2) assms(7,8) w(2) by simp_all
      show ?thesis
      proof (rule descriptors_and_heap [OF ok1 pre low, where h = h])
        fix s2 s3 h3
        assume g: "gdt_setup s1 = Returns s2" "init_heap s2 h = Returns (s3, h3)"
          and two: "two_regions (mach s1) (mach s3) (TSS_VBASE s3) (word_of_nat (heap_base h3))"
          and heap: "heap_inv h3 [(heap_base h3, HEAP_SIZE)] []" "0 < heap_base h3"
          and c3: "\<exists>cs. console s3 = console s1 @ cs"
        have run: "memory_up srt_r srt_f ms (Some (window (mach s))) ke s h = Returns (s3, h3)"
          by (simp add: memory_up_def b g)
        obtain fs where fs: "length fs = 19" "distinct fs" "set fs \<subseteq> ?U"
            "\<forall>k<3. kernel_page (mach s3) (TSS_VBASE s3 + word_of_nat k * 4096) (fs ! k)"
            "\<forall>k<16. kernel_page (mach s3) (word_of_nat (heap_base h3) + word_of_nat k * 4096) (fs ! (3 + k))"
          using two fr U(1) unfolding two_regions_def by blast
        have "tables_ok (mach s3) 4 (root (mach s3))" "cr3 (mach s3) \<in> faddr ` ?U"
          using two f U(1) unfolding two_regions_def by auto
        moreover have "translate (mach s3) (window (mach s)) v = translate (mach s) (window (mach s)) v"
          if "translate (mach s) (window (mach s)) v AND PRESENT \<noteq> 0" for v
          using two keep w w1 that unfolding two_regions_def by metis
        moreover have "\<exists>pre pte post. console s3 = pre @ self_test_line pte @ post"
          using c1 c3 by (metis append.assoc)
        moreover have "\<exists>out h''. heap_demo h3 = Some (Returns (out, h'')) \<and> heap_used h'' = 264"
          using heap by (intro heap_demo_used) (simp add: HEAP_SIZE_def)
        ultimately show ?thesis
          using run fs heap by (intro exI [of _ s3] exI [of _ h3] exI [of _ fs]) (simp add: HEAP_SIZE_def)
      qed
    qed
  qed
qed

theorem memory_up_correct_witness:
  "\<exists>s' h'. memory_up (sort_key region_start) (sort_key run_start) sample_map (Some 0x10000000000) 0 sample_boot heap_empty
     = Returns (s', h') \<and> heap_inv h' [(heap_base h', 16 * 4096)] [] \<and> 0 < heap_base h'"
proof -
  have "sorted_wrt usable_disjoint (map raw_bytes (raw_of sample_map))" "length sample_map \<le> MAX_REGIONS"
    "\<forall>(s, e, k)\<in>set sample_map. s < e"
    by (simp_all add: sample_map_def usable_disjoint_def MAX_REGIONS_def)
  moreover have "82 \<le> card (usable_frames (frame_floor 0) sample_map)" "3 \<le> card (absent_tops (mach sample_boot))"
    by (simp_all add: sample_usable sample_boot_tables)
  moreover have "window (mach sample_boot) = 0x10000000000"
    by (simp add: sample_boot_def sample_machine_def)
  ultimately show ?thesis
    using memory_up_correct [OF stable.unstable_sort_axioms stable.unstable_sort_axioms _ _ _ sample_loader, of heap_empty]
    by (metis (no_types, lifting))
qed

end
